(* ===== verification/Prelude.thy ===== *)
theory Prelude
  imports Main "HOL-Library.Word"
begin

text \<open>
  Shared vocabulary of the development.

  \<^item> Machine integers. The wallet ships as a release build with no \<open>overflow-checks\<close>
    (\<open>src/rust/Cargo.toml\<close>), so the unchecked operators \<open>+\<close>, \<open>-\<close>, \<open>*\<close> of Rust wrap. A \<open>u64\<close>
    is a \<^typ>\<open>nat\<close> and an \<open>i64\<close> an \<^typ>\<open>int\<close>, with the wrap-around written into each operator
    below; \<open>saturating_*\<close> and \<open>as\<close> casts have operators of their own. The narrow counters and bit
    masks of the fee and pool modules are words.
  \<^item> Panics. An out-of-range index, a failed \<open>assert!\<close> or an \<open>unwrap\<close> of nothing is the value
    \<open>Panic\<close> of type \<open>run\<close>; an \<open>Err\<close> return is the left side of a sum.
  \<^item> Tables. A SQL table is the list of its rows; \<open>delete_where\<close>, \<open>update_where\<close> and
    \<open>next_rowid\<close> are the statements the code issues against it.
\<close>

type_synonym u8 = "8 word"
type_synonym bytes = "8 word list"

named_theorems machine \<open>definitions of the fixed-width operators\<close>
named_theorems no_wrap \<open>a fixed-width operator is the mathematical one inside its range\<close>

section \<open>Fixed-width arithmetic\<close>

definition u64_max :: nat where
  "u64_max = 2 ^ 64 - 1"

definition u32_max :: nat where
  "u32_max = 2 ^ 32 - 1"

definition u64_add :: "nat \<Rightarrow> nat \<Rightarrow> nat" where
  "u64_add a b = (a + b) mod 2 ^ 64"

definition u64_mul :: "nat \<Rightarrow> nat \<Rightarrow> nat" where
  "u64_mul a b = (a * b) mod 2 ^ 64"

definition u64_sat_add :: "nat \<Rightarrow> nat \<Rightarrow> nat" where
  "u64_sat_add a b = min (a + b) u64_max"

definition sat_sub :: "nat \<Rightarrow> nat \<Rightarrow> nat" where
  "sat_sub a b = (if a < b then 0 else a - b)"

definition u32_add :: "nat \<Rightarrow> nat \<Rightarrow> nat" where
  "u32_add a b = (a + b) mod 2 ^ 32"

definition u32_sat_add :: "nat \<Rightarrow> nat \<Rightarrow> nat" where
  "u32_sat_add a b = min (a + b) u32_max"

definition i64_wrap :: "int \<Rightarrow> int" where
  "i64_wrap x = (x + 2 ^ 63) mod 2 ^ 64 - 2 ^ 63"

text \<open>\<open>v as i64\<close> for a \<open>u64\<close>, \<open>v as u64\<close> for an \<open>i64\<close>, and \<open>i64::unsigned_abs\<close>.\<close>

definition as_i64 :: "nat \<Rightarrow> int" where
  "as_i64 v = i64_wrap (int v)"

definition as_u64 :: "int \<Rightarrow> nat" where
  "as_u64 v = nat (v mod 2 ^ 64)"

definition i64_add :: "int \<Rightarrow> int \<Rightarrow> int" where
  "i64_add a b = i64_wrap (a + b)"

definition i64_sub :: "int \<Rightarrow> int \<Rightarrow> int" where
  "i64_sub a b = i64_wrap (a - b)"

definition i64_neg :: "int \<Rightarrow> int" where
  "i64_neg a = i64_wrap (- a)"

definition unsigned_abs :: "int \<Rightarrow> nat" where
  "unsigned_abs a = nat \<bar>a\<bar>"

text \<open>Rust's integer division truncates towards zero.\<close>

definition trunc_div :: "int \<Rightarrow> int \<Rightarrow> int" where
  "trunc_div a b = sgn a * sgn b * (\<bar>a\<bar> div \<bar>b\<bar>)"

definition u64_sum :: "nat list \<Rightarrow> nat" where
  "u64_sum xs = fold (\<lambda>x acc. u64_add acc x) xs 0"

lemmas machine_defs [machine] =
  u64_add_def u64_mul_def u64_sat_add_def sat_sub_def u32_add_def u32_sat_add_def
  i64_wrap_def as_i64_def as_u64_def i64_add_def i64_sub_def i64_neg_def unsigned_abs_def
  u64_max_def u32_max_def

lemma u64_add_exact [no_wrap]: "a + b < 2 ^ 64 \<Longrightarrow> u64_add a b = a + b"
  by (simp add: u64_add_def)

lemma u64_mul_exact [no_wrap]: "a * b < 2 ^ 64 \<Longrightarrow> u64_mul a b = a * b"
  by (simp add: u64_mul_def)

lemma u64_sat_add_exact [no_wrap]: "a + b < 2 ^ 64 \<Longrightarrow> u64_sat_add a b = a + b"
  by (simp add: u64_sat_add_def u64_max_def)

lemma u64_sat_add_ge: "a < 2 ^ 64 \<Longrightarrow> a \<le> u64_sat_add a b"
  by (simp add: u64_sat_add_def u64_max_def)

lemma u32_sat_add_exact [no_wrap]: "a + b < 2 ^ 32 \<Longrightarrow> u32_sat_add a b = a + b"
  by (simp add: u32_sat_add_def u32_max_def)

lemma sat_sub_nat [simp]: "sat_sub a b = a - b"
  by (simp add: sat_sub_def)

lemma i64_wrap_exact [no_wrap]: "- (2 ^ 63) \<le> x \<Longrightarrow> x < 2 ^ 63 \<Longrightarrow> i64_wrap x = x"
  by (simp add: i64_wrap_def)

lemma as_i64_exact [no_wrap]: "v < 2 ^ 63 \<Longrightarrow> as_i64 v = int v"
  unfolding as_i64_def by (rule i64_wrap_exact) auto

lemma as_u64_exact [no_wrap]: "0 \<le> v \<Longrightarrow> v < 2 ^ 64 \<Longrightarrow> as_u64 v = nat v"
  by (simp add: as_u64_def)

lemma as_u64_as_i64: "v < 2 ^ 64 \<Longrightarrow> as_u64 (as_i64 v) = v"
proof -
  assume "v < 2 ^ 64"
  have "i64_wrap (int v) mod 2 ^ 64 = int v mod 2 ^ 64"
    by (simp add: i64_wrap_def mod_diff_left_eq)
  then show ?thesis using \<open>v < 2 ^ 64\<close>
    by (simp add: as_u64_def as_i64_def nat_mod_as_int)
qed

lemma unsigned_abs_int [simp]: "unsigned_abs (int n) = n"
  by (simp add: unsigned_abs_def)

lemma unsigned_abs_neg [simp]: "unsigned_abs (- a) = unsigned_abs a"
  by (simp add: unsigned_abs_def)

lemma fold_u64_add_exact: "acc + sum_list xs < 2 ^ 64 \<Longrightarrow>
    fold (\<lambda>x acc. u64_add acc x) xs acc = acc + sum_list xs"
  by (induction xs arbitrary: acc) (simp_all add: u64_add_exact add.assoc)

lemma u64_sum_exact [no_wrap]: "sum_list xs < 2 ^ 64 \<Longrightarrow> u64_sum xs = sum_list xs"
  using fold_u64_add_exact [of 0 xs] by (simp add: u64_sum_def)

section \<open>Panics and errors\<close>

datatype 'a run = Panic | Ret 'a

fun run_bind :: "'a run \<Rightarrow> ('a \<Rightarrow> 'b run) \<Rightarrow> 'b run" where
  "run_bind Panic f = Panic"
| "run_bind (Ret x) f = f x"

fun run_fold :: "('x \<Rightarrow> 's \<Rightarrow> 's run) \<Rightarrow> 'x list \<Rightarrow> 's \<Rightarrow> 's run" where
  "run_fold f [] s = Ret s"
| "run_fold f (x # xs) s = run_bind (f x s) (run_fold f xs)"

lemma run_bind_eq_Ret [simp]:
  "run_bind m f = Ret y \<longleftrightarrow> (\<exists>x. m = Ret x \<and> f x = Ret y)"
  by (cases m) auto

lemma run_fold_invariant:
  assumes "run_fold f xs s = Ret t" and "P s"
    and "\<And>x s t. x \<in> set xs \<Longrightarrow> P s \<Longrightarrow> f x s = Ret t \<Longrightarrow> P t"
  shows "P t"
  using assms
proof (induction xs arbitrary: s)
  case Nil
  then show ?case by simp
next
  case (Cons x xs)
  then obtain u where u: "f x s = Ret u" "run_fold f xs u = Ret t" by auto
  then have "P u" using Cons.prems by (meson list.set_intros(1))
  with u(2) show ?case
  proof (rule Cons.IH)
    show "\<And>y s t. y \<in> set xs \<Longrightarrow> P s \<Longrightarrow> f y s = Ret t \<Longrightarrow> P t"
      using Cons.prems(3) by (meson list.set_intros(2))
  qed
qed

lemma run_fold_returns:
  assumes "P s" and "\<And>x s. x \<in> set xs \<Longrightarrow> P s \<Longrightarrow> \<exists>t. f x s = Ret t \<and> P t"
  shows "\<exists>t. run_fold f xs s = Ret t \<and> P t"
  using assms
proof (induction xs arbitrary: s)
  case Nil
  then show ?case by simp
next
  case (Cons x xs)
  obtain t where "f x s = Ret t" "P t" using Cons.prems by auto
  then show ?case using Cons.IH [of t] Cons.prems(2) by auto
qed

text \<open>The \<open>?\<close> operator on \<open>Result\<close>, and a loop whose body may return early with an error.\<close>

fun res_bind :: "'e + 'a \<Rightarrow> ('a \<Rightarrow> 'e + 'b) \<Rightarrow> 'e + 'b" where
  "res_bind (Inl e) f = Inl e"
| "res_bind (Inr x) f = f x"

fun res_fold :: "('x \<Rightarrow> 's \<Rightarrow> 'e + 's) \<Rightarrow> 'x list \<Rightarrow> 's \<Rightarrow> 'e + 's" where
  "res_fold f [] s = Inr s"
| "res_fold f (x # xs) s = res_bind (f x s) (res_fold f xs)"

lemma res_bind_eq_Inr [simp]:
  "res_bind m f = Inr y \<longleftrightarrow> (\<exists>x. m = Inr x \<and> f x = Inr y)"
  by (cases m) auto

lemma res_bind_eq_Inl:
  "res_bind m f = Inl e \<longleftrightarrow> m = Inl e \<or> (\<exists>x. m = Inr x \<and> f x = Inl e)"
  by (cases m) auto

lemma res_fold_invariant:
  assumes "res_fold f xs s = Inr t" and "P s"
    and "\<And>x s t. x \<in> set xs \<Longrightarrow> P s \<Longrightarrow> f x s = Inr t \<Longrightarrow> P t"
  shows "P t"
  using assms
proof (induction xs arbitrary: s)
  case Nil
  then show ?case by simp
next
  case (Cons x xs)
  then obtain u where u: "f x s = Inr u" "res_fold f xs u = Inr t" by auto
  then have "P u" using Cons.prems by (meson list.set_intros(1))
  with u(2) show ?case
  proof (rule Cons.IH)
    show "\<And>y s t. y \<in> set xs \<Longrightarrow> P s \<Longrightarrow> f y s = Inr t \<Longrightarrow> P t"
      using Cons.prems(3) by (meson list.set_intros(2))
  qed
qed

lemma res_fold_append:
  "res_fold f (xs @ ys) s = res_bind (res_fold f xs s) (res_fold f ys)"
proof (induction xs arbitrary: s)
  case Nil
  then show ?case by simp
next
  case (Cons x xs)
  then show ?case by (cases "f x s") simp_all
qed

section \<open>Tables\<close>

definition delete_where :: "('r \<Rightarrow> bool) \<Rightarrow> 'r list \<Rightarrow> 'r list" where
  "delete_where P t = filter (\<lambda>r. \<not> P r) t"

definition update_where :: "('r \<Rightarrow> bool) \<Rightarrow> ('r \<Rightarrow> 'r) \<Rightarrow> 'r list \<Rightarrow> 'r list" where
  "update_where P f t = map (\<lambda>r. if P r then f r else r) t"

text \<open>\<open>INTEGER PRIMARY KEY\<close> without \<open>AUTOINCREMENT\<close>: one more than the largest key in use.\<close>

definition next_rowid :: "('r \<Rightarrow> nat) \<Rightarrow> 'r list \<Rightarrow> nat" where
  "next_rowid k t = Suc (fold (\<lambda>r m. max (k r) m) t 0)"

definition sql_min :: "nat list \<Rightarrow> nat option" where
  "sql_min xs = (case xs of [] \<Rightarrow> None | y # ys \<Rightarrow> Some (fold min ys y))"

definition sql_max :: "nat list \<Rightarrow> nat option" where
  "sql_max xs = (case xs of [] \<Rightarrow> None | y # ys \<Rightarrow> Some (fold max ys y))"

lemma set_delete_where [simp]: "set (delete_where P t) = {r \<in> set t. \<not> P r}"
  by (auto simp: delete_where_def)

lemma delete_where_idem [simp]: "delete_where P (delete_where P t) = delete_where P t"
  by (simp add: delete_where_def)

lemma delete_where_eq_iff: "delete_where P t = t \<longleftrightarrow> (\<forall>r\<in>set t. \<not> P r)"
  by (auto simp: delete_where_def filter_id_conv)

lemma filter_delete_where: "(\<And>r. Q r \<Longrightarrow> \<not> P r) \<Longrightarrow> filter Q (delete_where P t) = filter Q t"
  unfolding delete_where_def filter_filter
  by (rule filter_cong) auto

lemma set_update_where:
  "set (update_where P f t) = (\<lambda>r. if P r then f r else r) ` set t"
  by (auto simp: update_where_def)

lemma map_update_where: "(\<And>r. k (f r) = k r) \<Longrightarrow> map k (update_where P f t) = map k t"
  by (simp add: update_where_def)

lemma length_update_where [simp]: "length (update_where P f t) = length t"
  by (simp add: update_where_def)

lemma filter_update_where_other:
  "(\<And>r. P r \<Longrightarrow> \<not> Q r \<and> \<not> Q (f r)) \<Longrightarrow> filter Q (update_where P f t) = filter Q t"
  by (induction t) (auto simp: update_where_def)

lemma fold_max_ge: "m \<le> fold (\<lambda>r m. max (k r) m) t (m :: nat)"
  by (induction t arbitrary: m) (auto intro: order_trans [OF max.cobounded2])

lemma fold_max_key: "r \<in> set t \<Longrightarrow> k r \<le> fold (\<lambda>r m. max (k r) m) t (m :: nat)"
proof (induction t arbitrary: m)
  case Nil
  then show ?case by simp
next
  case (Cons a t)
  show ?case
  proof (cases "r = a")
    case True
    then show ?thesis using fold_max_ge [of "max (k a) m" k t] by simp
  next
    case False
    then show ?thesis using Cons by simp
  qed
qed

lemma next_rowid_fresh: "r \<in> set t \<Longrightarrow> k r < next_rowid k t"
  unfolding next_rowid_def by (simp add: fold_max_key le_imp_less_Suc)

lemma next_rowid_notin: "next_rowid k t \<notin> k ` set t"
  using next_rowid_fresh [of _ t k] by fastforce

lemma distinct_insert_rowid:
  "distinct (map k t) \<Longrightarrow> k r = next_rowid k t \<Longrightarrow> distinct (map k (t @ [r]))"
  using next_rowid_notin [of k t] by auto

lemma fold_min_Min: "fold min ys (y :: nat) = Min (insert y (set ys))"
  by (simp add: Min.set_eq_fold [symmetric])

lemma fold_max_Max: "fold max ys (y :: nat) = Max (insert y (set ys))"
  by (simp add: Max.set_eq_fold [symmetric])

lemma sql_min_eq: "sql_min xs = (if xs = [] then None else Some (Min (set xs)))"
  by (cases xs) (simp_all add: sql_min_def fold_min_Min)

lemma sql_max_eq: "sql_max xs = (if xs = [] then None else Some (Max (set xs)))"
  by (cases xs) (simp_all add: sql_max_def fold_max_Max)

lemma sql_min_None [simp]: "sql_min xs = None \<longleftrightarrow> xs = []"
  by (simp add: sql_min_eq)

lemma sql_min_le: "sql_min xs = Some m \<Longrightarrow> x \<in> set xs \<Longrightarrow> m \<le> x"
  by (auto simp: sql_min_eq split: if_splits)

lemma sql_min_in: "sql_min xs = Some m \<Longrightarrow> m \<in> set xs"
  by (auto simp: sql_min_eq split: if_splits)

lemma sql_max_ge: "sql_max xs = Some m \<Longrightarrow> x \<in> set xs \<Longrightarrow> x \<le> m"
  by (auto simp: sql_max_eq split: if_splits)

lemma sql_max_in: "sql_max xs = Some m \<Longrightarrow> m \<in> set xs"
  by (auto simp: sql_max_eq split: if_splits)

lemma sql_min_const: "xs \<noteq> [] \<Longrightarrow> (\<forall>x\<in>set xs. x = m) \<Longrightarrow> sql_min xs = Some m"
  by (metis list.set_intros(1) neq_Nil_conv option.exhaust sql_min_None sql_min_in)

section \<open>Lists\<close>

lemma sum_list_update_add:
  "i < length xs \<Longrightarrow> sum_list (xs[i := xs ! i + v]) = sum_list xs + (v :: nat)"
  by (induction xs arbitrary: i) (auto split: nat.splits)

lemma nth_list_update_add:
  "i < length xs \<Longrightarrow> (xs[i := v]) ! j = (if i = j then v else xs ! j)"
  by simp

lemma less_4_cases: "(n :: nat) < 4 \<longleftrightarrow> n = 0 \<or> n = 1 \<or> n = 2 \<or> n = 3"
  by presburger

lemma all_less_4: "(\<forall>n < (4 :: nat). P n) \<longleftrightarrow> P 0 \<and> P 1 \<and> P 2 \<and> P 3"
  by (auto simp: less_4_cases)

lemma list_all2_map_same: "(\<And>x. x \<in> set xs \<Longrightarrow> P x (f x)) \<Longrightarrow> list_all2 P xs (map f xs)"
  by (simp add: list_all2_conv_all_nth)

lemma distinct_key_unique:
  "distinct (map k t) \<Longrightarrow> x \<in> set t \<Longrightarrow> y \<in> set t \<Longrightarrow> k x = k y \<Longrightarrow> x = y"
  by (simp add: distinct_map inj_on_def)

lemma length4_conv: "length xs = 4 \<longleftrightarrow> (\<exists>a b c d. xs = [a, b, c, d])"
  by (auto simp: length_Suc_conv numeral_eq_Suc)

lemma filter_unique: "distinct (map k xs) \<Longrightarrow> x \<in> set xs \<Longrightarrow> filter (\<lambda>y. k y = k x) xs = [x]"
proof (induction xs)
  case (Cons a xs)
  show ?case
  proof (cases "x = a")
    case True
    then have "filter (\<lambda>y. k y = k x) xs = []" using Cons.prems(1) by (auto simp: filter_empty_conv) (metis image_eqI)
    then show ?thesis using True by simp
  next
    case False
    then have "k a \<noteq> k x" using Cons.prems by auto
    then show ?thesis using False Cons by simp
  qed
qed simp

end
