(* ===== verification/Pools.thy ===== *)
theory Pools
  imports Prelude
begin

unbundle bit_operations_syntax

text \<open>
  The pool bit mask of \<open>src/rust/rlz/src/pay/pool.rs\<close>: bit 0 transparent, bit 1 Sapling, bit 2
  Orchard, bit 3 Ironwood. \<open>ZcashAddress::can_receive_as\<close> belongs to the \<open>zcash_address\<close> crate; its
  three answers for an address are the arguments of \<open>from_address\<close>. The second part is
  \<open>RecipientState::new\<close> of \<open>pay/mod.rs\<close>, whose \<open>assert!\<close> relies on the mask.
\<close>

datatype PayError = InvalidPoolMask | InvalidAddress

datatype PoolMask = PoolMask u8

fun mask_bits :: "PoolMask \<Rightarrow> u8" where
  "mask_bits (PoolMask m) = m"

definition NUM_POOLS :: nat where
  "NUM_POOLS = 4"

definition ALL_POOLS :: u8 where
  "ALL_POOLS = 15"

definition ALL_SHIELDED_POOLS :: u8 where
  "ALL_SHIELDED_POOLS = 14"

text \<open>A shift of a \<open>u8\<close> by \<open>n\<close> uses the three low bits of \<open>n\<close>.\<close>

definition one_shl :: "nat \<Rightarrow> u8" where
  "one_shl pool = push_bit (pool mod 8) 1"

definition empty_mask :: PoolMask where
  "empty_mask = PoolMask 0"

definition from_pool :: "nat \<Rightarrow> PoolMask" where
  "from_pool pool = PoolMask (one_shl pool)"

definition has_pool :: "PoolMask \<Rightarrow> nat \<Rightarrow> bool" where
  "has_pool m pool \<longleftrightarrow> mask_bits m AND one_shl pool \<noteq> 0"

definition to_best_pool :: "PoolMask \<Rightarrow> nat option" where
  "to_best_pool m =
    (if mask_bits m AND 8 \<noteq> 0 then Some 3
     else if mask_bits m AND 4 \<noteq> 0 then Some 2
     else if mask_bits m AND 2 \<noteq> 0 then Some 1
     else if mask_bits m AND 1 \<noteq> 0 then Some 0
     else None)"

definition single_pool :: "PoolMask \<Rightarrow> bool" where
  "single_pool m =
    (if mask_bits m \<noteq> 0 then mask_bits m AND (mask_bits m - 1) = 0 else False)"

definition is_empty_mask :: "PoolMask \<Rightarrow> bool" where
  "is_empty_mask m \<longleftrightarrow> mask_bits m = 0"

definition intersect :: "PoolMask \<Rightarrow> PoolMask \<Rightarrow> PoolMask" where
  "intersect m n = PoolMask (mask_bits m AND mask_bits n)"

definition union_mask :: "PoolMask \<Rightarrow> PoolMask \<Rightarrow> PoolMask" where
  "union_mask m n = PoolMask (mask_bits m OR mask_bits n)"

text \<open>\<open>None\<close> stands for an address that \<open>try_from_encoded\<close> rejects.\<close>

definition from_address :: "(bool \<times> bool \<times> bool) option \<Rightarrow> PayError + PoolMask" where
  "from_address receives =
    (case receives of
       None \<Rightarrow> Inl InvalidAddress
     | Some (transparent, sapling, orchard) \<Rightarrow>
         (let m0 = 0;
              m1 = (if transparent then m0 OR 1 else m0);
              m2 = (if sapling then m1 OR 2 else m1);
              m3 = (if orchard then m2 OR (4 OR 8) else m2)
          in Inr (PoolMask m3)))"

definition trim_transparent :: "PoolMask \<Rightarrow> PayError + PoolMask" where
  "trim_transparent m =
    (if mask_bits m = 0 then Inl InvalidPoolMask
     else if mask_bits m = 1 then Inr (PoolMask 1)
     else Inr (PoolMask (mask_bits m AND 14)))"

definition mask_from_option :: "nat option \<Rightarrow> PoolMask" where
  "mask_from_option v = PoolMask (case v of Some p \<Rightarrow> one_shl p | None \<Rightarrow> 0)"

text \<open>
  The receiver half of \<open>RecipientState::new\<close>: \<open>from_address\<close>, \<open>trim_transparent\<close> and the assertion on
  the resulting mask. \<open>Panic\<close> is the failing assertion.
\<close>

definition recipient_mask :: "(bool \<times> bool \<times> bool) option \<Rightarrow> (PayError + PoolMask) run" where
  "recipient_mask receives =
    (case res_bind (from_address receives) trim_transparent of
       Inl e \<Rightarrow> Ret (Inl e)
     | Inr m \<Rightarrow>
         (let pm = mask_bits m in
          if pm = 1 \<or> pm = 2 \<or> pm = 12 \<or> pm = 14 then Ret (Inr m) else Panic))"

section \<open>Bits of a mask\<close>

lemma one_shl_pow: "pool < 8 \<Longrightarrow> one_shl pool = 2 ^ pool"
  by (simp add: one_shl_def push_bit_eq_mult)

lemma has_pool_bit: "pool < 8 \<Longrightarrow> has_pool m pool \<longleftrightarrow> bit (mask_bits m) pool"
  by (simp add: has_pool_def one_shl_pow and_exp_eq_0_iff_not_bit)

lemma and_8 [simp]: "(m :: u8) AND 8 = 0 \<longleftrightarrow> \<not> bit m 3"
  using and_exp_eq_0_iff_not_bit [of m 3] by simp

lemma and_4 [simp]: "(m :: u8) AND 4 = 0 \<longleftrightarrow> \<not> bit m 2"
  using and_exp_eq_0_iff_not_bit [of m 2] by simp

lemma and_2 [simp]: "(m :: u8) AND 2 = 0 \<longleftrightarrow> \<not> bit m 1"
  using and_exp_eq_0_iff_not_bit [of m 1] by simp

lemma and_1 [simp]: "(m :: u8) AND 1 = 0 \<longleftrightarrow> \<not> bit m 0"
  using and_exp_eq_0_iff_not_bit [of m 0] by simp

lemmas has_pool_bits = has_pool_bit [of 0] has_pool_bit [of 1] has_pool_bit [of "Suc 0"] has_pool_bit [of 2] has_pool_bit [of 3]

lemma to_best_pool_Some:
  assumes "to_best_pool m = Some p"
  shows "p < NUM_POOLS" and "has_pool m p"
    and "p < q \<Longrightarrow> q < NUM_POOLS \<Longrightarrow> \<not> has_pool m q"
  using assms
  by (auto simp: to_best_pool_def NUM_POOLS_def has_pool_bits less_4_cases split: if_splits)

lemma to_best_pool_None:
  "to_best_pool m = None \<longleftrightarrow> (\<forall>q < NUM_POOLS. \<not> has_pool m q)"
  by (auto simp: to_best_pool_def NUM_POOLS_def has_pool_bits all_less_4)

lemma has_pool_from_pool: "p < 8 \<Longrightarrow> q < 8 \<Longrightarrow> has_pool (from_pool p) q \<longleftrightarrow> p = q"
  by (auto simp: has_pool_bit from_pool_def one_shl_pow bit_exp_iff)

lemma has_pool_union: "p < 8 \<Longrightarrow> has_pool (union_mask m n) p \<longleftrightarrow> has_pool m p \<or> has_pool n p"
  by (simp add: has_pool_bit union_mask_def bit_or_iff)

lemma has_pool_intersect: "p < 8 \<Longrightarrow> has_pool (intersect m n) p \<longleftrightarrow> has_pool m p \<and> has_pool n p"
  by (simp add: has_pool_bit intersect_def bit_and_iff)

lemma to_best_pool_from_pool: "p < NUM_POOLS \<Longrightarrow> to_best_pool (from_pool p) = Some p"
  by (auto simp: to_best_pool_def from_pool_def one_shl_def NUM_POOLS_def less_4_cases
      bit_push_bit_iff bit_1_iff)

lemma single_pool_from_pool: "p < NUM_POOLS \<Longrightarrow> single_pool (from_pool p)"
  by (auto simp: single_pool_def from_pool_def one_shl_def NUM_POOLS_def less_4_cases)

lemma from_address_mask:
  "from_address (Some (t, s, o')) = Inr m \<Longrightarrow>
   mask_bits m = (if t then 1 else 0) + (if s then 2 else 0) + (if o' then 12 else 0)"
  by (auto simp: from_address_def Let_def)

text \<open>
  \<open>to_best_pool\<close> answers with the most private pool a mask holds: the returned pool is in the
  mask, no pool above it is (Ironwood over Orchard over Sapling over transparent), and it answers
  nothing exactly for a mask with none of the four pools.
\<close>

theorem to_best_pool_highest:
  "to_best_pool m = (let ps = filter (has_pool m) [0..<NUM_POOLS] in if ps = [] then None else Some (Max (set ps)))"
proof (cases "to_best_pool m")
  case None
  then show ?thesis by (auto simp: to_best_pool_None filter_empty_conv)
next
  case (Some p)
  note f = to_best_pool_Some [OF Some]
  have "Max (set (filter (has_pool m) [0..<NUM_POOLS])) = p"
    using f by (intro Max_eqI) (auto simp: not_less [symmetric])
  then show ?thesis using Some f(1,2) by (auto simp: filter_empty_conv)
qed

text \<open>
  The assertion of \<open>RecipientState::new\<close> never fires: whatever receivers an address has, the
  trimmed mask is one of the four the assertion lists, a transparent receiver survives only when it is
  the only one, and the constructor fails exactly for an undecodable address or one with no receiver.
\<close>

theorem recipient_mask_total:
  "recipient_mask r =
     (case r of
        None \<Rightarrow> Ret (Inl InvalidAddress)
      | Some (t, s, o') \<Rightarrow>
          (if s \<or> o' then Ret (Inr (PoolMask ((if s then 2 else 0) + (if o' then 12 else 0))))
           else if t then Ret (Inr (PoolMask 1))
           else Ret (Inl InvalidPoolMask)))"
  by (auto simp: recipient_mask_def from_address_def trim_transparent_def Let_def split: option.split)

end
