(* ===== verification/Fees.thy ===== *)
theory Fees
  imports Pools
begin

text \<open>
  The ZIP-317 fee counter of \<open>src/rust/rlz/src/pay/fee.rs\<close>. The counters are \<open>u8\<close> words, as in the
  source, so they wrap after 255 entries; a pool index past the four pools is an out-of-range index
  and panics. \<open>count_bundle\<close> is the counting loop \<open>memo.rs\<close> runs over a transaction's bundles.
\<close>

definition COST_PER_ACTION :: nat where
  "COST_PER_ACTION = 5000"

definition CREATION_COST :: nat where
  "CREATION_COST = 0"

record FeeManager =
  num_inputs :: "u8 list"
  num_outputs :: "u8 list"
  issuance_actions :: nat
  fm_migration :: bool

definition fee_manager_default :: FeeManager where
  "fee_manager_default =
    \<lparr>num_inputs = [0, 0, 0, 0], num_outputs = [0, 0, 0, 0], issuance_actions = 0, fm_migration = False\<rparr>"

definition add_input :: "nat \<Rightarrow> FeeManager \<Rightarrow> FeeManager run" where
  "add_input pool fm =
    (if pool < length (num_inputs fm)
     then Ret (fm\<lparr>num_inputs := (num_inputs fm)[pool := num_inputs fm ! pool + 1]\<rparr>) else Panic)"

definition add_output :: "nat \<Rightarrow> FeeManager \<Rightarrow> FeeManager run" where
  "add_output pool fm =
    (if pool < length (num_outputs fm)
     then Ret (fm\<lparr>num_outputs := (num_outputs fm)[pool := num_outputs fm ! pool + 1]\<rparr>) else Panic)"

definition remove_output :: "nat \<Rightarrow> FeeManager \<Rightarrow> FeeManager run" where
  "remove_output pool fm =
    (if pool < length (num_outputs fm)
     then Ret (fm\<lparr>num_outputs := (num_outputs fm)[pool := num_outputs fm ! pool - 1]\<rparr>) else Panic)"

definition add_issuance_actions :: "nat \<Rightarrow> nat \<Rightarrow> FeeManager \<Rightarrow> FeeManager" where
  "add_issuance_actions notes created fm =
    fm\<lparr>issuance_actions :=
      u64_add (issuance_actions fm) (u64_add notes (u64_mul CREATION_COST created))\<rparr>"

definition padded :: "u8 \<Rightarrow> u8 \<Rightarrow> u8" where
  "padded i o' = (if 0 < i \<or> 0 < o' then max (max i o') 2 else 0)"

definition manager_fee :: "FeeManager \<Rightarrow> nat" where
  "manager_fee fm =
    (let t = max (num_inputs fm ! 0) (num_outputs fm ! 0);
         s = padded (num_inputs fm ! 1) (num_outputs fm ! 1);
         o' = (if 0 < num_inputs fm ! 2 \<or> 0 < num_outputs fm ! 2 then
                 (if fm_migration fm
                  then max (unat (num_inputs fm ! 2) + unat (num_outputs fm ! 2)) 2
                  else unat (max (max (num_inputs fm ! 2) (num_outputs fm ! 2)) 2))
               else 0);
         i = padded (num_inputs fm ! 3) (num_outputs fm ! 3);
         f = max (unat t + unat s + o' + unat i) 2
     in f * COST_PER_ACTION)"

definition min_actions_padding :: "u8 \<Rightarrow> u8" where
  "min_actions_padding a = (if a = 0 then 0 else max a 2)"

definition wf_fee :: "FeeManager \<Rightarrow> bool" where
  "wf_fee fm \<longleftrightarrow> length (num_inputs fm) = NUM_POOLS \<and> length (num_outputs fm) = NUM_POOLS"

text \<open>
  The counting of \<open>decrypt_memo\<close> (\<open>memo.rs\<close>): one \<open>add_input\<close> per spend and one \<open>add_output\<close> per
  output of each bundle; an Orchard or Ironwood action counts as both.
\<close>

definition count_bundle :: "nat \<Rightarrow> nat \<Rightarrow> nat \<Rightarrow> FeeManager \<Rightarrow> FeeManager run" where
  "count_bundle pool spends outputs fm =
    run_bind (run_fold (\<lambda>_. add_input pool) [0..<spends] fm)
      (run_fold (\<lambda>_. add_output pool) [0..<outputs])"

definition transaction_fee :: "nat \<times> nat \<Rightarrow> nat \<times> nat \<Rightarrow> nat \<Rightarrow> nat \<Rightarrow> nat run" where
  "transaction_fee transparent sapling orchard_actions ironwood_actions =
    run_bind (count_bundle 0 (fst transparent) (snd transparent) fee_manager_default)
     (\<lambda>fm. run_bind (count_bundle 1 (fst sapling) (snd sapling) fm)
     (\<lambda>fm. run_bind (count_bundle 2 orchard_actions orchard_actions fm)
     (\<lambda>fm. run_bind (count_bundle 3 ironwood_actions ironwood_actions fm)
     (\<lambda>fm. Ret (manager_fee fm)))))"

text \<open>The fee rule itself, over unbounded counts.\<close>

definition zip317_padded :: "nat \<Rightarrow> nat \<Rightarrow> nat" where
  "zip317_padded i o' = (if i = 0 \<and> o' = 0 then 0 else max (max i o') 2)"

definition zip317_actions :: "bool \<Rightarrow> nat list \<Rightarrow> nat list \<Rightarrow> nat" where
  "zip317_actions mig is os =
    max (is ! 0) (os ! 0) + zip317_padded (is ! 1) (os ! 1)
     + (if mig then (if is ! 2 = 0 \<and> os ! 2 = 0 then 0 else max (is ! 2 + os ! 2) 2)
        else zip317_padded (is ! 2) (os ! 2))
     + zip317_padded (is ! 3) (os ! 3)"

definition zip317_fee :: "bool \<Rightarrow> nat list \<Rightarrow> nat list \<Rightarrow> nat" where
  "zip317_fee mig is os = max (zip317_actions mig is os) 2 * COST_PER_ACTION"

section \<open>The counter computes the rule\<close>

lemma unat_max: "unat (max a b) = max (unat a) (unat (b :: u8))"
  by (simp add: max_def word_le_nat_alt)

lemma word_pos: "0 < a \<longleftrightarrow> unat (a :: u8) \<noteq> 0"
  by (simp add: word_gt_0 unat_eq_zero)

lemma unat_padded: "unat (padded i o') = zip317_padded (unat i) (unat o')"
  by (auto simp: padded_def zip317_padded_def unat_max word_pos)

lemma orchard_actions_unat:
  "(if 0 < i \<or> 0 < o' then (if m then max (unat i + unat o') 2 else unat (max (max i o') 2)) else 0)
   = (if m then (if unat i = 0 \<and> unat o' = 0 then 0 else max (unat i + unat o') 2)
      else zip317_padded (unat i) (unat (o' :: u8)))"
  by (auto simp: zip317_padded_def unat_max word_pos)

lemma fee_zip317:
  assumes "wf_fee fm"
  shows "manager_fee fm = zip317_fee (fm_migration fm) (map unat (num_inputs fm)) (map unat (num_outputs fm))"
proof -
  have nth: "map unat (num_inputs fm) ! p = unat (num_inputs fm ! p)"
    "map unat (num_outputs fm) ! p = unat (num_outputs fm ! p)" if "p < 4" for p
    using assms that by (simp_all add: wf_fee_def NUM_POOLS_def)
  have idx: "0 < (4 :: nat)" "1 < (4 :: nat)" "2 < (4 :: nat)" "3 < (4 :: nat)" by simp_all
  show ?thesis
    unfolding manager_fee_def zip317_fee_def zip317_actions_def Let_def orchard_actions_unat
    unfolding unat_padded unat_max nth [OF idx(1)] nth [OF idx(2)] nth [OF idx(3)] nth [OF idx(4)]
    by (rule refl)
qed

section \<open>Counting\<close>

lemma wf_fee_default [simp]: "wf_fee fee_manager_default"
  by (simp add: wf_fee_def fee_manager_default_def NUM_POOLS_def)

definition bump_inputs :: "nat \<Rightarrow> nat \<Rightarrow> FeeManager \<Rightarrow> FeeManager" where
  "bump_inputs pool k fm =
    fm\<lparr>num_inputs := (num_inputs fm)[pool := num_inputs fm ! pool + word_of_nat k]\<rparr>"

definition bump_outputs :: "nat \<Rightarrow> nat \<Rightarrow> FeeManager \<Rightarrow> FeeManager" where
  "bump_outputs pool k fm =
    fm\<lparr>num_outputs := (num_outputs fm)[pool := num_outputs fm ! pool + word_of_nat k]\<rparr>"

lemma add_inputs:
  assumes "pool < length (num_inputs fm)" and "length xs = k"
  shows "run_fold (\<lambda>_. add_input pool) xs fm = Ret (bump_inputs pool k fm)"
  using assms
proof (induction xs arbitrary: fm k)
  case Nil
  then show ?case by (simp add: bump_inputs_def)
next
  case (Cons x xs)
  then show ?case by (auto simp: add_input_def bump_inputs_def add.assoc)
qed

lemma add_outputs:
  assumes "pool < length (num_outputs fm)" and "length xs = k"
  shows "run_fold (\<lambda>_. add_output pool) xs fm = Ret (bump_outputs pool k fm)"
  using assms
proof (induction xs arbitrary: fm k)
  case Nil
  then show ?case by (simp add: bump_outputs_def)
next
  case (Cons x xs)
  then show ?case by (auto simp: add_output_def bump_outputs_def add.assoc)
qed

lemma wf_fee_bump [simp]:
  "wf_fee (bump_inputs pool k fm) = wf_fee fm" "wf_fee (bump_outputs pool k fm) = wf_fee fm"
  by (simp_all add: wf_fee_def bump_inputs_def bump_outputs_def)

lemma count_bundle_bump:
  assumes "wf_fee fm" and "pool < NUM_POOLS"
  shows "count_bundle pool i o' fm = Ret (bump_outputs pool o' (bump_inputs pool i fm))"
proof -
  have "pool < length (num_inputs fm)" "pool < length (num_outputs (bump_inputs pool i fm))"
    using assms by (simp_all add: wf_fee_def bump_inputs_def)
  then show ?thesis by (simp add: count_bundle_def add_inputs add_outputs)
qed

lemma transaction_fee_zip317_mod:
  "transaction_fee (ti, to) (si, so) oa ia =
    Ret (zip317_fee False [ti mod 256, si mod 256, oa mod 256, ia mod 256]
           [to mod 256, so mod 256, oa mod 256, ia mod 256])"
proof -
  let ?fm = "\<lparr>num_inputs = [word_of_nat ti, word_of_nat si, word_of_nat oa, word_of_nat ia],
     num_outputs = [word_of_nat to, word_of_nat so, word_of_nat oa, word_of_nat ia],
     issuance_actions = 0, fm_migration = False\<rparr>"
  have "transaction_fee (ti, to) (si, so) oa ia = Ret (manager_fee ?fm)"
    by (simp add: transaction_fee_def count_bundle_bump NUM_POOLS_def)
      (simp add: bump_inputs_def bump_outputs_def fee_manager_default_def numeral_eq_Suc)
  moreover have "wf_fee ?fm" by (simp add: wf_fee_def NUM_POOLS_def)
  ultimately show ?thesis by (simp add: fee_zip317 unat_of_nat)
qed

lemma zip317_fee_mono:
  assumes "\<And>p. p < 4 \<Longrightarrow> is ! p \<le> is' ! p" and "\<And>p. p < 4 \<Longrightarrow> os ! p \<le> os' ! p"
  shows "zip317_fee mig is os \<le> zip317_fee mig is' os'"
proof -
  have pad: "zip317_padded a b \<le> zip317_padded c d" if "a \<le> c" "b \<le> d" for a b c d
    using that by (auto simp: zip317_padded_def)
  have "zip317_actions mig is os \<le> zip317_actions mig is' os'"
    unfolding zip317_actions_def
    using assms [of 0] assms [of 1] assms [of 2] assms [of 3]
    by (intro add_mono pad max.mono) (auto intro: pad)
  then show ?thesis by (auto simp: zip317_fee_def le_max_iff_disj)
qed

lemma zip317_fee_min: "2 * COST_PER_ACTION \<le> zip317_fee mig is os"
  by (simp add: zip317_fee_def)

text \<open>
  The fee \<open>decrypt_memo\<close> records for a transaction is the ZIP-317 fee of its bundles as long as no
  bundle has more than 255 spends or outputs, and the counting never panics.
\<close>

theorem transaction_fee_is_zip317:
  assumes "ti < 256" "to < 256" "si < 256" "so < 256" "oa < 256" "ia < 256"
  shows "transaction_fee (ti, to) (si, so) oa ia = Ret (zip317_fee False [ti, si, oa, ia] [to, so, oa, ia])"
  using assms by (simp add: transaction_fee_zip317_mod)

theorem transaction_fee_is_zip317_witness:
  "transaction_fee (3, 7) (1, 2) 4 0 = Ret (zip317_fee False [3, 1, 4, 0] [7, 2, 4, 0])
   \<and> zip317_fee False [3, 1, 4, 0] [7, 2, 4, 0] = 65000"
  using transaction_fee_is_zip317 [of 3 7 1 2 4 0]
  by (simp add: zip317_fee_def zip317_actions_def zip317_padded_def COST_PER_ACTION_def)

text \<open>
  The \<open>u8\<close> counters wrap: 256 further outputs of a bundle leave the recorded fee as it was, so a
  payout with 256 transparent outputs is recorded with the minimum fee of two actions instead of 256.
\<close>

theorem transaction_fee_wraps_at_256:
  "transaction_fee (ti, to + 256) s oa ia = transaction_fee (ti, to) s oa ia
   \<and> transaction_fee (1, 256) (0, 0) 0 0 = Ret (2 * COST_PER_ACTION)
   \<and> zip317_fee False [1, 0, 0, 0] [256, 0, 0, 0] = 256 * COST_PER_ACTION"
proof (cases s)
  case (Pair si so)
  then show ?thesis
    by (simp add: transaction_fee_zip317_mod)
      (simp add: zip317_fee_def zip317_actions_def zip317_padded_def)
qed

end
