(* ===== verification/Solver_Model.thy ===== *)
theory Solver_Model
  imports Fees
begin

text \<open>
  The data and the pure helpers of the note selection solver, \<open>src/rust/rlz/src/pay/solve.rs\<close>, in the
  order of the source: notes and outputs, the search state and its context, the fee, the evaluation of
  a state, the lower bound, the transition that picks a note, the expansion heuristic and the
  dominance key. Amounts are \<open>u64\<close>, balances \<open>i64\<close>, with their wrap-around. An array indexed outside
  its range is \<open>Panic\<close>.
\<close>

definition N_POOLS :: nat where
  "N_POOLS = 4"

record Note =
  sn_pool :: nat
  sn_amount :: nat
  sn_pool_index :: nat
  sn_asset :: nat

record Output =
  so_pool :: nat
  so_amount :: nat
  so_asset :: nat

record Selection =
  sel_inputs :: "Note list"
  sel_per_pool_indices :: "nat list list"
  sel_change_pool :: nat
  sel_fee :: nat

definition GRACE_ACTIONS :: nat where
  "GRACE_ACTIONS = 2"

record State =
  asset_sums :: "nat list"
  balance :: "int list"
  n_inputs :: "nat list"
  orchard_asset_inputs :: "nat list"
  tin :: nat
  tout :: nat
  selected :: "nat list"

record Context =
  ctx_notes :: "Note list"
  n_assets :: nat
  asset_output_amounts :: "nat list"
  output_amounts :: "nat list"
  n_outputs :: "nat list"
  orchard_asset_outputs :: "nat list"
  f_unit :: nat
  ctx_migration :: bool
  recipient_pays_fee :: bool
  first_recipient_amount :: nat

record Budget =
  max_nodes :: nat
  beam_width :: nat

definition budget_default :: Budget where
  "budget_default = \<lparr>max_nodes = 100000, beam_width = 24\<rparr>"

section \<open>Fee\<close>

definition shielded_actions :: "nat \<Rightarrow> nat \<Rightarrow> nat" where
  "shielded_actions i o' = (if 0 < i \<or> 0 < o' then max (max i o') 2 else 0)"

definition compute_fee ::
    "nat list \<Rightarrow> nat list \<Rightarrow> nat \<Rightarrow> nat \<Rightarrow> bool \<Rightarrow> nat option \<Rightarrow> nat" where
  "compute_fee ins outs change_pool unit mig orchard_actions =
    (let n_outs = outs[change_pool := u32_sat_add (outs ! change_pool) 1];
         t = max (ins ! 0) (n_outs ! 0);
         s = shielded_actions (ins ! 1) (n_outs ! 1);
         o' = (case orchard_actions of
                 Some a \<Rightarrow> a
               | None \<Rightarrow>
                   (if 0 < ins ! 2 \<or> 0 < n_outs ! 2 then
                      (if mig then max (u64_add (ins ! 2) (n_outs ! 2)) 2
                       else max (max (ins ! 2) (n_outs ! 2)) 2)
                    else 0));
         iw = shielded_actions (ins ! 3) (n_outs ! 3);
         logical = max (u64_add (u64_add (u64_add t s) o') iw) GRACE_ACTIONS
     in u64_mul logical unit)"

definition zsa_asset_actions :: "State \<Rightarrow> Context \<Rightarrow> nat \<Rightarrow> nat \<Rightarrow> nat" where
  "zsa_asset_actions st ctx change_pool asset =
    (let outputs = orchard_asset_outputs ctx ! asset;
         outputs =
           (if asset = 0 \<and> change_pool = 2 then u32_sat_add outputs 1
            else if 0 < asset \<and> asset_output_amounts ctx ! asset < asset_sums st ! asset
            then u32_sat_add outputs 1 else outputs)
     in max (orchard_asset_inputs st ! asset) outputs)"

definition zsa_orchard_actions :: "State \<Rightarrow> Context \<Rightarrow> nat \<Rightarrow> nat option" where
  "zsa_orchard_actions st ctx change_pool =
    (if n_assets ctx \<le> 1 then None
     else
       (let actions = u64_sum (map (zsa_asset_actions st ctx change_pool) [0..<n_assets ctx])
        in Some (if 0 < actions then max actions 2 else 0)))"

definition fee_for_change_pool :: "State \<Rightarrow> Context \<Rightarrow> nat \<Rightarrow> nat" where
  "fee_for_change_pool st ctx change_pool =
    compute_fee (n_inputs st) (n_outputs ctx) change_pool (f_unit ctx) (ctx_migration ctx)
      (zsa_orchard_actions st ctx change_pool)"

section \<open>Evaluation\<close>

definition zec_needed :: "Context \<Rightarrow> nat \<Rightarrow> nat" where
  "zec_needed ctx fee =
    (if recipient_pays_fee ctx then asset_output_amounts ctx ! 0
     else u64_sat_add (asset_output_amounts ctx ! 0) fee)"

definition is_feasible :: "State \<Rightarrow> Context \<Rightarrow> nat \<Rightarrow> bool" where
  "is_feasible st ctx fee \<longleftrightarrow>
    \<not> asset_sums st ! 0 < zec_needed ctx fee \<and>
    list_all (\<lambda>i. \<not> asset_sums st ! i < asset_output_amounts ctx ! i) [1..<n_assets ctx]"

text \<open>The guards of one round of the loop in \<open>evaluate_privacy\<close>, before the turnstile is computed.\<close>

definition change_pool_ok :: "State \<Rightarrow> Context \<Rightarrow> nat \<Rightarrow> bool" where
  "change_pool_ok st ctx cp \<longleftrightarrow>
    (let fee = fee_for_change_pool st ctx cp in
     \<not> (recipient_pays_fee ctx \<and> first_recipient_amount ctx < fee) \<and> is_feasible st ctx fee)"

definition turnstile :: "State \<Rightarrow> Context \<Rightarrow> nat \<Rightarrow> nat" where
  "turnstile st ctx cp =
    (let fee = fee_for_change_pool st ctx cp;
         change = sat_sub (asset_sums st ! 0) (zec_needed ctx fee)
     in u64_add (u64_add (tin st) (tout st))
          (u64_sum (map (\<lambda>p. if p = cp then unsigned_abs (i64_sub (balance st ! p) (as_i64 change))
                             else unsigned_abs (balance st ! p)) [1..<N_POOLS])))"

definition is_better_solution :: "nat \<Rightarrow> nat \<Rightarrow> nat \<Rightarrow> nat \<Rightarrow> bool" where
  "is_better_solution cost fee best_cost best_fee \<longleftrightarrow>
    cost < best_cost \<or> cost = best_cost \<and> fee < best_fee"

definition bound_can_beat :: "nat \<Rightarrow> nat \<Rightarrow> bool" where
  "bound_can_beat bound best_cost \<longleftrightarrow> bound \<le> best_cost"

definition evaluate_round :: "State \<Rightarrow> Context \<Rightarrow> nat \<Rightarrow> nat \<times> nat \<times> nat \<Rightarrow> nat \<times> nat \<times> nat" where
  "evaluate_round st ctx cp best =
    (if \<not> change_pool_ok st ctx cp then best
     else if is_better_solution (turnstile st ctx cp) (fee_for_change_pool st ctx cp)
       (fst best) (fst (snd best))
     then (turnstile st ctx cp, fee_for_change_pool st ctx cp, cp) else best)"

definition evaluate_privacy :: "State \<Rightarrow> Context \<Rightarrow> nat \<times> nat" where
  "evaluate_privacy st ctx =
    (let best = fold (evaluate_round st ctx) [0..<N_POOLS] (u64_max, u64_max, 0)
     in (fst best, snd (snd best)))"

definition evaluate :: "State \<Rightarrow> Context \<Rightarrow> nat \<times> nat" where
  "evaluate st ctx = evaluate_privacy st ctx"

definition remaining_by_pool :: "Context \<Rightarrow> State \<Rightarrow> nat list run" where
  "remaining_by_pool ctx st =
    run_fold (\<lambda>(i, n) acc.
        if i \<in> set (selected st) then Ret acc
        else if sn_pool n < N_POOLS
        then Ret (acc[sn_pool n := u64_add (acc ! sn_pool n) (sn_amount n)]) else Panic)
      (enumerate 0 (ctx_notes ctx)) (replicate N_POOLS 0)"

definition lower_bound_privacy :: "State \<Rightarrow> Context \<Rightarrow> nat run" where
  "lower_bound_privacy st ctx =
    run_bind (remaining_by_pool ctx st) (\<lambda>rem.
      Ret (fold (\<lambda>p bound. u64_add bound (sat_sub (unsigned_abs (balance st ! p)) (rem ! p)))
             [1..<N_POOLS] (u64_add (tin st) (tout st))))"

definition lower_bound :: "State \<Rightarrow> Context \<Rightarrow> nat run" where
  "lower_bound st ctx = lower_bound_privacy st ctx"

section \<open>Transitions\<close>

definition initial_state :: "Context \<Rightarrow> State" where
  "initial_state ctx =
    \<lparr>asset_sums = replicate (n_assets ctx) 0,
     balance = map (\<lambda>p. i64_neg (as_i64 (output_amounts ctx ! p))) [0..<N_POOLS],
     n_inputs = replicate N_POOLS 0,
     orchard_asset_inputs = replicate (n_assets ctx) 0,
     tin = 0, tout = output_amounts ctx ! 0, selected = []\<rparr>"

definition apply_state :: "State \<Rightarrow> nat \<Rightarrow> Note \<Rightarrow> State" where
  "apply_state st idx n =
    (let p = sn_pool n; a = sn_asset n;
         child = st\<lparr>selected := selected st @ [idx],
           asset_sums := (asset_sums st)[a := u64_add (asset_sums st ! a) (sn_amount n)],
           n_inputs := (n_inputs st)[p := u32_sat_add (n_inputs st ! p) 1],
           orchard_asset_inputs :=
             (if p = 2 then (orchard_asset_inputs st)[a := u32_sat_add (orchard_asset_inputs st ! a) 1]
              else orchard_asset_inputs st)\<rparr>
     in if p = 0 then child\<lparr>tin := u64_add (tin st) (sn_amount n)\<rparr>
        else if p = 1 \<or> p = 2 \<or> p = 3
        then child\<lparr>balance := (balance st)[p := i64_add (balance st ! p) (as_i64 (sn_amount n))]\<rparr>
        else child)"

definition apply_note :: "State \<Rightarrow> nat \<Rightarrow> Note \<Rightarrow> State run" where
  "apply_note st idx n =
    (if sn_asset n < length (asset_sums st) \<and> sn_pool n < length (n_inputs st) \<and>
        (sn_pool n = 2 \<longrightarrow> sn_asset n < length (orchard_asset_inputs st))
     then Ret (apply_state st idx n) else Panic)"

definition remaining_notes :: "Context \<Rightarrow> State \<Rightarrow> (nat \<times> Note) list" where
  "remaining_notes ctx st =
    filter (\<lambda>(i, _). i \<notin> set (selected st)) (enumerate 0 (ctx_notes ctx))"

section \<open>Expansion order and dominance\<close>

definition local_score :: "Note \<Rightarrow> State \<Rightarrow> int" where
  "local_score n st =
    (let bal = balance st ! sn_pool n;
         old_abs = as_i64 (unsigned_abs bal);
         new_abs = as_i64 (unsigned_abs (i64_add bal (as_i64 (sn_amount n))));
         reduction = i64_sub old_abs new_abs
     in i64_sub reduction (trunc_div (as_i64 (sn_amount n)) 1000))"

definition top_k_by_local_heuristic ::
    "(nat \<times> Note) list \<Rightarrow> State \<Rightarrow> nat \<Rightarrow> (nat \<times> Note) list" where
  "top_k_by_local_heuristic remaining st k =
    (if length remaining \<le> k then remaining
     else take k (sort_key (\<lambda>(_, n). - local_score n st) remaining))"

definition QUANT :: int where
  "QUANT = 1000"

type_synonym StateKey = "int list \<times> int list \<times> nat \<times> nat list \<times> nat list"

definition state_key :: "State \<Rightarrow> StateKey" where
  "state_key st =
    (let q = (\<lambda>b. i64_wrap (trunc_div b QUANT * QUANT))
     in (map (\<lambda>s. q (as_i64 s)) (asset_sums st), map q (balance st), tout st, n_inputs st,
         orchard_asset_inputs st))"

end
