(* ===== verification/Solver_Search.thy ===== *)
theory Solver_Search
  imports Solver_Model "HOL-Library.Multiset" "HOL-Library.Product_Lexorder"
begin

text \<open>
  The search of \<open>src/rust/rlz/src/pay/solve.rs\<close>: the greedy baseline, the best-first
  branch-and-bound loop and \<open>select_notes\<close>. The wall clock of \<open>BudgetTracker\<close> is the argument \<open>late\<close>:
  whether the deadline has passed at the n-th check. The binary heap is an interface, the locale
  \<open>min_queue\<close>; the model's heap is a list kept sorted by \<open>(bound, seq)\<close>.
\<close>

section \<open>The priority queue\<close>

record QueueItem =
  qi_bound :: nat
  qi_seq :: nat
  qi_state :: State

definition qi_key :: "QueueItem \<Rightarrow> nat \<times> nat" where
  "qi_key it = (qi_bound it, qi_seq it)"

definition heap_push :: "QueueItem \<Rightarrow> QueueItem list \<Rightarrow> QueueItem list" where
  "heap_push it h = insort_key qi_key it h"

definition heap_pop :: "QueueItem list \<Rightarrow> (QueueItem \<times> QueueItem list) option" where
  "heap_pop h = (case h of [] \<Rightarrow> None | x # xs \<Rightarrow> Some (x, xs))"

text \<open>
  What the loop needs of \<open>std::collections::BinaryHeap\<close> under \<open>Reverse\<close>: pushing adds one item, popping
  removes one with the smallest key, and only an empty heap has nothing to pop.
\<close>

locale min_queue =
  fixes push :: "'i \<Rightarrow> 'h \<Rightarrow> 'h"
    and pop :: "'h \<Rightarrow> ('i \<times> 'h) option"
    and items :: "'h \<Rightarrow> 'i multiset"
    and key :: "'i \<Rightarrow> 'k :: linorder"
    and invar :: "'h \<Rightarrow> bool"
  assumes items_push: "invar h \<Longrightarrow> items (push i h) = add_mset i (items h)"
    and invar_push: "invar h \<Longrightarrow> invar (push i h)"
    and pop_None: "invar h \<Longrightarrow> pop h = None \<longleftrightarrow> items h = {#}"
    and items_pop: "invar h \<Longrightarrow> pop h = Some (i, h') \<Longrightarrow> items h = add_mset i (items h')"
    and invar_pop: "invar h \<Longrightarrow> pop h = Some (i, h') \<Longrightarrow> invar h'"
    and pop_least: "invar h \<Longrightarrow> pop h = Some (i, h') \<Longrightarrow> j \<in># items h \<Longrightarrow> key i \<le> key j"
begin

lemma push_all:
  "invar h \<Longrightarrow> (\<forall>i \<in># items h. P i) \<Longrightarrow> P j \<Longrightarrow>
   invar (push j h) \<and> (\<forall>i \<in># items (push j h). P i)"
  by (simp add: items_push invar_push)

lemma pop_all:
  "invar h \<Longrightarrow> (\<forall>i \<in># items h. P i) \<Longrightarrow> pop h = Some (j, h') \<Longrightarrow>
   P j \<and> invar h' \<and> (\<forall>i \<in># items h'. P i)"
  using items_pop invar_pop by fastforce

lemma push_not_empty: "invar h \<Longrightarrow> pop (push i h) \<noteq> None"
  by (simp add: pop_None invar_push items_push)

end

definition heap_sorted :: "QueueItem list \<Rightarrow> bool" where
  "heap_sorted h \<longleftrightarrow> sorted (map qi_key h)"

interpretation bheap: min_queue heap_push heap_pop mset qi_key heap_sorted
proof (unfold_locales, goal_cases)
  case (1 h i)
  then show ?case by (simp add: heap_push_def)
next
  case (2 h i)
  then show ?case by (simp add: heap_push_def heap_sorted_def sorted_insort_key)
next
  case (3 h)
  then show ?case by (simp add: heap_pop_def split: list.split)
next
  case (4 h i h')
  then show ?case by (simp add: heap_pop_def split: list.splits)
next
  case (5 h i h')
  then show ?case by (auto simp: heap_pop_def heap_sorted_def split: list.splits)
next
  case (6 h i h' j)
  then show ?case by (auto simp: heap_pop_def heap_sorted_def split: list.splits)
qed

section \<open>Greedy baseline\<close>

fun greedy_loop :: "Context \<Rightarrow> State \<Rightarrow> nat list \<Rightarrow> (State \<times> nat \<times> nat) option run" where
  "greedy_loop ctx st [] =
    (let (cost, pool) = evaluate st ctx
     in Ret (if cost \<noteq> u64_max then Some (st, cost, pool) else None))"
| "greedy_loop ctx st (idx # order) =
    (let (cost, pool) = evaluate st ctx
     in if cost \<noteq> u64_max then Ret (Some (st, cost, pool))
        else run_bind (apply_note st idx (ctx_notes ctx ! idx)) (\<lambda>s. greedy_loop ctx s order))"

definition greedy_order :: "Context \<Rightarrow> nat list" where
  "greedy_order ctx =
    sort_key (\<lambda>i. - int (sn_amount (ctx_notes ctx ! i))) [0..<length (ctx_notes ctx)]"

definition greedy_solution :: "Context \<Rightarrow> (State \<times> nat \<times> nat) option run" where
  "greedy_solution ctx = greedy_loop ctx (initial_state ctx) (greedy_order ctx)"

section \<open>Branch and bound\<close>

record Search =
  heap :: "QueueItem list"
  seen :: "StateKey \<rightharpoonup> nat"
  seq :: nat
  best_state :: State
  best_cost :: nat
  best_fee :: nat
  best_pool :: nat

definition push_child :: "Context \<Rightarrow> State \<Rightarrow> nat \<times> Note \<Rightarrow> Search \<Rightarrow> Search run" where
  "push_child ctx st = (\<lambda>(note_idx, n) s.
    run_bind (apply_note st note_idx n) (\<lambda>child.
    run_bind (lower_bound child ctx) (\<lambda>child_bound.
      if \<not> bound_can_beat child_bound (best_cost s) then Ret s
      else
        (let k = state_key child in
         case seen s k of
           Some existing \<Rightarrow>
             (if existing \<le> child_bound then Ret s
              else Ret (s\<lparr>seen := (seen s)(k \<mapsto> child_bound), seq := u64_sat_add (seq s) 1,
                heap := heap_push \<lparr>qi_bound = child_bound, qi_seq = u64_sat_add (seq s) 1, qi_state = child\<rparr>
                  (heap s)\<rparr>))
         | None \<Rightarrow>
             Ret (s\<lparr>seen := (seen s)(k \<mapsto> child_bound), seq := u64_sat_add (seq s) 1,
                heap := heap_push \<lparr>qi_bound = child_bound, qi_seq = u64_sat_add (seq s) 1, qi_state = child\<rparr>
                  (heap s)\<rparr>)))))"

definition improve :: "Context \<Rightarrow> State \<Rightarrow> Search \<Rightarrow> Search" where
  "improve ctx st s =
    (let (cost, pool) = evaluate st ctx;
         fee = fee_for_change_pool st ctx pool
     in if cost \<noteq> u64_max \<and> is_better_solution cost fee (best_cost s) (best_fee s)
        then s\<lparr>best_cost := cost, best_fee := fee, best_state := st, best_pool := pool\<rparr> else s)"

definition max_remaining :: "(nat \<times> Note) list \<Rightarrow> nat" where
  "max_remaining rem = fold (\<lambda>(_, n) m. max (sn_amount n) m) rem 0"

definition search_step :: "Context \<Rightarrow> Budget \<Rightarrow> QueueItem \<Rightarrow> Search \<Rightarrow> Search run" where
  "search_step ctx b item s =
    (if \<not> bound_can_beat (qi_bound item) (best_cost s) then Ret s
     else
       (let st = qi_state item; s = improve ctx st s; rem = remaining_notes ctx st
        in if rem = [] then Ret s
           else if u64_sat_add (asset_output_amounts ctx ! 0) (max_remaining rem) < asset_sums st ! 0
           then Ret s
           else run_fold (push_child ctx st) (top_k_by_local_heuristic rem st (beam_width b)) s))"

text \<open>
  Each round counts a node and stops at the node limit or the deadline, so the loop runs at most
  \<open>max_nodes\<close> rounds.
\<close>

function search_loop :: "Context \<Rightarrow> Budget \<Rightarrow> (nat \<Rightarrow> bool) \<Rightarrow> nat \<Rightarrow> Search \<Rightarrow> Search run" where
  "search_loop ctx b late nodes s =
    (case heap_pop (heap s) of
       None \<Rightarrow> Ret s
     | Some (item, h) \<Rightarrow>
         (if max_nodes b < Suc nodes \<or> late (Suc nodes) then Ret (s\<lparr>heap := h\<rparr>)
          else
            (case search_step ctx b item (s\<lparr>heap := h\<rparr>) of
               Panic \<Rightarrow> Panic
             | Ret s' \<Rightarrow> search_loop ctx b late (Suc nodes) s')))"
  by pat_completeness auto
termination
  by (relation "measure (\<lambda>(ctx, b, late, nodes, s). Suc (max_nodes b) - nodes)") auto

declare search_loop.simps [simp del]

section \<open>Entry point\<close>

record Aggregates =
  ag_output_amounts :: "nat list"
  ag_n_outputs :: "nat list"
  ag_asset_output_amounts :: "nat list"
  ag_orchard_asset_outputs :: "nat list"

definition outputs_n_assets :: "Output list \<Rightarrow> nat" where
  "outputs_n_assets outputs = (fold max (map so_asset outputs) 0 + 1) mod 256"

definition aggregate_output :: "Output \<Rightarrow> Aggregates \<Rightarrow> Aggregates run" where
  "aggregate_output o' ag =
    (let p = so_pool o'; a = so_asset o';
         ag' =
           (if p < N_POOLS
            then ag\<lparr>ag_output_amounts :=
                   (ag_output_amounts ag)[p := u64_sat_add (ag_output_amounts ag ! p) (so_amount o')],
                 ag_n_outputs := (ag_n_outputs ag)[p := u32_sat_add (ag_n_outputs ag ! p) 1],
                 ag_orchard_asset_outputs :=
                   (if p = 2 then (ag_orchard_asset_outputs ag)[a := u32_sat_add (ag_orchard_asset_outputs ag ! a) 1]
                    else ag_orchard_asset_outputs ag)\<rparr>
            else ag)
     in if a < length (ag_asset_output_amounts ag)
        then Ret (ag'\<lparr>ag_asset_output_amounts :=
               (ag_asset_output_amounts ag)[a := u64_add (ag_asset_output_amounts ag ! a) (so_amount o')]\<rparr>)
        else Panic)"

definition aggregate_outputs :: "Output list \<Rightarrow> Aggregates run" where
  "aggregate_outputs outputs =
    run_fold aggregate_output outputs
      \<lparr>ag_output_amounts = replicate N_POOLS 0, ag_n_outputs = replicate N_POOLS 0,
       ag_asset_output_amounts = replicate (outputs_n_assets outputs) 0,
       ag_orchard_asset_outputs = replicate (outputs_n_assets outputs) 0\<rparr>"

definition dust_filter :: "nat \<Rightarrow> Note list \<Rightarrow> Note list" where
  "dust_filter unit notes = filter (\<lambda>n. sn_asset n \<noteq> 0 \<or> unit \<le> sn_amount n) notes"

definition sort_notes :: "Note list \<Rightarrow> Note list" where
  "sort_notes notes =
    sort_key (\<lambda>n. (if sn_pool n = 0 then 1 else 0 :: nat, - int (sn_amount n))) notes"

definition build_context ::
    "Note list \<Rightarrow> Output list \<Rightarrow> Aggregates \<Rightarrow> nat \<Rightarrow> bool \<Rightarrow> bool \<Rightarrow> nat \<Rightarrow> Context" where
  "build_context sorted_notes outputs ag unit mig rpf fra =
    \<lparr>ctx_notes = sorted_notes, n_assets = outputs_n_assets outputs,
     asset_output_amounts = ag_asset_output_amounts ag, output_amounts = ag_output_amounts ag,
     n_outputs = ag_n_outputs ag, orchard_asset_outputs = ag_orchard_asset_outputs ag,
     f_unit = unit, ctx_migration = mig, recipient_pays_fee = rpf, first_recipient_amount = fra\<rparr>"

text \<open>The baseline: the greedy solution, or every note when that fails; \<open>None\<close> when neither is feasible.\<close>

definition baseline :: "Context \<Rightarrow> (State \<times> nat \<times> nat) option run" where
  "baseline ctx =
    run_bind (greedy_solution ctx) (\<lambda>g.
      case g of
        Some r \<Rightarrow> Ret (Some r)
      | None \<Rightarrow>
          run_bind
            (run_fold (\<lambda>idx s. apply_note s idx (ctx_notes ctx ! idx)) [0..<length (ctx_notes ctx)]
              (initial_state ctx))
            (\<lambda>st. let (cost, pool) = evaluate st ctx
                  in Ret (if cost = u64_max then None else Some (st, cost, pool))))"

definition start_search :: "Context \<Rightarrow> State \<times> nat \<times> nat \<Rightarrow> Search run" where
  "start_search ctx = (\<lambda>(st, cost, pool).
    run_bind (lower_bound (initial_state ctx) ctx) (\<lambda>start_bound.
      Ret \<lparr>heap =
             (if bound_can_beat start_bound cost
              then heap_push \<lparr>qi_bound = start_bound, qi_seq = 0, qi_state = initial_state ctx\<rparr> []
              else []),
           seen = Map.empty, seq = 0, best_state = st, best_cost = cost,
           best_fee = fee_for_change_pool st ctx pool, best_pool = pool\<rparr>))"

definition build_selection :: "Context \<Rightarrow> Search \<Rightarrow> Selection" where
  "build_selection ctx s =
    (let chosen = map (\<lambda>idx. ctx_notes ctx ! idx) (selected (best_state s))
     in \<lparr>sel_inputs = chosen,
         sel_per_pool_indices =
           map (\<lambda>p. map sn_pool_index (filter (\<lambda>n. sn_pool n = p) chosen)) [0..<N_POOLS],
         sel_change_pool = best_pool s, sel_fee = best_fee s\<rparr>)"

definition solve_context :: "Context \<Rightarrow> (nat \<Rightarrow> bool) \<Rightarrow> Selection option run" where
  "solve_context ctx late =
    run_bind (baseline ctx) (\<lambda>base.
      case base of
        None \<Rightarrow> Ret None
      | Some b \<Rightarrow>
          run_bind (start_search ctx b) (\<lambda>s.
          run_bind (search_loop ctx budget_default late 0 s) (\<lambda>s.
            Ret (Some (build_selection ctx s)))))"

definition select_notes ::
    "(nat \<Rightarrow> bool) \<Rightarrow> Note list \<Rightarrow> Output list \<Rightarrow> nat \<Rightarrow> bool \<Rightarrow> bool \<Rightarrow> nat \<Rightarrow> Selection option run" where
  "select_notes late notes outputs unit mig rpf fra =
    (let filtered = dust_filter unit notes in
     if filtered = [] then Ret None
     else
       run_bind (aggregate_outputs outputs) (\<lambda>ag.
         solve_context (build_context (sort_notes filtered) outputs ag unit mig rpf fra) late))"

end
