(* ===== verification/Solver_Props.thy ===== *)
theory Solver_Props
  imports Solver_Search
begin

text \<open>
  Correctness of the solver. \<open>spec_state\<close> is the reference definition of a search state: what its
  fields must hold for a list of picked indices. Every state the search builds is the reference state
  of distinct indices (\<open>good\<close>), and the incumbent is always a feasible state whose cost and fee are
  the evaluated ones.
\<close>

section \<open>Reference state\<close>

definition sum_of :: "(Note \<Rightarrow> bool) \<Rightarrow> Note list \<Rightarrow> nat" where
  "sum_of P ns = sum_list (map sn_amount (filter P ns))"

definition count_of :: "(Note \<Rightarrow> bool) \<Rightarrow> Note list \<Rightarrow> nat" where
  "count_of P ns = length (filter P ns)"

definition sel_notes :: "Context \<Rightarrow> nat list \<Rightarrow> Note list" where
  "sel_notes ctx sel = map ((!) (ctx_notes ctx)) sel"

definition valid_sel :: "Context \<Rightarrow> nat list \<Rightarrow> bool" where
  "valid_sel ctx sel \<longleftrightarrow> distinct sel \<and> set sel \<subseteq> {..<length (ctx_notes ctx)}"

definition pool_balance :: "Context \<Rightarrow> Note list \<Rightarrow> nat \<Rightarrow> int" where
  "pool_balance ctx ns p =
    (if p = 0 then 0 else int (sum_of (\<lambda>n. sn_pool n = p) ns)) - int (output_amounts ctx ! p)"

definition spec_state :: "Context \<Rightarrow> nat list \<Rightarrow> State" where
  "spec_state ctx sel =
    (let ns = sel_notes ctx sel in
     \<lparr>asset_sums = map (\<lambda>a. sum_of (\<lambda>n. sn_asset n = a) ns) [0..<n_assets ctx],
      balance = map (pool_balance ctx ns) [0..<N_POOLS],
      n_inputs = map (\<lambda>p. count_of (\<lambda>n. sn_pool n = p) ns) [0..<N_POOLS],
      orchard_asset_inputs = map (\<lambda>a. count_of (\<lambda>n. sn_pool n = 2 \<and> sn_asset n = a) ns) [0..<n_assets ctx],
      tin = sum_of (\<lambda>n. sn_pool n = 0) ns, tout = output_amounts ctx ! 0, selected = sel\<rparr>)"

text \<open>
  Amounts that cannot overflow: all notes together, and each pool's outputs, below \<open>2 ^ 61\<close>, a
  thousand times the money supply of the chain (\<open>2.1 * 10 ^ 15\<close> zatoshi). The turnstile of a state adds
  up to six such amounts, so this bound keeps it inside a \<open>u64\<close>.
\<close>

definition bounded :: "Context \<Rightarrow> bool" where
  "bounded ctx \<longleftrightarrow> sum_list (map sn_amount (ctx_notes ctx)) < 2 ^ 61 \<and> length (ctx_notes ctx) < 2 ^ 32
    \<and> (\<forall>p < N_POOLS. output_amounts ctx ! p < 2 ^ 61)"

lemma mset_sel:
  assumes "distinct sel" and "set sel \<subseteq> {..<length xs}"
  shows "mset (map ((!) xs) sel) \<subseteq># mset xs"
proof -
  have "mset sel = mset_set (set sel)" using assms(1) by (simp add: mset_set_set)
  also have "\<dots> \<subseteq># mset_set {..<length xs}"
    using assms(2) by (simp add: subset_imp_msubset_mset_set)
  also have "\<dots> = mset [0..<length xs]" by (simp add: lessThan_atLeast0)
  finally have "image_mset ((!) xs) (mset sel) \<subseteq># image_mset ((!) xs) (mset [0..<length xs])"
    by (rule image_mset_subseteq_mono)
  then show ?thesis by (metis map_nth mset_map)
qed

lemma sel_notes_subset: "valid_sel ctx sel \<Longrightarrow> mset (sel_notes ctx sel) \<subseteq># mset (ctx_notes ctx)"
  by (simp add: sel_notes_def valid_sel_def mset_sel del: mset_map)

lemma sum_list_mset_mono:
  assumes "mset xs \<subseteq># mset ys"
  shows "sum_list xs \<le> sum_list (ys :: nat list)"
  using assms by (metis le_add1 mset_subset_eq_exists_conv sum_mset.union sum_mset_sum_list)

lemma sum_of_le:
  assumes "mset ns \<subseteq># mset ms"
  shows "sum_of P ns \<le> sum_list (map sn_amount ms)"
proof -
  have "mset (filter P ns) \<subseteq># mset ms"
    using assms by (metis mset_filter multiset_filter_subset subset_mset.order_trans)
  then have "mset (map sn_amount (filter P ns)) \<subseteq># mset (map sn_amount ms)"
    by (simp add: image_mset_subseteq_mono)
  then show ?thesis unfolding sum_of_def by (rule sum_list_mset_mono)
qed

lemma count_of_le: "mset ns \<subseteq># mset ms \<Longrightarrow> count_of P ns \<le> length ms"
  unfolding count_of_def by (metis length_filter_le order_trans size_mset size_mset_mono)

lemma sum_of_snoc [simp]: "sum_of P (ns @ [n]) = sum_of P ns + (if P n then sn_amount n else 0)"
  by (simp add: sum_of_def)

lemma count_of_snoc [simp]: "count_of P (ns @ [n]) = count_of P ns + (if P n then 1 else 0)"
  by (simp add: count_of_def)

lemma sel_notes_snoc [simp]: "sel_notes ctx (sel @ [i]) = sel_notes ctx sel @ [ctx_notes ctx ! i]"
  by (simp add: sel_notes_def)

lemma nth_map_upt4: "p < N_POOLS \<Longrightarrow> map f [0..<N_POOLS] ! p = f p"
  by simp

lemma map_upt_update:
  assumes "k < n" and "\<And>j. j < n \<Longrightarrow> j \<noteq> k \<Longrightarrow> g j = f j"
  shows "(map f [0..<n])[k := g k] = map g [0..<n]"
  using assms by (intro nth_equalityI) (auto simp: nth_list_update)

lemma sum_of_bounded:
  assumes "bounded ctx" and "valid_sel ctx sel"
  shows "sum_of P (sel_notes ctx sel) < 2 ^ 61" and "count_of P (sel_notes ctx sel) < 2 ^ 32"
  using assms sum_of_le [OF sel_notes_subset] count_of_le [OF sel_notes_subset]
  by (meson bounded_def le_less_trans)+

lemma initial_spec:
  assumes "bounded ctx"
  shows "initial_state ctx = spec_state ctx []"
proof -
  have "i64_neg (as_i64 (output_amounts ctx ! p)) = - int (output_amounts ctx ! p)" if "p < N_POOLS" for p
  proof -
    have "output_amounts ctx ! p < 2 ^ 61" using assms that by (simp add: bounded_def)
    then show ?thesis unfolding i64_neg_def by (simp add: as_i64_exact i64_wrap_exact)
  qed
  then show ?thesis
    by (auto simp: initial_state_def spec_state_def sel_notes_def sum_of_def count_of_def pool_balance_def
        map_replicate_trivial N_POOLS_def intro: nth_equalityI)
qed

lemma apply_spec:
  assumes b: "bounded ctx" and v: "valid_sel ctx (sel @ [i])"
    and p: "sn_pool (ctx_notes ctx ! i) < N_POOLS" and a: "sn_asset (ctx_notes ctx ! i) < n_assets ctx"
  shows "apply_note (spec_state ctx sel) i (ctx_notes ctx ! i) = Ret (spec_state ctx (sel @ [i]))"
proof -
  let ?n = "ctx_notes ctx ! i" and ?ns = "sel_notes ctx sel" and ?st = "spec_state ctx sel"
  have s: "sum_of P ?ns + (if P ?n then sn_amount ?n else 0) < 2 ^ 61"
    and c: "count_of P ?ns + (if P ?n then 1 else 0) < 2 ^ 32" for P
    using sum_of_bounded [OF b v, of P] by simp_all
  have out: "output_amounts ctx ! q < 2 ^ 61" if "q < N_POOLS" for q
    using b that by (simp add: bounded_def)
  have sums: "(asset_sums ?st)[sn_asset ?n := u64_add (asset_sums ?st ! sn_asset ?n) (sn_amount ?n)]
      = asset_sums (spec_state ctx (sel @ [i]))"
    using a s [of "\<lambda>n. sn_asset n = sn_asset ?n"]
    by (auto simp: spec_state_def Let_def u64_add_exact nth_list_update intro!: nth_equalityI)
  have ins: "(n_inputs ?st)[sn_pool ?n := u32_sat_add (n_inputs ?st ! sn_pool ?n) 1]
      = n_inputs (spec_state ctx (sel @ [i]))"
    using p c [of "\<lambda>n. sn_pool n = sn_pool ?n"]
    by (auto simp: spec_state_def Let_def u32_sat_add_exact nth_list_update intro!: nth_equalityI)
  have orch: "(if sn_pool ?n = 2 then (orchard_asset_inputs ?st)[sn_asset ?n :=
        u32_sat_add (orchard_asset_inputs ?st ! sn_asset ?n) 1] else orchard_asset_inputs ?st)
      = orchard_asset_inputs (spec_state ctx (sel @ [i]))"
    using a c [of "\<lambda>n. sn_pool n = 2 \<and> sn_asset n = sn_asset ?n"]
    by (auto simp: spec_state_def Let_def u32_sat_add_exact nth_list_update intro!: nth_equalityI)
  have tin: "sn_pool ?n = 0 \<Longrightarrow> u64_add (tin ?st) (sn_amount ?n) = tin (spec_state ctx (sel @ [i]))"
    "sn_pool ?n \<noteq> 0 \<Longrightarrow> tin ?st = tin (spec_state ctx (sel @ [i]))"
    using s [of "\<lambda>n. sn_pool n = 0"] by (simp_all add: spec_state_def Let_def u64_add_exact)
  have bal0: "sn_pool ?n = 0 \<Longrightarrow> balance ?st = balance (spec_state ctx (sel @ [i]))"
    by (auto simp: spec_state_def Let_def pool_balance_def)
  have bal: "(balance ?st)[sn_pool ?n := i64_add (balance ?st ! sn_pool ?n) (as_i64 (sn_amount ?n))]
      = balance (spec_state ctx (sel @ [i]))" if "sn_pool ?n \<noteq> 0"
  proof -
    have "i64_add (pool_balance ctx ?ns (sn_pool ?n)) (as_i64 (sn_amount ?n))
        = pool_balance ctx (?ns @ [?n]) (sn_pool ?n)"
      using s [of "\<lambda>n. sn_pool n = sn_pool ?n"] out [OF p] that
      by (simp add: i64_add_def as_i64_exact i64_wrap_exact pool_balance_def)
    then show ?thesis using p that
      by (auto simp: spec_state_def Let_def nth_list_update pool_balance_def intro!: nth_equalityI)
  qed
  have guard: "sn_asset ?n < length (asset_sums ?st)" "sn_pool ?n < length (n_inputs ?st)"
    "sn_asset ?n < length (orchard_asset_inputs ?st)"
    using a p by (simp_all add: spec_state_def Let_def)
  have sel: "selected (spec_state ctx (sel @ [i])) = selected ?st @ [i]" "tout (spec_state ctx (sel @ [i])) = tout ?st"
    by (simp_all add: spec_state_def Let_def)
  have pool: "sn_pool ?n = 0 \<or> sn_pool ?n = 1 \<or> sn_pool ?n = 2 \<or> sn_pool ?n = 3"
    using p by (auto simp: N_POOLS_def)
  have "apply_state ?st i ?n = spec_state ctx (sel @ [i])"
    using pool unfolding apply_state_def Let_def sums ins orch
    by (intro State.equality) (auto simp: sel tin bal0 bal)
  then show ?thesis using guard by (simp add: apply_note_def)
qed

section \<open>Evaluation picks the best change pool\<close>

lemma is_better_lex: "is_better_solution c f c' f' \<longleftrightarrow> (c, f) < (c', f')"
  by (auto simp: is_better_solution_def less_prod_def)

definition best_of :: "State \<Rightarrow> Context \<Rightarrow> nat list \<Rightarrow> nat \<times> nat \<times> nat \<Rightarrow> bool" where
  "best_of st ctx ps best \<longleftrightarrow>
    (best = (u64_max, u64_max, 0) \<or>
     (\<exists>p \<in> set ps. change_pool_ok st ctx p \<and> best = (turnstile st ctx p, fee_for_change_pool st ctx p, p))) \<and>
    (\<forall>p \<in> set ps. change_pool_ok st ctx p \<longrightarrow>
      (fst best, fst (snd best)) \<le> (turnstile st ctx p, fee_for_change_pool st ctx p))"

lemma evaluate_round_best:
  "best_of st ctx ps best \<Longrightarrow> best_of st ctx (ps @ [p]) (evaluate_round st ctx p best)"
  by (cases best) (auto simp: best_of_def evaluate_round_def is_better_lex not_less
      intro: order_trans less_imp_le)

lemma fold_evaluate_best:
  "best_of st ctx ps (fold (evaluate_round st ctx) ps (u64_max, u64_max, 0))"
proof (induction ps rule: rev_induct)
  case Nil
  then show ?case by (simp add: best_of_def)
next
  case (snoc p ps)
  then show ?case by (simp add: evaluate_round_best)
qed

lemma evaluate_cases:
  assumes "evaluate st ctx = (c, p)"
  obtains f where "best_of st ctx [0..<N_POOLS] (c, f, p)"
proof -
  have "best_of st ctx [0..<N_POOLS] (c, fst (snd (fold (evaluate_round st ctx) [0..<N_POOLS]
      (u64_max, u64_max, 0))), p)"
    using assms fold_evaluate_best [of st ctx "[0..<N_POOLS]"]
    by (auto simp: evaluate_def evaluate_privacy_def Let_def)
  then show thesis by (rule that)
qed

lemma evaluate_feasible:
  assumes "evaluate st ctx = (c, p)" and "c \<noteq> u64_max"
  shows "p < N_POOLS" and "change_pool_ok st ctx p" and "c = turnstile st ctx p"
    and "q < N_POOLS \<Longrightarrow> change_pool_ok st ctx q \<Longrightarrow>
      (c, fee_for_change_pool st ctx p) \<le> (turnstile st ctx q, fee_for_change_pool st ctx q)"
proof -
  obtain f where "best_of st ctx [0..<N_POOLS] (c, f, p)" using assms(1) by (rule evaluate_cases)
  with assms(2) show "p < N_POOLS" "change_pool_ok st ctx p" "c = turnstile st ctx p"
    "q < N_POOLS \<Longrightarrow> change_pool_ok st ctx q \<Longrightarrow>
      (c, fee_for_change_pool st ctx p) \<le> (turnstile st ctx q, fee_for_change_pool st ctx q)"
    by (auto simp: best_of_def)
qed

lemma evaluate_finite:
  assumes "q < N_POOLS" and "change_pool_ok st ctx q" and "turnstile st ctx q < u64_max"
  shows "fst (evaluate st ctx) \<noteq> u64_max"
proof -
  obtain c p where e: "evaluate st ctx = (c, p)" by force
  then obtain f where "best_of st ctx [0..<N_POOLS] (c, f, p)" by (rule evaluate_cases)
  with assms have "c \<le> turnstile st ctx q" by (fastforce simp: best_of_def)
  with e assms(3) show ?thesis by simp
qed

section \<open>The search invariant\<close>

definition good :: "Context \<Rightarrow> State \<Rightarrow> bool" where
  "good ctx st \<longleftrightarrow> valid_sel ctx (selected st) \<and> st = spec_state ctx (selected st)"

definition incumbent :: "Context \<Rightarrow> State \<Rightarrow> nat \<Rightarrow> nat \<Rightarrow> nat \<Rightarrow> bool" where
  "incumbent ctx st cost fee pool \<longleftrightarrow> good ctx st \<and> evaluate st ctx = (cost, pool) \<and> cost \<noteq> u64_max
    \<and> fee = fee_for_change_pool st ctx pool"

definition search_inv :: "Context \<Rightarrow> nat \<times> nat \<Rightarrow> Search \<Rightarrow> bool" where
  "search_inv ctx base s \<longleftrightarrow> heap_sorted (heap s) \<and> (\<forall>it \<in># mset (heap s). good ctx (qi_state it))
    \<and> incumbent ctx (best_state s) (best_cost s) (best_fee s) (best_pool s)
    \<and> (best_cost s, best_fee s) \<le> base"

lemma selected_spec [simp]: "selected (spec_state ctx sel) = sel"
  by (simp add: spec_state_def Let_def)

lemma good_spec [simp]: "good ctx (spec_state ctx sel) \<longleftrightarrow> valid_sel ctx sel"
  by (simp add: good_def)

lemma good_initial: "bounded ctx \<Longrightarrow> good ctx (initial_state ctx)"
  by (simp add: initial_spec valid_sel_def)

lemma good_apply:
  assumes "bounded ctx" and "good ctx st" and "i < length (ctx_notes ctx)" and "i \<notin> set (selected st)"
    and "apply_note st i (ctx_notes ctx ! i) = Ret c"
  shows "c = spec_state ctx (selected st @ [i])" and "good ctx c"
proof -
  let ?n = "ctx_notes ctx ! i"
  have st: "st = spec_state ctx (selected st)" and v: "valid_sel ctx (selected st @ [i])"
    using assms(2-4) by (auto simp: good_def valid_sel_def)
  have len: "length (asset_sums st) = n_assets ctx" "length (n_inputs st) = N_POOLS"
    by (subst st, simp add: spec_state_def Let_def)+
  then have "sn_pool ?n < N_POOLS" "sn_asset ?n < n_assets ctx"
    using assms(5) by (auto simp: apply_note_def split: if_splits)
  then have "apply_note st i ?n = Ret (spec_state ctx (selected st @ [i]))"
    using apply_spec [OF assms(1) v] st by metis
  then show "c = spec_state ctx (selected st @ [i])" using assms(5) by simp
  then show "good ctx c" using v by simp
qed

lemma remaining_in:
  "(i, n) \<in> set (remaining_notes ctx st) \<Longrightarrow>
   i < length (ctx_notes ctx) \<and> n = ctx_notes ctx ! i \<and> i \<notin> set (selected st)"
  by (auto simp: remaining_notes_def in_set_enumerate_eq)

lemma set_top_k: "set (top_k_by_local_heuristic rem st k) \<subseteq> set rem"
  by (auto simp: top_k_by_local_heuristic_def dest: in_set_takeD)

lemma push_child_inv:
  assumes "bounded ctx" and "good ctx st" and "(i, n) \<in> set (remaining_notes ctx st)"
    and "search_inv ctx base s" and "push_child ctx st (i, n) s = Ret s'"
  shows "search_inv ctx base s'"
proof -
  from assms(5) obtain child bd where c: "apply_note st i n = Ret child" "lower_bound child ctx = Ret bd"
    by (auto simp: push_child_def)
  have gc: "good ctx child"
    using good_apply(2) [OF assms(1,2)] remaining_in [OF assms(3)] c(1) by blast
  have "search_inv ctx base
      (s\<lparr>seen := k, seq := q, heap := heap_push \<lparr>qi_bound = bd, qi_seq = q, qi_state = child\<rparr> (heap s)\<rparr>)" for k q
    using bheap.push_all [of "heap s" "\<lambda>j. good ctx (qi_state j)" "\<lparr>qi_bound = bd, qi_seq = q, qi_state = child\<rparr>"]
      assms(4) gc
    by (simp add: search_inv_def)
  then show ?thesis using assms(4,5) c
    by (auto simp: push_child_def Let_def simp del: One_nat_def split: if_splits option.splits)
qed

lemma improve_inv:
  assumes "search_inv ctx base s" and "good ctx st"
  shows "search_inv ctx base (improve ctx st s)"
proof -
  obtain c p where e: "evaluate st ctx = (c, p)" by force
  let ?f = "fee_for_change_pool st ctx p"
  show ?thesis
  proof (cases "c \<noteq> u64_max \<and> (c, ?f) < (best_cost s, best_fee s)")
    case True
    moreover have "(best_cost s, best_fee s) \<le> base" using assms(1) by (simp add: search_inv_def)
    ultimately have "(c, ?f) \<le> base" by (meson less_imp_le order_trans)
    then show ?thesis using True assms e
      by (simp add: improve_def search_inv_def incumbent_def is_better_lex)
  next
    case False
    then show ?thesis using assms e by (auto simp: improve_def is_better_lex Let_def)
  qed
qed

lemma search_step_inv:
  assumes "bounded ctx" and "search_inv ctx base s" and "good ctx (qi_state it)"
    and "search_step ctx b it s = Ret s'"
  shows "search_inv ctx base s'"
proof (cases "s' = s \<or> s' = improve ctx (qi_state it) s")
  case True
  then show ?thesis using assms improve_inv by blast
next
  case False
  let ?st = "qi_state it"
  have "run_fold (push_child ctx ?st)
      (top_k_by_local_heuristic (remaining_notes ctx ?st) ?st (beam_width b)) (improve ctx ?st s) = Ret s'"
    using assms(4) False by (auto simp: search_step_def Let_def split: if_splits)
  then show ?thesis
  proof (rule run_fold_invariant)
    show "search_inv ctx base (improve ctx ?st s)" using assms improve_inv by blast
  next
    fix x t u
    assume "x \<in> set (top_k_by_local_heuristic (remaining_notes ctx ?st) ?st (beam_width b))"
      and "search_inv ctx base t" and "push_child ctx ?st x t = Ret u"
    then show "search_inv ctx base u"
      using push_child_inv [OF assms(1,3)] set_top_k by (metis prod.collapse subsetD)
  qed
qed

lemma search_loop_inv:
  assumes "bounded ctx" and "search_inv ctx base s" and "search_loop ctx b late k s = Ret s'"
  shows "search_inv ctx base s'"
  using assms
proof (induction ctx b late k s rule: search_loop.induct)
  case (1 ctx b late k s)
  show ?case
  proof (cases "heap_pop (heap s)")
    case None
    then show ?thesis using 1 by (simp add: search_loop.simps [of ctx b late k s])
  next
    case (Some r)
    obtain it h where r: "r = (it, h)" by force
    have p: "good ctx (qi_state it) \<and> search_inv ctx base (s\<lparr>heap := h\<rparr>)"
      using bheap.pop_all [of "heap s" "\<lambda>j. good ctx (qi_state j)" it h] "1.prems"(2) Some r
      by (auto simp: search_inv_def)
    show ?thesis
    proof (cases "max_nodes b < Suc k \<or> late (Suc k)")
      case True
      then show ?thesis using "1.prems"(3) Some r p by (simp add: search_loop.simps [of ctx b late k s])
    next
      case False
      with "1.prems"(3) Some r obtain t where t: "search_step ctx b it (s\<lparr>heap := h\<rparr>) = Ret t"
        "search_loop ctx b late (Suc k) t = Ret s'"
        by (auto simp: search_loop.simps [of ctx b late k s] split: run.splits)
      have "search_inv ctx base t" using search_step_inv [OF "1.prems"(1) _ _ t(1)] p by blast
      then show ?thesis using "1.IH" [OF Some r [symmetric] False t(1) "1.prems"(1) _ t(2)] by blast
    qed
  qed
qed

section \<open>Baseline\<close>

lemma greedy_loop_sound:
  assumes "bounded ctx" and "good ctx st" and "valid_sel ctx (selected st @ order)"
    and "greedy_loop ctx st order = Ret (Some (st', c, p))"
  shows "incumbent ctx st' c (fee_for_change_pool st' ctx p) p"
  using assms(2-4)
proof (induction order arbitrary: st)
  case Nil
  then show ?case by (auto simp: incumbent_def split: prod.splits if_splits)
next
  case (Cons i order)
  show ?case
  proof (cases "fst (evaluate st ctx) = u64_max")
    case True
    with Cons.prems(3) obtain u where u: "apply_note st i (ctx_notes ctx ! i) = Ret u"
      "greedy_loop ctx u order = Ret (Some (st', c, p))"
      by (auto split: prod.splits)
    have i: "i < length (ctx_notes ctx)" "i \<notin> set (selected st)"
      using Cons.prems(2) by (auto simp: valid_sel_def)
    note g = good_apply [OF assms(1) Cons.prems(1) i u(1)]
    have "valid_sel ctx (selected u @ order)" using Cons.prems(2) g(1) by simp
    then show ?thesis using Cons.IH g(2) u(2) by blast
  next
    case False
    then show ?thesis using Cons.prems(1,3) by (auto simp: incumbent_def split: prod.splits if_splits)
  qed
qed

lemma apply_all_good:
  assumes "bounded ctx" and "good ctx st" and "valid_sel ctx (selected st @ order)"
    and "run_fold (\<lambda>i s. apply_note s i (ctx_notes ctx ! i)) order st = Ret st'"
  shows "st' = spec_state ctx (selected st @ order)"
  using assms(2-4)
proof (induction order arbitrary: st)
  case Nil
  then show ?case by (simp add: good_def)
next
  case (Cons i order)
  then obtain u where u: "apply_note st i (ctx_notes ctx ! i) = Ret u"
    "run_fold (\<lambda>i s. apply_note s i (ctx_notes ctx ! i)) order u = Ret st'" by auto
  have i: "i < length (ctx_notes ctx)" "i \<notin> set (selected st)"
    using Cons.prems(2) by (auto simp: valid_sel_def)
  note g = good_apply [OF assms(1) Cons.prems(1) i u(1)]
  then show ?case using Cons.IH [of u] Cons.prems(2) u(2) by simp
qed

lemma valid_orders: "valid_sel ctx (greedy_order ctx)" "valid_sel ctx [0..<length (ctx_notes ctx)]"
  by (auto simp: valid_sel_def greedy_order_def)

lemma selected_initial [simp]: "selected (initial_state ctx) = []"
  by (simp add: initial_state_def)

lemma baseline_sound:
  assumes "bounded ctx" and "baseline ctx = Ret (Some (st, c, p))"
  shows "incumbent ctx st c (fee_for_change_pool st ctx p) p"
proof (cases "greedy_solution ctx")
  case Panic
  then show ?thesis using assms(2) by (simp add: baseline_def)
next
  case (Ret g)
  show ?thesis
  proof (cases g)
    case None
    let ?all = "spec_state ctx [0..<length (ctx_notes ctx)]"
    from assms(2) Ret None have
      f: "run_fold (\<lambda>i s. apply_note s i (ctx_notes ctx ! i)) [0..<length (ctx_notes ctx)] (initial_state ctx) = Ret st"
      and e: "evaluate st ctx = (c, p)" "c \<noteq> u64_max"
      by (auto simp: baseline_def Let_def split_beta split: if_splits)
    have "st = ?all" using apply_all_good [OF assms(1) good_initial [OF assms(1)] _ f] valid_orders(2) by simp
    then show ?thesis using valid_orders(2) e by (simp add: incumbent_def)
  next
    case (Some r)
    then show ?thesis using assms(2) Ret
        greedy_loop_sound [OF assms(1) good_initial [OF assms(1)], of "greedy_order ctx"] valid_orders(1)
      by (simp add: baseline_def greedy_solution_def)
  qed
qed

lemma start_search_inv:
  assumes "bounded ctx" and "incumbent ctx st c (fee_for_change_pool st ctx p) p"
    and "start_search ctx (st, c, p) = Ret s"
  shows "search_inv ctx (c, fee_for_change_pool st ctx p) s"
  using assms good_initial [OF assms(1)]
  by (auto simp: start_search_def search_inv_def heap_push_def heap_sorted_def)

lemma solve_context_sound:
  assumes "bounded ctx" and "solve_context ctx late = Ret (Some sel)"
  obtains st c p s where "baseline ctx = Ret (Some (st, c, p))"
    and "search_inv ctx (c, fee_for_change_pool st ctx p) s" and "sel = build_selection ctx s"
proof -
  from assms(2) obtain st c p s0 s where
    b: "baseline ctx = Ret (Some (st, c, p))" and "start_search ctx (st, c, p) = Ret s0"
    and "search_loop ctx budget_default late 0 s0 = Ret s" and "sel = build_selection ctx s"
    by (auto simp: solve_context_def split: option.splits)
  with start_search_inv [OF assms(1) baseline_sound [OF assms(1) b]] search_loop_inv [OF assms(1)]
  show thesis by (metis that)
qed

section \<open>Outputs\<close>

definition out_sum :: "(Output \<Rightarrow> bool) \<Rightarrow> Output list \<Rightarrow> nat" where
  "out_sum P os = sum_list (map so_amount (filter P os))"

definition out_count :: "(Output \<Rightarrow> bool) \<Rightarrow> Output list \<Rightarrow> nat" where
  "out_count P os = length (filter P os)"

definition spec_aggregates :: "nat \<Rightarrow> Output list \<Rightarrow> Aggregates" where
  "spec_aggregates n os =
    \<lparr>ag_output_amounts = map (\<lambda>p. out_sum (\<lambda>o'. so_pool o' = p) os) [0..<N_POOLS],
     ag_n_outputs = map (\<lambda>p. out_count (\<lambda>o'. so_pool o' = p) os) [0..<N_POOLS],
     ag_asset_output_amounts = map (\<lambda>a. out_sum (\<lambda>o'. so_asset o' = a) os) [0..<n],
     ag_orchard_asset_outputs = map (\<lambda>a. out_count (\<lambda>o'. so_pool o' = 2 \<and> so_asset o' = a) os) [0..<n]\<rparr>"

lemma out_sum_snoc [simp]: "out_sum P (os @ [x]) = out_sum P os + (if P x then so_amount x else 0)"
  by (simp add: out_sum_def)

lemma out_count_snoc [simp]: "out_count P (os @ [x]) = out_count P os + (if P x then 1 else 0)"
  by (simp add: out_count_def)

lemma out_sum_le: "out_sum P os \<le> sum_list (map so_amount os)"
  by (induction os) (auto simp: out_sum_def)

lemma out_count_le: "out_count P os \<le> length os"
  by (simp add: out_count_def)

definition small_outputs :: "Output list \<Rightarrow> bool" where
  "small_outputs os \<longleftrightarrow> sum_list (map so_amount os) < 2 ^ 61 \<and> length os < 2 ^ 32"

lemma aggregate_output_spec:
  assumes "small_outputs (os @ [x])" and "so_asset x < n"
  shows "aggregate_output x (spec_aggregates n os) = Ret (spec_aggregates n (os @ [x]))"
proof -
  have s: "out_sum P os + (if P x then so_amount x else 0) < 2 ^ 61"
    and c: "out_count P os + (if P x then 1 else 0) < 2 ^ 32" for P
    using assms(1) out_sum_le [of P "os @ [x]"] out_count_le [of P "os @ [x]"]
    by (simp_all add: small_outputs_def)
  let ?ag = "spec_aggregates n os" and ?ag' = "spec_aggregates n (os @ [x])"
  have 1: "(ag_output_amounts ?ag)[so_pool x := u64_sat_add (ag_output_amounts ?ag ! so_pool x) (so_amount x)]
      = ag_output_amounts ?ag'" if "so_pool x < N_POOLS"
    using that s [of "\<lambda>o'. so_pool o' = so_pool x"]
    by (auto simp: spec_aggregates_def u64_sat_add_exact nth_list_update intro!: nth_equalityI)
  have 2: "(ag_n_outputs ?ag)[so_pool x := u32_sat_add (ag_n_outputs ?ag ! so_pool x) 1] = ag_n_outputs ?ag'"
    if "so_pool x < N_POOLS"
    using that c [of "\<lambda>o'. so_pool o' = so_pool x"]
    by (auto simp: spec_aggregates_def u32_sat_add_exact nth_list_update intro!: nth_equalityI)
  have 3: "(if so_pool x = 2 then (ag_orchard_asset_outputs ?ag)[so_asset x :=
        u32_sat_add (ag_orchard_asset_outputs ?ag ! so_asset x) 1] else ag_orchard_asset_outputs ?ag)
      = ag_orchard_asset_outputs ?ag'"
    using assms(2) c [of "\<lambda>o'. so_pool o' = 2 \<and> so_asset o' = so_asset x"]
    by (auto simp: spec_aggregates_def u32_sat_add_exact nth_list_update intro!: nth_equalityI)
  have 4: "(ag_asset_output_amounts ?ag)[so_asset x := u64_add (ag_asset_output_amounts ?ag ! so_asset x) (so_amount x)]
      = ag_asset_output_amounts ?ag'"
    using assms(2) s [of "\<lambda>o'. so_asset o' = so_asset x"]
    by (auto simp: spec_aggregates_def u64_add_exact nth_list_update intro!: nth_equalityI)
  have 5: "ag_output_amounts ?ag = ag_output_amounts ?ag'" "ag_n_outputs ?ag = ag_n_outputs ?ag'"
    "ag_orchard_asset_outputs ?ag = ag_orchard_asset_outputs ?ag'" if "\<not> so_pool x < N_POOLS"
    using that by (auto simp: spec_aggregates_def N_POOLS_def)
  have "so_asset x < length (ag_asset_output_amounts ?ag)" using assms(2) by (simp add: spec_aggregates_def)
  then show ?thesis
    unfolding aggregate_output_def Let_def
    by (auto simp: 1 2 3 4 5 simp del: One_nat_def intro!: Aggregates.equality)
qed

lemma aggregate_fold:
  assumes "small_outputs (os @ xs)" and "\<forall>x \<in> set xs. so_asset x < n"
  shows "run_fold aggregate_output xs (spec_aggregates n os) = Ret (spec_aggregates n (os @ xs))"
  using assms
proof (induction xs arbitrary: os)
  case Nil
  then show ?case by simp
next
  case (Cons x xs)
  have "small_outputs (os @ [x])" using Cons.prems(1) by (auto simp: small_outputs_def)
  then show ?case using Cons.prems Cons.IH [of "os @ [x]"] by (simp add: aggregate_output_spec)
qed

definition outputs_ok :: "Output list \<Rightarrow> bool" where
  "outputs_ok os \<longleftrightarrow> small_outputs os \<and> (\<forall>x \<in> set os. so_asset x < 255)"

lemma fold_max_bound: "(\<forall>x \<in> set xs. x < b) \<Longrightarrow> m < b \<Longrightarrow> fold max xs m < (b :: nat)"
  by (induction xs arbitrary: m) auto

lemma fold_max_elem: "x \<in> set xs \<Longrightarrow> x \<le> fold max xs (m :: nat)"
  using fold_max_key [of x xs "\<lambda>x. x" m] by (simp add: max.commute)

lemma outputs_n_assets_ok:
  assumes "outputs_ok os"
  shows "0 < outputs_n_assets os" and "outputs_n_assets os \<le> 255" and "x \<in> set os \<Longrightarrow> so_asset x < outputs_n_assets os"
proof -
  have "fold max (map so_asset os) 0 < 255"
    using assms by (intro fold_max_bound) (auto simp: outputs_ok_def)
  then have e: "outputs_n_assets os = Suc (fold max (map so_asset os) 0)" by (simp add: outputs_n_assets_def)
  then show "0 < outputs_n_assets os" by simp
  show "outputs_n_assets os \<le> 255" using \<open>fold max (map so_asset os) 0 < 255\<close> e by simp
  show "x \<in> set os \<Longrightarrow> so_asset x < outputs_n_assets os"
    unfolding e by (simp add: fold_max_elem less_Suc_eq_le)
qed

lemma aggregate_outputs_spec:
  assumes "outputs_ok os"
  shows "aggregate_outputs os = Ret (spec_aggregates (outputs_n_assets os) os)"
proof -
  have "spec_aggregates n [] = \<lparr>ag_output_amounts = replicate N_POOLS 0, ag_n_outputs = replicate N_POOLS 0,
       ag_asset_output_amounts = replicate n 0, ag_orchard_asset_outputs = replicate n 0\<rparr>" for n
    by (auto simp: spec_aggregates_def out_sum_def out_count_def map_replicate_trivial)
  then show ?thesis
    using aggregate_fold [of "[]" os] assms outputs_n_assets_ok(3) [OF assms]
    by (simp add: aggregate_outputs_def outputs_ok_def)
qed

end
