(* ===== verification/Solver.thy ===== *)
theory Solver
  imports Solver_Props
begin

text \<open>
  The theorems of the note selection solver (\<open>src/rust/rlz/src/pay/solve.rs\<close>): what a selection
  guarantees, that the search returns, and how its fee relates to the ZIP-317 rule.
\<close>

definition notes_ok :: "Note list \<Rightarrow> bool" where
  "notes_ok ns \<longleftrightarrow> sum_list (map sn_amount ns) < 2 ^ 61 \<and> length ns < 2 ^ 32"

definition ctx_of :: "Note list \<Rightarrow> Output list \<Rightarrow> nat \<Rightarrow> bool \<Rightarrow> bool \<Rightarrow> nat \<Rightarrow> Context" where
  "ctx_of notes outputs unit mig rpf fra =
    build_context (sort_notes (dust_filter unit notes)) outputs
      (spec_aggregates (outputs_n_assets outputs) outputs) unit mig rpf fra"

lemma select_notes_ctx:
  "outputs_ok outputs \<Longrightarrow>
   select_notes late notes outputs unit mig rpf fra =
     (if dust_filter unit notes = [] then Ret None
      else solve_context (ctx_of notes outputs unit mig rpf fra) late)"
  by (simp add: select_notes_def aggregate_outputs_spec ctx_of_def)

lemma ctx_of_simps [simp]:
  "ctx_notes (ctx_of notes outputs unit mig rpf fra) = sort_notes (dust_filter unit notes)"
  "n_assets (ctx_of notes outputs unit mig rpf fra) = outputs_n_assets outputs"
  "f_unit (ctx_of notes outputs unit mig rpf fra) = unit"
  "ctx_migration (ctx_of notes outputs unit mig rpf fra) = mig"
  "recipient_pays_fee (ctx_of notes outputs unit mig rpf fra) = rpf"
  "first_recipient_amount (ctx_of notes outputs unit mig rpf fra) = fra"
  by (simp_all add: ctx_of_def build_context_def)

lemma ctx_of_nth:
  "a < outputs_n_assets outputs \<Longrightarrow>
   asset_output_amounts (ctx_of notes outputs unit mig rpf fra) ! a = out_sum (\<lambda>o'. so_asset o' = a) outputs"
  "p < N_POOLS \<Longrightarrow>
   output_amounts (ctx_of notes outputs unit mig rpf fra) ! p = out_sum (\<lambda>o'. so_pool o' = p) outputs"
  "n_outputs (ctx_of notes outputs unit mig rpf fra) = map (\<lambda>p. out_count (\<lambda>o'. so_pool o' = p) outputs) [0..<N_POOLS]"
  by (simp_all add: ctx_of_def build_context_def spec_aggregates_def)

lemma mset_sort_dust: "mset (sort_notes (dust_filter unit notes)) = mset (dust_filter unit notes)"
  by (simp add: sort_notes_def)

lemma bounded_ctx_of:
  assumes "notes_ok notes" and "outputs_ok outputs"
  shows "bounded (ctx_of notes outputs unit mig rpf fra)"
proof -
  let ?d = "dust_filter unit notes"
  have "mset ?d \<subseteq># mset notes" by (simp add: dust_filter_def)
  then have "sum_of (\<lambda>_. True) ?d \<le> sum_list (map sn_amount notes)" and "length ?d \<le> length notes"
    using sum_of_le by (blast, metis size_mset size_mset_mono)
  moreover have "sum_list (map sn_amount (sort_notes ?d)) = sum_list (map sn_amount ?d)"
    by (metis mset_map mset_sort_dust sum_mset_sum_list)
  moreover have "length (sort_notes ?d) = length ?d" by (simp add: sort_notes_def)
  moreover have "out_sum P outputs < 2 ^ 61" for P
    using assms(2) out_sum_le [of P outputs] by (simp add: outputs_ok_def small_outputs_def)
  ultimately show ?thesis
    using assms(1) by (auto simp: bounded_def notes_ok_def sum_of_def ctx_of_nth)
qed

text \<open>What an incumbent guarantees.\<close>

lemma fee_u64: "fee_for_change_pool st ctx cp < 2 ^ 64"
  by (simp add: fee_for_change_pool_def compute_fee_def Let_def u64_mul_def)

lemma asset_sums_spec:
  "a < n_assets ctx \<Longrightarrow> asset_sums (spec_state ctx sel) ! a = sum_of (\<lambda>n. sn_asset n = a) (sel_notes ctx sel)"
  by (simp add: spec_state_def Let_def)

lemma incumbent_covers:
  assumes b: "bounded ctx" and i: "incumbent ctx st c f p" and n: "0 < n_assets ctx"
    and o: "asset_output_amounts ctx ! 0 < 2 ^ 61"
  defines "ns \<equiv> sel_notes ctx (selected st)"
  shows "asset_output_amounts ctx ! 0 + (if recipient_pays_fee ctx then 0 else f)
           \<le> sum_of (\<lambda>n. sn_asset n = 0) ns"
    and "recipient_pays_fee ctx \<Longrightarrow> f \<le> first_recipient_amount ctx"
    and "0 < a \<Longrightarrow> a < n_assets ctx \<Longrightarrow> asset_output_amounts ctx ! a \<le> sum_of (\<lambda>n. sn_asset n = a) ns"
    and "p < N_POOLS" and "f = fee_for_change_pool st ctx p"
proof -
  from i have g: "valid_sel ctx (selected st)" "st = spec_state ctx (selected st)"
    and e: "evaluate st ctx = (c, p)" "c \<noteq> u64_max" and f: "f = fee_for_change_pool st ctx p"
    by (auto simp: incumbent_def good_def)
  note ok = evaluate_feasible [OF e]
  have sums: "asset_sums st ! a = sum_of (\<lambda>n. sn_asset n = a) ns" if "a < n_assets ctx" for a
    unfolding ns_def using that by (subst g(2)) (simp add: asset_sums_spec)
  have "asset_sums st ! 0 < 2 ^ 61" using sums [OF n] sum_of_bounded(1) [OF b g(1)] by (simp add: ns_def)
  then show "asset_output_amounts ctx ! 0 + (if recipient_pays_fee ctx then 0 else f)
      \<le> sum_of (\<lambda>n. sn_asset n = 0) ns"
    using ok(2) f sums [OF n]
    by (auto simp: change_pool_ok_def is_feasible_def zec_needed_def u64_sat_add_def u64_max_def Let_def not_less)
  show "recipient_pays_fee ctx \<Longrightarrow> f \<le> first_recipient_amount ctx"
    using ok(2) f by (auto simp: change_pool_ok_def Let_def)
  show "0 < a \<Longrightarrow> a < n_assets ctx \<Longrightarrow> asset_output_amounts ctx ! a \<le> sum_of (\<lambda>n. sn_asset n = a) ns"
    using ok(2) sums by (fastforce simp: change_pool_ok_def is_feasible_def list_all_iff Let_def not_less)
  show "p < N_POOLS" "f = fee_for_change_pool st ctx p" using ok(1) f by simp_all
qed

lemma out_sum_no_asset:
  assumes "outputs_ok outputs" and "outputs_n_assets outputs \<le> a"
  shows "out_sum (\<lambda>o'. so_asset o' = a) outputs = 0"
proof -
  have "filter (\<lambda>o'. so_asset o' = a) outputs = []"
    using outputs_n_assets_ok(3) [OF assms(1)] assms(2) by (fastforce simp: filter_empty_conv)
  then show ?thesis by (simp add: out_sum_def)
qed

section \<open>The search returns\<close>

definition wf_notes :: "Context \<Rightarrow> bool" where
  "wf_notes ctx \<longleftrightarrow> (\<forall>n \<in> set (ctx_notes ctx). sn_pool n < N_POOLS \<and> sn_asset n < n_assets ctx)"

lemma lower_bound_returns:
  assumes "wf_notes ctx"
  shows "\<exists>b. lower_bound st ctx = Ret b"
proof -
  have "\<exists>t. remaining_by_pool ctx st = Ret t \<and> True"
    unfolding remaining_by_pool_def
    by (rule run_fold_returns) (use assms in \<open>auto simp: wf_notes_def in_set_enumerate_eq\<close>)
  then show ?thesis by (auto simp: lower_bound_def lower_bound_privacy_def)
qed

lemma apply_returns:
  assumes "bounded ctx" and "wf_notes ctx" and "good ctx st"
    and "i < length (ctx_notes ctx)" and "i \<notin> set (selected st)"
  shows "apply_note st i (ctx_notes ctx ! i) = Ret (spec_state ctx (selected st @ [i]))"
proof -
  have "valid_sel ctx (selected st @ [i])" "st = spec_state ctx (selected st)"
    using assms(3-5) by (auto simp: good_def valid_sel_def)
  then show ?thesis using apply_spec [OF assms(1), of "selected st" i] assms(2,4)
    by (metis nth_mem wf_notes_def)
qed

lemma push_child_returns:
  assumes "bounded ctx" and "wf_notes ctx" and "good ctx st" and "(i, n) \<in> set (remaining_notes ctx st)"
  shows "\<exists>s'. push_child ctx st (i, n) s = Ret s'"
proof -
  have "apply_note st i n = Ret (spec_state ctx (selected st @ [i]))"
    using apply_returns [OF assms(1-3)] remaining_in [OF assms(4)] by blast
  moreover obtain b where "lower_bound (spec_state ctx (selected st @ [i])) ctx = Ret b"
    using lower_bound_returns [OF assms(2)] by blast
  ultimately show ?thesis by (auto simp: push_child_def Let_def split: option.split)
qed

lemma search_step_returns:
  assumes "bounded ctx" and "wf_notes ctx" and "good ctx (qi_state it)"
  shows "\<exists>s'. search_step ctx b it s = Ret s'"
proof -
  let ?st = "qi_state it"
  have "\<exists>t. run_fold (push_child ctx ?st)
      (top_k_by_local_heuristic (remaining_notes ctx ?st) ?st (beam_width b)) s' = Ret t \<and> True" for s'
  proof (rule run_fold_returns, rule TrueI)
    fix x s
    assume "x \<in> set (top_k_by_local_heuristic (remaining_notes ctx ?st) ?st (beam_width b))"
    then show "\<exists>t. push_child ctx ?st x s = Ret t \<and> True"
      using push_child_returns [OF assms] set_top_k by (metis prod.collapse subsetD)
  qed
  then show ?thesis by (auto simp: search_step_def Let_def)
qed

lemma search_loop_returns:
  assumes "bounded ctx" and "wf_notes ctx" and "search_inv ctx base s"
  shows "\<exists>s'. search_loop ctx b late k s = Ret s'"
  using assms
proof (induction ctx b late k s rule: search_loop.induct)
  case (1 ctx b late k s)
  show ?case
  proof (cases "heap_pop (heap s)")
    case None
    then show ?thesis by (simp add: search_loop.simps [of ctx b late k s])
  next
    case (Some r)
    obtain it h where r: "r = (it, h)" by force
    have p: "good ctx (qi_state it)" "search_inv ctx base (s\<lparr>heap := h\<rparr>)"
      using bheap.pop_all [of "heap s" "\<lambda>j. good ctx (qi_state j)" it h] "1.prems"(3) Some r
      by (auto simp: search_inv_def)
    obtain t where t: "search_step ctx b it (s\<lparr>heap := h\<rparr>) = Ret t"
      using search_step_returns [OF "1.prems"(1,2) p(1)] by blast
    show ?thesis
    proof (cases "max_nodes b < Suc k \<or> late (Suc k)")
      case True
      then show ?thesis using Some r by (simp add: search_loop.simps [of ctx b late k s])
    next
      case False
      have "search_inv ctx base t" using search_step_inv [OF "1.prems"(1) p(2,1) t] .
      then show ?thesis using "1.IH" [OF Some r [symmetric] False t "1.prems"(1,2)] Some r t False
        by (simp add: search_loop.simps [of ctx b late k s])
    qed
  qed
qed

lemma apply_all_returns:
  assumes "bounded ctx" and "wf_notes ctx" and "good ctx st" and "valid_sel ctx (selected st @ order)"
  shows "run_fold (\<lambda>i s. apply_note s i (ctx_notes ctx ! i)) order st
    = Ret (spec_state ctx (selected st @ order))"
  using assms(3,4)
proof (induction order arbitrary: st)
  case Nil
  then show ?case by (simp add: good_def)
next
  case (Cons i order)
  then have "i < length (ctx_notes ctx)" "i \<notin> set (selected st)" "valid_sel ctx (selected st @ [i])"
    by (auto simp: valid_sel_def)
  then show ?case using apply_returns [OF assms(1,2) Cons.prems(1)] Cons.prems Cons.IH
    by simp
qed

lemma greedy_loop_returns:
  assumes "bounded ctx" and "wf_notes ctx" and "good ctx st" and "valid_sel ctx (selected st @ order)"
  shows "\<exists>r. greedy_loop ctx st order = Ret r"
  using assms(3,4)
proof (induction order arbitrary: st)
  case Nil
  then show ?case by (simp split: prod.split)
next
  case (Cons i order)
  then have "i < length (ctx_notes ctx)" "i \<notin> set (selected st)" "valid_sel ctx (selected st @ [i])"
    by (auto simp: valid_sel_def)
  then show ?case
    using apply_returns [OF assms(1,2) Cons.prems(1)] Cons.prems Cons.IH [of "spec_state ctx (selected st @ [i])"]
    by (simp split: prod.split)
qed

lemma baseline_returns:
  assumes "bounded ctx" and "wf_notes ctx"
  obtains r where "baseline ctx = Ret r"
    and "r = None \<Longrightarrow> fst (evaluate (spec_state ctx [0..<length (ctx_notes ctx)]) ctx) = u64_max"
proof -
  note g = good_initial [OF assms(1)]
  obtain o' where "greedy_solution ctx = Ret o'"
    using greedy_loop_returns [OF assms g, of "greedy_order ctx"] valid_orders(1)
    by (auto simp: greedy_solution_def)
  moreover have "run_fold (\<lambda>i s. apply_note s i (ctx_notes ctx ! i)) [0..<length (ctx_notes ctx)]
      (initial_state ctx) = Ret (spec_state ctx [0..<length (ctx_notes ctx)])"
    using apply_all_returns [OF assms g] valid_orders(2) by simp
  ultimately have "baseline ctx = Ret (case o' of
      None \<Rightarrow> (let st = spec_state ctx [0..<length (ctx_notes ctx)]; e = evaluate st ctx
               in if fst e = u64_max then None else Some (st, e))
    | Some r \<Rightarrow> Some r)"
    by (simp add: baseline_def Let_def split_beta split: option.split)
  then show thesis by (rule that) (auto simp: Let_def split: option.splits if_splits)
qed

lemma solve_context_returns:
  assumes "bounded ctx" and "wf_notes ctx"
  obtains r where "solve_context ctx late = Ret r"
    and "r = None \<Longrightarrow> fst (evaluate (spec_state ctx [0..<length (ctx_notes ctx)]) ctx) = u64_max"
proof -
  obtain r where r: "baseline ctx = Ret r"
    "r = None \<Longrightarrow> fst (evaluate (spec_state ctx [0..<length (ctx_notes ctx)]) ctx) = u64_max"
    using baseline_returns [OF assms] by metis
  show thesis
  proof (cases r)
    case None
    then show ?thesis using r that by (simp add: solve_context_def)
  next
    case (Some t)
    then obtain st c p where t: "t = (st, c, p)" using prod_cases3 by blast
    obtain lb where "lower_bound (initial_state ctx) ctx = Ret lb"
      using lower_bound_returns [OF assms(2)] by blast
    then obtain s0 where s0: "start_search ctx (st, c, p) = Ret s0" by (simp add: start_search_def)
    have "search_inv ctx (c, fee_for_change_pool st ctx p) s0"
      using start_search_inv [OF assms(1) baseline_sound [OF assms(1)] s0] r(1) Some t by simp
    then obtain s where "search_loop ctx budget_default late 0 s0 = Ret s"
      using search_loop_returns [OF assms] by blast
    then show ?thesis using that r(1) Some t s0 by (simp add: solve_context_def)
  qed
qed

lemma shielded_pools: "[1..<N_POOLS] = [1, 2, 3]"
  by (simp add: N_POOLS_def upt_rec numeral_eq_Suc)

lemma turnstile_small:
  assumes b: "bounded ctx" and g: "good ctx st" and n: "0 < n_assets ctx"
  shows "turnstile st ctx cp < u64_max"
proof -
  let ?ns = "sel_notes ctx (selected st)"
  have st: "st = spec_state ctx (selected st)" and v: "valid_sel ctx (selected st)"
    using g by (simp_all add: good_def)
  note sum = sum_of_bounded(1) [OF b v]
  have out: "p < 4 \<Longrightarrow> output_amounts ctx ! p < 2 ^ 61" for p using b by (simp add: bounded_def N_POOLS_def)
  have t: "tin st < 2 ^ 61" "tout st < 2 ^ 61" "asset_sums st ! 0 < 2 ^ 61"
    using sum n out [of 0] by (subst st, simp add: spec_state_def Let_def)+
  have bal: "\<bar>balance st ! p\<bar> < 2 ^ 61" if "p < 4" for p
    using sum [of "\<lambda>n. sn_pool n = p"] out [OF that] that
    by (subst st) (auto simp: spec_state_def Let_def pool_balance_def N_POOLS_def abs_less_iff)
  define ch where "ch = asset_sums st ! 0 - zec_needed ctx (fee_for_change_pool st ctx cp)"
  have ch: "ch < 2 ^ 61" using t(3) by (simp add: ch_def)
  define w where "w p = (if p = cp then unsigned_abs (i64_sub (balance st ! p) (as_i64 ch))
    else unsigned_abs (balance st ! p))" for p
  have w: "w p < (if p = cp then 2 ^ 62 else 2 ^ 61)" if "p < 4" for p
  proof -
    have "i64_sub (balance st ! p) (as_i64 ch) = balance st ! p - int ch"
      using bal [OF that] ch unfolding i64_sub_def by (simp add: as_i64_exact i64_wrap_exact)
    then show ?thesis using bal [OF that] ch by (auto simp: unsigned_abs_def w_def)
  qed
  have s: "sum_list (map w [1..<N_POOLS]) < 2 ^ 63"
    using w [of 1] w [of 2] w [of 3] unfolding shielded_pools by (auto split: if_splits)
  have "turnstile st ctx cp = u64_add (u64_add (tin st) (tout st)) (u64_sum (map w [1..<N_POOLS]))"
    unfolding turnstile_def Let_def sat_sub_nat ch_def [symmetric] w_def ..
  also have "u64_sum (map w [1..<N_POOLS]) = sum_list (map w [1..<N_POOLS])"
    using s by (intro u64_sum_exact) simp
  finally show ?thesis using t(1,2) s by (simp add: u64_add_exact u64_max_def)
qed

section \<open>The fee\<close>

lemma shielded_actions_zip317: "shielded_actions i o' = zip317_padded i o'"
  by (auto simp: shielded_actions_def zip317_padded_def)

lemma compute_fee_zip317:
  assumes "length outs = 4" and "cp < 4" and "\<And>p. p < 4 \<Longrightarrow> ins ! p < 2 ^ 32"
    and "\<And>p. p < 4 \<Longrightarrow> outs ! p < 2 ^ 32 - 1"
  shows "compute_fee ins outs cp COST_PER_ACTION mig None = zip317_fee mig ins (outs[cp := outs ! cp + 1])"
proof -
  let ?o = "outs[cp := outs ! cp + 1]"
  have o': "?o ! p < 2 ^ 32" if "p < 4" for p
    using assms(1) assms(4) [OF that] that by (cases "p = cp") (auto simp: nth_list_update)
  have sat: "u32_sat_add (outs ! cp) 1 = outs ! cp + 1"
    using assms(4) [OF assms(2)] by (simp add: u32_sat_add_exact)
  have pad: "zip317_padded (ins ! p) (?o ! p) < 2 ^ 32" if "p < 4" for p
    using assms(3) [OF that] o' [OF that] by (simp add: zip317_padded_def)
  have orch: "(if 0 < ins ! 2 \<or> 0 < ?o ! 2 then if mig then max (u64_add (ins ! 2) (?o ! 2)) 2
        else max (max (ins ! 2) (?o ! 2)) 2 else 0)
      = (if mig then if ins ! 2 = 0 \<and> ?o ! 2 = 0 then 0 else max (ins ! 2 + ?o ! 2) 2
        else zip317_padded (ins ! 2) (?o ! 2))" (is "_ = ?orch")
    using assms(3) [of 2] o' [of 2] by (auto simp: zip317_padded_def u64_add_exact)
  have bnd: "?orch < 2 ^ 34" using assms(3) [of 2] o' [of 2] pad [of 2] by auto
  have t: "max (ins ! 0) (?o ! 0) < 2 ^ 32" using assms(3) [of 0] o' [of 0] by simp
  have pads: "zip317_padded (ins ! 1) (?o ! 1) < 2 ^ 32" "zip317_padded (ins ! 3) (?o ! 3) < 2 ^ 32"
    by (rule pad, simp)+
  have actions: "zip317_actions mig ins ?o = max (ins ! 0) (?o ! 0) + zip317_padded (ins ! 1) (?o ! 1) + ?orch
      + zip317_padded (ins ! 3) (?o ! 3)"
    unfolding zip317_actions_def ..
  have exact: "u64_add (u64_add (u64_add a b) c) d = a + b + c + d"
    "max (a + b + c + d) 2 * COST_PER_ACTION < 2 ^ 64"
    if "a < 2 ^ 32" "b < 2 ^ 32" "c < 2 ^ 34" "d < 2 ^ 32" for a b c d :: nat
    using that by (simp_all add: u64_add_exact COST_PER_ACTION_def max_def)
  show ?thesis
    unfolding compute_fee_def Let_def option.case sat orch shielded_actions_zip317 GRACE_ACTIONS_def zip317_fee_def
      actions
    unfolding exact(1) [OF t pads(1) bnd pads(2)]
    by (rule u64_mul_exact [OF exact(2) [OF t pads(1) bnd pads(2)]])
qed

section \<open>Theorems\<close>

lemma zec_outputs_one_asset:
  assumes "\<forall>o' \<in> set outputs. so_asset o' = 0"
  shows "outputs_n_assets outputs = 1"
proof -
  have "fold max (map so_asset outputs) 0 < 1" using assms by (intro fold_max_bound) auto
  then show ?thesis by (simp add: outputs_n_assets_def)
qed

text \<open>The selection that a successful run returns, as an incumbent of its context.\<close>

lemma select_notes_incumbent:
  assumes "select_notes late notes outputs unit mig rpf fra = Ret (Some sel)"
    and "notes_ok notes" and "outputs_ok outputs"
  obtains st c where
    "incumbent (ctx_of notes outputs unit mig rpf fra) st c (sel_fee sel) (sel_change_pool sel)"
    and "sel_inputs sel = sel_notes (ctx_of notes outputs unit mig rpf fra) (selected st)"
proof -
  let ?ctx = "ctx_of notes outputs unit mig rpf fra"
  have b: "bounded ?ctx" using assms(2,3) by (rule bounded_ctx_of)
  have "solve_context ?ctx late = Ret (Some sel)"
    using assms(1) select_notes_ctx [OF assms(3)] by (simp split: if_splits)
  then obtain s where "\<exists>base. search_inv ?ctx base s" "sel = build_selection ?ctx s"
    using solve_context_sound [OF b] by metis
  then show thesis
    by (intro that [of "best_state s" "best_cost s"])
      (auto simp: search_inv_def build_selection_def sel_notes_def Let_def)
qed

lemma select_notes_guarantee:
  assumes "select_notes late notes outputs unit mig rpf fra = Ret (Some sel)"
    and "notes_ok notes" and "outputs_ok outputs"
  shows "mset (sel_inputs sel) \<subseteq># mset (dust_filter unit notes)"
    and "out_sum (\<lambda>o'. so_asset o' = 0) outputs + (if rpf then 0 else sel_fee sel)
        \<le> sum_of (\<lambda>n. sn_asset n = 0) (sel_inputs sel)"
    and "rpf \<Longrightarrow> sel_fee sel \<le> fra"
    and "0 < a \<Longrightarrow> out_sum (\<lambda>o'. so_asset o' = a) outputs \<le> sum_of (\<lambda>n. sn_asset n = a) (sel_inputs sel)"
    and "sel_change_pool sel < N_POOLS"
proof -
  let ?ctx = "ctx_of notes outputs unit mig rpf fra"
  obtain st c where i: "incumbent ?ctx st c (sel_fee sel) (sel_change_pool sel)"
    and inp: "sel_inputs sel = sel_notes ?ctx (selected st)"
    using select_notes_incumbent [OF assms] by blast
  note n = outputs_n_assets_ok(1) [OF assms(3)]
  have o': "asset_output_amounts ?ctx ! 0 < 2 ^ 61"
    using n assms(3) out_sum_le by (fastforce simp: ctx_of_nth outputs_ok_def small_outputs_def intro: le_less_trans)
  have "bounded ?ctx" and "0 < n_assets ?ctx" using bounded_ctx_of [OF assms(2,3)] n by simp_all
  note cov = incumbent_covers [OF this(1) i this(2) o']
  show "mset (sel_inputs sel) \<subseteq># mset (dust_filter unit notes)"
    using sel_notes_subset [of ?ctx "selected st"] i inp mset_sort_dust
    by (simp add: incumbent_def good_def)
  show "0 < a \<Longrightarrow> out_sum (\<lambda>o'. so_asset o' = a) outputs \<le> sum_of (\<lambda>n. sn_asset n = a) (sel_inputs sel)"
    using cov(3) [of a] out_sum_no_asset [OF assms(3), of a] inp
    by (cases "a < outputs_n_assets outputs") (auto simp: ctx_of_nth)
  show "out_sum (\<lambda>o'. so_asset o' = 0) outputs + (if rpf then 0 else sel_fee sel)
        \<le> sum_of (\<lambda>n. sn_asset n = 0) (sel_inputs sel)"
    "rpf \<Longrightarrow> sel_fee sel \<le> fra" "sel_change_pool sel < N_POOLS"
    using cov(1,2,4) inp n by (simp_all add: ctx_of_nth)
qed

text \<open>
  C11. A selection pays for the transaction: its inputs are distinct notes of the wallet that survive the
  dust filter, the ZEC inputs cover the ZEC outputs and, unless the recipient pays, the fee; when the
  recipient pays, the fee fits the first recipient's amount; every other asset's outputs are covered by
  inputs of that asset; and change goes to one of the four pools.
\<close>

theorem select_notes_sound:
  assumes "select_notes late notes outputs unit mig rpf fra = Ret (Some sel)"
    and "notes_ok notes" and "outputs_ok outputs"
  shows "mset (sel_inputs sel) \<subseteq># mset (dust_filter unit notes)
    \<and> out_sum (\<lambda>o'. so_asset o' = 0) outputs + (if rpf then 0 else sel_fee sel)
        \<le> sum_of (\<lambda>n. sn_asset n = 0) (sel_inputs sel)
    \<and> (rpf \<longrightarrow> sel_fee sel \<le> fra)
    \<and> (\<forall>a > 0. out_sum (\<lambda>o'. so_asset o' = a) outputs \<le> sum_of (\<lambda>n. sn_asset n = a) (sel_inputs sel))
    \<and> sel_change_pool sel < N_POOLS"
  using select_notes_guarantee [OF assms] by simp

lemma select_notes_fee:
  assumes "select_notes late notes outputs COST_PER_ACTION mig rpf fra = Ret (Some sel)"
    and "notes_ok notes" and "outputs_ok outputs" and "\<forall>o' \<in> set outputs. so_asset o' = 0"
    and "length outputs < 2 ^ 32 - 1"
  shows "sel_fee sel =
    zip317_fee mig (map (\<lambda>p. count_of (\<lambda>n. sn_pool n = p) (sel_inputs sel)) [0..<N_POOLS])
      (map (\<lambda>p. out_count (\<lambda>o'. so_pool o' = p) outputs + (if p = sel_change_pool sel then 1 else 0)) [0..<N_POOLS])"
proof -
  let ?ctx = "ctx_of notes outputs COST_PER_ACTION mig rpf fra" and ?cp = "sel_change_pool sel"
  let ?outs = "map (\<lambda>p. out_count (\<lambda>o'. so_pool o' = p) outputs) [0..<N_POOLS]"
  obtain st c where i: "incumbent ?ctx st c (sel_fee sel) ?cp"
    and inp: "sel_inputs sel = sel_notes ?ctx (selected st)"
    using select_notes_incumbent [OF assms(1-3)] by blast
  then have st: "st = spec_state ?ctx (selected st)" and v: "valid_sel ?ctx (selected st)"
    and fee: "sel_fee sel = fee_for_change_pool st ?ctx ?cp"
    and cp: "?cp < 4"
    using evaluate_feasible(1) by (auto simp: incumbent_def good_def N_POOLS_def)
  have one: "outputs_n_assets outputs = 1" using assms(4) by (rule zec_outputs_one_asset)
  have ins: "n_inputs st = map (\<lambda>p. count_of (\<lambda>n. sn_pool n = p) (sel_inputs sel)) [0..<N_POOLS]"
    unfolding inp by (subst st) (simp add: spec_state_def Let_def)
  have c: "count_of P (sel_inputs sel) < 2 ^ 32" for P
    unfolding inp using sum_of_bounded(2) [OF bounded_ctx_of [OF assms(2,3)] v] .
  have o': "out_count P outputs < 2 ^ 32 - 1" for P
    using out_count_le [of P outputs] assms(5) by (rule le_less_trans)
  have "sel_fee sel = compute_fee (n_inputs st) ?outs ?cp COST_PER_ACTION mig None"
    unfolding fee fee_for_change_pool_def using one by (simp add: ctx_of_nth zsa_orchard_actions_def)
  also have "\<dots> = zip317_fee mig (n_inputs st) (?outs[?cp := ?outs ! ?cp + 1])"
    using cp c o' by (intro compute_fee_zip317) (auto simp: ins N_POOLS_def)
  also have "?outs[?cp := ?outs ! ?cp + 1] = map (\<lambda>p. out_count (\<lambda>o'. so_pool o' = p) outputs
      + (if p = ?cp then 1 else 0)) [0..<N_POOLS]"
    using cp by (intro nth_equalityI) (auto simp: nth_list_update N_POOLS_def)
  finally show ?thesis by (simp add: ins)
qed


lemma select_notes_returns:
  assumes "notes_ok notes" and "outputs_ok outputs"
    and "\<forall>n \<in> set notes. sn_pool n < N_POOLS \<and> sn_asset n < outputs_n_assets outputs"
  shows "\<exists>r. select_notes late notes outputs unit mig rpf fra = Ret r
    \<and> (r = None \<longrightarrow> dust_filter unit notes = [] \<or>
        (\<forall>cp < N_POOLS. \<not> change_pool_ok
          (spec_state (ctx_of notes outputs unit mig rpf fra) [0..<length (dust_filter unit notes)])
          (ctx_of notes outputs unit mig rpf fra) cp))"
proof (cases "dust_filter unit notes = []")
  case True
  then show ?thesis by (simp add: select_notes_def)
next
  case False
  let ?ctx = "ctx_of notes outputs unit mig rpf fra"
  let ?all = "spec_state ?ctx [0..<length (ctx_notes ?ctx)]"
  note b = bounded_ctx_of [OF assms(1,2), of unit mig rpf fra]
  have w: "wf_notes ?ctx" using assms(3) by (auto simp: wf_notes_def sort_notes_def dust_filter_def)
  have len: "length (ctx_notes ?ctx) = length (dust_filter unit notes)" by (simp add: sort_notes_def)
  obtain r where r: "solve_context ?ctx late = Ret r" "r = None \<Longrightarrow> fst (evaluate ?all ?ctx) = u64_max"
    using solve_context_returns [OF b w] by metis
  have "turnstile ?all ?ctx cp < u64_max" for cp
  proof (rule turnstile_small [OF b])
    show "good ?ctx ?all" unfolding good_spec by (rule valid_orders(2))
    show "0 < n_assets ?ctx" using outputs_n_assets_ok(1) [OF assms(2)] by simp
  qed
  then have "r = None \<Longrightarrow> cp < N_POOLS \<Longrightarrow> \<not> change_pool_ok ?all ?ctx cp" for cp
    using evaluate_finite r(2) by metis
  then show ?thesis using r(1) False unfolding len by (auto simp: select_notes_ctx [OF assms(2)])
qed

text \<open>
  C12. The solver always returns: on notes of the four pools whose assets occur among the outputs it
  never panics, whatever the clock, and it answers \<open>None\<close> only when nothing survives the dust filter or
  spending every remaining note is infeasible for each change pool.
\<close>

theorem select_notes_total:
  assumes "notes_ok notes" and "outputs_ok outputs"
    and "\<forall>n \<in> set notes. sn_pool n < N_POOLS \<and> sn_asset n < outputs_n_assets outputs"
  shows "\<exists>r. select_notes late notes outputs unit mig rpf fra = Ret r
    \<and> (r = None \<longrightarrow> dust_filter unit notes = [] \<or>
        (\<forall>cp < N_POOLS. \<not> change_pool_ok
          (spec_state (ctx_of notes outputs unit mig rpf fra) [0..<length (dust_filter unit notes)])
          (ctx_of notes outputs unit mig rpf fra) cp))"
  using assms by (rule select_notes_returns)

text \<open>
  The search only improves on the greedy baseline: when taking the largest notes first is feasible,
  the returned selection is a feasible state whose turnstile value is no larger, and whose fee is no
  larger when the turnstile values tie.
\<close>

theorem solve_context_improves_greedy:
  assumes "bounded ctx" and "greedy_solution ctx = Ret (Some (st, c, p))"
    and "solve_context ctx late = Ret (Some sel)"
  shows "\<exists>st' c'. sel_inputs sel = sel_notes ctx (selected st')
    \<and> incumbent ctx st' c' (sel_fee sel) (sel_change_pool sel)
    \<and> (c', sel_fee sel) \<le> (c, fee_for_change_pool st ctx p)"
proof -
  have "baseline ctx = Ret (Some (st, c, p))" using assms(2) by (simp add: baseline_def)
  then obtain s where "search_inv ctx (c, fee_for_change_pool st ctx p) s" "sel = build_selection ctx s"
    using solve_context_sound [OF assms(1,3)] by (metis option.inject prod.inject run.inject)
  then show ?thesis
    by (intro exI [of _ "best_state s"] exI [of _ "best_cost s"])
      (auto simp: search_inv_def build_selection_def sel_notes_def Let_def)
qed

section \<open>A payable ZEC request is served\<close>

lemma sum_of_mset: "mset xs = mset ys \<Longrightarrow> sum_of P xs = sum_of P ys"
  unfolding sum_of_def by (metis mset_filter mset_map sum_mset_sum_list)

lemma count_of_mset: "mset xs = mset ys \<Longrightarrow> count_of P xs = count_of P ys"
  unfolding count_of_def by (metis mset_filter size_mset)

lemma sel_notes_all: "sel_notes ctx [0..<length (ctx_notes ctx)] = ctx_notes ctx"
  by (simp add: sel_notes_def map_nth)

lemma select_notes_pays:
  assumes "notes_ok notes" and "outputs_ok outputs" and "notes \<noteq> []"
    and wf: "\<forall>n \<in> set notes. sn_pool n < N_POOLS \<and> sn_asset n = 0 \<and> COST_PER_ACTION \<le> sn_amount n"
    and zec: "\<forall>o' \<in> set outputs. so_asset o' = 0" and "length outputs < 2 ^ 32 - 1" and cp: "cp < N_POOLS"
    and pay: "sum_list (map so_amount outputs)
      + zip317_fee mig (map (\<lambda>p. count_of (\<lambda>n. sn_pool n = p) notes) [0..<N_POOLS])
          (map (\<lambda>p. out_count (\<lambda>o'. so_pool o' = p) outputs + (if p = cp then 1 else 0)) [0..<N_POOLS])
      \<le> sum_list (map sn_amount notes)"
  shows "\<exists>sel. select_notes late notes outputs COST_PER_ACTION mig False fra = Ret (Some sel)"
proof -
  let ?ctx = "ctx_of notes outputs COST_PER_ACTION mig False fra"
  have dust: "dust_filter COST_PER_ACTION notes = notes" using wf by (simp add: dust_filter_def filter_id_conv)
  have one: "outputs_n_assets outputs = 1" using zec by (rule zec_outputs_one_asset)
  let ?all = "spec_state ?ctx [0..<length notes]"
  have len: "length (ctx_notes ?ctx) = length notes" by (simp add: dust sort_notes_def)
  have ms: "mset (sel_notes ?ctx [0..<length notes]) = mset notes"
    using sel_notes_all [of ?ctx] mset_sort_dust [of COST_PER_ACTION "notes"] unfolding len by (simp add: dust)
  have sums: "asset_sums ?all ! 0 = sum_list (map sn_amount notes)"
    using sum_of_mset [OF ms, of "\<lambda>n. sn_asset n = 0"] wf by (simp add: asset_sums_spec one sum_of_def)
  have ins: "n_inputs ?all = map (\<lambda>p. count_of (\<lambda>n. sn_pool n = p) notes) [0..<N_POOLS]"
    by (simp add: spec_state_def Let_def count_of_mset [OF ms])
  let ?outs = "map (\<lambda>p. out_count (\<lambda>o'. so_pool o' = p) outputs) [0..<N_POOLS]"
  have c: "count_of P notes < 2 ^ 32" for P
    using count_of_le [of "notes" "notes" P] assms(1) by (simp add: notes_ok_def)
  have o': "out_count P outputs < 2 ^ 32 - 1" for P
    using out_count_le [of P outputs] assms(6) by (rule le_less_trans)
  have "fee_for_change_pool ?all ?ctx cp = compute_fee (n_inputs ?all) ?outs cp COST_PER_ACTION mig None"
    unfolding fee_for_change_pool_def using one by (simp add: ctx_of_nth zsa_orchard_actions_def)
  also have "\<dots> = zip317_fee mig (n_inputs ?all) (?outs[cp := ?outs ! cp + 1])"
    using cp c o' by (intro compute_fee_zip317) (auto simp: ins N_POOLS_def)
  also have "?outs[cp := ?outs ! cp + 1] = map (\<lambda>p. out_count (\<lambda>o'. so_pool o' = p) outputs
      + (if p = cp then 1 else 0)) [0..<N_POOLS]"
    using cp by (intro nth_equalityI) (auto simp: nth_list_update N_POOLS_def)
  finally have fee: "sum_list (map so_amount outputs) + fee_for_change_pool ?all ?ctx cp \<le> sum_list (map sn_amount notes)"
    using pay ins by simp
  have out0: "asset_output_amounts ?ctx ! 0 = sum_list (map so_amount outputs)"
    using zec by (simp add: ctx_of_nth one out_sum_def)
  have "sum_list (map sn_amount notes) < 2 ^ 61" using assms(1) by (simp add: notes_ok_def)
  then have "change_pool_ok ?all ?ctx cp"
    using fee by (simp add: change_pool_ok_def is_feasible_def zec_needed_def out0 sums one u64_sat_add_exact Let_def)
  moreover obtain r where "select_notes late notes outputs COST_PER_ACTION mig False fra = Ret r"
    "r = None \<longrightarrow> (\<forall>cp < N_POOLS. \<not> change_pool_ok ?all ?ctx cp)"
    using select_notes_returns [OF assms(1,2), of late COST_PER_ACTION mig False fra] wf one assms(3) dust by auto
  ultimately show ?thesis using cp by (cases r) auto
qed

end
