(* ===== verification/Solver_Bound.thy ===== *)
theory Solver_Bound
  imports Solver "HOL-Library.Code_Target_Numeral"
begin

text \<open>
  The pruning bound of \<open>src/rust/rlz/src/pay/solve.rs\<close> on a concrete wallet: one Orchard note of
  1000000 zatoshi, one Sapling note of 1100000, and a payment of 100000 to an Orchard receiver. The
  facts are evaluated one call at a time; none of them depends on the clock.
\<close>

definition orchard_note :: Note where
  "orchard_note = \<lparr>sn_pool = 2, sn_amount = 1000000, sn_pool_index = 0, sn_asset = 0\<rparr>"

definition sapling_note :: Note where
  "sapling_note = \<lparr>sn_pool = 1, sn_amount = 1100000, sn_pool_index = 0, sn_asset = 0\<rparr>"

definition orchard_output :: Output where
  "orchard_output = \<lparr>so_pool = 2, so_amount = 100000, so_asset = 0\<rparr>"

definition ex_ctx :: "Note list \<Rightarrow> Context" where
  "ex_ctx ns = \<lparr>ctx_notes = ns, n_assets = 1, asset_output_amounts = [100000],
     output_amounts = [0, 0, 100000, 0], n_outputs = [0, 0, 1, 0], orchard_asset_outputs = [1],
     f_unit = 5000, ctx_migration = False, recipient_pays_fee = False, first_recipient_amount = 0\<rparr>"

definition ex_both :: Context where
  "ex_both = ex_ctx [sapling_note, orchard_note]"

definition ex_one :: Context where
  "ex_one = ex_ctx [orchard_note]"

definition st_none :: State where
  "st_none = initial_state ex_both"

definition st_sapling :: State where
  "st_sapling = apply_state st_none 0 sapling_note"

definition st_orchard :: State where
  "st_orchard = apply_state st_none 1 orchard_note"

definition st_only :: State where
  "st_only = apply_state st_none 0 orchard_note"

definition ex_aggregates :: Aggregates where
  "ex_aggregates = \<lparr>ag_output_amounts = [0, 0, 100000, 0], ag_n_outputs = [0, 0, 1, 0],
     ag_asset_output_amounts = [100000], ag_orchard_asset_outputs = [1]\<rparr>"

lemma ex_aggregate: "aggregate_outputs [orchard_output] = Ret ex_aggregates"
  by code_simp

lemma ex_n_assets: "outputs_n_assets [orchard_output] = 1"
  by code_simp

lemma ex_sort:
  "dust_filter 5000 [orchard_note, sapling_note] = [orchard_note, sapling_note]"
  "sort_notes [orchard_note, sapling_note] = [sapling_note, orchard_note]"
  "dust_filter 5000 [orchard_note] = [orchard_note]"
  "sort_notes [orchard_note] = [orchard_note]"
  by code_simp+

lemma ex_context:
  "build_context ns [orchard_output] ex_aggregates 5000 False False 0 = ex_ctx ns"
  by (simp add: build_context_def ex_n_assets ex_ctx_def ex_aggregates_def)

lemma ex_initial: "initial_state ex_both = st_none" "initial_state ex_one = st_none"
  by code_simp+

lemma ex_apply:
  "apply_note st_none 0 sapling_note = Ret st_sapling"
  "apply_note st_none 1 orchard_note = Ret st_orchard"
  "apply_note st_none 0 orchard_note = Ret st_only"
  by code_simp+

lemma ex_bounds:
  "lower_bound st_none ex_both = Ret 0" "lower_bound st_sapling ex_both = Ret 1100000"
  "lower_bound st_orchard ex_both = Ret 900000"
  "lower_bound st_none ex_one = Ret 0" "lower_bound st_only ex_one = Ret 900000"
  by code_simp+

lemma ex_fee:
  "fee_for_change_pool st_sapling ex_both 1 = 20000" "fee_for_change_pool st_only ex_one 2 = 10000"
  by code_simp+

lemma ex_eval_none: "evaluate st_none ex_both = (u64_max, 0)" "evaluate st_none ex_one = (u64_max, 0)"
  by code_simp+

lemma ex_eval_sapling: "evaluate st_sapling ex_both = (220000, 1)"
  by code_simp

lemma ex_eval_orchard: "evaluate st_orchard ex_both = (10000, 2)"
  by code_simp

lemma ex_eval_only: "evaluate st_only ex_one = (10000, 2)"
  by code_simp

lemma ex_remaining:
  "remaining_notes ex_both st_none = [(0, sapling_note), (1, orchard_note)]"
  "remaining_notes ex_one st_none = [(0, orchard_note)]"
  by code_simp+

lemma ex_top:
  "top_k_by_local_heuristic [(0, sapling_note), (1, orchard_note)] st_none 24 =
    [(0, sapling_note), (1, orchard_note)]"
  "top_k_by_local_heuristic [(0, orchard_note)] st_none 24 = [(0, orchard_note)]"
  by (simp_all add: top_k_by_local_heuristic_def)

lemma ex_no_overshoot: "asset_sums st_none ! 0 = 0"
  by code_simp

lemma ex_order: "greedy_order ex_both = [0, 1]" "greedy_order ex_one = [0]"
  by code_simp+

lemma ex_nth: "ctx_notes ex_both ! 0 = sapling_note" "ctx_notes ex_one ! 0 = orchard_note"
  by code_simp+

lemma ex_max: "(220000 :: nat) \<noteq> u64_max" "(10000 :: nat) \<noteq> u64_max"
  by code_simp+

lemmas ex_facts = ex_aggregate ex_n_assets ex_sort ex_context ex_initial ex_apply ex_bounds ex_fee
  ex_eval_none ex_eval_sapling ex_eval_orchard ex_eval_only ex_remaining ex_top ex_no_overshoot ex_order ex_nth ex_max

lemma ex_base:
  "baseline ex_both = Ret (Some (st_sapling, 220000, 1))"
  "baseline ex_one = Ret (Some (st_only, 10000, 2))"
  by (simp_all add: baseline_def greedy_solution_def ex_facts)

definition start_item :: QueueItem where
  "start_item = \<lparr>qi_bound = 0, qi_seq = 0, qi_state = st_none\<rparr>"

lemma ex_start:
  "start_search ex_both (st_sapling, 220000, 1) =
    Ret \<lparr>heap = [start_item], seen = Map.empty, seq = 0, best_state = st_sapling,
      best_cost = 220000, best_fee = 20000, best_pool = 1\<rparr>"
  "start_search ex_one (st_only, 10000, 2) =
    Ret \<lparr>heap = [start_item], seen = Map.empty, seq = 0, best_state = st_only,
      best_cost = 10000, best_fee = 10000, best_pool = 2\<rparr>"
  by (simp_all add: start_search_def ex_facts bound_can_beat_def heap_push_def start_item_def
      del: One_nat_def)

lemma ex_step:
  "best_cost s = 220000 \<Longrightarrow> search_step ex_both budget_default start_item s = Ret s"
  "best_cost s = 10000 \<Longrightarrow> search_step ex_one budget_default start_item s = Ret s"
  by (simp_all add: search_step_def bound_can_beat_def improve_def push_child_def budget_default_def
      start_item_def ex_facts del: One_nat_def)

text \<open>Popping the start state prunes every child, so the search ends with the baseline.\<close>

lemma ex_loop:
  assumes "heap s = [start_item]"
    and "search_step ctx b start_item (s\<lparr>heap := []\<rparr>) = Ret (s\<lparr>heap := []\<rparr>)"
  shows "search_loop ctx b late 0 s = Ret (s\<lparr>heap := []\<rparr>)"
  using assms
  by (subst search_loop.simps) (simp add: heap_pop_def search_loop.simps [of ctx b late "Suc 0"])

lemma ex_selected:
  "map ((!) (ctx_notes ex_both)) (selected st_sapling) = [sapling_note]"
  "map ((!) (ctx_notes ex_one)) (selected st_only) = [orchard_note]"
  by code_simp+

lemma ex_solve:
  "solve_context ex_both late = Ret (Some \<lparr>sel_inputs = [sapling_note],
     sel_per_pool_indices = [[], [0], [], []], sel_change_pool = 1, sel_fee = 20000\<rparr>)"
  "solve_context ex_one late = Ret (Some \<lparr>sel_inputs = [orchard_note],
     sel_per_pool_indices = [[], [], [0], []], sel_change_pool = 2, sel_fee = 10000\<rparr>)"
  by (simp_all add: solve_context_def ex_base ex_start ex_loop ex_step build_selection_def ex_selected
      N_POOLS_def upt_rec sapling_note_def orchard_note_def del: One_nat_def)

text \<open>
  The pruning bound is not a lower bound, and the solver loses a private solution to it. Alone,
  the Orchard note pays the Orchard receiver inside the pool: change pool 2, fee 10000, and only the
  fee crosses the turnstile. With a larger Sapling note beside it the same wallet answers with the
  Sapling note, fee 20000, moving 220000 zatoshi across pools: the state that holds the Orchard note
  costs 10000, but its bound is 900000, because the bound does not see that change can absorb a
  surplus, so it is pruned, whatever the clock.
\<close>

theorem lower_bound_prunes_private_solution:
  "evaluate st_orchard ex_both = (10000, 2) \<and> lower_bound st_orchard ex_both = Ret 900000
   \<and> select_notes late [orchard_note] [orchard_output] 5000 False False 0 =
       Ret (Some \<lparr>sel_inputs = [orchard_note], sel_per_pool_indices = [[], [], [0], []],
                   sel_change_pool = 2, sel_fee = 10000\<rparr>)
   \<and> select_notes late [orchard_note, sapling_note] [orchard_output] 5000 False False 0 =
       Ret (Some \<lparr>sel_inputs = [sapling_note], sel_per_pool_indices = [[], [0], [], []],
                   sel_change_pool = 1, sel_fee = 20000\<rparr>)
   \<and> evaluate st_sapling ex_both = (220000, 1)"
  by (simp add: select_notes_def ex_facts ex_solve flip: ex_both_def ex_one_def)

section \<open>A payable request that is refused\<close>

text \<open>
  Three notes, 60000 and 5000 in Sapling and 5000 in Orchard, and a payment of 55000 to a Sapling
  receiver: the two Sapling notes pay it at the minimum fee, but every set the greedy pass tries holds the
  Orchard note or lacks 5000 zatoshi.
\<close>

definition gap_big :: Note where
  "gap_big = \<lparr>sn_pool = 1, sn_amount = 60000, sn_pool_index = 0, sn_asset = 0\<rparr>"

definition gap_orchard :: Note where
  "gap_orchard = \<lparr>sn_pool = 2, sn_amount = 5000, sn_pool_index = 0, sn_asset = 0\<rparr>"

definition gap_small :: Note where
  "gap_small = \<lparr>sn_pool = 1, sn_amount = 5000, sn_pool_index = 1, sn_asset = 0\<rparr>"

definition gap_output :: Output where
  "gap_output = \<lparr>so_pool = 1, so_amount = 55000, so_asset = 0\<rparr>"

definition gap_ctx :: Context where
  "gap_ctx = \<lparr>ctx_notes = [gap_big, gap_orchard, gap_small], n_assets = 1, asset_output_amounts = [55000],
     output_amounts = [0, 55000, 0, 0], n_outputs = [0, 1, 0, 0], orchard_asset_outputs = [0],
     f_unit = 5000, ctx_migration = False, recipient_pays_fee = False, first_recipient_amount = 0\<rparr>"

definition gap_0 :: State where "gap_0 = initial_state gap_ctx"

definition gap_1 :: State where "gap_1 = apply_state gap_0 0 gap_big"

definition gap_2 :: State where "gap_2 = apply_state gap_1 1 gap_orchard"

definition gap_3 :: State where "gap_3 = apply_state gap_2 2 gap_small"

definition gap_pair :: State where "gap_pair = apply_state gap_1 2 gap_small"

lemma gap_aggregate:
  "aggregate_outputs [gap_output] = Ret \<lparr>ag_output_amounts = [0, 55000, 0, 0], ag_n_outputs = [0, 1, 0, 0],
     ag_asset_output_amounts = [55000], ag_orchard_asset_outputs = [0]\<rparr>"
  "outputs_n_assets [gap_output] = 1"
  by code_simp+

lemma gap_notes:
  "dust_filter 5000 [gap_big, gap_orchard, gap_small] = [gap_big, gap_orchard, gap_small]"
  "sort_notes [gap_big, gap_orchard, gap_small] = [gap_big, gap_orchard, gap_small]"
  "greedy_order gap_ctx = [0, 1, 2]"
  "ctx_notes gap_ctx ! 0 = gap_big" "ctx_notes gap_ctx ! 1 = gap_orchard" "ctx_notes gap_ctx ! 2 = gap_small"
  "length (ctx_notes gap_ctx) = 3" "initial_state gap_ctx = gap_0"
  by code_simp+

lemma gap_apply:
  "apply_note gap_0 0 gap_big = Ret gap_1" "apply_note gap_1 1 gap_orchard = Ret gap_2"
  "apply_note gap_2 2 gap_small = Ret gap_3"
  by code_simp+

lemma gap_eval_0: "evaluate gap_0 gap_ctx = (u64_max, 0)"
  by code_simp

lemma gap_eval_1: "evaluate gap_1 gap_ctx = (u64_max, 0)"
  by code_simp

lemma gap_eval_2: "evaluate gap_2 gap_ctx = (u64_max, 0)"
  by code_simp

lemma gap_eval_3: "evaluate gap_3 gap_ctx = (u64_max, 0)"
  by code_simp

lemma gap_eval_pair: "evaluate gap_pair gap_ctx = (10000, 1)"
  by code_simp

text \<open>
  \<open>select_notes\<close> can refuse a payment that the notes cover. Spending the two Sapling notes (65000)
  covers the output (55000) and its fee (10000), yet the answer is \<open>None\<close>: the search, which would find
  that pair, only starts once the greedy pass or the set of all notes is feasible, and both carry the
  Orchard note, which raises the fee by more than it brings.
\<close>

theorem select_notes_refuses_payable:
  "evaluate gap_pair gap_ctx = (10000, 1)
   \<and> build_context [gap_big, gap_orchard, gap_small] [gap_output]
       \<lparr>ag_output_amounts = [0, 55000, 0, 0], ag_n_outputs = [0, 1, 0, 0],
        ag_asset_output_amounts = [55000], ag_orchard_asset_outputs = [0]\<rparr> 5000 False False 0 = gap_ctx
   \<and> select_notes late [gap_big, gap_orchard, gap_small] [gap_output] 5000 False False 0 = Ret None"
proof -
  have c: "build_context [gap_big, gap_orchard, gap_small] [gap_output]
       \<lparr>ag_output_amounts = [0, 55000, 0, 0], ag_n_outputs = [0, 1, 0, 0],
        ag_asset_output_amounts = [55000], ag_orchard_asset_outputs = [0]\<rparr> 5000 False False 0 = gap_ctx"
    by (simp add: build_context_def gap_ctx_def gap_aggregate(2) del: One_nat_def)
  have "[0..<3] = [0, 1, 2 :: nat]" by (simp add: upt_rec numeral_eq_Suc)
  then have "baseline gap_ctx = Ret None"
    by (simp add: baseline_def greedy_solution_def gap_notes gap_apply gap_eval_0 gap_eval_1 gap_eval_2 gap_eval_3
        del: One_nat_def)
  then show ?thesis
    by (simp add: select_notes_def gap_notes gap_aggregate(1) c gap_eval_pair solve_context_def del: One_nat_def)
qed

section \<open>The theorems at work\<close>

lemma ex_ok: "notes_ok [orchard_note, sapling_note]" "outputs_ok [orchard_output]"
  by (simp_all add: notes_ok_def outputs_ok_def small_outputs_def orchard_note_def sapling_note_def
      orchard_output_def)

lemma ex_select:
  "select_notes (\<lambda>_. False) [orchard_note, sapling_note] [orchard_output] 5000 False False 0 =
     Ret (Some \<lparr>sel_inputs = [sapling_note], sel_per_pool_indices = [[], [0], [], []],
                 sel_change_pool = 1, sel_fee = 20000\<rparr>)"
  by (simp add: select_notes_def ex_facts ex_solve flip: ex_both_def ex_one_def)

theorem select_notes_sound_witness:
  "out_sum (\<lambda>o'. so_asset o' = 0) [orchard_output] + 20000 \<le> sum_of (\<lambda>n. sn_asset n = 0) [sapling_note]
   \<and> sum_of (\<lambda>n. sn_asset n = 0) [sapling_note] = 1100000"
  using select_notes_sound [OF ex_select ex_ok]
  by (simp add: sum_of_def sapling_note_def)


theorem select_notes_total_witness:
  "\<exists>r. select_notes (\<lambda>t. 50 < t) [orchard_note, sapling_note] [orchard_output] 5000 False False 0 = Ret r"
  using select_notes_total [of "[orchard_note, sapling_note]" "[orchard_output]" "\<lambda>t. 50 < t" 5000 False False 0] ex_ok
  by (auto simp: orchard_note_def sapling_note_def orchard_output_def N_POOLS_def outputs_n_assets_def)

theorem solve_context_improves_greedy_witness:
  "\<exists>st' c'. [sapling_note] = sel_notes ex_both (selected st')
    \<and> incumbent ex_both st' c' 20000 1
    \<and> (c', 20000) \<le> (220000, fee_for_change_pool st_sapling ex_both 1)"
proof -
  have "bounded ex_both"
    by (simp add: bounded_def ex_both_def ex_ctx_def sapling_note_def orchard_note_def N_POOLS_def all_less_4)
  moreover have "greedy_solution ex_both = Ret (Some (st_sapling, 220000, 1))"
    by (simp add: greedy_solution_def ex_facts)
  ultimately show ?thesis using solve_context_improves_greedy [OF _ _ ex_solve(1)] by fastforce
qed

end
