(* ===== verification/Knapsack.thy ===== *)
theory Knapsack
  imports Pools
begin

text \<open>
  The knapsack selector of \<open>src/rust/rlz/src/pay/select.rs\<close>, in the order of the source: the per-pool
  fee, the grouping of notes and outputs, the subset-sum table, the greedy scan with the pool's own fee
  folded in, the trials and the fallback. The table of \<open>closest_subset_sum\<close> is a hash map from a sum to
  the indices that reach it; here it is the list of its entries in insertion order. Its iteration order
  does not matter: within one round distinct sums give distinct new sums, and the final minimum and
  maximum are taken over distinct keys.
\<close>

record KNote =
  kn_pool :: nat
  kn_amount :: nat

record KOutput =
  ko_pool :: nat
  ko_amount :: nat

record PoolSolution =
  note_indices :: "nat list"
  ps_sum :: nat

record KSelection =
  ks_inputs :: "KNote list"
  ks_per_pool_indices :: "nat list list"
  ks_change_pool :: nat
  ks_change_amount :: nat
  ks_fee :: nat
  ks_turnstile :: nat

record TrialResult =
  tr_change_pool :: nat
  tr_per_pool :: "PoolSolution list"
  tr_fee :: nat
  tr_change :: nat
  tr_turnstile :: nat

definition no_solution :: PoolSolution where
  "no_solution = \<lparr>note_indices = [], ps_sum = 0\<rparr>"

definition pool_fee :: "nat \<Rightarrow> nat \<Rightarrow> nat \<Rightarrow> nat" where
  "pool_fee n_i out_i pool =
    (let m = max n_i out_i in if pool = 0 then m else if m = 1 then 2 else m)"

definition total_fee :: "nat list \<Rightarrow> nat list \<Rightarrow> nat \<Rightarrow> nat" where
  "total_fee n out_count f_unit =
    u64_mul (u64_sum (map (\<lambda>i. pool_fee (n ! i) (out_count ! i) i) [0..<NUM_POOLS])) f_unit"

definition group_notes_by_pool :: "KNote list \<Rightarrow> nat list list run" where
  "group_notes_by_pool notes =
    run_fold (\<lambda>n g. if kn_pool n < NUM_POOLS
        then Ret (g[kn_pool n := g ! kn_pool n @ [kn_amount n]]) else Panic)
      notes (replicate NUM_POOLS [])"

definition out_sum_and_count :: "KOutput list \<Rightarrow> (nat list \<times> nat list) run" where
  "out_sum_and_count outputs =
    run_fold (\<lambda>o' (s, c). if ko_pool o' < NUM_POOLS
        then Ret (s[ko_pool o' := u64_add (s ! ko_pool o') (ko_amount o')],
                  c[ko_pool o' := u64_add (c ! ko_pool o') 1]) else Panic)
      outputs (replicate NUM_POOLS 0, replicate NUM_POOLS 0)"

section \<open>Subset sums\<close>

definition dp_insert :: "nat \<Rightarrow> nat \<Rightarrow> nat \<Rightarrow> nat \<times> nat list \<Rightarrow> (nat \<times> nat list) list \<Rightarrow> (nat \<times> nat list) list" where
  "dp_insert cap idx amt = (\<lambda>(s, path) dp.
    (let ns = u64_add s amt
     in if ns \<le> cap \<and> ns \<notin> fst ` set dp then dp @ [(ns, path @ [idx])] else dp))"

definition dp_round :: "nat \<Rightarrow> nat \<times> nat \<Rightarrow> (nat \<times> nat list) list \<Rightarrow> (nat \<times> nat list) list" where
  "dp_round cap = (\<lambda>(idx, amt) dp. if cap < amt then dp else fold (dp_insert cap idx amt) dp dp)"

definition dp_table :: "nat list \<Rightarrow> nat \<Rightarrow> (nat \<times> nat list) list" where
  "dp_table notes cap = fold (dp_round cap) (enumerate 0 notes) [(0, [])]"

definition min_entry :: "(nat \<times> nat list) list \<Rightarrow> (nat \<times> nat list) option" where
  "min_entry es =
    fold (\<lambda>e best. case best of None \<Rightarrow> Some e | Some b \<Rightarrow> Some (if fst e < fst b then e else b)) es None"

definition max_entry :: "(nat \<times> nat list) list \<Rightarrow> (nat \<times> nat list) option" where
  "max_entry es =
    fold (\<lambda>e best. case best of None \<Rightarrow> Some e | Some b \<Rightarrow> Some (if fst e < fst b then b else e)) es None"

definition closest_subset_sum :: "nat list \<Rightarrow> nat \<Rightarrow> nat \<Rightarrow> (nat \<times> nat list) option" where
  "closest_subset_sum notes target slack =
    (if target = 0 then Some (0, [])
     else
       (let dp = dp_table notes (u64_add target slack)
        in case min_entry (filter (\<lambda>(s, _). target \<le> s) dp) of
             Some e \<Rightarrow> Some e
           | None \<Rightarrow> max_entry dp))"

section \<open>Greedy scan\<close>

text \<open>
  \<open>sort_unstable_by\<close> may order equal amounts in any way; the amounts of the scan do not depend on it and
  the model takes the stable order.
\<close>

definition scan_order :: "nat list \<Rightarrow> nat list" where
  "scan_order notes = sort_key (\<lambda>i. - int (notes ! i)) [0..<length notes]"

fun scan :: "nat list \<Rightarrow> nat \<Rightarrow> nat \<Rightarrow> nat \<Rightarrow> nat \<Rightarrow> nat list \<Rightarrow> nat list \<Rightarrow> nat \<Rightarrow> (nat \<times> nat \<times> nat list) option" where
  "scan notes out_i required_net f_unit pool done [] gross = None"
| "scan notes out_i required_net f_unit pool done (idx # order) gross =
    (let n = length done + 1;
         gross = u64_add gross (notes ! idx);
         penalty = u64_mul (pool_fee n out_i pool) f_unit;
         net = sat_sub gross penalty
     in if required_net \<le> net then Some (n, gross, done @ [idx])
        else scan notes out_i required_net f_unit pool (done @ [idx]) order gross)"

definition solve_with_folded_fee :: "nat list \<Rightarrow> nat \<Rightarrow> nat \<Rightarrow> nat \<Rightarrow> nat \<Rightarrow> (nat \<times> nat \<times> nat list) option" where
  "solve_with_folded_fee notes out_i required_net f_unit pool =
    scan notes out_i required_net f_unit pool [] (scan_order notes) 0"

section \<open>Trials\<close>

definition shielded_gap :: "nat list \<Rightarrow> PoolSolution list \<Rightarrow> nat \<Rightarrow> nat \<Rightarrow> nat" where
  "shielded_gap out_sum per_pool cp change =
    u64_sum (map (\<lambda>p. unsigned_abs (i64_sub (as_i64 (ps_sum (per_pool ! p)))
        (as_i64 (if p = cp then u64_add (out_sum ! p) change else out_sum ! p)))) [1..<NUM_POOLS])"

definition plain_solutions :: "nat list list \<Rightarrow> nat list \<Rightarrow> nat \<Rightarrow> PoolSolution list" where
  "plain_solutions notes_by_pool out_sum slack =
    no_solution # map (\<lambda>p. case closest_subset_sum (notes_by_pool ! p) (out_sum ! p) slack of
        Some (s, idx) \<Rightarrow> \<lparr>note_indices = idx, ps_sum = s\<rparr> | None \<Rightarrow> no_solution) [1..<NUM_POOLS]"

definition trial ::
    "nat list list \<Rightarrow> nat list \<Rightarrow> nat list \<Rightarrow> nat \<Rightarrow> nat \<Rightarrow> PoolSolution list \<Rightarrow> nat \<Rightarrow> TrialResult option" where
  "trial notes_by_pool out_sum out_count a_o f_unit plain cp =
    (let others = filter (\<lambda>p. p \<noteq> cp) [1..<NUM_POOLS];
         n_counts = map (\<lambda>p. if p \<in> set others then length (note_indices (plain ! p)) else 0) [0..<NUM_POOLS];
         fixed_fee = u64_mul (u64_sum (map (\<lambda>p. pool_fee (n_counts ! p) (out_count ! p) p)
                       (filter (\<lambda>p. p \<noteq> cp) [0..<NUM_POOLS]))) f_unit;
         covered_by_others = u64_sum (map (\<lambda>p. ps_sum (plain ! p)) others);
         required = sat_sub (u64_add a_o fixed_fee) covered_by_others
     in case solve_with_folded_fee (notes_by_pool ! cp) (out_count ! cp) required f_unit cp of
          None \<Rightarrow> None
        | Some (n_cp, gross_cp, idx_cp) \<Rightarrow>
            (let fee_cp = pool_fee n_cp (out_count ! cp) cp;
                 fee = u64_add fixed_fee (u64_mul fee_cp f_unit);
                 total_input = u64_add covered_by_others gross_cp;
                 change = sat_sub total_input (u64_add a_o fee);
                 per_pool = map (\<lambda>p. if p = cp then \<lparr>note_indices = idx_cp, ps_sum = gross_cp\<rparr>
                              else if p \<in> set others then plain ! p else no_solution) [0..<NUM_POOLS];
                 t0 = (if cp = 0 then u64_add gross_cp (out_sum ! 0) else out_sum ! 0)
             in Some \<lparr>tr_change_pool = cp, tr_per_pool = per_pool, tr_fee = fee, tr_change = change,
                  tr_turnstile = u64_add t0 (shielded_gap out_sum per_pool cp change)\<rparr>))"

definition better_trial :: "TrialResult option \<Rightarrow> TrialResult option \<Rightarrow> TrialResult option" where
  "better_trial candidate best =
    (case candidate of
       None \<Rightarrow> best
     | Some c \<Rightarrow>
         (case best of None \<Rightarrow> Some c | Some b \<Rightarrow> if tr_turnstile c < tr_turnstile b then Some c else best))"

definition fallback_with_pool0 ::
    "nat list list \<Rightarrow> nat list \<Rightarrow> nat list \<Rightarrow> nat \<Rightarrow> nat \<Rightarrow> TrialResult option" where
  "fallback_with_pool0 notes_by_pool out_sum out_count a_o f_unit =
    (let shielded = map (\<lambda>p. \<lparr>note_indices = [0..<length (notes_by_pool ! p)],
                           ps_sum = u64_sum (notes_by_pool ! p)\<rparr>) [1..<NUM_POOLS];
         covered = u64_sum (map ps_sum shielded);
         fixed_fee = u64_mul (u64_sum (map (\<lambda>p. pool_fee (length (note_indices (shielded ! (p - 1)))) (out_count ! p) p)
                       [1..<NUM_POOLS])) f_unit;
         required = sat_sub (u64_add a_o fixed_fee) covered
     in case solve_with_folded_fee (notes_by_pool ! 0) (out_count ! 0) required f_unit 0 of
          None \<Rightarrow> None
        | Some (n0, gross0, idx0) \<Rightarrow>
            (let per_pool = \<lparr>note_indices = idx0, ps_sum = gross0\<rparr> # shielded;
                 fee = u64_add fixed_fee (u64_mul (pool_fee n0 (out_count ! 0) 0) f_unit);
                 total_input = u64_add covered gross0;
                 change = sat_sub total_input (u64_add a_o fee);
                 t0 = u64_add gross0 (out_sum ! 0);
                 best = fold (\<lambda>p (bp, bt). let t = shielded_gap out_sum per_pool p change
                           in if t < bt then (p, t) else (bp, bt)) [0..<NUM_POOLS] (0, u64_max)
             in Some \<lparr>tr_change_pool = fst best, tr_per_pool = per_pool, tr_fee = fee, tr_change = change,
                  tr_turnstile = u64_add t0 (snd best)\<rparr>))"

definition finalize_selection :: "TrialResult \<Rightarrow> nat list list \<Rightarrow> KSelection" where
  "finalize_selection t notes_by_pool =
    \<lparr>ks_inputs = concat (map (\<lambda>p. map (\<lambda>idx. \<lparr>kn_pool = p, kn_amount = notes_by_pool ! p ! idx\<rparr>)
       (note_indices (tr_per_pool t ! p))) [0..<NUM_POOLS]),
     ks_per_pool_indices = map (\<lambda>p. note_indices (tr_per_pool t ! p)) [0..<NUM_POOLS],
     ks_change_pool = tr_change_pool t, ks_change_amount = tr_change t, ks_fee = tr_fee t,
     ks_turnstile = tr_turnstile t\<rparr>"

definition knapsack_select :: "KNote list \<Rightarrow> KOutput list \<Rightarrow> nat \<Rightarrow> nat \<Rightarrow> KSelection option run" where
  "knapsack_select notes outputs f_unit slack =
    run_bind (group_notes_by_pool notes) (\<lambda>notes_by_pool.
    run_bind (out_sum_and_count outputs) (\<lambda>(out_sum, out_count).
      let a_o = u64_sum out_sum;
          plain = plain_solutions notes_by_pool out_sum slack;
          best = fold (\<lambda>cp. better_trial (trial notes_by_pool out_sum out_count a_o f_unit plain cp))
                   [0..<NUM_POOLS] None;
          best = (case best of None \<Rightarrow> fallback_with_pool0 notes_by_pool out_sum out_count a_o f_unit
                  | Some b \<Rightarrow> Some b)
      in Ret (map_option (\<lambda>t. finalize_selection t notes_by_pool) best)))"

section \<open>The table holds exactly the reachable sums\<close>

definition path_sum :: "nat list \<Rightarrow> nat list \<Rightarrow> nat" where
  "path_sum notes path = sum_list (map ((!) notes) path)"

definition reach :: "nat list \<Rightarrow> nat \<Rightarrow> nat \<Rightarrow> nat set" where
  "reach notes cap k = {s. s \<le> cap \<and> (\<exists>I \<subseteq> {..<k}. s = (\<Sum>i\<in>I. notes ! i))}"

definition entry_ok :: "nat list \<Rightarrow> nat \<Rightarrow> nat \<Rightarrow> nat \<times> nat list \<Rightarrow> bool" where
  "entry_ok notes cap k = (\<lambda>(s, path). s \<le> cap \<and> s = path_sum notes path \<and> distinct path \<and> set path \<subseteq> {..<k})"

lemma entry_ok_reach: "entry_ok notes cap k e \<Longrightarrow> fst e \<in> reach notes cap k"
  by (cases e) (auto simp: entry_ok_def reach_def path_sum_def sum_list_distinct_conv_sum_set)

lemma reach_Suc:
  "reach notes cap (Suc k) = reach notes cap k \<union> {s + notes ! k | s. s \<in> reach notes cap k \<and> s + notes ! k \<le> cap}"
    (is "?l = ?r")
proof
  show "?l \<subseteq> ?r"
  proof
    fix s assume "s \<in> ?l"
    then obtain I where I: "I \<subseteq> {..<Suc k}" "s = (\<Sum>i\<in>I. notes ! i)" "s \<le> cap" by (auto simp: reach_def)
    show "s \<in> ?r"
    proof (cases "k \<in> I")
      case True
      have "finite I" using I(1) finite_subset by blast
      then have e: "s = (\<Sum>i\<in>I - {k}. notes ! i) + notes ! k" using True I(2) by (simp add: sum.remove)
      moreover have "I - {k} \<subseteq> {..<k}" using I(1) by auto
      then have "(\<Sum>i\<in>I - {k}. notes ! i) \<in> reach notes cap k" using e I(3) by (auto simp: reach_def)
      ultimately show ?thesis using I(3) by blast
    next
      case False
      then have "I \<subseteq> {..<k}" using I(1) by (auto simp: less_Suc_eq)
      then show ?thesis using I by (auto simp: reach_def)
    qed
  qed
  show "?r \<subseteq> ?l"
  proof
    fix s assume "s \<in> ?r"
    then consider "s \<in> reach notes cap k" | t where "s = t + notes ! k" "t \<in> reach notes cap k" "s \<le> cap" by auto
    then show "s \<in> ?l"
    proof cases
      case 1
      then obtain I where "I \<subseteq> {..<k}" "s = (\<Sum>i\<in>I. notes ! i)" "s \<le> cap" by (auto simp: reach_def)
      moreover from this have "I \<subseteq> {..<Suc k}" by auto
      ultimately show ?thesis unfolding reach_def by blast
    next
      case 2
      then obtain I where I: "I \<subseteq> {..<k}" "t = (\<Sum>i\<in>I. notes ! i)" by (auto simp: reach_def)
      then have "finite I" "k \<notin> I" using finite_subset by auto
      then have "s = (\<Sum>i\<in>insert k I. notes ! i)" using 2 I(2) by simp
      moreover have "insert k I \<subseteq> {..<Suc k}" using I(1) by auto
      ultimately show ?thesis using 2(3) unfolding reach_def by blast
    qed
  qed
qed

lemma dp_inserts:
  assumes "cap < 2 ^ 63" and "amt \<le> cap" and "notes ! k = amt"
    and "\<forall>e \<in> set xs. entry_ok notes cap k e" and "\<forall>e \<in> set dp. entry_ok notes cap (Suc k) e"
  shows "(\<forall>e \<in> set (fold (dp_insert cap k amt) xs dp). entry_ok notes cap (Suc k) e)
    \<and> fst ` set (fold (dp_insert cap k amt) xs dp)
        = fst ` set dp \<union> {s + amt | s. s \<in> fst ` set xs \<and> s + amt \<le> cap}"
  using assms(4,5)
proof (induction xs arbitrary: dp)
  case Nil
  then show ?case by simp
next
  case (Cons e xs)
  obtain s path where e: "e = (s, path)" by force
  have ok: "s \<le> cap" "s = path_sum notes path" "distinct path" "set path \<subseteq> {..<k}"
    using Cons.prems(1) e by (auto simp: entry_ok_def)
  have add: "u64_add s amt = s + amt" using ok(1) assms(1,2) by (simp add: u64_add_exact)
  let ?dp = "dp_insert cap k amt e dp"
  have "s + amt \<le> cap \<Longrightarrow> entry_ok notes cap (Suc k) (s + amt, path @ [k])"
    using ok assms(3) by (auto simp: entry_ok_def path_sum_def)
  then have "\<forall>e \<in> set ?dp. entry_ok notes cap (Suc k) e"
    using Cons.prems(2) by (auto simp: dp_insert_def e add Let_def)
  moreover have "fst ` set ?dp = fst ` set dp \<union> {s' + amt | s'. s' = s \<and> s' + amt \<le> cap}"
    by (auto simp: dp_insert_def e add Let_def image_iff)
  ultimately show ?case using Cons.IH [of ?dp] Cons.prems(1) by (auto simp: e)
qed

lemma dp_round_reach:
  assumes "cap < 2 ^ 63"
    and "\<forall>e \<in> set dp. entry_ok notes cap k e" and "fst ` set dp = reach notes cap k"
  shows "(\<forall>e \<in> set (dp_round cap (k, notes ! k) dp). entry_ok notes cap (Suc k) e)
    \<and> fst ` set (dp_round cap (k, notes ! k) dp) = reach notes cap (Suc k)"
proof -
  have mono: "\<forall>e \<in> set dp. entry_ok notes cap (Suc k) e" using assms(2) by (fastforce simp: entry_ok_def)
  show ?thesis
  proof (cases "cap < notes ! k")
    case True
    then show ?thesis using mono assms(3) by (auto simp: dp_round_def reach_Suc)
  next
    case False
    then show ?thesis using dp_inserts [of cap "notes ! k" "notes" k dp dp] assms mono
      by (auto simp: dp_round_def reach_Suc)
  qed
qed

lemma enumerate_snoc: "enumerate 0 (xs @ [x]) = enumerate 0 xs @ [(length xs, x)]"
  by (simp add: enumerate_append_eq)

lemma dp_table_reach:
  assumes "cap < 2 ^ 63"
  shows "(\<forall>e \<in> set (dp_table notes cap). entry_ok notes cap (length notes) e)
    \<and> fst ` set (dp_table notes cap) = reach notes cap (length notes)"
proof -
  have "(\<forall>e \<in> set (fold (dp_round cap) (enumerate 0 (take k notes)) [(0, [])]). entry_ok notes cap k e)
    \<and> fst ` set (fold (dp_round cap) (enumerate 0 (take k notes)) [(0, [])]) = reach notes cap k"
    if "k \<le> length notes" for k
    using that
  proof (induction k)
    case 0
    then show ?case by (auto simp: entry_ok_def reach_def path_sum_def)
  next
    case (Suc k)
    then show ?case
      using dp_round_reach [OF assms, of "fold (dp_round cap) (enumerate 0 (take k notes)) [(0, [])]" "notes" k]
      by (simp add: take_Suc_conv_app_nth enumerate_snoc)
  qed
  from this [of "length notes"] show ?thesis by (simp add: dp_table_def)
qed

lemma min_entry_fold:
  "\<exists>m. fold (\<lambda>e best. case best of None \<Rightarrow> Some e | Some b \<Rightarrow> Some (if fst e < fst b then e else b)) es (Some b)
    = Some m \<and> m \<in> insert (b :: nat \<times> nat list) (set es) \<and> (\<forall>e \<in> insert b (set es). fst m \<le> fst e)"
proof (induction es arbitrary: b)
  case Nil
  then show ?case by simp
next
  case (Cons a es)
  from Cons.IH [of "if fst a < fst b then a else b"] show ?case
    by (cases "fst a < fst b") (auto intro: order_trans less_imp_le)
qed

lemma max_entry_fold:
  "\<exists>m. fold (\<lambda>e best. case best of None \<Rightarrow> Some e | Some b \<Rightarrow> Some (if fst e < fst b then b else e)) es (Some b)
    = Some m \<and> m \<in> insert (b :: nat \<times> nat list) (set es) \<and> (\<forall>e \<in> insert b (set es). fst e \<le> fst m)"
proof (induction es arbitrary: b)
  case Nil
  then show ?case by simp
next
  case (Cons a es)
  from Cons.IH [of "if fst a < fst b then b else a"] show ?case
    by (cases "fst a < fst b") (auto intro: order_trans less_imp_le)
qed

lemma min_entry_Some:
  assumes "es \<noteq> []"
  shows "\<exists>m. min_entry es = Some m \<and> m \<in> set es \<and> (\<forall>e \<in> set es. fst m \<le> fst e)"
proof -
  obtain x xs where es: "es = x # xs" using assms by (cases es) auto
  from min_entry_fold [of xs x] show ?thesis unfolding min_entry_def es by simp
qed

lemma max_entry_Some:
  assumes "es \<noteq> []"
  shows "\<exists>m. max_entry es = Some m \<and> m \<in> set es \<and> (\<forall>e \<in> set es. fst e \<le> fst m)"
proof -
  obtain x xs where es: "es = x # xs" using assms by (cases es) auto
  from max_entry_fold [of xs x] show ?thesis unfolding max_entry_def es by simp
qed

lemma min_entry_Nil [simp]: "min_entry [] = None"
  by (simp add: min_entry_def)

lemma reach_all:
  "reach notes cap (length notes) = {s. s \<le> cap \<and> (\<exists>I \<subseteq> {..<length notes}. s = (\<Sum>i\<in>I. notes ! i))}"
  by (simp add: reach_def)

lemma dp_table_not_empty:
  assumes "cap < 2 ^ 63"
  shows "dp_table notes cap \<noteq> []"
proof -
  have "0 \<in> reach notes cap (length notes)" by (auto simp: reach_def)
  then show ?thesis using dp_table_reach [OF assms, of "notes"] by auto
qed

text \<open>
  \<open>closest_subset_sum\<close> is optimal. It answers with distinct indices of the notes and their sum. When
  some set of notes has a sum between the target and the target plus the slack, the answer is the
  smallest such sum; otherwise it is the largest sum of notes below the target.
\<close>

theorem closest_subset_sum_optimal:
  assumes "0 < target" and "target + slack < 2 ^ 63"
  shows "\<exists>s path. closest_subset_sum notes target slack = Some (s, path)
    \<and> distinct path \<and> set path \<subseteq> {..<length notes} \<and> s = path_sum notes path
    \<and> (if \<exists>I \<subseteq> {..<length notes}. target \<le> (\<Sum>i\<in>I. notes ! i) \<and> (\<Sum>i\<in>I. notes ! i) \<le> target + slack
       then target \<le> s \<and> (\<forall>I \<subseteq> {..<length notes}. target \<le> (\<Sum>i\<in>I. notes ! i) \<longrightarrow> s \<le> (\<Sum>i\<in>I. notes ! i))
       else s < target \<and> (\<forall>I \<subseteq> {..<length notes}. (\<Sum>i\<in>I. notes ! i) < target \<longrightarrow> (\<Sum>i\<in>I. notes ! i) \<le> s))"
proof -
  let ?cap = "target + slack" and ?dp = "dp_table notes (target + slack)"
  let ?hits = "filter (\<lambda>(s, _). target \<le> s) ?dp"
  have cap: "u64_add target slack = ?cap" using assms(2) by (simp add: u64_add_exact)
  note t = dp_table_reach [OF assms(2), of "notes"]
  have key: "(\<exists>e \<in> set ?dp. fst e = s) \<longleftrightarrow> s \<le> ?cap \<and> (\<exists>I \<subseteq> {..<length notes}. s = (\<Sum>i\<in>I. notes ! i))" for s
  proof -
    have "(\<exists>e \<in> set ?dp. fst e = s) \<longleftrightarrow> s \<in> fst ` set ?dp" by (auto simp: image_iff)
    then show ?thesis using t by (simp add: reach_all)
  qed
  obtain s path where e: "closest_subset_sum notes target slack = Some (s, path)" "(s, path) \<in> set ?dp"
    and best: "if ?hits = [] then \<forall>x \<in> set ?dp. fst x \<le> s
      else target \<le> s \<and> (\<forall>x \<in> set ?dp. target \<le> fst x \<longrightarrow> s \<le> fst x)"
  proof (cases "?hits = []")
    case True
    obtain m where "max_entry ?dp = Some m" "m \<in> set ?dp" "\<forall>x \<in> set ?dp. fst x \<le> fst m"
      using max_entry_Some [OF dp_table_not_empty [OF assms(2)]] by blast
    then show ?thesis using True assms(1) that [of "fst m" "snd m"]
      by (simp add: closest_subset_sum_def Let_def cap)
  next
    case False
    obtain m where m: "min_entry ?hits = Some m" "m \<in> set ?hits" "\<forall>x \<in> set ?hits. fst m \<le> fst x"
      using min_entry_Some [OF False] by blast
    show ?thesis
    proof (rule that [of "fst m" "snd m"])
      show "closest_subset_sum notes target slack = Some (fst m, snd m)"
        using m(1) assms(1) by (simp add: closest_subset_sum_def Let_def cap)
      show "(fst m, snd m) \<in> set ?dp" using m(2) by simp
      show "if ?hits = [] then \<forall>x \<in> set ?dp. fst x \<le> fst m
        else target \<le> fst m \<and> (\<forall>x \<in> set ?dp. target \<le> fst x \<longrightarrow> fst m \<le> fst x)"
        using m(2,3) False by (fastforce simp: split_beta)
    qed
  qed
  have "entry_ok notes ?cap (length notes) (s, path)" using t e(2) by blast
  then have ok: "distinct path" "set path \<subseteq> {..<length notes}" "s = path_sum notes path" "s \<le> ?cap"
    by (auto simp: entry_ok_def)
  have hits: "?hits \<noteq> [] \<longleftrightarrow> (\<exists>I \<subseteq> {..<length notes}. target \<le> (\<Sum>i\<in>I. notes ! i) \<and> (\<Sum>i\<in>I. notes ! i) \<le> ?cap)"
    (is "_ \<longleftrightarrow> ?ex")
  proof -
    have "?hits \<noteq> [] \<longleftrightarrow> (\<exists>s. target \<le> s \<and> (\<exists>e \<in> set ?dp. fst e = s))"
      by (auto simp: filter_empty_conv split_beta)
    then show ?thesis unfolding key by blast
  qed
  show ?thesis
  proof (cases ?ex)
    case True
    then have b: "target \<le> s" "\<forall>x \<in> set ?dp. target \<le> fst x \<longrightarrow> s \<le> fst x" using best hits by auto
    have "s \<le> (\<Sum>i\<in>I. notes ! i)" if "I \<subseteq> {..<length notes}" "target \<le> (\<Sum>i\<in>I. notes ! i)" for I
      using b(2) key [of "\<Sum>i\<in>I. notes ! i"] that ok(4) by (metis linorder_le_cases order_trans)
    then show ?thesis using True e(1) ok b(1) by auto
  next
    case False
    then have "?hits = []" using hits by blast
    then have b: "\<forall>x \<in> set ?dp. fst x \<le> s" using best by simp
    have "s < target" using False ok key [of s] e(2) by (metis fst_conv not_less)
    moreover have "(\<Sum>i\<in>I. notes ! i) \<le> s" if "I \<subseteq> {..<length notes}" "(\<Sum>i\<in>I. notes ! i) < target" for I
    proof -
      have "(\<Sum>i\<in>I. notes ! i) \<le> ?cap" using that(2) by linarith
      then have "\<exists>e \<in> set ?dp. fst e = (\<Sum>i\<in>I. notes ! i)" using key that(1) by blast
      then show ?thesis using b by auto
    qed
    ultimately show ?thesis using False e(1) ok by auto
  qed
qed

theorem closest_subset_sum_optimal_witness:
  "\<exists>s path. closest_subset_sum [7, 4, 9] 10 3 = Some (s, path) \<and> s = 11 \<and> path_sum [7, 4, 9] path = s"
proof -
  have "closest_subset_sum [7, 4, 9] 10 3 = Some (11, [0, 1])"
    by (simp add: closest_subset_sum_def dp_table_def dp_round_def dp_insert_def u64_add_def min_entry_def
        enumerate_eq_zip upt_rec)
  then show ?thesis using closest_subset_sum_optimal [of 10 3 "[7, 4, 9]"] by auto
qed

end
