(* ===== verification/WalletDb.thy ===== *)
theory WalletDb
  imports Pools
begin

text \<open>
  The wallet database of \<open>src/rust/rlz/src/db.rs\<close>: one record per table of \<open>create_schema\<close>, a table as
  the list of its rows, the whole database as one record. Columns no modelled statement reads or writes
  (key blobs) are left out of the rows. The operations are the
  single-statement ones of \<open>db.rs\<close>; larger ones live in the theories that follow. \<open>keys_ok\<close> states the
  primary keys and the UNIQUE constraints, and every insert keeps them.
\<close>

section \<open>Tables\<close>

record NoteRow =
  nr_id :: nat
  nr_height :: nat
  nr_account :: nat
  nr_pool :: nat
  nr_scope :: "nat option"
  nr_nullifier :: bytes
  nr_tx :: nat
  nr_value :: int
  nr_taddress :: "nat option"
  nr_position :: "nat option"
  nr_locked :: bool
  nr_asset :: "nat option"
  nr_cmx :: "bytes option"
  nr_diversifier :: "bytes option"
  nr_rcm :: "bytes option"
  nr_rho :: "bytes option"
  nr_diversifier_index :: "int option"

record SpendRow =
  sp_note :: nat
  sp_height :: nat
  sp_account :: nat
  sp_pool :: nat
  sp_tx :: nat
  sp_value :: int

record TxRow =
  tx_id :: nat
  tx_txid :: bytes
  tx_height :: nat
  tx_account :: nat
  tx_time :: "nat option"
  tx_details :: bool
  tx_tpe :: "nat option"
  tx_value :: int
  tx_fee :: nat
  tx_price :: "int option"
  tx_category :: "nat option"

record WitnessRow =
  w_account :: nat
  w_note :: nat
  w_height :: nat
  w_data :: bytes

record OutputRow =
  ou_id :: nat
  ou_account :: nat
  ou_height :: nat
  ou_tx :: nat
  ou_pool :: nat
  ou_vout :: nat
  ou_value :: int
  ou_address :: string

record MemoRow =
  me_id :: nat
  me_account :: nat
  me_height :: nat
  me_tx :: nat
  me_pool :: nat
  me_vout :: nat
  me_note :: "nat option"
  me_output :: "nat option"
  me_text :: "string option"
  me_bytes :: bytes

record UserMemoRow =
  um_account :: nat
  um_tx :: nat
  um_memo :: string

record SyncHeightRow =
  sh_account :: nat
  sh_pool :: nat
  sh_height :: nat

record HeaderRow =
  hd_height :: nat
  hd_hash :: bytes
  hd_time :: nat

record TaddrRow =
  ta_id :: nat
  ta_account :: nat
  ta_scope :: nat
  ta_dindex :: nat
  ta_address :: string
  ta_backfilled :: "nat option"
  ta_owed :: "nat option"
  ta_seen_used :: bool

record PendingTxRow =
  pt_account :: nat
  pt_txid :: bytes
  pt_height :: nat
  pt_price :: "int option"
  pt_category :: "nat option"
  pt_expiry :: "nat option"

record ReservationRow =
  rv_account :: nat
  rv_nullifier :: bytes
  rv_owner :: bytes
  rv_expiry :: nat

record AssetRow =
  as_id :: nat
  as_desc_hash :: bytes
  as_ik :: bytes
  as_base :: bytes
  as_finalized :: bool
  as_first_seen :: nat

record AccountRow =
  ac_id :: nat
  ac_birth :: nat
  ac_position :: nat
  ac_aindex :: nat
  ac_dindex :: nat
  ac_fingerprint :: "bytes option"
  ac_use_internal :: bool

text \<open>
  The tables that only carry keys or multi-party state of an account are lists of the accounts their rows
  belong to; \<open>transparent_accounts\<close> keeps the viewing key, which identifies the account to a walk.
\<close>

record Db =
  props :: "string \<rightharpoonup> string"
  accounts :: "AccountRow list"
  transparent_accounts :: "(nat \<times> bytes option) list"
  taddrs :: "TaddrRow list"
  sapling_accounts :: "nat list"
  orchard_accounts :: "nat list"
  sync_heights :: "SyncHeightRow list"
  headers :: "HeaderRow list"
  note_rows :: "NoteRow list"
  spends :: "SpendRow list"
  transactions :: "TxRow list"
  witnesses :: "WitnessRow list"
  outputs :: "OutputRow list"
  memos :: "MemoRow list"
  user_memos :: "UserMemoRow list"
  pending_txs :: "PendingTxRow list"
  reservations :: "ReservationRow list"
  assets :: "AssetRow list"
  dkg_rows :: "nat list"
  frost_rows :: "nat list"

datatype DbError =
    TransactionExpired
  | AnotherAccount
  | ManuallyLocked
  | AlreadySpent
  | NotOwned
  | ReservedByAnother
  | RowNotFound
  | WalkRetired
  | UnexpectedPool
  | UniqueViolation
  | ScanFailed

section \<open>Keys\<close>

definition keys_ok :: "Db \<Rightarrow> bool" where
  "keys_ok db \<longleftrightarrow>
    distinct (map nr_id (note_rows db)) \<and>
    distinct (map (\<lambda>n. (nr_account n, nr_nullifier n)) (note_rows db)) \<and>
    distinct (map sp_note (spends db)) \<and>
    distinct (map tx_id (transactions db)) \<and>
    distinct (map (\<lambda>t. (tx_account t, tx_txid t)) (transactions db)) \<and>
    distinct (map (\<lambda>w. (w_note w, w_height w)) (witnesses db)) \<and>
    distinct (map (\<lambda>s. (sh_account s, sh_pool s)) (sync_heights db)) \<and>
    distinct (map hd_height (headers db)) \<and>
    distinct (map ta_id (taddrs db)) \<and>
    distinct (map (\<lambda>a. (ta_account a, ta_scope a, ta_dindex a)) (taddrs db)) \<and>
    distinct (map (\<lambda>p. (pt_account p, pt_txid p)) (pending_txs db)) \<and>
    distinct (map (\<lambda>r. (rv_account r, rv_nullifier r)) (reservations db)) \<and>
    distinct (map ac_id (accounts db))"

definition assets_ok :: "Db \<Rightarrow> bool" where
  "assets_ok db \<longleftrightarrow>
    distinct (map as_id (assets db)) \<and>
    distinct (map (\<lambda>a. (as_desc_hash a, as_ik a)) (assets db)) \<and>
    distinct (map as_base (assets db))"

text \<open>Rows the statements rely on: a spend belongs to a note of the same account and pool, is seen no
  earlier, and carries the negated value.\<close>

definition spends_ok :: "Db \<Rightarrow> bool" where
  "spends_ok db \<longleftrightarrow>
    (\<forall>s \<in> set (spends db). \<exists>n \<in> set (note_rows db).
      nr_id n = sp_note s \<and> nr_account n = sp_account s \<and> nr_pool n = sp_pool s \<and> nr_height n \<le> sp_height s
      \<and> sp_value s = - nr_value n)"

section \<open>Single statements\<close>

definition get_sync_height :: "Db \<Rightarrow> nat \<Rightarrow> nat option" where
  "get_sync_height db account =
    sql_min (map sh_height (filter (\<lambda>s. sh_account s = account) (sync_heights db)))"

definition confirmed_height :: "Db \<Rightarrow> nat \<Rightarrow> nat \<Rightarrow> nat" where
  "confirmed_height db account confirmations =
    sat_sub (case get_sync_height db account of None \<Rightarrow> 0 | Some h \<Rightarrow> h) confirmations"

definition reservation_active :: "Db \<Rightarrow> ReservationRow \<Rightarrow> bool" where
  "reservation_active db r \<longleftrightarrow> rv_expiry r = 0 \<or>
    (case get_sync_height db (rv_account r) of None \<Rightarrow> 0 | Some h \<Rightarrow> h) < rv_expiry r"

definition active_pending_spend_inputs :: "Db \<Rightarrow> ReservationRow list" where
  "active_pending_spend_inputs db = filter (reservation_active db) (reservations db)"

definition store_block_header :: "HeaderRow \<Rightarrow> Db \<Rightarrow> Db" where
  "store_block_header h db =
    (if hd_height h \<in> hd_height ` set (headers db) then db else db\<lparr>headers := headers db @ [h]\<rparr>)"

definition store_synced_height :: "nat \<Rightarrow> nat \<Rightarrow> nat \<Rightarrow> Db \<Rightarrow> Db" where
  "store_synced_height account pool height db =
    db\<lparr>sync_heights := delete_where (\<lambda>s. sh_account s = account \<and> sh_pool s = pool) (sync_heights db)
        @ [\<lparr>sh_account = account, sh_pool = pool, sh_height = height\<rparr>]\<rparr>"

definition lock_note :: "nat \<Rightarrow> nat \<Rightarrow> bool \<Rightarrow> Db \<Rightarrow> Db" where
  "lock_note account id_note locked db =
    db\<lparr>note_rows := update_where (\<lambda>n. nr_account n = account \<and> nr_id n = id_note) (nr_locked_update (\<lambda>_. locked)) (note_rows db)\<rparr>"

definition lock_recent_notes :: "nat \<Rightarrow> nat \<Rightarrow> nat \<Rightarrow> Db \<Rightarrow> Db" where
  "lock_recent_notes account height threshold db =
    (let max_height = sat_sub height threshold
     in db\<lparr>note_rows := update_where (\<lambda>n. nr_account n = account \<and> max_height < nr_height n)
         (nr_locked_update (\<lambda>_. True)) (note_rows db)\<rparr>)"

definition toggle_all_notes :: "nat \<Rightarrow> Db \<Rightarrow> Db" where
  "toggle_all_notes account db =
    db\<lparr>note_rows := update_where (\<lambda>n. nr_account n = account) (nr_locked_update Not) (note_rows db)\<rparr>"

definition unlock_all_notes :: "nat \<Rightarrow> Db \<Rightarrow> Db" where
  "unlock_all_notes account db =
    db\<lparr>note_rows := update_where (\<lambda>n. nr_account n = account) (nr_locked_update (\<lambda>_. False)) (note_rows db)\<rparr>"

definition store_pending_tx :: "nat \<Rightarrow> nat \<Rightarrow> bytes \<Rightarrow> int option \<Rightarrow> nat option \<Rightarrow> Db \<Rightarrow> Db" where
  "store_pending_tx account height txid price category db =
    (let txid = rev txid;
         hit = (\<lambda>p. pt_account p = account \<and> pt_txid p = txid)
     in if list_ex hit (pending_txs db)
        then db\<lparr>pending_txs := update_where hit
               (\<lambda>p. p\<lparr>pt_height := height, pt_price := price, pt_category := category\<rparr>) (pending_txs db)\<rparr>
        else db\<lparr>pending_txs := pending_txs db @
               [\<lparr>pt_account = account, pt_txid = txid, pt_height = height, pt_price = price,
                 pt_category = category, pt_expiry = None\<rparr>]\<rparr>)"

definition set_user_memo :: "nat \<Rightarrow> nat \<Rightarrow> string option \<Rightarrow> Db \<Rightarrow> Db" where
  "set_user_memo account id_tx memo db =
    (let hit = (\<lambda>u. um_account u = account \<and> um_tx u = id_tx)
     in case memo of
          None \<Rightarrow> db\<lparr>user_memos := delete_where hit (user_memos db)\<rparr>
        | Some m \<Rightarrow>
            (if m = [] then db\<lparr>user_memos := delete_where hit (user_memos db)\<rparr>
             else if list_ex hit (user_memos db)
             then db\<lparr>user_memos := update_where hit (um_memo_update (\<lambda>_. m)) (user_memos db)\<rparr>
             else db\<lparr>user_memos := user_memos db @ [\<lparr>um_account = account, um_tx = id_tx, um_memo = m\<rparr>]\<rparr>))"

definition set_tx_category :: "nat \<Rightarrow> nat option \<Rightarrow> Db \<Rightarrow> Db" where
  "set_tx_category id_tx category db =
    db\<lparr>transactions := update_where (\<lambda>t. tx_id t = id_tx) (tx_category_update (\<lambda>_. category)) (transactions db)\<rparr>"

definition set_tx_price :: "nat \<Rightarrow> int option \<Rightarrow> Db \<Rightarrow> Db" where
  "set_tx_price id_tx price db =
    db\<lparr>transactions := update_where (\<lambda>t. tx_id t = id_tx) (tx_price_update (\<lambda>_. price)) (transactions db)\<rparr>"

section \<open>Keys are kept\<close>

named_theorems db_update \<open>how a statement touches the keys of the tables\<close>

lemma map_update_key [db_update]:
  "map nr_id (update_where P (nr_locked_update f) t) = map nr_id t"
  "map (\<lambda>n. (nr_account n, nr_nullifier n)) (update_where P (nr_locked_update f) t)
    = map (\<lambda>n. (nr_account n, nr_nullifier n)) t"
  "map tx_id (update_where Q (tx_category_update g) u) = map tx_id u"
  "map (\<lambda>t. (tx_account t, tx_txid t)) (update_where Q (tx_category_update g) u)
    = map (\<lambda>t. (tx_account t, tx_txid t)) u"
  "map tx_id (update_where Q (tx_price_update h) u) = map tx_id u"
  "map (\<lambda>t. (tx_account t, tx_txid t)) (update_where Q (tx_price_update h) u)
    = map (\<lambda>t. (tx_account t, tx_txid t)) u"
  "map (\<lambda>p. (pt_account p, pt_txid p))
     (update_where R (\<lambda>p. p\<lparr>pt_height := a, pt_price := b, pt_category := c\<rparr>) v)
    = map (\<lambda>p. (pt_account p, pt_txid p)) v"
  by (rule map_update_where; simp)+

lemma distinct_map_delete [db_update]: "distinct (map k t) \<Longrightarrow> distinct (map k (delete_where P t))"
  by (simp add: delete_where_def distinct_map_filter)

lemma keys_ok_locks:
  "keys_ok (lock_note a i l db) = keys_ok db" "keys_ok (lock_recent_notes a h t db) = keys_ok db"
  "keys_ok (toggle_all_notes a db) = keys_ok db" "keys_ok (unlock_all_notes a db) = keys_ok db"
  "keys_ok (set_tx_category i c db) = keys_ok db" "keys_ok (set_tx_price i p db) = keys_ok db"
  by (simp_all add: keys_ok_def lock_note_def lock_recent_notes_def toggle_all_notes_def unlock_all_notes_def
      set_tx_category_def set_tx_price_def db_update Let_def)

lemma distinct_map_snoc [db_update]:
  "distinct (map k t) \<Longrightarrow> k r \<notin> k ` set t \<Longrightarrow> distinct (map k (t @ [r]))"
  by auto

lemma keys_ok_store_synced_height: "keys_ok db \<Longrightarrow> keys_ok (store_synced_height a p h db)"
  by (auto simp: keys_ok_def store_synced_height_def intro!: distinct_map_delete)

lemma keys_ok_store_block_header: "keys_ok db \<Longrightarrow> keys_ok (store_block_header h db)"
  by (auto simp: keys_ok_def store_block_header_def)

lemma keys_ok_store_pending_tx: "keys_ok db \<Longrightarrow> keys_ok (store_pending_tx a h t p c db)"
  by (auto simp: keys_ok_def store_pending_tx_def Let_def db_update list_ex_iff)

lemma get_sync_height_store:
  "get_sync_height (store_synced_height a p h db) b =
    (if a = b then sql_min (map sh_height (filter (\<lambda>s. sh_account s = a \<and> sh_pool s \<noteq> p) (sync_heights db)) @ [h])
     else get_sync_height db b)"
proof -
  have "filter (\<lambda>s. sh_account s = a) (delete_where (\<lambda>s. sh_account s = a \<and> sh_pool s = p) t)
      = filter (\<lambda>s. sh_account s = a \<and> sh_pool s \<noteq> p) t" for t :: "SyncHeightRow list"
    by (induction t) (auto simp: delete_where_def)
  moreover have "b \<noteq> a \<Longrightarrow> filter (\<lambda>s. sh_account s = b) (delete_where (\<lambda>s. sh_account s = a \<and> sh_pool s = p) t)
      = filter (\<lambda>s. sh_account s = b) t" for t :: "SyncHeightRow list"
    by (induction t) (auto simp: delete_where_def)
  ultimately show ?thesis by (auto simp: get_sync_height_def store_synced_height_def)
qed

section \<open>A small wallet\<close>

text \<open>Account 1 with an Orchard note, a Sapling change note and a spent Orchard note, scanned to height 125.\<close>

definition ex_note_1 :: NoteRow where
  "ex_note_1 = \<lparr>nr_id = 1, nr_height = 100, nr_account = 1, nr_pool = 2, nr_scope = Some 0, nr_nullifier = [1],
     nr_tx = 1, nr_value = 50000, nr_taddress = None, nr_position = Some 10, nr_locked = False, nr_asset = None,
     nr_cmx = None, nr_diversifier = None, nr_rcm = None, nr_rho = None, nr_diversifier_index = None\<rparr>"

definition ex_note_2 :: NoteRow where
  "ex_note_2 = \<lparr>nr_id = 2, nr_height = 120, nr_account = 1, nr_pool = 1, nr_scope = Some 1, nr_nullifier = [2],
     nr_tx = 3, nr_value = 30000, nr_taddress = None, nr_position = Some 11, nr_locked = False, nr_asset = None,
     nr_cmx = None, nr_diversifier = None, nr_rcm = None, nr_rho = None, nr_diversifier_index = None\<rparr>"

definition ex_note_3 :: NoteRow where
  "ex_note_3 = \<lparr>nr_id = 3, nr_height = 105, nr_account = 1, nr_pool = 2, nr_scope = Some 0, nr_nullifier = [3],
     nr_tx = 2, nr_value = 7000, nr_taddress = None, nr_position = Some 12, nr_locked = False, nr_asset = None,
     nr_cmx = None, nr_diversifier = None, nr_rcm = None, nr_rho = None, nr_diversifier_index = None\<rparr>"

definition ex_spend :: SpendRow where
  "ex_spend = \<lparr>sp_note = 3, sp_height = 120, sp_account = 1, sp_pool = 2, sp_tx = 3, sp_value = - 7000\<rparr>"

definition ex_txrow :: "nat \<Rightarrow> nat \<Rightarrow> TxRow" where
  "ex_txrow i h = \<lparr>tx_id = i, tx_txid = [word_of_nat i], tx_height = h, tx_account = 1, tx_time = None,
     tx_details = False, tx_tpe = None, tx_value = 0, tx_fee = 0, tx_price = None, tx_category = None\<rparr>"

definition ex_db :: Db where
  "ex_db = \<lparr>props = Map.empty,
     accounts = [\<lparr>ac_id = 1, ac_birth = 90, ac_position = 0, ac_aindex = 0, ac_dindex = 0, ac_fingerprint = None,
       ac_use_internal = False\<rparr>],
     transparent_accounts = [(1, None)], taddrs = [], sapling_accounts = [1], orchard_accounts = [1],
     sync_heights = [\<lparr>sh_account = 1, sh_pool = 0, sh_height = 125\<rparr>, \<lparr>sh_account = 1, sh_pool = 1, sh_height = 125\<rparr>,
       \<lparr>sh_account = 1, sh_pool = 2, sh_height = 125\<rparr>],
     headers = [\<lparr>hd_height = 125, hd_hash = [], hd_time = 7\<rparr>],
     note_rows = [ex_note_1, ex_note_2, ex_note_3], spends = [ex_spend],
     transactions = [ex_txrow 1 100, ex_txrow 2 105, ex_txrow 3 120],
     witnesses = [\<lparr>w_account = 1, w_note = 1, w_height = 110, w_data = []\<rparr>, \<lparr>w_account = 1, w_note = 1, w_height = 125, w_data = []\<rparr>],
     outputs = [], memos = [], user_memos = [], pending_txs = [], reservations = [], assets = [],
     dkg_rows = [], frost_rows = []\<rparr>"

lemmas ex_db_defs = ex_db_def ex_note_1_def ex_note_2_def ex_note_3_def ex_spend_def ex_txrow_def

lemma ex_db_ok: "keys_ok ex_db" "spends_ok ex_db"
  by (simp_all add: keys_ok_def spends_ok_def ex_db_defs)

end
