(* ===== verification/Reservations.thy ===== *)
theory Reservations
  imports WalletDb
begin

text \<open>
  The reservation of inputs by a pending transaction, \<open>src/rust/rlz/src/pay/reserve.rs\<close>. A parsed
  transaction is its id, its expiry height and the nullifiers (or outpoints) it spends; parsing the raw
  bytes belongs to \<open>zcash_primitives\<close>. The statements run in one SQLite transaction, which \<open>atomically\<close>
  models: an error drops it and leaves the database as it was.
\<close>

record ParsedTransaction =
  pa_txid :: bytes
  pa_expiry_height :: nat
  pa_inputs :: "bytes list"

datatype OwnInputs = Required | Optional

definition atomically :: "(Db \<Rightarrow> DbError + Db) \<Rightarrow> Db \<Rightarrow> (DbError + unit) \<times> Db" where
  "atomically f db = (case f db of Inl e \<Rightarrow> (Inl e, db) | Inr db' \<Rightarrow> (Inr (), db'))"

definition spend_of :: "Db \<Rightarrow> NoteRow \<Rightarrow> SpendRow option" where
  "spend_of db n = find (\<lambda>s. sp_note s = nr_id n) (spends db)"

definition spend_txid :: "Db \<Rightarrow> SpendRow \<Rightarrow> bytes option" where
  "spend_txid db s =
    map_option tx_txid (find (\<lambda>t. tx_id t = sp_tx s \<and> tx_account t = sp_account s) (transactions db))"

definition validate_row :: "Db \<Rightarrow> nat \<Rightarrow> ParsedTransaction \<Rightarrow> bytes \<Rightarrow> NoteRow \<Rightarrow> bytes list \<Rightarrow> DbError + bytes list" where
  "validate_row db account parsed input n owned =
    (if nr_account n \<noteq> account then Inl AnotherAccount
     else if nr_locked n then Inl ManuallyLocked
     else if (case spend_of db n of None \<Rightarrow> False | Some s \<Rightarrow> spend_txid db s \<noteq> Some (pa_txid parsed))
     then Inl AlreadySpent
     else Inr (if input \<in> set owned then owned else owned @ [input]))"

definition validate_owned_inputs :: "Db \<Rightarrow> nat \<Rightarrow> ParsedTransaction \<Rightarrow> DbError + bytes list" where
  "validate_owned_inputs db account parsed =
    res_fold (\<lambda>input. res_fold (validate_row db account parsed input)
        (filter (\<lambda>n. nr_nullifier n = input) (note_rows db)))
      (pa_inputs parsed) []"

definition active_owner :: "Db \<Rightarrow> nat \<Rightarrow> bytes \<Rightarrow> bytes option" where
  "active_owner db account input =
    map_option rv_owner (find (\<lambda>r. rv_account r = account \<and> rv_nullifier r = input)
      (active_pending_spend_inputs db))"

definition reserved_by_another_transaction :: "Db \<Rightarrow> nat \<Rightarrow> ParsedTransaction \<Rightarrow> bool" where
  "reserved_by_another_transaction db account parsed \<longleftrightarrow>
    list_ex (\<lambda>input. case active_owner db account input of
        None \<Rightarrow> False | Some owner \<Rightarrow> owner \<noteq> pa_txid parsed) (pa_inputs parsed)"

definition claim_input :: "nat \<Rightarrow> ParsedTransaction \<Rightarrow> bytes \<Rightarrow> Db \<Rightarrow> DbError + Db" where
  "claim_input account parsed input db =
    (let hit = (\<lambda>r. rv_account r = account \<and> rv_nullifier r = input)
     in case find hit (reservations db) of
          None \<Rightarrow>
            Inr (db\<lparr>reservations := reservations db @
              [\<lparr>rv_account = account, rv_nullifier = input, rv_owner = pa_txid parsed,
                rv_expiry = pa_expiry_height parsed\<rparr>]\<rparr>)
        | Some r \<Rightarrow>
            (if rv_owner r = pa_txid parsed \<or> \<not> list_ex hit (active_pending_spend_inputs db)
             then Inr (db\<lparr>reservations := update_where hit
                    (\<lambda>r. r\<lparr>rv_owner := pa_txid parsed, rv_expiry := pa_expiry_height parsed\<rparr>) (reservations db)\<rparr>)
             else Inl ReservedByAnother))"

definition claim_inputs :: "nat \<Rightarrow> ParsedTransaction \<Rightarrow> bytes list \<Rightarrow> Db \<Rightarrow> DbError + Db" where
  "claim_inputs account parsed owned = res_fold (claim_input account parsed) owned"

definition record_pending_tx :: "nat \<Rightarrow> ParsedTransaction \<Rightarrow> nat option \<Rightarrow> Db \<Rightarrow> Db" where
  "record_pending_tx account parsed scanned db =
    (let hit = (\<lambda>p. pt_account p = account \<and> pt_txid p = pa_txid parsed);
         h = (case scanned of None \<Rightarrow> 0 | Some h \<Rightarrow> h)
     in if list_ex hit (pending_txs db)
        then db\<lparr>pending_txs := update_where hit
               (\<lambda>p. p\<lparr>pt_height := h, pt_expiry := Some (pa_expiry_height parsed)\<rparr>) (pending_txs db)\<rparr>
        else db\<lparr>pending_txs := pending_txs db @
               [\<lparr>pt_account = account, pt_txid = pa_txid parsed, pt_height = h, pt_price = None,
                 pt_category = None, pt_expiry = Some (pa_expiry_height parsed)\<rparr>]\<rparr>)"

definition reserve_in_transaction :: "nat \<Rightarrow> ParsedTransaction \<Rightarrow> OwnInputs \<Rightarrow> Db \<Rightarrow> DbError + Db" where
  "reserve_in_transaction account parsed own_inputs db =
    res_bind (validate_owned_inputs db account parsed) (\<lambda>owned.
      if owned = [] then
        (if own_inputs \<noteq> Optional then Inl NotOwned
         else if reserved_by_another_transaction db account parsed then Inl ReservedByAnother
         else Inr db)
      else
        res_bind (claim_inputs account parsed owned db) (\<lambda>db'.
          Inr (record_pending_tx account parsed (get_sync_height db account) db')))"

definition reserve_parsed_transaction ::
    "nat \<Rightarrow> ParsedTransaction \<Rightarrow> OwnInputs \<Rightarrow> Db \<Rightarrow> (DbError + unit) \<times> Db" where
  "reserve_parsed_transaction account parsed own_inputs db =
    (if (case get_sync_height db account of
           None \<Rightarrow> False
         | Some h \<Rightarrow> \<not> (pa_expiry_height parsed = 0 \<or> h < pa_expiry_height parsed))
     then (Inl TransactionExpired, db)
     else atomically (reserve_in_transaction account parsed own_inputs) db)"

section \<open>Claims\<close>

lemma get_sync_height_reservations [simp]:
  "get_sync_height (db\<lparr>reservations := r\<rparr>) a = get_sync_height db a"
  "get_sync_height (db\<lparr>pending_txs := p\<rparr>) a = get_sync_height db a"
  by (simp_all add: get_sync_height_def)

lemma reservation_active_update [simp]:
  "reservation_active (db\<lparr>reservations := r\<rparr>) x = reservation_active db x"
  "reservation_active (db\<lparr>pending_txs := p\<rparr>) x = reservation_active db x"
  by (simp_all add: reservation_active_def)

lemma find_None_filter: "find P xs = None \<longleftrightarrow> (\<forall>x \<in> set xs. \<not> P x)"
  by (auto simp: find_None_iff)

lemma find_SomeD: "find P xs = Some x \<Longrightarrow> x \<in> set xs \<and> P x"
  by (auto simp: find_Some_iff)

lemma map_claim_key:
  "map (\<lambda>r. (rv_account r, rv_nullifier r)) (update_where P (\<lambda>r. r\<lparr>rv_owner := x, rv_expiry := y\<rparr>) t)
    = map (\<lambda>r. (rv_account r, rv_nullifier r)) t"
  by (rule map_update_where) simp

definition held_by :: "Db \<Rightarrow> nat \<Rightarrow> bytes \<Rightarrow> ParsedTransaction \<Rightarrow> bool" where
  "held_by db account input p \<longleftrightarrow>
    (\<exists>r \<in> set (reservations db). rv_account r = account \<and> rv_nullifier r = input \<and>
      rv_owner r = pa_txid p \<and> rv_expiry r = pa_expiry_height p)"

text \<open>What one claim changes: the claimed row, and nothing that another transaction actively holds.\<close>

definition claim_frame :: "Db \<Rightarrow> ParsedTransaction \<Rightarrow> Db \<Rightarrow> bool" where
  "claim_frame db p db' \<longleftrightarrow> (\<exists>rs. db' = db\<lparr>reservations := rs\<rparr>) \<and>
    (\<forall>r \<in> set (reservations db). reservation_active db r \<longrightarrow> rv_owner r \<noteq> pa_txid p \<longrightarrow> r \<in> set (reservations db')) \<and>
    (\<forall>a i. held_by db a i p \<longrightarrow> held_by db' a i p)"

lemma claim_frame_refl [simp]: "claim_frame db t db"
  by (auto simp: claim_frame_def intro: exI [of _ "reservations db"])

lemma claim_frame_set:
  assumes "\<And>r. r \<in> set (reservations db) \<Longrightarrow> reservation_active db r \<Longrightarrow> rv_owner r \<noteq> pa_txid p \<Longrightarrow> r \<in> set rs"
    and "\<And>r. r \<in> set (reservations db) \<Longrightarrow> rv_owner r = pa_txid p \<Longrightarrow> rv_expiry r = pa_expiry_height p \<Longrightarrow> r \<in> set rs"
  shows "claim_frame db p (db\<lparr>reservations := rs\<rparr>)"
  unfolding claim_frame_def held_by_def
proof (intro conjI allI ballI impI)
  show "\<exists>rs'. db\<lparr>reservations := rs\<rparr> = db\<lparr>reservations := rs'\<rparr>" by (rule exI) (rule refl)
next
  fix r
  assume "r \<in> set (reservations db)" "reservation_active db r" "rv_owner r \<noteq> pa_txid p"
  then show "r \<in> set (reservations (db\<lparr>reservations := rs\<rparr>))" using assms(1) by simp
next
  fix a i
  assume "\<exists>r \<in> set (reservations db). rv_account r = a \<and> rv_nullifier r = i \<and> rv_owner r = pa_txid p \<and>
    rv_expiry r = pa_expiry_height p"
  then show "\<exists>r \<in> set (reservations (db\<lparr>reservations := rs\<rparr>)).
      rv_account r = a \<and> rv_nullifier r = i \<and> rv_owner r = pa_txid p \<and> rv_expiry r = pa_expiry_height p"
    using assms(2) by fastforce
qed

lemma claim_frame_trans:
  assumes "claim_frame a t b" and "claim_frame b t c"
  shows "claim_frame a t c"
proof -
  obtain rs rs' where b: "b = a\<lparr>reservations := rs\<rparr>" and c: "c = b\<lparr>reservations := rs'\<rparr>"
    using assms by (auto simp: claim_frame_def)
  then have "c = a\<lparr>reservations := rs'\<rparr>" by simp
  moreover have "reservation_active b r = reservation_active a r" for r using b by simp
  ultimately show ?thesis using assms unfolding claim_frame_def by blast
qed

lemma claim_input_ok:
  assumes "keys_ok db" and "claim_input account parsed input db = Inr db'"
  shows "keys_ok db'" and "claim_frame db parsed db'" and "held_by db' account input parsed"
proof -
  let ?hit = "\<lambda>r. rv_account r = account \<and> rv_nullifier r = input"
  let ?upd = "\<lambda>r. r\<lparr>rv_owner := pa_txid parsed, rv_expiry := pa_expiry_height parsed\<rparr>"
  let ?res = "keys_ok db' \<and> claim_frame db parsed db' \<and> held_by db' account input parsed"
  have ?res
  proof (cases "find ?hit (reservations db)")
    case None
    then have fresh: "\<forall>r \<in> set (reservations db). \<not> ?hit r" by (simp add: find_None_filter)
    let ?new = "\<lparr>rv_account = account, rv_nullifier = input, rv_owner = pa_txid parsed,
      rv_expiry = pa_expiry_height parsed\<rparr>"
    have db': "db' = db\<lparr>reservations := reservations db @ [?new]\<rparr>"
      using assms(2) None by (simp add: claim_input_def)
    have "keys_ok db'" using assms(1) fresh by (auto simp: keys_ok_def db')
    moreover have "claim_frame db parsed db'" unfolding db' by (rule claim_frame_set) auto
    moreover have "held_by db' account input parsed" by (simp add: db' held_by_def)
    ultimately show ?thesis by blast
  next
    case (Some r)
    then have r: "r \<in> set (reservations db)" "?hit r" by (auto dest: find_SomeD)
    have uniq: "q = r" if "q \<in> set (reservations db)" "?hit q" for q
      using assms(1) distinct_key_unique [of _ "reservations db" q r] r that
      by (auto simp: keys_ok_def)
    have act: "list_ex ?hit (active_pending_spend_inputs db) \<longleftrightarrow> reservation_active db r"
    proof
      assume "list_ex ?hit (active_pending_spend_inputs db)"
      then obtain q where "q \<in> set (reservations db)" "reservation_active db q" "?hit q"
        by (auto simp: list_ex_iff active_pending_spend_inputs_def)
      then show "reservation_active db r" using uniq by metis
    next
      assume "reservation_active db r"
      then show "list_ex ?hit (active_pending_spend_inputs db)"
        using r by (auto simp: list_ex_iff active_pending_spend_inputs_def)
    qed
    have ok: "rv_owner r = pa_txid parsed \<or> \<not> reservation_active db r"
      and db': "db' = db\<lparr>reservations := update_where ?hit ?upd (reservations db)\<rparr>"
      using assms(2) unfolding claim_input_def Let_def Some act by (simp_all split: if_splits)
    have "keys_ok db'" using assms(1) by (simp add: keys_ok_def db' map_claim_key)
    moreover have "claim_frame db parsed db'"
      unfolding db'
    proof (rule claim_frame_set)
      fix q
      assume q: "q \<in> set (reservations db)" "reservation_active db q" "rv_owner q \<noteq> pa_txid parsed"
      then have "\<not> ?hit q" using ok uniq by metis
      then show "q \<in> set (update_where ?hit ?upd (reservations db))"
        using q(1) by (auto simp: set_update_where image_iff intro!: bexI [of _ q])
    next
      fix q
      assume q: "q \<in> set (reservations db)" "rv_owner q = pa_txid parsed" "rv_expiry q = pa_expiry_height parsed"
      have "(if ?hit q then ?upd q else q) \<in> set (update_where ?hit ?upd (reservations db))"
        using q(1) by (auto simp: set_update_where)
      moreover have "?upd q = q" using q(2,3) by simp
      ultimately show "q \<in> set (update_where ?hit ?upd (reservations db))" by (simp split: if_splits)
    qed
    moreover have "held_by db' account input parsed"
    proof -
      have "?upd r \<in> set (update_where ?hit ?upd (reservations db))"
        using r by (auto simp: set_update_where image_iff)
      then show ?thesis using r(2) unfolding held_by_def db' by (intro bexI [of _ "?upd r"]) simp_all
    qed
    ultimately show ?thesis by blast
  qed
  then show "keys_ok db'" "claim_frame db parsed db'" "held_by db' account input parsed"
    by blast+
qed

lemma claim_inputs_ok:
  assumes "keys_ok db" and "claim_inputs account parsed owned db = Inr db'"
  shows "keys_ok db' \<and> claim_frame db parsed db' \<and>
    (\<forall>i \<in> set owned. held_by db' account i parsed)"
  using assms
proof (induction owned arbitrary: db)
  case Nil
  then show ?case by (simp add: claim_inputs_def)
next
  case (Cons i owned)
  then obtain d where d: "claim_input account parsed i db = Inr d" "claim_inputs account parsed owned d = Inr db'"
    by (auto simp: claim_inputs_def)
  note c = claim_input_ok [OF Cons.prems(1) d(1)]
  have "keys_ok db' \<and> claim_frame d parsed db' \<and> (\<forall>i \<in> set owned. held_by db' account i parsed)"
    using Cons.IH [OF c(1) d(2)] .
  moreover have "held_by db' account i parsed" using calculation c(3) by (simp add: claim_frame_def)
  ultimately show ?case using claim_frame_trans [OF c(2)] by simp
qed

section \<open>Validation\<close>

lemma validate_row_ok:
  assumes "validate_row db account parsed input n owned = Inr owned'"
  shows "nr_account n = account \<and> \<not> nr_locked n \<and> set owned' = insert input (set owned)"
  using assms by (auto simp: validate_row_def split: if_splits)

lemma validate_rows_ok:
  assumes "res_fold (validate_row db account parsed input) ns owned = Inr owned'"
  shows "(\<forall>n \<in> set ns. nr_account n = account \<and> \<not> nr_locked n)
    \<and> set owned' = (if ns = [] then set owned else insert input (set owned))"
  using assms
proof (induction ns arbitrary: owned)
  case Nil
  then show ?case by simp
next
  case (Cons n ns)
  then obtain o' where "validate_row db account parsed input n owned = Inr o'"
    "res_fold (validate_row db account parsed input) ns o' = Inr owned'" by auto
  then show ?case using Cons.IH [of o'] validate_row_ok [of db account parsed input n owned o'] by auto
qed

lemma validate_owned_fold:
  assumes "res_fold (\<lambda>input. res_fold (validate_row db account parsed input)
      (filter (\<lambda>n. nr_nullifier n = input) (note_rows db))) inputs owned = Inr owned'"
  shows "(\<forall>n \<in> set (note_rows db). nr_nullifier n \<in> set inputs \<longrightarrow> nr_account n = account \<and> \<not> nr_locked n)
    \<and> set owned' = set owned \<union> {i \<in> set inputs. i \<in> nr_nullifier ` set (note_rows db)}"
  using assms
proof (induction inputs arbitrary: owned)
  case Nil
  then show ?case by simp
next
  case (Cons i inputs)
  let ?ns = "filter (\<lambda>n. nr_nullifier n = i) (note_rows db)"
  obtain o' where o': "res_fold (validate_row db account parsed i) ?ns owned = Inr o'"
    and rest: "res_fold (\<lambda>input. res_fold (validate_row db account parsed input)
      (filter (\<lambda>n. nr_nullifier n = input) (note_rows db))) inputs o' = Inr owned'"
    using Cons.prems by auto
  have "?ns = [] \<longleftrightarrow> i \<notin> nr_nullifier ` set (note_rows db)" by (auto simp: filter_empty_conv)
  then show ?case using validate_rows_ok [OF o'] Cons.IH [OF rest] by (auto split: if_splits)
qed

lemma validate_owned_inputs_ok:
  assumes "validate_owned_inputs db account parsed = Inr owned"
  shows "set owned = {i \<in> set (pa_inputs parsed). i \<in> nr_nullifier ` set (note_rows db)}"
    and "n \<in> set (note_rows db) \<Longrightarrow> nr_nullifier n \<in> set (pa_inputs parsed) \<Longrightarrow>
      nr_account n = account \<and> \<not> nr_locked n"
  using validate_owned_fold [OF assms [unfolded validate_owned_inputs_def]] by auto

section \<open>Reserving\<close>

lemma record_pending_tx_simps [simp]:
  "reservations (record_pending_tx a p s db) = reservations db"
  "note_rows (record_pending_tx a p s db) = note_rows db"
  "sync_heights (record_pending_tx a p s db) = sync_heights db"
  "get_sync_height (record_pending_tx a p s db) b = get_sync_height db b"
  by (simp_all add: record_pending_tx_def Let_def get_sync_height_def)

lemma keys_ok_record_pending_tx: "keys_ok db \<Longrightarrow> keys_ok (record_pending_tx a p s db)"
proof -
  have "map (\<lambda>p. (pt_account p, pt_txid p)) (update_where R (\<lambda>p. p\<lparr>pt_height := x, pt_expiry := y\<rparr>) v)
    = map (\<lambda>p. (pt_account p, pt_txid p)) v" for R x y and v :: "PendingTxRow list"
    by (rule map_update_where) simp
  then show "keys_ok db \<Longrightarrow> keys_ok (record_pending_tx a p s db)"
    by (auto simp: keys_ok_def record_pending_tx_def Let_def list_ex_iff)
qed

lemma held_by_record [simp]: "held_by (record_pending_tx a p s db) b i t = held_by db b i t"
  by (simp add: held_by_def)

lemma reservation_active_heights:
  "sync_heights db' = sync_heights db \<Longrightarrow> reservation_active db' r = reservation_active db r"
  by (simp add: reservation_active_def get_sync_height_def)

lemma reserve_ok:
  assumes "keys_ok db" and "reserve_parsed_transaction account parsed own_inputs db = (Inr (), db')"
  shows "keys_ok db'"
    and "sync_heights db' = sync_heights db" and "note_rows db' = note_rows db"
    and "r \<in> set (reservations db) \<Longrightarrow> reservation_active db r \<Longrightarrow> rv_owner r \<noteq> pa_txid parsed \<Longrightarrow>
      r \<in> set (reservations db')"
    and "n \<in> set (note_rows db) \<Longrightarrow> nr_nullifier n \<in> set (pa_inputs parsed) \<Longrightarrow>
      nr_account n = account \<and> \<not> nr_locked n \<and> held_by db' account (nr_nullifier n) parsed"
proof -
  obtain owned where v: "validate_owned_inputs db account parsed = Inr owned"
    and t: "owned = [] \<Longrightarrow> db' = db"
    and c: "owned \<noteq> [] \<Longrightarrow> \<exists>d. claim_inputs account parsed owned db = Inr d
      \<and> db' = record_pending_tx account parsed (get_sync_height db account) d"
    using assms(2)
    by (auto simp: reserve_parsed_transaction_def reserve_in_transaction_def atomically_def
        split: if_splits sum.splits option.splits)
  note vo = validate_owned_inputs_ok [OF v]
  have "keys_ok db' \<and> sync_heights db' = sync_heights db \<and> note_rows db' = note_rows db
    \<and> (\<forall>r \<in> set (reservations db). reservation_active db r \<longrightarrow> rv_owner r \<noteq> pa_txid parsed \<longrightarrow> r \<in> set (reservations db'))
    \<and> (\<forall>i \<in> set owned. held_by db' account i parsed)"
  proof (cases "owned = []")
    case True
    then show ?thesis using t assms(1) by simp
  next
    case False
    then obtain d where d: "claim_inputs account parsed owned db = Inr d"
      "db' = record_pending_tx account parsed (get_sync_height db account) d" using c by blast
    then show ?thesis using claim_inputs_ok [OF assms(1) d(1)]
      by (auto simp: claim_frame_def keys_ok_record_pending_tx)
  qed
  then show "keys_ok db'" "sync_heights db' = sync_heights db" "note_rows db' = note_rows db"
    "r \<in> set (reservations db) \<Longrightarrow> reservation_active db r \<Longrightarrow> rv_owner r \<noteq> pa_txid parsed \<Longrightarrow>
      r \<in> set (reservations db')"
    "n \<in> set (note_rows db) \<Longrightarrow> nr_nullifier n \<in> set (pa_inputs parsed) \<Longrightarrow>
      nr_account n = account \<and> \<not> nr_locked n \<and> held_by db' account (nr_nullifier n) parsed"
    using vo by auto
qed

lemma claim_input_spends: "claim_input account parsed x db = Inr db' \<Longrightarrow> spends db' = spends db"
  by (auto simp: claim_input_def Let_def split: option.splits if_splits)

lemma claim_inputs_spends: "res_fold (claim_input account parsed) owned db = Inr db' \<Longrightarrow> spends db' = spends db"
  by (rule res_fold_invariant [where P = "\<lambda>d. spends d = spends db"]) (auto dest: claim_input_spends)

lemma reserve_spends:
  assumes "reserve_parsed_transaction account parsed own_inputs db = (Inr (), db')"
  shows "spends db' = spends db"
proof -
  obtain owned where t: "owned = [] \<Longrightarrow> db' = db"
    and c: "owned \<noteq> [] \<Longrightarrow> \<exists>d. claim_inputs account parsed owned db = Inr d
      \<and> db' = record_pending_tx account parsed (get_sync_height db account) d"
    using assms
    by (auto simp: reserve_parsed_transaction_def reserve_in_transaction_def atomically_def
        split: if_splits sum.splits option.splits)
  show ?thesis
  proof (cases "owned = []")
    case False
    then obtain d where d: "res_fold (claim_input account parsed) owned db = Inr d"
      "db' = record_pending_tx account parsed (get_sync_height db account) d" using c by (auto simp: claim_inputs_def)
    then show ?thesis using claim_inputs_spends [OF d(1)] by (simp add: record_pending_tx_def Let_def)
  qed (simp add: t)
qed

text \<open>
  C2. What a reservation does. A refused one leaves the database untouched. An accepted one keeps the keys
  of every table; every note of the wallet among the transaction's inputs belongs to the account, is
  unlocked, and is afterwards held by this transaction until its expiry; and no active reservation of
  another transaction is removed or changed.
\<close>

theorem reserve_parsed_transaction_effect:
  assumes "keys_ok db" and "reserve_parsed_transaction account parsed own_inputs db = (r, db')"
  shows "case r of
      Inl _ \<Rightarrow> db' = db
    | Inr _ \<Rightarrow> keys_ok db' \<and> sync_heights db' = sync_heights db
        \<and> (\<forall>n \<in> set (note_rows db). nr_nullifier n \<in> set (pa_inputs parsed) \<longrightarrow>
             nr_account n = account \<and> \<not> nr_locked n \<and> held_by db' account (nr_nullifier n) parsed)
        \<and> (\<forall>q \<in> set (active_pending_spend_inputs db). rv_owner q \<noteq> pa_txid parsed \<longrightarrow>
             q \<in> set (active_pending_spend_inputs db'))"
proof (cases r)
  case (Inl e)
  then show ?thesis using assms(2)
    by (auto simp: reserve_parsed_transaction_def atomically_def split: if_splits sum.splits)
next
  case (Inr u)
  note ok = reserve_ok [OF assms(1), of account parsed own_inputs db']
  have "reservation_active db' q = reservation_active db q" for q
    using ok(2) assms(2) Inr by (intro reservation_active_heights) simp
  then show ?thesis using ok assms(2) Inr by (auto simp: active_pending_spend_inputs_def)
qed

text \<open>
  C1. No double spend between pending transactions: when one transaction has been reserved and then
  another one with a different id is reserved, for whatever accounts, no note of the wallet is an input of
  both.
\<close>

theorem reservations_exclusive:
  assumes "keys_ok db" and "reserve_parsed_transaction a1 p1 o1 db = (Inr (), db1)"
    and "reserve_parsed_transaction a2 p2 o2 db1 = (Inr (), db2)" and "pa_txid p1 \<noteq> pa_txid p2"
    and "n \<in> set (note_rows db)"
  shows "\<not> (nr_nullifier n \<in> set (pa_inputs p1) \<and> nr_nullifier n \<in> set (pa_inputs p2))"
proof
  assume i: "nr_nullifier n \<in> set (pa_inputs p1) \<and> nr_nullifier n \<in> set (pa_inputs p2)"
  note ok1 = reserve_ok [OF assms(1,2)]
  note ok2 = reserve_ok [OF ok1(1) assms(3)]
  have a: "nr_account n = a1" "nr_account n = a2" and h: "held_by db1 a1 (nr_nullifier n) p1"
    "held_by db2 a2 (nr_nullifier n) p2"
    using ok1(5) [OF assms(5)] ok2(5) ok1(3) assms(5) i by auto
  then obtain r where r: "r \<in> set (reservations db1)" "rv_account r = a1" "rv_nullifier r = nr_nullifier n"
    "rv_owner r = pa_txid p1" "rv_expiry r = pa_expiry_height p1" by (auto simp: held_by_def)
  have "reservation_active db r" using assms(2) r(2,5)
    by (auto simp: reserve_parsed_transaction_def reservation_active_def split: if_splits option.splits)
  then have "reservation_active db1 r" using reservation_active_heights [OF ok1(2)] by simp
  then have "r \<in> set (reservations db2)" using ok2(4) r(1,4) assms(4) by simp
  moreover obtain q where "q \<in> set (reservations db2)" "rv_account q = a2" "rv_nullifier q = nr_nullifier n"
    "rv_owner q = pa_txid p2" using h(2) by (auto simp: held_by_def)
  ultimately have "r = q"
    using distinct_key_unique [of "\<lambda>r. (rv_account r, rv_nullifier r)" "reservations db2" r q] ok2(1) a r
    by (simp add: keys_ok_def)
  then show False using r(4) \<open>rv_owner q = pa_txid p2\<close> assms(4) by simp
qed

definition ex_tx :: ParsedTransaction where
  "ex_tx = \<lparr>pa_txid = [77], pa_expiry_height = 165, pa_inputs = [[1], [9]]\<rparr>"

definition ex_tx_2 :: ParsedTransaction where
  "ex_tx_2 = \<lparr>pa_txid = [78], pa_expiry_height = 165, pa_inputs = [[2]]\<rparr>"

lemmas reserve_defs = reserve_parsed_transaction_def reserve_in_transaction_def atomically_def
  validate_owned_inputs_def validate_row_def spend_of_def claim_inputs_def claim_input_def
  active_pending_spend_inputs_def record_pending_tx_def get_sync_height_def sql_min_def

lemma ex_reserve: "fst (reserve_parsed_transaction 1 ex_tx Required ex_db) = Inr ()"
  by (simp add: reserve_defs ex_tx_def ex_db_defs)

lemma ex_reserve_eq:
  "reserve_parsed_transaction 1 ex_tx Required ex_db = (Inr (), snd (reserve_parsed_transaction 1 ex_tx Required ex_db))"
  by (simp add: prod_eq_iff ex_reserve del: One_nat_def)

lemma ex_reserve_2:
  "fst (reserve_parsed_transaction 1 ex_tx_2 Required (snd (reserve_parsed_transaction 1 ex_tx Required ex_db))) = Inr ()"
  by (simp add: reserve_defs ex_tx_def ex_tx_2_def ex_db_defs)

theorem reserve_parsed_transaction_effect_witness:
  "held_by (snd (reserve_parsed_transaction 1 ex_tx Required ex_db)) 1 [1] ex_tx"
  using reserve_parsed_transaction_effect [OF ex_db_ok(1) ex_reserve_eq]
  by (simp add: ex_db_defs ex_tx_def)

theorem reservations_exclusive_witness:
  "\<not> (nr_nullifier ex_note_1 \<in> set (pa_inputs ex_tx) \<and> nr_nullifier ex_note_1 \<in> set (pa_inputs ex_tx_2))"
proof -
  let ?db1 = "snd (reserve_parsed_transaction 1 ex_tx Required ex_db)"
  have "reserve_parsed_transaction 1 ex_tx_2 Required ?db1 = (Inr (), snd (reserve_parsed_transaction 1 ex_tx_2 Required ?db1))"
    by (simp add: prod_eq_iff ex_reserve_2 del: One_nat_def)
  then show ?thesis
    by (rule reservations_exclusive [OF ex_db_ok(1) ex_reserve_eq]) (simp_all add: ex_tx_def ex_tx_2_def ex_db_defs)
qed

end
