(* ===== verification/Balances.thy ===== *)
theory Balances
  imports Reservations Fees
begin

text \<open>
  What an account can spend: the balance queries of \<open>src/rust/rlz/src/db.rs\<close> and the candidate query of
  \<open>pay/plan.rs\<close>. A \<open>SUM\<close> is over unbounded integers; the wallet's values are far below the 64-bit limit at
  which SQLite would report an overflow. A pool index past the four pools panics where the code indexes
  its result with it and is an error where it checks.
\<close>

section \<open>Queries\<close>

definition is_spent :: "Db \<Rightarrow> NoteRow \<Rightarrow> bool" where
  "is_spent db n \<longleftrightarrow> list_ex (\<lambda>s. sp_note s = nr_id n) (spends db)"

definition is_reserved :: "Db \<Rightarrow> NoteRow \<Rightarrow> bool" where
  "is_reserved db n \<longleftrightarrow>
    list_ex (\<lambda>r. rv_account r = nr_account n \<and> rv_nullifier r = nr_nullifier n) (active_pending_spend_inputs db)"

definition owned_unspent_zec_notes :: "Db \<Rightarrow> nat \<Rightarrow> NoteRow list" where
  "owned_unspent_zec_notes db account =
    filter (\<lambda>n. nr_account n = account \<and> nr_asset n = None \<and> \<not> is_spent db n) (note_rows db)"

definition available_note :: "Db \<Rightarrow> nat \<Rightarrow> NoteRow \<Rightarrow> bool" where
  "available_note db h n \<longleftrightarrow> nr_height n \<le> h \<and> \<not> nr_locked n \<and> \<not> is_reserved db n"

definition value_sum :: "NoteRow list \<Rightarrow> int" where
  "value_sum ns = sum_list (map nr_value ns)"

text \<open>The rows of \<open>N\<close>: every ZEC note counts its value, every spend of one the value it carries.\<close>

definition balance_rows :: "Db \<Rightarrow> nat \<Rightarrow> (int \<times> nat \<times> nat) list" where
  "balance_rows db account =
    map (\<lambda>n. (nr_value n, nr_pool n, nr_height n))
      (filter (\<lambda>n. nr_account n = account \<and> nr_asset n = None) (note_rows db)) @
    map (\<lambda>s. (sp_value s, sp_pool s, sp_height s))
      (filter (\<lambda>s. sp_account s = account \<and>
        list_ex (\<lambda>n. nr_id n = sp_note s \<and> nr_asset n = None) (note_rows db)) (spends db))"

definition calculate_balance :: "Db \<Rightarrow> nat \<Rightarrow> nat option \<Rightarrow> nat list run" where
  "calculate_balance db account height =
    (let h = (case height of None \<Rightarrow> u32_max | Some h \<Rightarrow> h);
         rows = filter (\<lambda>(_, _, ht). ht \<le> h) (balance_rows db account)
     in if list_all (\<lambda>(_, p, _). p < NUM_POOLS) rows
        then Ret (map (\<lambda>p. as_u64 (sum_list (map fst (filter (\<lambda>(_, q, _). q = p) rows)))) [0..<NUM_POOLS])
        else Panic)"

record PoolBalanceRow =
  pb_available :: nat
  pb_locked :: nat
  pb_change_pending :: nat
  pb_value_pending :: nat

definition pool_breakdown :: "Db \<Rightarrow> nat \<Rightarrow> NoteRow list \<Rightarrow> PoolBalanceRow" where
  "pool_breakdown db h ns =
    \<lparr>pb_available = as_u64 (value_sum (filter (available_note db h) ns)),
     pb_locked = as_u64 (value_sum (filter (\<lambda>n. nr_height n \<le> h \<and> (nr_locked n \<or> is_reserved db n)) ns)),
     pb_change_pending = as_u64 (value_sum (filter (\<lambda>n. h < nr_height n \<and> nr_scope n = Some 1) ns)),
     pb_value_pending = as_u64 (value_sum (filter (\<lambda>n. h < nr_height n \<and> nr_scope n \<noteq> Some 1) ns))\<rparr>"

definition calculate_balance_breakdown :: "Db \<Rightarrow> nat \<Rightarrow> nat \<Rightarrow> PoolBalanceRow list run" where
  "calculate_balance_breakdown db account confirmations =
    (let h = confirmed_height db account confirmations;
         ns = owned_unspent_zec_notes db account
     in if list_all (\<lambda>n. nr_pool n < NUM_POOLS) ns
        then Ret (map (\<lambda>p. pool_breakdown db h (filter (\<lambda>n. nr_pool n = p) ns)) [0..<NUM_POOLS])
        else Panic)"

definition DEFAULT_CONFIRMATIONS :: nat where
  "DEFAULT_CONFIRMATIONS = 10"

definition max_spendable :: "Db \<Rightarrow> nat \<Rightarrow> nat" where
  "max_spendable db account =
    as_u64 (value_sum (filter (available_note db (confirmed_height db account DEFAULT_CONFIRMATIONS))
      (owned_unspent_zec_notes db account)))"

text \<open>The grouped rows are summed in some pool order; both accumulators are sums, so the order is immaterial.\<close>

definition spendable_notes :: "Db \<Rightarrow> nat \<Rightarrow> nat \<Rightarrow> NoteRow list" where
  "spendable_notes db account confirmations =
    filter (\<lambda>n. available_note db (confirmed_height db account confirmations) n \<and> int COST_PER_ACTION \<le> nr_value n)
      (owned_unspent_zec_notes db account)"

definition spend_actions :: "nat \<Rightarrow> nat \<Rightarrow> nat" where
  "spend_actions pool count = (if pool = 0 then count else max count 2)"

definition max_spendable_from_pools :: "Db \<Rightarrow> nat \<Rightarrow> PoolMask \<Rightarrow> nat \<Rightarrow> nat" where
  "max_spendable_from_pools db account pools confirmations =
    (let ns = spendable_notes db account confirmations;
         groups = filter (has_pool pools) (remdups (map nr_pool ns));
         in_pool = (\<lambda>p. filter (\<lambda>n. nr_pool n = p) ns);
         available = u64_sum (map (\<lambda>p. as_u64 (value_sum (in_pool p))) groups);
         actions = u64_sum (map (\<lambda>p. spend_actions p (length (in_pool p))) groups);
         fee_bound = u64_mul (max (u64_add actions 4) 2) COST_PER_ACTION
     in sat_sub available fee_bound)"

record InputNote =
  in_id :: nat
  in_height :: nat
  in_amount :: nat
  in_remaining :: nat
  in_pool :: nat
  in_id_asset :: "nat option"
  in_asset_base :: bytes
  in_taddress :: "nat option"

definition ZEC_BASE :: bytes where
  "ZEC_BASE = replicate 32 0"

definition asset_base_of :: "Db \<Rightarrow> nat option \<Rightarrow> bytes" where
  "asset_base_of db a =
    (case a of
       None \<Rightarrow> ZEC_BASE
     | Some i \<Rightarrow> (case find (\<lambda>r. as_id r = i) (assets db) of None \<Rightarrow> ZEC_BASE | Some r \<Rightarrow> as_base r))"

definition fetch_unspent_notes :: "Db \<Rightarrow> nat \<Rightarrow> InputNote list" where
  "fetch_unspent_notes db account =
    map (\<lambda>n. \<lparr>in_id = nr_id n, in_height = nr_height n, in_amount = as_u64 (nr_value n),
        in_remaining = as_u64 (nr_value n), in_pool = nr_pool n, in_id_asset = nr_asset n,
        in_asset_base = asset_base_of db (nr_asset n), in_taddress = nr_taddress n\<rparr>)
      (filter (\<lambda>n. \<not> is_spent db n \<and> nr_account n = account \<and> \<not> nr_locked n \<and> \<not> is_reserved db n) (note_rows db))"

definition fetch_unspent_notes_by_pool :: "Db \<Rightarrow> nat \<Rightarrow> DbError + InputNote list list" where
  "fetch_unspent_notes_by_pool db account =
    (let ns = fetch_unspent_notes db account
     in if list_all (\<lambda>n. in_pool n < NUM_POOLS) ns
        then Inr (map (\<lambda>p. filter (\<lambda>n. in_pool n = p) ns) [0..<NUM_POOLS])
        else Inl UnexpectedPool)"

definition fetch_unspent_notes_grouped_by_pool :: "Db \<Rightarrow> nat \<Rightarrow> InputNote list" where
  "fetch_unspent_notes_grouped_by_pool db account = sort_key in_pool (fetch_unspent_notes db account)"

section \<open>The breakdown adds up to the balance\<close>

definition zec_in_pool :: "Db \<Rightarrow> nat \<Rightarrow> nat \<Rightarrow> NoteRow list" where
  "zec_in_pool db account p =
    filter (\<lambda>n. nr_account n = account \<and> nr_asset n = None \<and> nr_pool n = p) (note_rows db)"

lemma value_sum_split: "value_sum (filter P ns) + value_sum (filter (\<lambda>n. \<not> P n) ns) = value_sum ns"
  by (induction ns) (auto simp: value_sum_def)

lemma value_sum_nonneg: "(\<forall>n \<in> set ns. 0 \<le> nr_value n) \<Longrightarrow> 0 \<le> value_sum (filter P ns)"
  by (induction ns) (auto simp: value_sum_def)

lemma value_sum_filter_le: "(\<forall>n \<in> set ns. 0 \<le> nr_value n) \<Longrightarrow> value_sum (filter P ns) \<le> value_sum ns"
  using value_sum_split [of P ns] value_sum_nonneg [of ns "\<lambda>n. \<not> P n"] by linarith

lemma sum_list_filter_set:
  assumes "distinct (map k t)"
  shows "sum_list (map f (filter P t)) = (\<Sum>x \<in> {x \<in> set t. P x}. f x)"
proof -
  have "distinct (filter P t)" using assms distinct_filter distinct_map by blast
  then show ?thesis by (simp add: sum_list_distinct_conv_sum_set)
qed

lemma spent_values:
  assumes "keys_ok db" and "spends_ok db"
  shows "sum_list (map sp_value (filter (\<lambda>s. sp_account s = account \<and>
      list_ex (\<lambda>n. nr_id n = sp_note s \<and> nr_asset n = None) (note_rows db) \<and> sp_pool s = p) (spends db)))
    = - value_sum (filter (is_spent db) (zec_in_pool db account p))"
proof -
  let ?S = "{s \<in> set (spends db). sp_account s = account \<and>
      list_ex (\<lambda>n. nr_id n = sp_note s \<and> nr_asset n = None) (note_rows db) \<and> sp_pool s = p}"
  let ?T = "{n \<in> set (note_rows db). nr_account n = account \<and> nr_asset n = None \<and> nr_pool n = p \<and> is_spent db n}"
  have dn: "distinct (map nr_id (note_rows db))" and ds: "distinct (map sp_note (spends db))"
    using assms(1) by (simp_all add: keys_ok_def)
  note un = distinct_key_unique [OF dn] and us = distinct_key_unique [OF ds]
  define i where "i n = (THE s. s \<in> set (spends db) \<and> sp_note s = nr_id n)" for n :: NoteRow
  define j where "j s = (THE n. n \<in> set (note_rows db) \<and> nr_id n = sp_note s)" for s :: SpendRow
  have i: "i n = s" if "s \<in> set (spends db)" "sp_note s = nr_id n" for n s
    unfolding i_def using that us by (intro the_equality) auto
  have j: "j s = n" if "n \<in> set (note_rows db)" "nr_id n = sp_note s" for n s
    unfolding j_def using that un by (intro the_equality) auto
  have link: "\<exists>n \<in> set (note_rows db). nr_id n = sp_note s \<and> nr_account n = sp_account s \<and> nr_pool n = sp_pool s
      \<and> sp_value s = - nr_value n" if "s \<in> set (spends db)" for s
    using assms(2) that by (fastforce simp: spends_ok_def)
  have "(\<Sum>s \<in> ?S. sp_value s) = (\<Sum>n \<in> ?T. - nr_value n)"
  proof (rule sum.reindex_bij_witness [where i = i and j = j])
    fix s assume s: "s \<in> ?S"
    then obtain n where n: "n \<in> set (note_rows db)" "nr_id n = sp_note s" "nr_account n = sp_account s"
      "nr_pool n = sp_pool s" "sp_value s = - nr_value n" using link by blast
    have "nr_asset n = None" using s un [OF _ n(1)] n(2) by (auto simp: list_ex_iff)
    then show "j s \<in> ?T" "i (j s) = s" "- nr_value (j s) = sp_value s"
      using s n j [OF n(1,2)] i [of s n] by (auto simp: is_spent_def list_ex_iff)
  next
    fix n assume n: "n \<in> ?T"
    then obtain s where s: "s \<in> set (spends db)" "sp_note s = nr_id n" by (auto simp: is_spent_def list_ex_iff)
    obtain m where "m \<in> set (note_rows db)" "nr_id m = sp_note s" "nr_account m = sp_account s" "nr_pool m = sp_pool s"
      using link [OF s(1)] by blast
    then have "m = n" using un n s(2) by auto
    then show "i n \<in> ?S" "j (i n) = n"
      using n s i [OF s] j [of n s] \<open>nr_account m = sp_account s\<close> \<open>nr_pool m = sp_pool s\<close>
      by (auto simp: list_ex_iff)
  qed
  then show ?thesis
    unfolding value_sum_def zec_in_pool_def filter_filter
    by (simp add: sum_list_filter_set [OF ds] sum_list_filter_set [OF dn] sum_negf conj_ac)
qed

lemma unspent_values:
  "value_sum (zec_in_pool db account p) - value_sum (filter (is_spent db) (zec_in_pool db account p))
    = value_sum (filter (\<lambda>n. nr_pool n = p) (owned_unspent_zec_notes db account))"
proof -
  have "filter (\<lambda>n. \<not> is_spent db n) (zec_in_pool db account p)
      = filter (\<lambda>n. nr_pool n = p) (owned_unspent_zec_notes db account)"
    by (auto simp: zec_in_pool_def owned_unspent_zec_notes_def intro: filter_cong)
  then show ?thesis using value_sum_split [of "is_spent db" "zec_in_pool db account p"] by simp
qed

definition heights_ok :: "Db \<Rightarrow> bool" where
  "heights_ok db \<longleftrightarrow> (\<forall>n \<in> set (note_rows db). nr_height n \<le> u32_max) \<and> (\<forall>s \<in> set (spends db). sp_height s \<le> u32_max)"

definition values_ok :: "Db \<Rightarrow> nat \<Rightarrow> bool" where
  "values_ok db account \<longleftrightarrow> (\<forall>n \<in> set (note_rows db). 0 \<le> nr_value n)
    \<and> value_sum (filter (\<lambda>n. nr_account n = account) (note_rows db)) < 2 ^ 64"

lemma breakdown_sum:
  assumes "\<forall>n \<in> set ns. 0 \<le> nr_value n" and "value_sum ns < 2 ^ 64"
  shows "int (pb_available (pool_breakdown db h ns) + pb_locked (pool_breakdown db h ns)
    + pb_change_pending (pool_breakdown db h ns) + pb_value_pending (pool_breakdown db h ns)) = value_sum ns"
proof -
  have ex: "int (as_u64 (value_sum (filter P ns))) = value_sum (filter P ns)" for P
  proof -
    have "0 \<le> value_sum (filter P ns)" "value_sum (filter P ns) < 2 ^ 64"
      using value_sum_nonneg [OF assms(1)] value_sum_filter_le [OF assms(1), of P] assms(2) by auto
    then show ?thesis by (simp add: as_u64_exact)
  qed
  have "value_sum (filter (available_note db h) ns)
      + value_sum (filter (\<lambda>n. nr_height n \<le> h \<and> (nr_locked n \<or> is_reserved db n)) ns)
      + value_sum (filter (\<lambda>n. h < nr_height n \<and> nr_scope n = Some 1) ns)
      + value_sum (filter (\<lambda>n. h < nr_height n \<and> nr_scope n \<noteq> Some 1) ns) = value_sum ns"
    by (induction ns) (auto simp: value_sum_def available_note_def)
  then show ?thesis by (simp add: pool_breakdown_def ex)
qed

lemma balance_rows_sum:
  assumes "keys_ok db" and "spends_ok db" and "heights_ok db"
  shows "sum_list (map fst (filter (\<lambda>(_, q, _). q = p)
      (filter (\<lambda>(_, _, ht). ht \<le> u32_max) (balance_rows db account))))
    = value_sum (filter (\<lambda>n. nr_pool n = p) (owned_unspent_zec_notes db account))"
proof -
  let ?P = "\<lambda>s. sp_account s = account \<and> list_ex (\<lambda>n. nr_id n = sp_note s \<and> nr_asset n = None) (note_rows db)"
  have "filter (\<lambda>(_, q, _). q = p) (filter (\<lambda>(_, _, ht). ht \<le> u32_max) (balance_rows db account))
      = map (\<lambda>n. (nr_value n, nr_pool n, nr_height n)) (zec_in_pool db account p)
        @ map (\<lambda>s. (sp_value s, sp_pool s, sp_height s)) (filter (\<lambda>s. ?P s \<and> sp_pool s = p) (spends db))"
    using assms(3) unfolding balance_rows_def zec_in_pool_def filter_append filter_map filter_filter heights_ok_def
    by (auto intro!: arg_cong2 [of _ _ _ _ "(@)"] arg_cong [of _ _ "map _"] filter_cong)
  then have "sum_list (map fst (filter (\<lambda>(_, q, _). q = p)
      (filter (\<lambda>(_, _, ht). ht \<le> u32_max) (balance_rows db account))))
    = value_sum (zec_in_pool db account p) + sum_list (map sp_value (filter (\<lambda>s. ?P s \<and> sp_pool s = p) (spends db)))"
    by (simp add: value_sum_def o_def)
  also have "sum_list (map sp_value (filter (\<lambda>s. ?P s \<and> sp_pool s = p) (spends db)))
      = - value_sum (filter (is_spent db) (zec_in_pool db account p))"
    using spent_values [OF assms(1,2), of account p] by (simp add: conj_assoc)
  finally show ?thesis using unspent_values [of db account p] by simp
qed

text \<open>
  The two balance queries agree: in every pool, the balance computed from all notes and all spends is
  the sum of the four parts of the breakdown (spendable, locked or reserved, incoming change, incoming
  payments), whatever number of confirmations the breakdown is asked for.
\<close>

theorem balance_breakdown_consistent:
  assumes "keys_ok db" and "spends_ok db" and "heights_ok db" and "values_ok db account"
    and "calculate_balance db account None = Ret bs"
    and "calculate_balance_breakdown db account confirmations = Ret rows" and "p < NUM_POOLS"
  shows "bs ! p = pb_available (rows ! p) + pb_locked (rows ! p) + pb_change_pending (rows ! p)
    + pb_value_pending (rows ! p)"
proof -
  let ?ns = "filter (\<lambda>n. nr_pool n = p) (owned_unspent_zec_notes db account)"
  let ?acc = "filter (\<lambda>n. nr_account n = account) (note_rows db)"
  let ?h = "confirmed_height db account confirmations"
  have ns: "?ns = filter (\<lambda>n. nr_asset n = None \<and> \<not> is_spent db n \<and> nr_pool n = p) ?acc"
    by (simp add: owned_unspent_zec_notes_def conj_ac)
  have pos: "\<forall>n \<in> set ?acc. 0 \<le> nr_value n" "\<forall>n \<in> set ?ns. 0 \<le> nr_value n"
    using assms(4) by (auto simp: values_ok_def owned_unspent_zec_notes_def)
  have lt: "value_sum ?ns < 2 ^ 64"
    using value_sum_filter_le [OF pos(1)] assms(4) unfolding ns values_ok_def by (meson le_less_trans)
  have "bs ! p = as_u64 (value_sum ?ns)"
    using assms(5,7) balance_rows_sum [OF assms(1-3), of p account]
    by (auto simp: calculate_balance_def Let_def split: if_splits)
  moreover have "0 \<le> value_sum ?ns" using value_sum_nonneg [OF pos(2), of "\<lambda>_. True"] by simp
  ultimately have "int (bs ! p) = value_sum ?ns" using lt by (simp add: as_u64_exact)
  moreover have "rows ! p = pool_breakdown db ?h ?ns"
    using assms(6,7) by (auto simp: calculate_balance_breakdown_def Let_def split: if_splits)
  ultimately have "int (bs ! p) = int (pb_available (rows ! p) + pb_locked (rows ! p)
      + pb_change_pending (rows ! p) + pb_value_pending (rows ! p))"
    using breakdown_sum [OF pos(2) lt, of db ?h] by simp
  then show ?thesis by (simp only: of_nat_eq_iff)
qed

theorem balance_breakdown_consistent_witness:
  "calculate_balance ex_db 1 None = Ret [0, 30000, 50000, 0]
   \<and> (\<exists>rows. calculate_balance_breakdown ex_db 1 10 = Ret rows
        \<and> 50000 = pb_available (rows ! 2) + pb_locked (rows ! 2) + pb_change_pending (rows ! 2) + pb_value_pending (rows ! 2))"
proof -
  have b: "calculate_balance ex_db 1 None = Ret [0, 30000, 50000, 0]"
    by (simp add: calculate_balance_def ex_db_defs balance_rows_def NUM_POOLS_def u32_max_def as_u64_def upt_rec)
  have r: "\<exists>rows. calculate_balance_breakdown ex_db 1 10 = Ret rows"
    by (simp add: calculate_balance_breakdown_def ex_db_defs owned_unspent_zec_notes_def is_spent_def NUM_POOLS_def)
  then obtain rows where rows: "calculate_balance_breakdown ex_db 1 10 = Ret rows" by blast
  have "heights_ok ex_db" "values_ok ex_db 1"
    by (simp_all add: heights_ok_def values_ok_def ex_db_defs u32_max_def value_sum_def)
  then show ?thesis
    using balance_breakdown_consistent [OF ex_db_ok _ _ b rows, of 2] b rows by (simp add: NUM_POOLS_def)
qed

section \<open>Reserved notes are not spendable\<close>

lemma held_reserved:
  assumes "held_by db (nr_account n) (nr_nullifier n) parsed"
    and "pa_expiry_height parsed = 0 \<or>
      (case get_sync_height db (nr_account n) of None \<Rightarrow> 0 | Some h \<Rightarrow> h) < pa_expiry_height parsed"
  shows "is_reserved db n"
  using assms by (fastforce simp: held_by_def is_reserved_def list_ex_iff active_pending_spend_inputs_def
      reservation_active_def)

lemma reserved_after:
  assumes "keys_ok db" and "reserve_parsed_transaction account parsed own_inputs db = (Inr (), db')"
    and "n \<in> set (note_rows db)" and "nr_nullifier n \<in> set (pa_inputs parsed)"
  shows "nr_account n = account" and "is_reserved db' n"
proof -
  note ok = reserve_ok [OF assms(1,2)]
  show a: "nr_account n = account" using ok(5) [OF assms(3,4)] by auto
  have "pa_expiry_height parsed = 0 \<or>
      (case get_sync_height db account of None \<Rightarrow> 0 | Some h \<Rightarrow> h) < pa_expiry_height parsed"
    using assms(2) by (auto simp: reserve_parsed_transaction_def split: if_splits option.splits)
  moreover have "get_sync_height db' account = get_sync_height db account"
    using ok(2) by (simp add: get_sync_height_def)
  ultimately show "is_reserved db' n" using held_reserved [of db' n parsed] ok(5) [OF assms(3,4)] a by simp
qed

text \<open>
  C21. A reserved note leaves the candidate set: once a transaction has been reserved, none of the wallet's
  notes it spends is offered as an input to the next plan, and none counts as available in the balance.
\<close>

theorem reserved_not_spendable:
  assumes "keys_ok db" and "reserve_parsed_transaction account parsed own_inputs db = (Inr (), db')"
    and "n \<in> set (note_rows db)" and "nr_nullifier n \<in> set (pa_inputs parsed)"
  shows "nr_id n \<notin> in_id ` set (fetch_unspent_notes db' account) \<and> \<not> available_note db' h n"
proof -
  note ok = reserve_ok [OF assms(1,2)] and r = reserved_after(2) [OF assms]
  have "m = n" if "m \<in> set (note_rows db')" "nr_id m = nr_id n" for m
    using that assms(3) ok(1,3) distinct_key_unique [of nr_id "note_rows db'" m n] by (simp add: keys_ok_def)
  then show ?thesis using r by (auto simp: fetch_unspent_notes_def available_note_def)
qed

theorem reserved_not_spendable_witness:
  "fst (reserve_parsed_transaction 1 ex_tx Required ex_db) = Inr ()
   \<and> 1 \<notin> in_id ` set (fetch_unspent_notes (snd (reserve_parsed_transaction 1 ex_tx Required ex_db)) 1)"
proof -
  have n: "ex_note_1 \<in> set (note_rows ex_db)" "nr_nullifier ex_note_1 \<in> set (pa_inputs ex_tx)" "nr_id ex_note_1 = 1"
    by (simp_all add: ex_db_defs ex_tx_def)
  show ?thesis using reserved_not_spendable [OF ex_db_ok(1) ex_reserve_eq n(1,2)] n(3) ex_reserve by simp
qed

end
