(* ===== verification/PlanTx.thy ===== *)
theory PlanTx
  imports Balances Solver "HOL-Library.List_Lexorder"
begin

text \<open>
  The numeric core of \<open>plan_transaction\<close> (\<open>src/rust/rlz/src/pay/plan.rs\<close>): the candidate inputs, the
  request handed to the solver, and the fee, change and output amounts built from its answer. Decoding an
  address belongs to \<open>zcash_address\<close>: a recipient carries the pool \<open>decompose_address\<close> picks, or \<open>None\<close> when
  it fails. The random group of the smart-transparent mode is the argument \<open>rnd\<close>. Proving, signing and the
  construction of the PCZT follow in the source and are not part of the plan's arithmetic.
\<close>

datatype PlanError =
    BadAddress
  | ZsaWithIronwood
  | NoFeasibleSelection

record PlanRecipient =
  pr_amount :: nat
  pr_asset_base :: bytes
  pr_pools :: "u8 option"
  pr_receiver :: "nat option"

record Plan =
  pl_selection :: Selection
  pl_change_pool :: nat
  pl_zsa_changes :: "(bytes \<times> nat) list"
  pl_outputs :: "(bytes \<times> nat) list"
  pl_fee :: nat
  pl_change :: nat

section \<open>Candidates\<close>

definition restrict_to_source_pools :: "u8 \<Rightarrow> nat \<Rightarrow> InputNote list list \<Rightarrow> InputNote list list" where
  "restrict_to_source_pools src_pools max_height pools =
    map (\<lambda>p. if src_pools AND one_shl p = 0 then []
             else filter (\<lambda>n. in_height n \<le> max_height) (pools ! p)) [0..<NUM_POOLS]"

definition restrict_to_preselected :: "nat list option \<Rightarrow> InputNote list list \<Rightarrow> InputNote list list" where
  "restrict_to_preselected preselected pools =
    (case preselected of
       None \<Rightarrow> pools
     | Some ids \<Rightarrow> map (\<lambda>p. filter (\<lambda>n. in_id n \<in> set ids) (pools ! p)) [0..<NUM_POOLS])"

definition is_zec_base :: "bytes \<Rightarrow> bool" where
  "is_zec_base b \<longleftrightarrow> b = [] \<or> list_all (\<lambda>x. x = 0) b"

definition drop_zec_dust :: "InputNote list list \<Rightarrow> InputNote list list" where
  "drop_zec_dust pools =
    map (filter (\<lambda>n. \<not> is_zec_base (in_asset_base n) \<or> COST_PER_ACTION \<le> in_amount n)) pools"

definition taddress_key :: "InputNote \<Rightarrow> nat" where
  "taddress_key n = (case in_taddress n of None \<Rightarrow> 0 | Some t \<Rightarrow> Suc t)"

definition taddress_groups :: "InputNote list \<Rightarrow> InputNote list list" where
  "taddress_groups ns =
    (let sorted = sort_key taddress_key ns
     in map (\<lambda>k. filter (\<lambda>n. taddress_key n = k) sorted) (remdups_adj (map taddress_key sorted)))"

definition default_recipient :: PlanRecipient where
  "default_recipient = \<lparr>pr_amount = 0, pr_asset_base = [], pr_pools = None, pr_receiver = None\<rparr>"

definition smart_transparent_request ::
    "nat \<Rightarrow> InputNote list list \<Rightarrow> PlanRecipient list \<Rightarrow> InputNote list list \<times> PlanRecipient list" where
  "smart_transparent_request rnd pools recipients =
    (let groups = taddress_groups (pools ! 0);
         ns = (if groups = [] then [] else groups ! (rnd mod length groups));
         first = (case recipients of [] \<Rightarrow> default_recipient | r # _ \<Rightarrow> r)
     in ([ns, [], [], []], [first\<lparr>pr_amount := u64_sum (map in_amount ns)\<rparr>]))"

section \<open>Assets\<close>

definition recipient_base :: "PlanRecipient \<Rightarrow> bytes" where
  "recipient_base r = (if pr_asset_base r = [] then ZEC_BASE else pr_asset_base r)"

definition zsa_assets :: "PlanRecipient list \<Rightarrow> bytes list" where
  "zsa_assets rs =
    filter (\<lambda>b. length b = 32) (remdups_adj (sort (filter (\<lambda>b. b \<noteq> ZEC_BASE) (map recipient_base rs))))"

text \<open>The solver's index of an asset: \<open>None\<close> when the asset is not among the recipients' assets.\<close>

fun asset_position :: "bytes \<Rightarrow> bytes list \<Rightarrow> nat option" where
  "asset_position b [] = None"
| "asset_position b (x # xs) = (if x = b then Some 0 else map_option Suc (asset_position b xs))"

definition asset_bytes :: "bytes \<Rightarrow> bytes" where
  "asset_bytes b = (if length b = 32 then b else ZEC_BASE)"

definition zsa_index :: "bytes list \<Rightarrow> bytes \<Rightarrow> nat option" where
  "zsa_index zs b = map_option (\<lambda>i. (i + 1) mod 256) (asset_position b zs)"

definition resolve_asset_index :: "bytes list \<Rightarrow> bytes \<Rightarrow> nat" where
  "resolve_asset_index zs b =
    (if asset_bytes b = ZEC_BASE then 0
     else (case zsa_index zs (asset_bytes b) of None \<Rightarrow> 0 | Some i \<Rightarrow> i))"

definition note_asset_index :: "bytes list \<Rightarrow> bytes \<Rightarrow> nat option" where
  "note_asset_index zs b =
    (if asset_bytes b = ZEC_BASE then Some 0 else zsa_index zs (asset_bytes b))"

definition solver_notes :: "bytes list \<Rightarrow> InputNote list list \<Rightarrow> Note list" where
  "solver_notes zs pools =
    concat (map (\<lambda>(p, ns). List.map_filter (\<lambda>(idx, n).
        map_option (\<lambda>a. \<lparr>sn_pool = p, sn_amount = in_amount n, sn_pool_index = idx, sn_asset = a\<rparr>)
          (note_asset_index zs (in_asset_base n))) (enumerate 0 ns)) (enumerate 0 pools))"

definition pool_pref :: "PlanRecipient \<Rightarrow> nat \<Rightarrow> nat" where
  "pool_pref r receiver =
    (case pr_pools r of
       None \<Rightarrow> receiver
     | Some m \<Rightarrow> (case to_best_pool (PoolMask m) of None \<Rightarrow> receiver | Some p \<Rightarrow> p))"

definition solver_outputs :: "bytes list \<Rightarrow> (PlanRecipient \<times> nat) list \<Rightarrow> Output list" where
  "solver_outputs zs rs =
    map (\<lambda>(r, receiver). \<lparr>so_pool = pool_pref r receiver, so_amount = pr_amount r,
        so_asset = resolve_asset_index zs (recipient_base r)\<rparr>) rs"

section \<open>Amounts\<close>

definition zsa_selected :: "InputNote list list \<Rightarrow> Selection \<Rightarrow> bytes \<Rightarrow> nat" where
  "zsa_selected pools sel asset =
    u64_sum (map (\<lambda>idx. in_amount (pools ! 2 ! idx))
      (filter (\<lambda>idx. asset_bytes (in_asset_base (pools ! 2 ! idx)) = asset) (sel_per_pool_indices sel ! 2)))"

definition zsa_changes :: "bytes list \<Rightarrow> PlanRecipient list \<Rightarrow> InputNote list list \<Rightarrow> Selection \<Rightarrow> (bytes \<times> nat) list" where
  "zsa_changes zs rs pools sel =
    List.map_filter (\<lambda>asset.
      let selected = zsa_selected pools sel asset;
          needed = u64_sum (map pr_amount (filter (\<lambda>r. recipient_base r = asset) rs))
      in if needed < selected then Some (asset, selected - needed) else None) zs"

definition issuance_fee :: "bool option \<Rightarrow> nat" where
  "issuance_fee issuance =
    (case issuance of None \<Rightarrow> 0 | Some first_issuance \<Rightarrow> (if first_issuance then 2 else 1) * COST_PER_ACTION)"

definition deduct_first :: "nat \<Rightarrow> (bytes \<times> nat) list \<Rightarrow> (bytes \<times> nat) list" where
  "deduct_first fee os = (case os of [] \<Rightarrow> [] | (b, amt) # rest \<Rightarrow> (b, sat_sub amt fee) # rest)"

definition build_plan ::
    "InputNote list list \<Rightarrow> PlanRecipient list \<Rightarrow> bool \<Rightarrow> bool option \<Rightarrow> Selection \<Rightarrow> Plan" where
  "build_plan pools rs rpf issuance sel =
    (let zs = zsa_assets rs;
         has_zsa = (list_ex (\<lambda>r. recipient_base r \<noteq> ZEC_BASE) rs \<or> issuance \<noteq> None);
         change_pool = (if has_zsa then 2 else sel_change_pool sel);
         changes = (if has_zsa then zsa_changes zs rs pools sel else []);
         fee = u64_add (sel_fee sel) (issuance_fee issuance);
         outs = map (\<lambda>r. (recipient_base r, pr_amount r)) rs @ changes;
         outs = (if rpf then deduct_first fee outs else outs);
         total_output = u64_sum (map snd outs);
         total_input = u64_sum (map sn_amount (sel_inputs sel));
         change = sat_sub total_input (u64_add total_output fee)
     in \<lparr>pl_selection = sel, pl_change_pool = change_pool, pl_zsa_changes = changes, pl_outputs = outs,
         pl_fee = fee, pl_change = change\<rparr>)"

definition decompose_recipients :: "PlanRecipient list \<Rightarrow> PlanError + (PlanRecipient \<times> nat) list" where
  "decompose_recipients rs =
    (if list_all (\<lambda>r. pr_receiver r \<noteq> None) rs
     then Inr (map (\<lambda>r. (r, the (pr_receiver r))) rs) else Inl BadAddress)"

definition plan_core ::
    "(nat \<Rightarrow> bool) \<Rightarrow> InputNote list list \<Rightarrow> PlanRecipient list \<Rightarrow> bool \<Rightarrow> bool option \<Rightarrow> bool \<Rightarrow> bool
      \<Rightarrow> (PlanError + Plan) run" where
  "plan_core late pools rs rpf issuance migration ironwood_active =
    (case decompose_recipients rs of
       Inl e \<Rightarrow> Ret (Inl e)
     | Inr ds \<Rightarrow>
         if (list_ex (\<lambda>r. recipient_base r \<noteq> ZEC_BASE) rs \<or> issuance \<noteq> None) \<and> ironwood_active
         then Ret (Inl ZsaWithIronwood)
         else
           (let pools = drop_zec_dust pools; zs = zsa_assets rs
            in run_bind (select_notes late (solver_notes zs pools) (solver_outputs zs ds) COST_PER_ACTION
                 migration rpf (case rs of [] \<Rightarrow> 0 | r # _ \<Rightarrow> pr_amount r)) (\<lambda>s.
                 case s of
                   None \<Rightarrow> Ret (Inl NoFeasibleSelection)
                 | Some sel \<Rightarrow> Ret (Inr (build_plan pools rs rpf issuance sel)))))"

definition plan_transaction ::
    "(nat \<Rightarrow> bool) \<Rightarrow> nat \<Rightarrow> Db \<Rightarrow> nat \<Rightarrow> u8 \<Rightarrow> PlanRecipient list \<Rightarrow> bool \<Rightarrow> nat option \<Rightarrow> bool \<Rightarrow> bool option
      \<Rightarrow> bool \<Rightarrow> nat list option \<Rightarrow> bool \<Rightarrow> (DbError + (PlanError + Plan)) run" where
  "plan_transaction late rnd db account src_pools recipients rpf confirmations smart issuance migration preselected
      ironwood_active =
    (case fetch_unspent_notes_by_pool db account of
       Inl e \<Rightarrow> Ret (Inl e)
     | Inr pools \<Rightarrow>
         (let max_height = confirmed_height db account (case confirmations of None \<Rightarrow> 0 | Some c \<Rightarrow> c);
              pools = restrict_to_preselected preselected (restrict_to_source_pools src_pools max_height pools);
              (pools, rs, rpf) =
                (if smart then (let (ps, rs) = smart_transparent_request rnd pools recipients in (ps, rs, True))
                 else (pools, recipients, rpf))
          in run_bind (plan_core late pools rs rpf issuance migration ironwood_active) (\<lambda>r. Ret (Inr r))))"

section \<open>ZEC payments\<close>

definition all_zec :: "PlanRecipient list \<Rightarrow> bool" where
  "all_zec rs \<longleftrightarrow> (\<forall>r \<in> set rs. recipient_base r = ZEC_BASE)"

definition plan_small :: "InputNote list list \<Rightarrow> PlanRecipient list \<Rightarrow> bool" where
  "plan_small pools rs \<longleftrightarrow> sum_list (map in_amount (concat pools)) < 2 ^ 61 \<and> length (concat pools) < 2 ^ 32
    \<and> sum_list (map pr_amount rs) < 2 ^ 61 \<and> length rs < 2 ^ 32 - 1"

lemma zsa_assets_zec: "all_zec rs \<Longrightarrow> zsa_assets rs = []"
proof -
  assume "all_zec rs"
  then have "filter (\<lambda>b. b \<noteq> ZEC_BASE) (map recipient_base rs) = []" by (auto simp: all_zec_def filter_empty_conv)
  then show ?thesis by (simp add: zsa_assets_def)
qed

lemma note_asset_index_zec: "note_asset_index [] b = (if asset_bytes b = ZEC_BASE then Some 0 else None)"
  by (simp add: note_asset_index_def zsa_index_def)

text \<open>The ZEC notes among the candidates, as the solver sees them: their pools and amounts.\<close>

definition zec_only :: "InputNote list \<Rightarrow> InputNote list" where
  "zec_only ns = filter (\<lambda>n. asset_bytes (in_asset_base n) = ZEC_BASE) ns"

lemma pool_notes_zec:
  "List.map_filter (\<lambda>(idx, n). map_option (\<lambda>a. \<lparr>sn_pool = p, sn_amount = in_amount n, sn_pool_index = idx, sn_asset = a\<rparr>)
      (note_asset_index [] (in_asset_base n))) (enumerate k ns) = xs \<Longrightarrow>
   map sn_amount xs = map in_amount (zec_only ns) \<and> (\<forall>x \<in> set xs. sn_pool x = p \<and> sn_asset x = 0)"
proof (induction ns arbitrary: k xs)
  case Nil
  then show ?case by (auto simp: zec_only_def)
next
  case (Cons n ns)
  then show ?case
    by (cases "asset_bytes (in_asset_base n) = ZEC_BASE")
      (auto simp: zec_only_def note_asset_index_zec)
qed

lemma solver_notes_asset: "x \<in> set (solver_notes [] pools) \<Longrightarrow> sn_asset x = 0 \<and> sn_pool x < length pools"
  using pool_notes_zec by (fastforce simp: solver_notes_def in_set_enumerate_eq)

lemma sum_map_filter_le: "sum_list (map f (filter P xs)) \<le> sum_list (map f (xs :: 'a list) :: nat list)"
  by (induction xs) auto

definition pool_solver_notes :: "nat \<Rightarrow> InputNote list \<Rightarrow> Note list" where
  "pool_solver_notes p ns = List.map_filter (\<lambda>(idx, n).
     map_option (\<lambda>a. \<lparr>sn_pool = p, sn_amount = in_amount n, sn_pool_index = idx, sn_asset = a\<rparr>)
       (note_asset_index [] (in_asset_base n))) (enumerate 0 ns)"

lemma solver_notes_concat: "solver_notes [] pools = concat (map (\<lambda>(p, ns). pool_solver_notes p ns) (enumerate 0 pools))"
  by (simp add: solver_notes_def pool_solver_notes_def)

lemma pool_solver_notes_facts:
  "map sn_amount (pool_solver_notes p ns) = map in_amount (zec_only ns)"
  "x \<in> set (pool_solver_notes p ns) \<Longrightarrow> sn_pool x = p \<and> sn_asset x = 0"
  using pool_notes_zec [of p 0 ns "pool_solver_notes p ns"] by (auto simp: pool_solver_notes_def)

lemma solver_notes_amounts: "map sn_amount (solver_notes [] pools) = map in_amount (zec_only (concat pools))"
proof -
  have "map sn_amount (concat (map (\<lambda>(p, ns). pool_solver_notes p ns) (enumerate k pools)))
      = map in_amount (zec_only (concat pools))" for k
    by (induction pools arbitrary: k) (simp_all add: pool_solver_notes_facts zec_only_def)
  then show ?thesis by (simp add: solver_notes_concat)
qed

lemma concat_drop_dust:
  "concat (drop_zec_dust pools) = filter (\<lambda>n. \<not> is_zec_base (in_asset_base n) \<or> COST_PER_ACTION \<le> in_amount n) (concat pools)"
  by (simp add: drop_zec_dust_def filter_concat)

lemma notes_ok_plan:
  assumes "plan_small pools rs"
  shows "notes_ok (solver_notes [] (drop_zec_dust pools))"
proof -
  let ?z = "zec_only (concat (drop_zec_dust pools))"
  have z: "?z = filter (\<lambda>n. (\<not> is_zec_base (in_asset_base n) \<or> COST_PER_ACTION \<le> in_amount n)
      \<and> asset_bytes (in_asset_base n) = ZEC_BASE) (concat pools)"
    by (simp add: zec_only_def concat_drop_dust)
  have "length ?z \<le> length (concat pools)" unfolding z by (rule length_filter_le)
  moreover have "sum_list (map in_amount ?z) \<le> sum_list (map in_amount (concat pools))"
    unfolding z by (rule sum_map_filter_le)
  moreover have "length (solver_notes [] (drop_zec_dust pools)) = length ?z"
    using solver_notes_amounts [of "drop_zec_dust pools"] by (metis length_map)
  ultimately show ?thesis
    using assms by (simp add: notes_ok_def plan_small_def solver_notes_amounts)
qed

lemma asset_bytes_zec [simp]: "asset_bytes ZEC_BASE = ZEC_BASE"
  by (simp add: asset_bytes_def)

lemma solver_outputs_zec:
  assumes "all_zec rs" and "decompose_recipients rs = Inr ds"
  shows "map so_amount (solver_outputs [] ds) = map pr_amount rs"
    and "o' \<in> set (solver_outputs [] ds) \<Longrightarrow> so_asset o' = 0" and "length ds = length rs"
  using assms
  by (auto simp: solver_outputs_def decompose_recipients_def all_zec_def resolve_asset_index_def
      split: if_splits)

lemma outputs_ok_plan:
  assumes "plan_small pools rs" and "all_zec rs" and "decompose_recipients rs = Inr ds"
  shows "outputs_ok (solver_outputs [] ds)"
  using assms(1) solver_outputs_zec [OF assms(2,3)]
  by (auto simp: outputs_ok_def small_outputs_def plan_small_def solver_outputs_def)

lemma out_sum_all: "(\<And>o'. o' \<in> set os \<Longrightarrow> so_asset o' = 0) \<Longrightarrow>
   out_sum (\<lambda>o'. so_asset o' = 0) os = sum_list (map so_amount os)"
  by (simp add: out_sum_def)

lemma sum_asset_zero:
  "(\<And>n. n \<in> set ns \<Longrightarrow> sn_asset n = 0) \<Longrightarrow> sum_of (\<lambda>n. sn_asset n = 0) ns = sum_list (map sn_amount ns)"
  by (simp add: sum_of_def)

lemma plan_core_selection:
  assumes "plan_core late pools rs rpf issuance mig iw = Ret (Inr pl)" and "all_zec rs"
  obtains ds sel where "decompose_recipients rs = Inr ds"
    and "select_notes late (solver_notes [] (drop_zec_dust pools)) (solver_outputs [] ds) COST_PER_ACTION mig rpf
          (case rs of [] \<Rightarrow> 0 | r # _ \<Rightarrow> pr_amount r) = Ret (Some sel)"
    and "pl = build_plan (drop_zec_dust pools) rs rpf issuance sel"
  using assms(1) zsa_assets_zec [OF assms(2)]
  by (auto simp: plan_core_def Let_def split: sum.splits if_splits option.splits)

text \<open>What the solver guarantees for a ZEC payment, in the plan's terms.\<close>

lemma plan_core_selection_sound:
  assumes "plan_core late pools rs rpf issuance mig iw = Ret (Inr pl)" and "all_zec rs" and "plan_small pools rs"
  obtains sel where "pl = build_plan (drop_zec_dust pools) rs rpf issuance sel"
    and "sum_list (map pr_amount rs) + (if rpf then 0 else sel_fee sel) \<le> sum_list (map sn_amount (sel_inputs sel))"
    and "rpf \<Longrightarrow> sel_fee sel \<le> (case rs of [] \<Rightarrow> 0 | r # _ \<Rightarrow> pr_amount r)"
    and "sum_list (map sn_amount (sel_inputs sel)) < 2 ^ 61"
    and "mset (sel_inputs sel) \<subseteq># mset (solver_notes [] (drop_zec_dust pools))"
proof -
  obtain ds sel where ds: "decompose_recipients rs = Inr ds"
    and sel: "select_notes late (solver_notes [] (drop_zec_dust pools)) (solver_outputs [] ds) COST_PER_ACTION mig rpf
          (case rs of [] \<Rightarrow> 0 | r # _ \<Rightarrow> pr_amount r) = Ret (Some sel)"
    and pl: "pl = build_plan (drop_zec_dust pools) rs rpf issuance sel"
    using plan_core_selection [OF assms(1,2)] by metis
  note n = notes_ok_plan [OF assms(3)] and o = outputs_ok_plan [OF assms(3,2) ds]
  note snd' = select_notes_guarantee [OF sel n o]
  have sub: "mset (sel_inputs sel) \<subseteq># mset (solver_notes [] (drop_zec_dust pools))"
    using snd'(1) by (simp add: dust_filter_def) (meson multiset_filter_subset subset_mset.order_trans)
  then have "set (sel_inputs sel) \<subseteq> set (solver_notes [] (drop_zec_dust pools))" by (metis set_mset_mono set_mset_mset)
  then have zec: "x \<in> set (sel_inputs sel) \<Longrightarrow> sn_asset x = 0" for x using solver_notes_asset by blast
  have "sum_list (map sn_amount (sel_inputs sel)) \<le> sum_list (map sn_amount (solver_notes [] (drop_zec_dust pools)))"
    using sum_of_le [OF sub, of "\<lambda>_. True"] by (simp add: sum_of_def)
  moreover have "out_sum (\<lambda>o'. so_asset o' = 0) (solver_outputs [] ds) = sum_list (map pr_amount rs)"
    using out_sum_all [of "solver_outputs [] ds"] solver_outputs_zec [OF assms(2) ds] by simp
  ultimately show thesis
    using snd' pl zec n sub that [of sel] by (simp add: sum_asset_zero notes_ok_def)
qed

lemma build_plan_zec:
  assumes "all_zec rs"
  shows "pl_outputs (build_plan pools rs rpf None sel) =
      (if rpf then deduct_first (u64_add (sel_fee sel) 0) (map (\<lambda>r. (recipient_base r, pr_amount r)) rs)
       else map (\<lambda>r. (recipient_base r, pr_amount r)) rs)"
    and "pl_fee (build_plan pools rs rpf None sel) = u64_add (sel_fee sel) 0"
    and "pl_change (build_plan pools rs rpf None sel) = u64_sum (map sn_amount (sel_inputs sel)) -
      u64_add (u64_sum (map snd (pl_outputs (build_plan pools rs rpf None sel)))) (u64_add (sel_fee sel) 0)"
    and "pl_selection (build_plan pools rs rpf None sel) = sel"
proof -
  have "\<not> list_ex (\<lambda>r. recipient_base r \<noteq> ZEC_BASE) rs" using assms by (simp add: all_zec_def list_ex_iff)
  then show "pl_outputs (build_plan pools rs rpf None sel) =
      (if rpf then deduct_first (u64_add (sel_fee sel) 0) (map (\<lambda>r. (recipient_base r, pr_amount r)) rs)
       else map (\<lambda>r. (recipient_base r, pr_amount r)) rs)"
    "pl_fee (build_plan pools rs rpf None sel) = u64_add (sel_fee sel) 0"
    "pl_change (build_plan pools rs rpf None sel) = u64_sum (map sn_amount (sel_inputs sel)) -
      u64_add (u64_sum (map snd (pl_outputs (build_plan pools rs rpf None sel)))) (u64_add (sel_fee sel) 0)"
    "pl_selection (build_plan pools rs rpf None sel) = sel"
    by (simp_all add: build_plan_def issuance_fee_def Let_def)
qed

text \<open>
  C4. A plan conserves value: for a ZEC payment without issuance, the selected inputs are worth exactly the
  amounts sent to the recipients, the fee and the change together, whether the sender or the recipient pays
  the fee; nothing is created by a wrap-around and nothing saturates.
\<close>

theorem plan_conserves_value:
  assumes "plan_core late pools rs rpf None mig iw = Ret (Inr pl)" and "all_zec rs" and "plan_small pools rs"
    and "rs \<noteq> []"
  shows "sum_list (map sn_amount (sel_inputs (pl_selection pl)))
    = sum_list (map snd (pl_outputs pl)) + pl_fee pl + pl_change pl"
proof -
  obtain sel where pl: "pl = build_plan (drop_zec_dust pools) rs rpf None sel"
    and cov: "sum_list (map pr_amount rs) + (if rpf then 0 else sel_fee sel) \<le> sum_list (map sn_amount (sel_inputs sel))"
    and fra: "rpf \<Longrightarrow> sel_fee sel \<le> (case rs of [] \<Rightarrow> 0 | r # _ \<Rightarrow> pr_amount r)"
    and small: "sum_list (map sn_amount (sel_inputs sel)) < 2 ^ 61"
    using plan_core_selection_sound [OF assms(1-3)] by metis
  obtain r rest where rs: "rs = r # rest" using assms(4) by (cases rs) auto
  have amt: "sum_list (map pr_amount rs) < 2 ^ 61" using assms(3) by (simp add: plan_small_def)
  have fee: "sel_fee sel < 2 ^ 61" using cov fra small amt rs by (auto split: if_splits)
  then have f0: "u64_add (sel_fee sel) 0 = sel_fee sel" by (simp add: u64_add_exact)
  let ?outs = "pl_outputs pl"
  have outs: "sum_list (map snd ?outs) + (if rpf then sel_fee sel else 0) = sum_list (map pr_amount rs)"
    unfolding pl build_plan_zec [OF assms(2)] f0 using fra by (auto simp: deduct_first_def rs o_def)
  have "u64_sum (map snd ?outs) = sum_list (map snd ?outs)"
    "u64_sum (map sn_amount (sel_inputs sel)) = sum_list (map sn_amount (sel_inputs sel))"
    using outs amt small by (auto intro!: u64_sum_exact)
  moreover have "u64_add (sum_list (map snd ?outs)) (sel_fee sel) = sum_list (map snd ?outs) + sel_fee sel"
    using outs amt fee by (intro u64_add_exact) simp
  ultimately have "pl_change pl = sum_list (map sn_amount (sel_inputs sel)) - (sum_list (map snd ?outs) + sel_fee sel)"
    using build_plan_zec(3) [OF assms(2), of "drop_zec_dust pools" rpf sel] by (simp add: pl f0)
  moreover have "pl_fee pl = sel_fee sel" "pl_selection pl = sel" by (simp_all add: pl build_plan_zec [OF assms(2)] f0)
  ultimately show ?thesis using cov outs by (auto split: if_splits)
qed

end
