(* ===== verification/Spendable.thy ===== *)
theory Spendable
  imports PlanTx
begin

text \<open>
  The promise of \<open>max_spendable_from_pools\<close> (\<open>db.rs\<close>) against the planner and the solver: an amount it
  reports can be planned. The first part bounds the ZIP-317 fee, the second follows the wallet's notes through
  the candidate query, the source-pool filter and the dust filter into the solver's input.
\<close>

section \<open>The fee bound\<close>

definition input_actions :: "nat \<Rightarrow> nat" where
  "input_actions c = (if c = 0 then 0 else max c 2)"

definition new_bundle :: "nat \<Rightarrow> nat" where
  "new_bundle o' = (if o' = 0 then 0 else 2)"

lemma padded_bound: "o' \<le> 2 \<Longrightarrow> zip317_padded c o' \<le> input_actions c + new_bundle o'"
  by (auto simp: zip317_padded_def input_actions_def new_bundle_def)

lemma migration_bound:
  "o' \<le> 2 \<Longrightarrow> (if c = 0 \<and> o' = 0 then 0 else max (c + o') 2) \<le> input_actions c + new_bundle o'"
  by (auto simp: input_actions_def new_bundle_def)

lemma transparent_bound: "o' \<le> 2 \<Longrightarrow> max c o' \<le> c + new_bundle o'"
  by (auto simp: new_bundle_def)

definition pay_outs :: "nat \<Rightarrow> nat \<Rightarrow> nat list" where
  "pay_outs r cp = map (\<lambda>p. (if p = r then 1 else 0) + (if p = cp then 1 else 0)) [0..<N_POOLS]"

lemma pools4: "[0..<N_POOLS] = [0, 1, 2, 3]" "[0..<NUM_POOLS] = [0, 1, 2, 3]"
  by (simp_all add: N_POOLS_def NUM_POOLS_def upt_rec numeral_eq_Suc)

lemma pay_actions_bound:
  assumes "r < N_POOLS" and "cp < N_POOLS"
  shows "zip317_actions mig [c0, c1, c2, c3] (pay_outs r cp)
    \<le> c0 + input_actions c1 + input_actions c2 + input_actions c3 + 4"
proof -
  let ?o = "\<lambda>p. (if p = r then 1 else 0) + (if p = cp then 1 else 0) :: nat"
  have o': "?o p \<le> 2" for p by simp
  have outs: "pay_outs r cp = [?o 0, ?o 1, ?o 2, ?o 3]" by (simp add: pay_outs_def pools4)
  have four: "new_bundle (?o 0) + new_bundle (?o 1) + new_bundle (?o 2) + new_bundle (?o 3) \<le> 4"
    using assms by (auto simp: new_bundle_def N_POOLS_def less_4_cases)
  have orch: "(if mig then (if c2 = 0 \<and> ?o 2 = 0 then 0 else max (c2 + ?o 2) 2) else zip317_padded c2 (?o 2))
      \<le> input_actions c2 + new_bundle (?o 2)"
    using padded_bound [OF o'] migration_bound [OF o'] by (cases mig) (simp_all only: if_True if_False)
  have "zip317_actions mig [c0, c1, c2, c3] (pay_outs r cp) = max c0 (?o 0) + zip317_padded c1 (?o 1)
      + (if mig then (if c2 = 0 \<and> ?o 2 = 0 then 0 else max (c2 + ?o 2) 2) else zip317_padded c2 (?o 2))
      + zip317_padded c3 (?o 3)"
    unfolding outs zip317_actions_def by (simp add: numeral_eq_Suc)
  also have "\<dots> \<le> (c0 + new_bundle (?o 0)) + (input_actions c1 + new_bundle (?o 1))
      + (input_actions c2 + new_bundle (?o 2)) + (input_actions c3 + new_bundle (?o 3))"
    by (intro add_mono orch padded_bound transparent_bound o')
  finally show ?thesis using four by linarith
qed

section \<open>From the database to the solver\<close>

definition zec_assets_ok :: "Db \<Rightarrow> bool" where
  "zec_assets_ok db \<longleftrightarrow>
    (\<forall>n \<in> set (note_rows db). nr_asset n \<noteq> None \<longrightarrow> asset_bytes (asset_base_of db (nr_asset n)) \<noteq> ZEC_BASE)"

definition to_input :: "Db \<Rightarrow> NoteRow \<Rightarrow> InputNote" where
  "to_input db n = \<lparr>in_id = nr_id n, in_height = nr_height n, in_amount = as_u64 (nr_value n),
     in_remaining = as_u64 (nr_value n), in_pool = nr_pool n, in_id_asset = nr_asset n,
     in_asset_base = asset_base_of db (nr_asset n), in_taddress = nr_taddress n\<rparr>"

lemma to_input_simps [simp]:
  "in_id (to_input db n) = nr_id n" "in_height (to_input db n) = nr_height n"
  "in_amount (to_input db n) = as_u64 (nr_value n)" "in_pool (to_input db n) = nr_pool n"
  "in_asset_base (to_input db n) = asset_base_of db (nr_asset n)"
  by (simp_all add: to_input_def)

lemma fetch_to_input:
  "fetch_unspent_notes db account = map (to_input db)
    (filter (\<lambda>n. \<not> is_spent db n \<and> nr_account n = account \<and> \<not> nr_locked n \<and> \<not> is_reserved db n) (note_rows db))"
  by (simp add: fetch_unspent_notes_def to_input_def)

lemma zec_base_note: "asset_base_of db None = ZEC_BASE" "is_zec_base ZEC_BASE"
  by (simp_all add: asset_base_of_def is_zec_base_def ZEC_BASE_def list_all_iff)

definition source_notes :: "Db \<Rightarrow> nat \<Rightarrow> u8 \<Rightarrow> nat \<Rightarrow> NoteRow list" where
  "source_notes db account src c =
    filter (\<lambda>n. has_pool (PoolMask src) (nr_pool n)) (spendable_notes db account c)"

definition values_u63 :: "Db \<Rightarrow> bool" where
  "values_u63 db \<longleftrightarrow> (\<forall>n \<in> set (note_rows db). 0 \<le> nr_value n \<and> nr_value n < 2 ^ 63)"

lemma candidate_pool:
  assumes "zec_assets_ok db" and "values_u63 db" and "p < NUM_POOLS"
    and "fetch_unspent_notes_by_pool db account = Inr pools"
  shows "zec_only (drop_zec_dust (restrict_to_source_pools src (confirmed_height db account c) pools) ! p)
    = map (to_input db) (filter (\<lambda>n. nr_pool n = p) (source_notes db account src c))"
proof -
  let ?h = "confirmed_height db account c"
  have pools: "pools ! p = filter (\<lambda>n. in_pool n = p) (fetch_unspent_notes db account)"
    using assms(3,4) by (auto simp: fetch_unspent_notes_by_pool_def Let_def split: if_splits)
  have has: "has_pool (PoolMask src) p \<longleftrightarrow> src AND one_shl p \<noteq> 0" by (simp add: has_pool_def)
  have cost: "COST_PER_ACTION \<le> as_u64 (nr_value n) \<longleftrightarrow> int COST_PER_ACTION \<le> nr_value n"
    if "n \<in> set (note_rows db)" for n
    using assms(2) that by (auto simp: values_u63_def as_u64_exact le_nat_iff)
  have "drop_zec_dust (restrict_to_source_pools src ?h pools) ! p
      = filter (\<lambda>n. \<not> is_zec_base (in_asset_base n) \<or> COST_PER_ACTION \<le> in_amount n)
          (if src AND one_shl p = 0 then [] else filter (\<lambda>n. in_height n \<le> ?h) (pools ! p))"
    using assms(3) by (simp add: drop_zec_dust_def restrict_to_source_pools_def)
  also have "zec_only \<dots> = map (to_input db) (filter (\<lambda>n. nr_pool n = p) (source_notes db account src c))"
  proof (cases "has_pool (PoolMask src) p")
    case False
    then have "filter (\<lambda>n. nr_pool n = p) (source_notes db account src c) = []"
      by (auto simp: source_notes_def filter_empty_conv)
    then show ?thesis using False has by (simp add: zec_only_def)
  next
    case True
    have zec: "asset_bytes (asset_base_of db (nr_asset n)) = ZEC_BASE \<longleftrightarrow> nr_asset n = None"
      if "n \<in> set (note_rows db)" for n
      using assms(1) that zec_base_note by (auto simp: zec_assets_ok_def)
    have ne: "\<not> (src AND one_shl p = 0)" using True has by simp
    have "(\<not> is_spent db n \<and> nr_account n = account \<and> \<not> nr_locked n \<and> \<not> is_reserved db n) \<and> nr_pool n = p
        \<and> nr_height n \<le> ?h \<and> (\<not> is_zec_base (asset_base_of db (nr_asset n)) \<or> COST_PER_ACTION \<le> as_u64 (nr_value n))
        \<and> asset_bytes (asset_base_of db (nr_asset n)) = ZEC_BASE
      \<longleftrightarrow> (nr_account n = account \<and> nr_asset n = None \<and> \<not> is_spent db n)
        \<and> ((nr_height n \<le> ?h \<and> \<not> nr_locked n \<and> \<not> is_reserved db n) \<and> int COST_PER_ACTION \<le> nr_value n)
        \<and> has_pool (PoolMask src) (nr_pool n) \<and> nr_pool n = p" if "n \<in> set (note_rows db)" for n
      using zec [OF that] cost [OF that] True zec_base_note by (cases "nr_asset n") auto
    then show ?thesis
      unfolding if_not_P [OF ne] zec_only_def pools fetch_to_input filter_map filter_filter source_notes_def
        spendable_notes_def owned_unspent_zec_notes_def available_note_def o_def to_input_simps
      unfolding conj_assoc by (intro arg_cong [of _ _ "map (to_input db)"] filter_cong refl) blast
  qed
  finally show ?thesis .
qed

lemma solver_notes_pool:
  assumes "p < length pools"
  shows "filter (\<lambda>x. sn_pool x = p) (solver_notes [] pools) = pool_solver_notes p (pools ! p)"
proof -
  have psn: "filter (\<lambda>x. sn_pool x = p) (pool_solver_notes q ns) = (if q = p then pool_solver_notes q ns else [])" for q ns
    using pool_solver_notes_facts(2) by (auto simp: filter_empty_conv filter_id_conv)
  have "filter (\<lambda>x. sn_pool x = p) (concat (map (\<lambda>(q, ns). pool_solver_notes q ns) (enumerate k pools)))
      = (if k \<le> p \<and> p < k + length pools then pool_solver_notes p (pools ! (p - k)) else [])" for k
    by (induction pools arbitrary: k) (auto simp: psn nth_Cons' Suc_diff_le)
  from this [of 0] show ?thesis using assms by (simp add: solver_notes_concat)
qed

section \<open>The reported amount can be planned\<close>

definition pool_count :: "NoteRow list \<Rightarrow> nat \<Rightarrow> nat" where
  "pool_count ns p = length (filter (\<lambda>n. nr_pool n = p) ns)"

definition pool_value :: "NoteRow list \<Rightarrow> nat \<Rightarrow> nat" where
  "pool_value ns p = sum_list (map (\<lambda>n. nat (nr_value n)) (filter (\<lambda>n. nr_pool n = p) ns))"

definition small_wallet :: "Db \<Rightarrow> bool" where
  "small_wallet db \<longleftrightarrow> (\<forall>n \<in> set (note_rows db). 0 \<le> nr_value n \<and> nr_pool n < NUM_POOLS)
    \<and> value_sum (note_rows db) < 2 ^ 61 \<and> length (note_rows db) < 2 ^ 32"

lemma value_le_sum: "(\<forall>n \<in> set ns. 0 \<le> nr_value n) \<Longrightarrow> n \<in> set ns \<Longrightarrow> nr_value n \<le> value_sum ns"
proof (induction ns)
  case Nil
  then show ?case by simp
next
  case (Cons m ns)
  then show ?case using value_sum_nonneg [of ns "\<lambda>_. True"] by (auto simp: value_sum_def)
qed

lemma small_values_u63: "small_wallet db \<Longrightarrow> values_u63 db"
  using value_le_sum [of "note_rows db"] by (fastforce simp: small_wallet_def values_u63_def)

lemma pool_value_int:
  "(\<forall>n \<in> set ns. 0 \<le> nr_value n) \<Longrightarrow> int (pool_value ns p) = value_sum (filter (\<lambda>n. nr_pool n = p) ns)"
  by (induction ns) (auto simp: pool_value_def value_sum_def)

lemma sum_groups:
  assumes "\<forall>n \<in> set ns. nr_pool n < 4" and "\<And>p. filter (\<lambda>n. nr_pool n = p) ns = [] \<Longrightarrow> f p = (0 :: nat)"
  shows "sum_list (map f (filter P (remdups (map nr_pool ns))))
    = (if P 0 then f 0 else 0) + (if P 1 then f 1 else 0) + (if P 2 then f 2 else 0) + (if P 3 then f 3 else 0)"
proof -
  have "sum_list (map f (filter P (remdups (map nr_pool ns)))) = (\<Sum>p \<in> {p \<in> nr_pool ` set ns. P p}. f p)"
    by (simp add: sum_list_distinct_conv_sum_set)
  also have "\<dots> = (\<Sum>p \<in> {..<4}. if P p then f p else 0)"
    unfolding sum.inter_filter [OF finite_lessThan, symmetric]
  proof (rule sum.mono_neutral_left)
    show "{p \<in> nr_pool ` set ns. P p} \<subseteq> {x \<in> {..<4}. P x}" using assms(1) by auto
    show "\<forall>i \<in> {x \<in> {..<4}. P x} - {p \<in> nr_pool ` set ns. P p}. f i = 0"
    proof
      fix i
      assume "i \<in> {x \<in> {..<4}. P x} - {p \<in> nr_pool ` set ns. P p}"
      then show "f i = 0" by (intro assms(2)) (auto simp: filter_empty_conv)
    qed
  qed simp
  also have "{..<4 :: nat} = {0, 1, 2, 3}" by (auto simp: less_4_cases)
  finally show ?thesis by simp
qed

lemma filter_source: "filter (\<lambda>n. nr_pool n = p) (filter (\<lambda>n. Q (nr_pool n)) ns)
    = (if Q p then filter (\<lambda>n. nr_pool n = p) ns else [])"
  by (induction ns) auto

lemma spendable_sub:
  "mset (source_notes db account src c) \<subseteq># mset (note_rows db)"
  unfolding source_notes_def spendable_notes_def owned_unspent_zec_notes_def mset_filter
  by (meson multiset_filter_subset subset_mset.order_trans)

text \<open>The bound in closed form: the value of the source notes less the fee bound of their pools.\<close>

definition source_actions :: "NoteRow list \<Rightarrow> nat" where
  "source_actions ns = pool_count ns 0 + input_actions (pool_count ns 1) + input_actions (pool_count ns 2)
    + input_actions (pool_count ns 3)"

definition source_value :: "NoteRow list \<Rightarrow> nat" where
  "source_value ns = pool_value ns 0 + pool_value ns 1 + pool_value ns 2 + pool_value ns 3"

lemma source_value_total:
  "\<forall>n \<in> set ns. nr_pool n < 4 \<Longrightarrow> source_value ns = sum_list (map (\<lambda>n. nat (nr_value n)) ns)"
  by (induction ns) (auto simp: source_value_def pool_value_def less_4_cases)

lemma source_count_total:
  "\<forall>n \<in> set ns. nr_pool n < 4 \<Longrightarrow>
   pool_count ns 0 + pool_count ns 1 + pool_count ns 2 + pool_count ns 3 = length ns"
  by (induction ns) (auto simp: pool_count_def less_4_cases)

lemma source_small:
  assumes "small_wallet db"
  shows "length (source_notes db account src c) < 2 ^ 32" and "source_value (source_notes db account src c) < 2 ^ 61"
proof -
  let ?ns = "source_notes db account src c"
  have pools': "\<forall>n \<in> set ?ns. nr_pool n < 4"
    using assms by (auto simp: source_notes_def spendable_notes_def owned_unspent_zec_notes_def small_wallet_def NUM_POOLS_def)
  have "length ?ns \<le> length (note_rows db)" using spendable_sub by (metis size_mset size_mset_mono)
  then show "length ?ns < 2 ^ 32" using assms by (simp add: small_wallet_def)
  have "sum_list (map (\<lambda>n. nat (nr_value n)) ?ns) \<le> sum_list (map (\<lambda>n. nat (nr_value n)) (note_rows db))"
    using spendable_sub by (intro sum_list_mset_mono) (simp add: image_mset_subseteq_mono)
  moreover have "int (sum_list (map (\<lambda>n. nat (nr_value n)) (note_rows db))) = value_sum (note_rows db)"
  proof -
    have "\<forall>n \<in> set xs. 0 \<le> nr_value n \<Longrightarrow> int (sum_list (map (\<lambda>n. nat (nr_value n)) xs)) = value_sum xs"
      for xs :: "NoteRow list"
      by (induction xs) (auto simp: value_sum_def)
    then show ?thesis using assms by (simp add: small_wallet_def)
  qed
  ultimately show "source_value ?ns < 2 ^ 61"
    using assms by (simp add: source_value_total [OF pools'] small_wallet_def)
qed

lemma max_spendable_closed:
  assumes "small_wallet db"
  shows "max_spendable_from_pools db account (PoolMask src) c
    = source_value (source_notes db account src c)
      - (source_actions (source_notes db account src c) + 4) * COST_PER_ACTION"
proof -
  let ?all = "spendable_notes db account c" and ?ns = "source_notes db account src c"
  let ?P = "has_pool (PoolMask src)"
  let ?groups = "filter ?P (remdups (map nr_pool ?all))"
  have pools: "\<forall>n \<in> set ?all. nr_pool n < 4" and pos: "\<forall>n \<in> set ?all. 0 \<le> nr_value n"
    using assms by (auto simp: spendable_notes_def owned_unspent_zec_notes_def small_wallet_def NUM_POOLS_def)
  then have pools': "\<forall>n \<in> set ?ns. nr_pool n < 4" by (simp add: source_notes_def)
  have in_pool: "filter (\<lambda>n. nr_pool n = p) ?ns = (if ?P p then filter (\<lambda>n. nr_pool n = p) ?all else [])" for p
    unfolding source_notes_def by (rule filter_source)
  have lt: "value_sum (filter (\<lambda>n. nr_pool n = p) ?all) < 2 ^ 64" for p
  proof -
    have "value_sum (filter (\<lambda>n. nr_pool n = p) ?all) \<le> value_sum (note_rows db)"
      unfolding spendable_notes_def owned_unspent_zec_notes_def filter_filter
      by (rule value_sum_filter_le) (use assms in \<open>simp add: small_wallet_def\<close>)
    then show ?thesis using assms by (simp add: small_wallet_def)
  qed
  let ?v = "\<lambda>p. as_u64 (value_sum (filter (\<lambda>n. nr_pool n = p) ?all))"
  let ?a = "\<lambda>p. spend_actions p (length (filter (\<lambda>n. nr_pool n = p) ?all))"
  have v: "?v p = pool_value ?all p" for p
    using pool_value_int [OF pos, of p] lt [of p] by (metis as_u64_exact nat_int of_nat_0_le_iff)
  have pv: "pool_value ?ns p = (if ?P p then pool_value ?all p else 0)"
    and pc: "pool_count ?ns p = (if ?P p then pool_count ?all p else 0)" for p
    by (simp_all add: pool_value_def pool_count_def in_pool)
  have av: "sum_list (map ?v ?groups) = source_value ?ns"
    unfolding v source_value_def pv by (rule sum_groups [OF pools]) (simp add: pool_value_def)
  define k where "k p = (if p = 0 then pool_count ?all p else input_actions (pool_count ?all p))" for p
  have "map ?a ?groups = map k ?groups"
    by (auto simp: k_def input_actions_def spend_actions_def pool_count_def filter_empty_conv)
  moreover have "sum_list (map k ?groups) = (if ?P 0 then k 0 else 0) + (if ?P 1 then k 1 else 0)
      + (if ?P 2 then k 2 else 0) + (if ?P 3 then k 3 else 0)"
    by (rule sum_groups [OF pools]) (auto simp: k_def pool_count_def input_actions_def)
  moreover have "(if ?P 0 then k 0 else 0) + (if ?P 1 then k 1 else 0) + (if ?P 2 then k 2 else 0)
      + (if ?P 3 then k 3 else 0) = source_actions ?ns"
    unfolding source_actions_def pc k_def by (simp add: input_actions_def)
  ultimately have ac: "sum_list (map ?a ?groups) = source_actions ?ns" by (simp only:)
  note len = source_small(1) [OF assms, of account src c] and tot = source_small(2) [OF assms, of account src c]
  have "source_actions ?ns \<le> length ?ns + 6"
    using source_count_total [OF pools'] by (auto simp: source_actions_def input_actions_def)
  then have small: "source_actions ?ns < 2 ^ 33" using len by simp
  have "u64_sum (map ?v ?groups) = source_value ?ns" "u64_sum (map ?a ?groups) = source_actions ?ns"
    using av ac tot small by (auto intro!: trans [OF u64_sum_exact])
  moreover have "u64_mul (max (u64_add (source_actions ?ns) 4) 2) COST_PER_ACTION = (source_actions ?ns + 4) * COST_PER_ACTION"
    using small by (simp add: u64_add_exact u64_mul_exact COST_PER_ACTION_def)
  ultimately show ?thesis by (simp add: max_spendable_from_pools_def Let_def)
qed

lemma candidates_match:
  assumes "zec_assets_ok db" and "small_wallet db" and "fetch_unspent_notes_by_pool db account = Inr pools"
    and ps_def: "ps = drop_zec_dust (restrict_to_source_pools src (confirmed_height db account c) pools)"
  shows "p < N_POOLS \<Longrightarrow> count_of (\<lambda>n. sn_pool n = p) (solver_notes [] ps) = pool_count (source_notes db account src c) p"
    and "sum_list (map sn_amount (solver_notes [] ps)) = source_value (source_notes db account src c)"
    and "x \<in> set (solver_notes [] ps) \<Longrightarrow> sn_pool x < N_POOLS \<and> sn_asset x = 0 \<and> COST_PER_ACTION \<le> sn_amount x"
    and "length (solver_notes [] ps) = length (source_notes db account src c)"
proof -
  let ?ns = "source_notes db account src c"
  have u63: "values_u63 db" using assms(2) by (rule small_values_u63)
  have len: "length ps = 4" by (simp add: ps_def drop_zec_dust_def restrict_to_source_pools_def NUM_POOLS_def)
  have pool: "zec_only (ps ! p) = map (to_input db) (filter (\<lambda>n. nr_pool n = p) ?ns)" if "p < 4" for p
    using candidate_pool [OF assms(1) u63 _ assms(3)] that by (simp add: ps_def NUM_POOLS_def)
  have amount: "as_u64 (nr_value n) = nat (nr_value n)" "int COST_PER_ACTION \<le> nr_value n" if "n \<in> set ?ns" for n
    using that u63
    by (auto simp: source_notes_def spendable_notes_def owned_unspent_zec_notes_def values_u63_def as_u64_exact)
  have cnt: "length (pool_solver_notes p (ps ! p)) = pool_count ?ns p" if "p < 4" for p
    using pool_solver_notes_facts(1) [of p "ps ! p"] pool [OF that] by (metis length_map pool_count_def)
  show "p < N_POOLS \<Longrightarrow> count_of (\<lambda>n. sn_pool n = p) (solver_notes [] ps) = pool_count ?ns p"
    using cnt [of p] len by (simp add: count_of_def solver_notes_pool N_POOLS_def)
  have psum: "sum_list (map sn_amount (pool_solver_notes p (ps ! p))) = pool_value ?ns p" if "p < 4" for p
  proof -
    have "map sn_amount (pool_solver_notes p (ps ! p)) = map (\<lambda>n. as_u64 (nr_value n)) (filter (\<lambda>n. nr_pool n = p) ?ns)"
      using pool_solver_notes_facts(1) [of p "ps ! p"] pool [OF that] by simp
    also have "\<dots> = map (\<lambda>n. nat (nr_value n)) (filter (\<lambda>n. nr_pool n = p) ?ns)"
      using amount(1) by simp
    finally show ?thesis by (simp add: pool_value_def)
  qed
  obtain a b c' d where ps: "ps = [a, b, c', d]" using len by (auto simp: length4_conv)
  have parts: "solver_notes [] ps = pool_solver_notes 0 (ps ! 0) @ pool_solver_notes 1 (ps ! 1)
      @ pool_solver_notes 2 (ps ! 2) @ pool_solver_notes 3 (ps ! 3)"
    by (simp add: solver_notes_concat ps numeral_eq_Suc)
  show "sum_list (map sn_amount (solver_notes [] ps)) = source_value ?ns"
    unfolding parts source_value_def by (simp add: psum [of 0] psum [of 1] psum [of 2] psum [of 3] del: One_nat_def)
  have pools': "\<forall>n \<in> set ?ns. nr_pool n < 4"
    using assms(2) by (auto simp: source_notes_def spendable_notes_def owned_unspent_zec_notes_def small_wallet_def NUM_POOLS_def)
  show "length (solver_notes [] ps) = length ?ns"
    unfolding parts source_count_total [OF pools', symmetric]
    by (simp add: cnt [of 0] cnt [of 1] cnt [of 2] cnt [of 3] del: One_nat_def)
  assume x: "x \<in> set (solver_notes [] ps)"
  then have xp: "sn_asset x = 0" "sn_pool x < 4" using solver_notes_asset [OF x] len by auto
  then have "x \<in> set (pool_solver_notes (sn_pool x) (ps ! sn_pool x))"
  proof -
    have "x \<in> set (filter (\<lambda>y. sn_pool y = sn_pool x) (solver_notes [] ps))" using x by simp
    then show ?thesis using solver_notes_pool [of "sn_pool x" ps] xp(2) len by simp
  qed
  then have "sn_amount x \<in> set (map in_amount (zec_only (ps ! sn_pool x)))"
    using pool_solver_notes_facts(1) by (metis image_eqI set_map)
  then obtain n where "n \<in> set ?ns" "sn_amount x = as_u64 (nr_value n)" using pool [OF xp(2)] by auto
  then have "COST_PER_ACTION \<le> sn_amount x" using amount [of n] by (simp add: le_nat_iff)
  then show "sn_pool x < N_POOLS \<and> sn_asset x = 0 \<and> COST_PER_ACTION \<le> sn_amount x"
    using xp by (simp add: N_POOLS_def)
qed

lemma spendable_planned:
  assumes "small_wallet db" and "zec_assets_ok db"
    and "0 < amount" and "amount \<le> max_spendable_from_pools db account (PoolMask src) c"
    and "r < N_POOLS"
  obtains pools pl where "fetch_unspent_notes_by_pool db account = Inr pools"
    and "plan_core late (restrict_to_source_pools src (confirmed_height db account c) pools)
      [\<lparr>pr_amount = amount, pr_asset_base = [], pr_pools = None, pr_receiver = Some r\<rparr>] False None mig iw = Ret (Inr pl)"
proof -
  let ?rec = "\<lparr>pr_amount = amount, pr_asset_base = [], pr_pools = None, pr_receiver = Some r\<rparr>"
  let ?ns = "source_notes db account src c"
  obtain pools where pools: "fetch_unspent_notes_by_pool db account = Inr pools"
    using assms(1) by (auto simp: fetch_unspent_notes_by_pool_def fetch_unspent_notes_def Let_def list_all_iff
        small_wallet_def)
  define ps where "ps = drop_zec_dust (restrict_to_source_pools src (confirmed_height db account c) pools)"
  note match = candidates_match [OF assms(2,1) pools ps_def]
  let ?sn = "solver_notes [] ps" and ?os = "[\<lparr>so_pool = r, so_amount = amount, so_asset = 0\<rparr>]"
  have le: "amount + (source_actions ?ns + 4) * COST_PER_ACTION \<le> source_value ?ns"
    using assms(3,4) max_spendable_closed [OF assms(1), of account src c] by simp
  have fee: "zip317_fee mig (map (\<lambda>p. count_of (\<lambda>n. sn_pool n = p) ?sn) [0..<N_POOLS])
      (map (\<lambda>p. out_count (\<lambda>o'. so_pool o' = p) ?os + (if p = r then 1 else 0)) [0..<N_POOLS])
      \<le> (source_actions ?ns + 4) * COST_PER_ACTION"
  proof -
    have outs: "map (\<lambda>p. out_count (\<lambda>o'. so_pool o' = p) ?os + (if p = r then 1 else 0)) [0..<N_POOLS] = pay_outs r r"
      by (auto simp: pay_outs_def out_count_def)
    have ins: "map (\<lambda>p. count_of (\<lambda>n. sn_pool n = p) ?sn) [0..<N_POOLS]
        = [pool_count ?ns 0, pool_count ?ns 1, pool_count ?ns 2, pool_count ?ns 3]"
      unfolding pools4 list.map by (simp add: match(1) N_POOLS_def)
    show ?thesis unfolding zip317_fee_def outs ins source_actions_def
      using pay_actions_bound [OF assms(5,5), of mig] by (intro mult_right_mono) auto
  qed
  note small = source_small(2,1) [OF assms(1), of account src c]
  have "\<exists>sel. select_notes late ?sn ?os COST_PER_ACTION mig False amount = Ret (Some sel)"
  proof (rule select_notes_pays [where cp = r])
    show "notes_ok ?sn" using small match(2,4) by (simp add: notes_ok_def)
    show "outputs_ok ?os" using le small(1) by (simp add: outputs_ok_def small_outputs_def)
    show "?sn \<noteq> []" using match(2) le assms(3) by auto
    show "\<forall>n \<in> set ?sn. sn_pool n < N_POOLS \<and> sn_asset n = 0 \<and> COST_PER_ACTION \<le> sn_amount n" using match(3) by blast
  qed (use fee le match(2) assms(5) in simp_all)
  then obtain sel where sel: "select_notes late ?sn ?os COST_PER_ACTION mig False amount = Ret (Some sel)" by blast
  have z: "all_zec [?rec]" by (simp add: all_zec_def recipient_base_def)
  have "plan_core late (restrict_to_source_pools src (confirmed_height db account c) pools) [?rec] False None mig iw
      = Ret (Inr (build_plan ps [?rec] False None sel))"
    using sel zsa_assets_zec [OF z]
    by (simp add: plan_core_def decompose_recipients_def recipient_base_def solver_outputs_def pool_pref_def
        resolve_asset_index_def Let_def flip: ps_def)
  then show thesis using pools that by blast
qed


text \<open>
  C5. What the wallet reports as spendable can be spent: for every amount up to
  \<open>max_spendable_from_pools\<close>, every source-pool mask and number of confirmations, and every recipient pool,
  planning a payment of that amount from those pools succeeds, with or without the migration fee rule.
\<close>

theorem max_spendable_can_be_planned:
  assumes "small_wallet db" and "zec_assets_ok db"
    and "0 < amount" and "amount \<le> max_spendable_from_pools db account (PoolMask src) c"
    and "r < N_POOLS"
  shows "\<exists>pl. plan_transaction late rnd db account src
      [\<lparr>pr_amount = amount, pr_asset_base = [], pr_pools = None, pr_receiver = Some r\<rparr>] False (Some c) False None
      mig None iw = Ret (Inr (Inr pl))"
proof -
  obtain pools pl where "fetch_unspent_notes_by_pool db account = Inr pools"
    "plan_core late (restrict_to_source_pools src (confirmed_height db account c) pools)
      [\<lparr>pr_amount = amount, pr_asset_base = [], pr_pools = None, pr_receiver = Some r\<rparr>] False None mig iw = Ret (Inr pl)"
    using spendable_planned [OF assms] by metis
  then show ?thesis by (simp add: plan_transaction_def restrict_to_preselected_def)
qed

lemma ex_spendable:
  "small_wallet ex_db" "zec_assets_ok ex_db" "max_spendable_from_pools ex_db 1 (PoolMask 4) 10 = 20000"
proof -
  show "small_wallet ex_db" "zec_assets_ok ex_db"
    by (simp_all add: small_wallet_def zec_assets_ok_def ex_db_defs NUM_POOLS_def value_sum_def)
  have "source_notes ex_db 1 4 10 = [ex_note_1]"
    by (simp add: source_notes_def spendable_notes_def owned_unspent_zec_notes_def available_note_def is_spent_def
        is_reserved_def active_pending_spend_inputs_def confirmed_height_def get_sync_height_def sql_min_def
        COST_PER_ACTION_def has_pool_def one_shl_def ex_db_defs)
  then show "max_spendable_from_pools ex_db 1 (PoolMask 4) 10 = 20000"
    using max_spendable_closed [OF \<open>small_wallet ex_db\<close>, of 1 4 10]
    by (simp add: source_value_def source_actions_def pool_value_def pool_count_def input_actions_def ex_note_1_def
        COST_PER_ACTION_def)
qed

theorem max_spendable_can_be_planned_witness:
  "\<exists>pl. plan_transaction (\<lambda>_. False) 0 ex_db 1 4
      [\<lparr>pr_amount = 20000, pr_asset_base = [], pr_pools = None, pr_receiver = Some 1\<rparr>] False (Some 10) False None
      False None True = Ret (Inr (Inr pl))"
  by (rule max_spendable_can_be_planned) (simp_all add: ex_spendable N_POOLS_def del: One_nat_def)

lemma numeral_pools: "1 < NUM_POOLS" "2 < NUM_POOLS"
  by (simp_all add: NUM_POOLS_def)

lemma ex_fetch: "fetch_unspent_notes ex_db 1 = [to_input ex_db ex_note_1, to_input ex_db ex_note_2]"
proof -
  have rows: "note_rows ex_db = [ex_note_1, ex_note_2, ex_note_3]" by (simp add: ex_db_def)
  have spent: "\<not> is_spent ex_db ex_note_1" "\<not> is_spent ex_db ex_note_2" "is_spent ex_db ex_note_3"
    and res: "\<not> is_reserved ex_db n" for n
    by (simp_all add: is_spent_def is_reserved_def active_pending_spend_inputs_def ex_db_defs)
  have "nr_account ex_note_1 = 1" "nr_account ex_note_2 = 1" "\<not> nr_locked ex_note_1" "\<not> nr_locked ex_note_2"
    by (simp_all add: ex_db_defs)
  then show ?thesis by (simp add: fetch_to_input rows spent res)
qed

lemma ex_pools_small:
  assumes "fetch_unspent_notes_by_pool ex_db 1 = Inr pools"
  shows "plan_small (restrict_to_source_pools 4 (confirmed_height ex_db 1 10) pools)
    [\<lparr>pr_amount = 20000, pr_asset_base = [], pr_pools = None, pr_receiver = Some 1\<rparr>]"
proof -
  let ?i = "to_input ex_db"
  have n: "nr_pool ex_note_1 = 2" "nr_pool ex_note_2 = 1" "as_u64 (nr_value ex_note_1) = 50000"
    "as_u64 (nr_value ex_note_2) = 30000"
    by (simp_all add: ex_db_defs as_u64_def)
  have "pools = [[], [?i ex_note_2], [?i ex_note_1], []]"
    using assms n(1,2)
    by (simp add: fetch_unspent_notes_by_pool_def ex_fetch pools4 Let_def numeral_pools del: One_nat_def)
  then show ?thesis
    by (simp add: plan_small_def restrict_to_source_pools_def pools4 n)
qed

theorem plan_conserves_value_witness:
  "\<exists>pools pl. plan_core (\<lambda>_. False) (restrict_to_source_pools 4 (confirmed_height ex_db 1 10) pools)
      [\<lparr>pr_amount = 20000, pr_asset_base = [], pr_pools = None, pr_receiver = Some 1\<rparr>] False None False False = Ret (Inr pl)
    \<and> sum_list (map sn_amount (sel_inputs (pl_selection pl)))
        = sum_list (map snd (pl_outputs pl)) + pl_fee pl + pl_change pl"
proof -
  let ?r = "\<lparr>pr_amount = 20000, pr_asset_base = [], pr_pools = None, pr_receiver = Some 1\<rparr>"
  obtain pools pl where p: "fetch_unspent_notes_by_pool ex_db 1 = Inr pools"
    "plan_core (\<lambda>_. False) (restrict_to_source_pools 4 (confirmed_height ex_db 1 10) pools) [?r] False None False False
      = Ret (Inr pl)"
    using spendable_planned [OF ex_spendable(1,2), of 20000 1 4 10 1 "\<lambda>_. False" False False] ex_spendable(3)
    by (auto simp: N_POOLS_def)
  have "all_zec [?r]" by (simp add: all_zec_def recipient_base_def)
  then show ?thesis using plan_conserves_value [OF p(2) _ ex_pools_small [OF p(1)]] p(2) by blast
qed

section \<open>Issuance\<close>

lemma mset_single_list:
  assumes "mset xs \<subseteq># {#n#}" and "xs \<noteq> []"
  shows "xs = [n]"
proof -
  obtain x ys where xs: "xs = x # ys" using assms(2) by (cases xs) auto
  have "ys = []" using size_mset_mono [OF assms(1)] by (simp add: xs)
  then show ?thesis using assms(1) by (simp add: xs)
qed

definition ex_issue_pools :: "InputNote list list" where
  "ex_issue_pools = [[], [], [\<lparr>in_id = 1, in_height = 100, in_amount = 25000, in_remaining = 25000, in_pool = 2,
     in_id_asset = None, in_asset_base = ZEC_BASE, in_taddress = None\<rparr>], []]"

definition ex_issue_recipient :: PlanRecipient where
  "ex_issue_recipient = \<lparr>pr_amount = 10000, pr_asset_base = [], pr_pools = None, pr_receiver = Some 2\<rparr>"

text \<open>
  The issuance fee is not funded. \<open>plan_transaction\<close> adds the actions of an asset issuance to the fee
  after the solver has chosen the inputs for the fee without them, and the change saturates at zero: with
  one note of 25000 and a payment of 10000, the plan for a first issuance spends 25000 and promises 10000
  plus a fee of at least 20000.
\<close>

theorem issuance_fee_not_funded:
  "\<exists>pl. plan_core late ex_issue_pools [ex_issue_recipient] False (Some True) False False = Ret (Inr pl)
    \<and> sum_list (map sn_amount (sel_inputs (pl_selection pl))) = 25000
    \<and> sum_list (map snd (pl_outputs pl)) = 10000 \<and> 20000 \<le> pl_fee pl \<and> pl_change pl = 0"
proof -
  let ?n = "\<lparr>sn_pool = 2, sn_amount = 25000, sn_pool_index = 0, sn_asset = 0\<rparr>"
  let ?o = "\<lparr>so_pool = 2, so_amount = 10000, so_asset = 0\<rparr>"
  have sn: "solver_notes [] (drop_zec_dust ex_issue_pools) = [?n]"
    by (simp add: solver_notes_def ex_issue_pools_def drop_zec_dust_def note_asset_index_zec COST_PER_ACTION_def
        numeral_eq_Suc [of "num.Bit0 num.One"])
  have ok: "notes_ok [?n]" "outputs_ok [?o]" by (simp_all add: notes_ok_def outputs_ok_def small_outputs_def)
  have "\<exists>sel. select_notes late [?n] [?o] COST_PER_ACTION False False 10000 = Ret (Some sel)"
    by (rule select_notes_pays [OF ok, where cp = 2])
      (simp_all add: N_POOLS_def COST_PER_ACTION_def zip317_fee_def zip317_actions_def zip317_padded_def
        count_of_def out_count_def upt_rec)
  then obtain sel where sel: "select_notes late [?n] [?o] COST_PER_ACTION False False 10000 = Ret (Some sel)" by blast
  note g = select_notes_guarantee [OF sel ok]
  have fee: "10000 \<le> sel_fee sel"
    using select_notes_fee [OF sel ok] zip317_fee_min [unfolded COST_PER_ACTION_def] by simp
  have "mset (sel_inputs sel) \<subseteq># {#?n#}" using g(1) by (simp add: dust_filter_def COST_PER_ACTION_def)
  moreover have "sel_inputs sel \<noteq> []" using g(2) by (auto simp: sum_of_def out_sum_def)
  ultimately have inp: "sel_inputs sel = [?n]"
    by (rule mset_single_list)
  have z: "all_zec [ex_issue_recipient]" by (simp add: all_zec_def ex_issue_recipient_def recipient_base_def)
  have "plan_core late ex_issue_pools [ex_issue_recipient] False (Some True) False False
      = Ret (Inr (build_plan (drop_zec_dust ex_issue_pools) [ex_issue_recipient] False (Some True) sel))"
    using sel sn zsa_assets_zec [OF z]
    by (simp add: plan_core_def decompose_recipients_def ex_issue_recipient_def solver_outputs_def pool_pref_def
        resolve_asset_index_def recipient_base_def Let_def)
  moreover have "sel_fee sel \<le> 15000" using g(2) by (simp add: inp out_sum_def sum_of_def)
  ultimately show ?thesis using fee zsa_assets_zec [OF z]
    by (simp add: build_plan_def inp ex_issue_recipient_def issuance_fee_def COST_PER_ACTION_def u64_add_def
        u64_sum_def zsa_changes_def Let_def)
qed

end
