(* ===== verification/Coverage.thy ===== *)
theory Coverage
  imports WalletDb
begin

text \<open>
  The \<open>props\<close> table and the transparent coverage ledger of \<open>src/rust/rlz/src/db.rs\<close>. The ledger lives in
  string properties, so the decimal printing and parsing of Rust (\<open>to_string\<close>, \<open>str::parse\<close>) and SQLite's
  \<open>CAST\<close> are modelled with it. The second part is the per-address coverage marker.
\<close>

section \<open>Decimal strings\<close>

definition digit_char :: "nat \<Rightarrow> char" where
  "digit_char d = char_of (48 + d)"

definition is_digit :: "char \<Rightarrow> bool" where
  "is_digit c \<longleftrightarrow> 48 \<le> (of_char c :: nat) \<and> (of_char c :: nat) \<le> 57"

definition digit_val :: "char \<Rightarrow> nat" where
  "digit_val c = of_char c - 48"

fun show_nat :: "nat \<Rightarrow> string" where
  "show_nat n = (if n < 10 then [digit_char n] else show_nat (n div 10) @ [digit_char (n mod 10)])"

declare show_nat.simps [simp del]

definition show_int :: "int \<Rightarrow> string" where
  "show_int i = (if i < 0 then CHR ''-'' # show_nat (nat (- i)) else show_nat (nat i))"

definition digits_val :: "string \<Rightarrow> nat" where
  "digits_val s = fold (\<lambda>c v. v * 10 + digit_val c) s 0"

definition parse_digits :: "string \<Rightarrow> nat option" where
  "parse_digits s = (if s \<noteq> [] \<and> list_all is_digit s then Some (digits_val s) else None)"

definition strip_plus :: "string \<Rightarrow> string" where
  "strip_plus s = (case s of c # cs \<Rightarrow> if c = CHR ''+'' then cs else s | [] \<Rightarrow> [])"

definition parse_u32 :: "string \<Rightarrow> nat option" where
  "parse_u32 s =
    (case parse_digits (strip_plus s) of None \<Rightarrow> None | Some v \<Rightarrow> if v \<le> u32_max then Some v else None)"

definition parse_i64 :: "string \<Rightarrow> int option" where
  "parse_i64 s =
    (case s of
       c # cs \<Rightarrow>
         (if c = CHR ''-''
          then (case parse_digits cs of None \<Rightarrow> None
                | Some v \<Rightarrow> if v \<le> 2 ^ 63 then Some (- int v) else None)
          else (case parse_digits (strip_plus s) of None \<Rightarrow> None
                | Some v \<Rightarrow> if v < 2 ^ 63 then Some (int v) else None))
     | [] \<Rightarrow> None)"

text \<open>\<open>CAST(value AS INTEGER)\<close> reads the longest numeric prefix and is 0 when there is none.\<close>

definition sql_cast_integer :: "string \<Rightarrow> int" where
  "sql_cast_integer s =
    (case s of
       c # cs \<Rightarrow>
         (if c = CHR ''-'' then - int (digits_val (takeWhile is_digit cs))
          else if c = CHR ''+'' then int (digits_val (takeWhile is_digit cs))
          else int (digits_val (takeWhile is_digit s)))
     | [] \<Rightarrow> 0)"

section \<open>Properties\<close>

definition put_prop :: "string \<Rightarrow> string \<Rightarrow> Db \<Rightarrow> Db" where
  "put_prop key v db = db\<lparr>props := (props db)(key \<mapsto> v)\<rparr>"

definition get_prop :: "Db \<Rightarrow> string \<Rightarrow> string option" where
  "get_prop db key = props db key"

record TransparentCoverage =
  certified :: bool
  tc_gap :: nat
  tc_trim :: int

definition trim_key :: "nat \<Rightarrow> string" where
  "trim_key account = ''tcov_trim:'' @ show_nat account"

definition certified_key :: "nat \<Rightarrow> string" where
  "certified_key account = ''tcov_certified:'' @ show_nat account"

definition coverage_keys :: "nat \<Rightarrow> string \<times> string" where
  "coverage_keys account = (trim_key account, certified_key account)"

definition incarnation_key :: "nat \<Rightarrow> string" where
  "incarnation_key account = ''tcov_life:'' @ show_nat account"

definition transparent_incarnation :: "Db \<Rightarrow> nat \<Rightarrow> nat" where
  "transparent_incarnation db account =
    (case get_prop db (incarnation_key account) of
       None \<Rightarrow> 0
     | Some v \<Rightarrow> (case parse_u32 v of None \<Rightarrow> 0 | Some n \<Rightarrow> n))"

fun split_once :: "char \<Rightarrow> string \<Rightarrow> (string \<times> string) option" where
  "split_once c [] = None"
| "split_once c (x # xs) =
    (if x = c then Some ([], xs)
     else map_option (\<lambda>(a, b). (x # a, b)) (split_once c xs))"

definition parse_coverage :: "string \<Rightarrow> (int \<times> nat) option" where
  "parse_coverage stored =
    (case split_once (CHR '':'') stored of
       None \<Rightarrow> None
     | Some (t, g) \<Rightarrow>
         (case parse_i64 t of
            None \<Rightarrow> None
          | Some trim \<Rightarrow> map_option (\<lambda>gap. (trim, gap)) (parse_u32 g)))"

definition transparent_trim_counter :: "Db \<Rightarrow> nat \<Rightarrow> int" where
  "transparent_trim_counter db account =
    (case get_prop db (fst (coverage_keys account)) of
       None \<Rightarrow> 0
     | Some v \<Rightarrow> (case parse_i64 v of None \<Rightarrow> 0 | Some n \<Rightarrow> n))"

definition read_transparent_coverage :: "Db \<Rightarrow> nat \<Rightarrow> TransparentCoverage" where
  "read_transparent_coverage db account =
    (let trim = transparent_trim_counter db account
     in case Option.bind (get_prop db (snd (coverage_keys account))) parse_coverage of
          Some (stored_trim, gap) \<Rightarrow> \<lparr>certified = (stored_trim = trim), tc_gap = gap, tc_trim = trim\<rparr>
        | None \<Rightarrow> \<lparr>certified = False, tc_gap = 0, tc_trim = trim\<rparr>)"

definition write_transparent_coverage :: "nat \<Rightarrow> nat \<Rightarrow> Db \<Rightarrow> Db" where
  "write_transparent_coverage account gap db =
    (let trim = transparent_trim_counter db account;
         recorded = (case Option.bind (get_prop db (snd (coverage_keys account))) parse_coverage of
                       None \<Rightarrow> 0 | Some (_, g) \<Rightarrow> g)
     in put_prop (snd (coverage_keys account)) (show_int trim @ '':'' @ show_nat (max recorded gap)) db)"

definition retire_transparent_walks :: "nat \<Rightarrow> Db \<Rightarrow> Db" where
  "retire_transparent_walks account db =
    put_prop (incarnation_key account) (show_nat (u32_add (transparent_incarnation db account) 1)) db"

definition clear_transparent_coverage :: "nat \<Rightarrow> Db \<Rightarrow> Db" where
  "clear_transparent_coverage account db =
    retire_transparent_walks account
      (db\<lparr>props := (props db)(fst (coverage_keys account) := None, snd (coverage_keys account) := None)\<rparr>)"

text \<open>The upsert of \<open>trim_sync_data\<close> on the trim counter.\<close>

definition bump_trim_counter :: "nat \<Rightarrow> Db \<Rightarrow> Db" where
  "bump_trim_counter account db =
    (case get_prop db (trim_key account) of
       None \<Rightarrow> put_prop (trim_key account) ''1'' db
     | Some v \<Rightarrow> put_prop (trim_key account) (show_int (sql_cast_integer v + 1)) db)"

section \<open>Addresses\<close>

definition raise_catch_up_debt :: "nat \<Rightarrow> nat \<Rightarrow> Db \<Rightarrow> Db" where
  "raise_catch_up_debt id_taddress through db =
    db\<lparr>taddrs := update_where (\<lambda>a. ta_id a = id_taddress)
        (\<lambda>a. a\<lparr>ta_owed := Some (max (case ta_owed a of None \<Rightarrow> 0 | Some o' \<Rightarrow> o') through)\<rparr>) (taddrs db)\<rparr>"

definition clear_catch_up_debts :: "nat \<Rightarrow> Db \<Rightarrow> Db" where
  "clear_catch_up_debts account db =
    db\<lparr>taddrs := update_where (\<lambda>a. ta_account a = account) (ta_owed_update (\<lambda>_. None)) (taddrs db)\<rparr>"

definition store_account_transparent_addr :: "nat \<Rightarrow> nat \<Rightarrow> nat \<Rightarrow> string \<Rightarrow> Db \<Rightarrow> bool \<times> Db" where
  "store_account_transparent_addr account scope dindex address db =
    (if list_ex (\<lambda>a. ta_account a = account \<and> ta_scope a = scope \<and> ta_dindex a = dindex) (taddrs db)
     then (False, db)
     else (True, db\<lparr>taddrs := taddrs db @
        [\<lparr>ta_id = next_rowid ta_id (taddrs db), ta_account = account, ta_scope = scope, ta_dindex = dindex,
          ta_address = address, ta_backfilled = None, ta_owed = None, ta_seen_used = False\<rparr>]\<rparr>))"

definition transparent_address_row :: "Db \<Rightarrow> nat \<Rightarrow> nat \<Rightarrow> nat \<Rightarrow> (nat \<times> string) option" where
  "transparent_address_row db account scope dindex =
    map_option (\<lambda>a. (ta_id a, ta_address a))
      (find (\<lambda>a. ta_account a = account \<and> ta_scope a = scope \<and> ta_dindex a = dindex) (taddrs db))"

definition highest_stored_dindex :: "Db \<Rightarrow> nat \<Rightarrow> nat \<Rightarrow> nat option" where
  "highest_stored_dindex db account scope =
    sql_max (map ta_dindex (filter (\<lambda>a. ta_account a = account \<and> ta_scope a = scope) (taddrs db)))"

definition taddress_scope_dindex :: "Db \<Rightarrow> nat \<Rightarrow> DbError + nat \<times> nat" where
  "taddress_scope_dindex db id_taddress =
    (case find (\<lambda>a. ta_id a = id_taddress) (taddrs db) of
       None \<Rightarrow> Inl RowNotFound
     | Some a \<Rightarrow> Inr (ta_scope a, ta_dindex a))"

definition marker_accepts :: "nat \<Rightarrow> nat \<Rightarrow> nat \<Rightarrow> nat option \<Rightarrow> bool" where
  "marker_accepts birth_height covered_from through marker \<longleftrightarrow>
    covered_from \<le> max (case marker of None \<Rightarrow> 0 | Some m \<Rightarrow> m + 1) birth_height \<and>
    (case marker of None \<Rightarrow> True | Some m \<Rightarrow> m < through)"

definition advance_backfilled_height :: "nat \<Rightarrow> nat \<Rightarrow> nat \<Rightarrow> nat \<Rightarrow> nat \<Rightarrow> nat \<Rightarrow> Db \<Rightarrow> Db" where
  "advance_backfilled_height account birth_height scope dindex covered_from through db =
    db\<lparr>taddrs := update_where (\<lambda>a. ta_account a = account \<and> ta_scope a = scope \<and> ta_dindex a = dindex
          \<and> marker_accepts birth_height covered_from through (ta_backfilled a))
        (ta_backfilled_update (\<lambda>_. Some through)) (taddrs db)\<rparr>"

definition transparent_backfilled_height :: "Db \<Rightarrow> nat \<Rightarrow> DbError + nat option" where
  "transparent_backfilled_height db id_taddress =
    (case find (\<lambda>a. ta_id a = id_taddress) (taddrs db) of
       None \<Rightarrow> Inl RowNotFound
     | Some a \<Rightarrow> Inr (ta_backfilled a))"

section \<open>Printing and parsing\<close>

lemma of_char_digit: "d < 10 \<Longrightarrow> (of_char (digit_char d) :: nat) = 48 + d"
  by (simp add: digit_char_def)

lemma is_digit_digit_char [simp]: "d < 10 \<Longrightarrow> is_digit (digit_char d)"
  by (simp add: is_digit_def of_char_digit)

lemma digit_val_digit_char [simp]: "d < 10 \<Longrightarrow> digit_val (digit_char d) = d"
  by (simp add: digit_val_def of_char_digit)

lemma show_nat_digits: "list_all is_digit (show_nat n)" "show_nat n \<noteq> []"
  by (induction n rule: show_nat.induct) (subst show_nat.simps, simp)+

lemma digits_val_append: "digits_val (s @ [c]) = digits_val s * 10 + digit_val c"
  by (simp add: digits_val_def)

lemma digits_val_show [simp]: "digits_val (show_nat n) = n"
proof (induction n rule: show_nat.induct)
  case (1 n)
  show ?case
  proof (cases "n < 10")
    case True
    then show ?thesis by (simp add: show_nat.simps [of n] digits_val_def)
  next
    case False
    then show ?thesis using 1 by (simp add: show_nat.simps [of n] digits_val_append)
  qed
qed

lemma is_digit_not_sign: "is_digit c \<Longrightarrow> c \<noteq> CHR ''+'' \<and> c \<noteq> CHR ''-'' \<and> c \<noteq> CHR '':''"
  by (auto simp: is_digit_def)

lemma show_nat_hd: "show_nat n = c # cs \<Longrightarrow> c \<noteq> CHR ''+'' \<and> c \<noteq> CHR ''-''"
  using show_nat_digits(1) [of n] is_digit_not_sign by simp

lemma strip_plus_show [simp]: "strip_plus (show_nat n) = show_nat n"
  using show_nat_hd [of n] by (auto simp: strip_plus_def split: list.split)

lemma parse_digits_show [simp]: "parse_digits (show_nat n) = Some n"
  using show_nat_digits [of n] by (simp add: parse_digits_def)

lemma parse_u32_show: "n \<le> u32_max \<Longrightarrow> parse_u32 (show_nat n) = Some n"
  by (simp add: parse_u32_def)

lemma parse_i64_show:
  assumes "- (2 ^ 63) \<le> i" and "i < 2 ^ 63"
  shows "parse_i64 (show_int i) = Some i"
proof (cases "i < 0")
  case True
  then show ?thesis using assms by (simp add: show_int_def parse_i64_def nat_le_iff)
next
  case False
  obtain c cs where s: "show_nat (nat i) = c # cs" using show_nat_digits(2) by (cases "show_nat (nat i)") auto
  then have "parse_i64 (show_nat (nat i)) =
      (case parse_digits (strip_plus (show_nat (nat i))) of None \<Rightarrow> None
       | Some v \<Rightarrow> if v < 2 ^ 63 then Some (int v) else None)"
    using show_nat_hd [OF s] by (simp add: parse_i64_def)
  then show ?thesis using False assms by (simp add: show_int_def nat_less_iff)
qed

lemma show_int_no_colon: "CHR '':'' \<notin> set (show_int i)"
  using show_nat_digits(1) is_digit_not_sign by (auto simp: show_int_def list_all_iff)

lemma split_once_append: "c \<notin> set s \<Longrightarrow> split_once c (s @ c # t) = Some (s, t)"
  by (induction s) auto

lemma parse_coverage_show:
  assumes "- (2 ^ 63) \<le> t" and "t < 2 ^ 63" and "g \<le> u32_max"
  shows "parse_coverage (show_int t @ '':'' @ show_nat g) = Some (t, g)"
  using assms by (simp add: parse_coverage_def split_once_append show_int_no_colon parse_i64_show parse_u32_show)

lemma sql_cast_show: "sql_cast_integer (show_int i) = i"
proof -
  have tw: "takeWhile is_digit (show_nat n) = show_nat n" for n
    using show_nat_digits(1) by (simp add: list_all_iff)
  obtain c cs where s: "show_nat (nat i) = c # cs" using show_nat_digits(2) by (cases "show_nat (nat i)") auto
  show ?thesis
  proof (cases "i < 0")
    case True
    then show ?thesis by (simp add: sql_cast_integer_def show_int_def tw)
  next
    case False
    have "sql_cast_integer (show_nat (nat i)) = int (digits_val (takeWhile is_digit (show_nat (nat i))))"
      using show_nat_hd [OF s] by (simp add: sql_cast_integer_def s)
    then show ?thesis using False by (simp add: show_int_def tw)
  qed
qed

section \<open>The ledger\<close>

lemma show_nat_inj [simp]: "show_nat a = show_nat b \<longleftrightarrow> a = b"
  by (metis digits_val_show)

lemma coverage_keys_distinct [simp]:
  "trim_key a = trim_key b \<longleftrightarrow> a = b" "certified_key a = certified_key b \<longleftrightarrow> a = b"
  "incarnation_key a = incarnation_key b \<longleftrightarrow> a = b"
  "trim_key a \<noteq> certified_key b" "certified_key b \<noteq> trim_key a" "trim_key a \<noteq> incarnation_key b"
  "incarnation_key b \<noteq> trim_key a" "certified_key a \<noteq> incarnation_key b" "incarnation_key b \<noteq> certified_key a"
  by (simp_all add: trim_key_def certified_key_def incarnation_key_def)

lemma get_put_prop [simp]: "get_prop (put_prop k v db) j = (if j = k then Some v else get_prop db j)"
  by (simp add: get_prop_def put_prop_def)

lemma coverage_keys_simps [simp]: "fst (coverage_keys a) = trim_key a" "snd (coverage_keys a) = certified_key a"
  by (simp_all add: coverage_keys_def)

lemma parse_digits_range: "parse_u32 s = Some n \<Longrightarrow> n \<le> u32_max"
  by (auto simp: parse_u32_def split: option.splits if_splits)

lemma parse_i64_range: "parse_i64 s = Some i \<Longrightarrow> - (2 ^ 63) \<le> i \<and> i < 2 ^ 63"
  by (auto simp: parse_i64_def split: list.splits option.splits if_splits)

lemma trim_counter_range: "- (2 ^ 63) \<le> transparent_trim_counter db a" "transparent_trim_counter db a < 2 ^ 63"
  using parse_i64_range by (auto simp: transparent_trim_counter_def split: option.splits)

lemma incarnation_range: "transparent_incarnation db a \<le> u32_max"
  using parse_digits_range by (auto simp: transparent_incarnation_def u32_max_def split: option.splits)

lemma trim_counter_put [simp]:
  "k \<noteq> trim_key a \<Longrightarrow> transparent_trim_counter (put_prop k v db) a = transparent_trim_counter db a"
  by (simp add: transparent_trim_counter_def)

lemma trim_counter_put_same:
  "parse_i64 v = Some i \<Longrightarrow> transparent_trim_counter (put_prop (trim_key a) v db) a = i"
  by (simp add: transparent_trim_counter_def)

lemma parse_coverage_gap: "parse_coverage s = Some (t, g) \<Longrightarrow> g \<le> u32_max"
  using parse_digits_range by (auto simp: parse_coverage_def split: option.splits)

lemma read_gap:
  "tc_gap (read_transparent_coverage db a) =
    (case Option.bind (get_prop db (certified_key a)) parse_coverage of None \<Rightarrow> 0 | Some (_, g) \<Rightarrow> g)"
  by (auto simp: read_transparent_coverage_def Let_def split: option.split)

lemma read_gap_range: "tc_gap (read_transparent_coverage db a) \<le> u32_max"
  by (auto simp: read_gap bind_eq_Some_conv split: option.split dest: parse_coverage_gap)

lemma write_coverage_ledger:
  assumes "gap \<le> u32_max"
  shows "read_transparent_coverage (write_transparent_coverage account gap db) account =
      \<lparr>certified = True, tc_gap = max (tc_gap (read_transparent_coverage db account)) gap,
       tc_trim = tc_trim (read_transparent_coverage db account)\<rparr>
    \<and> (b \<noteq> account \<longrightarrow> read_transparent_coverage (write_transparent_coverage account gap db) b =
        read_transparent_coverage db b)"
proof -
  let ?t = "transparent_trim_counter db account" and ?g = "max (tc_gap (read_transparent_coverage db account)) gap"
  have w: "write_transparent_coverage account gap db =
      put_prop (certified_key account) (show_int ?t @ '':'' @ show_nat ?g) db"
    by (simp add: write_transparent_coverage_def read_gap Let_def)
  have "parse_coverage (show_int ?t @ '':'' @ show_nat ?g) = Some (?t, ?g)"
    using trim_counter_range [of db account] read_gap_range [of db account] assms by (intro parse_coverage_show) auto
  moreover have "tc_trim (read_transparent_coverage db account) = ?t"
    by (auto simp: read_transparent_coverage_def Let_def split: option.split)
  ultimately show ?thesis unfolding w by (auto simp: read_transparent_coverage_def Let_def)
qed

text \<open>
  A recorded walk is read back: after \<open>write_transparent_coverage\<close> the account is certified, the gap is
  the larger of the recorded and the new one, the trim counter is the one before, and the ledger of every
  other account is what it was.
\<close>

theorem write_coverage_read_back:
  assumes "gap \<le> u32_max"
  shows "read_transparent_coverage (write_transparent_coverage account gap db) account =
      \<lparr>certified = True, tc_gap = max (tc_gap (read_transparent_coverage db account)) gap,
       tc_trim = tc_trim (read_transparent_coverage db account)\<rparr>
    \<and> (b \<noteq> account \<longrightarrow> read_transparent_coverage (write_transparent_coverage account gap db) b =
        read_transparent_coverage db b)"
  using assms by (rule write_coverage_ledger)

theorem write_coverage_read_back_witness:
  "tc_gap (read_transparent_coverage (write_transparent_coverage 1 20 (write_transparent_coverage 1 500 ex_db)) 1) = 500"
proof -
  have g: "(500 :: nat) \<le> u32_max" "(20 :: nat) \<le> u32_max" by (simp_all add: u32_max_def)
  have "tc_gap (read_transparent_coverage ex_db 1) = 0"
    by (simp add: read_transparent_coverage_def get_prop_def ex_db_def Let_def)
  then show ?thesis
    using write_coverage_read_back [OF g(1), of 1 ex_db] write_coverage_read_back [OF g(2), of 1 "write_transparent_coverage 1 500 ex_db"]
    by simp
qed

text \<open>
  The shape the code gives the ledger: a decimal trim counter, and a certificate stamped with a counter value
  no larger than the live one.
\<close>

definition ledger_ok :: "nat \<Rightarrow> Db \<Rightarrow> bool" where
  "ledger_ok a db \<longleftrightarrow>
    (case get_prop db (trim_key a) of None \<Rightarrow> True | Some v \<Rightarrow> \<exists>k. v = show_int k \<and> 0 \<le> k \<and> k < 2 ^ 63) \<and>
    (case get_prop db (certified_key a) of None \<Rightarrow> True
     | Some v \<Rightarrow> \<exists>t g. v = show_int t @ '':'' @ show_nat g \<and> 0 \<le> t \<and> t \<le> transparent_trim_counter db a \<and> g \<le> u32_max)"

lemma ledger_counter:
  assumes "ledger_ok a db"
  shows "0 \<le> transparent_trim_counter db a"
  using assms parse_i64_show by (fastforce simp: ledger_ok_def transparent_trim_counter_def split: option.splits)

lemma bump_counter:
  assumes "ledger_ok a db" and "transparent_trim_counter db a + 1 < 2 ^ 63"
  shows "transparent_trim_counter (bump_trim_counter a db) a = transparent_trim_counter db a + 1"
    and "\<exists>k. get_prop (bump_trim_counter a db) (trim_key a) = Some (show_int k) \<and> 0 \<le> k \<and> k < 2 ^ 63"
    and "j \<noteq> trim_key a \<Longrightarrow> get_prop (bump_trim_counter a db) j = get_prop db j"
proof -
  let ?c = "transparent_trim_counter db a"
  have one: "''1'' = show_int 1" by code_simp
  have p: "bump_trim_counter a db = put_prop (trim_key a) (show_int (?c + 1)) db"
  proof (cases "get_prop db (trim_key a)")
    case None
    then show ?thesis by (simp add: bump_trim_counter_def transparent_trim_counter_def one)
  next
    case (Some v)
    then obtain k where v: "v = show_int k" "0 \<le> k" "k < 2 ^ 63" using assms(1) by (auto simp: ledger_ok_def)
    then have "?c = k" using Some parse_i64_show [of k] by (simp add: transparent_trim_counter_def)
    then show ?thesis using Some v by (simp add: bump_trim_counter_def sql_cast_show)
  qed
  have r: "parse_i64 (show_int (?c + 1)) = Some (?c + 1)"
    using assms(2) ledger_counter [OF assms(1)] by (intro parse_i64_show) auto
  show "transparent_trim_counter (bump_trim_counter a db) a = ?c + 1"
    unfolding p by (rule trim_counter_put_same [OF r])
  show "\<exists>k. get_prop (bump_trim_counter a db) (trim_key a) = Some (show_int k) \<and> 0 \<le> k \<and> k < 2 ^ 63"
    unfolding p using assms(2) ledger_counter [OF assms(1)] by auto
  show "j \<noteq> trim_key a \<Longrightarrow> get_prop (bump_trim_counter a db) j = get_prop db j" unfolding p by simp
qed

text \<open>
  A trim revokes every certificate: bumping the counter leaves the account uncertified whatever was
  recorded before, keeps the recorded gap, and keeps the ledger in shape.
\<close>

theorem trim_revokes_certificate:
  assumes "ledger_ok account db" and "transparent_trim_counter db account + 1 < 2 ^ 63"
  shows "\<not> certified (read_transparent_coverage (bump_trim_counter account db) account)
    \<and> tc_gap (read_transparent_coverage (bump_trim_counter account db) account) = tc_gap (read_transparent_coverage db account)
    \<and> ledger_ok account (bump_trim_counter account db)"
proof -
  note b = bump_counter [OF assms]
  have c: "get_prop (bump_trim_counter account db) (certified_key account) = get_prop db (certified_key account)"
    by (rule b(3)) simp
  show ?thesis
  proof (cases "get_prop db (certified_key account)")
    case None
    then show ?thesis using b(2) c by (auto simp: read_transparent_coverage_def ledger_ok_def Let_def)
  next
    case (Some v)
    then obtain t g where v: "v = show_int t @ '':'' @ show_nat g" "0 \<le> t" "t \<le> transparent_trim_counter db account"
      "g \<le> u32_max"
      using assms(1) by (auto simp: ledger_ok_def)
    have "parse_coverage v = Some (t, g)"
      unfolding v(1) using v assms(2) by (intro parse_coverage_show) auto
    moreover have "\<exists>t' g'. v = show_int t' @ '':'' @ show_nat g' \<and> 0 \<le> t' \<and>
        t' \<le> transparent_trim_counter db account + 1 \<and> g' \<le> u32_max"
      using v by (intro exI [of _ t] exI [of _ g]) simp
    ultimately show ?thesis using Some b(1,2) c v(3)
      by (auto simp: read_transparent_coverage_def ledger_ok_def Let_def)
  qed
qed

theorem trim_revokes_certificate_witness:
  "certified (read_transparent_coverage (write_transparent_coverage 1 20 ex_db) 1)
   \<and> \<not> certified (read_transparent_coverage (bump_trim_counter 1 (write_transparent_coverage 1 20 ex_db)) 1)"
proof -
  let ?db = "write_transparent_coverage 1 20 ex_db"
  have p: "get_prop ex_db k = None" for k by (simp add: get_prop_def ex_db_def)
  have t: "transparent_trim_counter ex_db 1 = 0" by (simp add: transparent_trim_counter_def p)
  have w: "?db = put_prop (certified_key 1) (show_int 0 @ '':'' @ show_nat 20) ex_db"
    by (simp add: write_transparent_coverage_def p t Let_def del: One_nat_def)
  have t': "transparent_trim_counter ?db 1 = 0" unfolding w by (simp add: t del: One_nat_def)
  have g: "get_prop ?db (trim_key 1) = None" "get_prop ?db (certified_key 1) = Some (show_int 0 @ '':'' @ show_nat 20)"
    unfolding w by (simp_all add: p)
  have "\<exists>t g. show_int 0 @ '':'' @ show_nat 20 = show_int t @ '':'' @ show_nat g \<and> 0 \<le> t \<and> t \<le> 0 \<and> g \<le> u32_max"
    by (intro exI [of _ 0] exI [of _ 20]) (simp add: u32_max_def)
  then have "ledger_ok 1 ?db" by (simp only: ledger_ok_def t' g option.case simp_thms)
  moreover have "parse_coverage (show_int 0 @ '':'' @ show_nat 20) = Some (0, 20)"
    by (rule parse_coverage_show) (simp_all add: u32_max_def)
  then have "certified (read_transparent_coverage ?db 1)"
    by (simp add: read_transparent_coverage_def t' g Let_def del: One_nat_def)
  ultimately show ?thesis using trim_revokes_certificate [of 1 ?db] t' by simp
qed

section \<open>Retiring walks\<close>

lemma incarnation_put:
  "parse_u32 v = Some n \<Longrightarrow> transparent_incarnation (put_prop (incarnation_key a) v db) a = n"
  by (simp add: transparent_incarnation_def)

lemma retire_incarnation:
  "transparent_incarnation (retire_transparent_walks a db) a = u32_add (transparent_incarnation db a) 1"
proof -
  have "u32_add (transparent_incarnation db a) 1 \<le> u32_max" by (simp add: u32_add_def u32_max_def)
  from incarnation_put [OF parse_u32_show [OF this]] show ?thesis by (simp add: retire_transparent_walks_def)
qed

lemma retire_changes_incarnation:
  "transparent_incarnation (retire_transparent_walks a db) a \<noteq> transparent_incarnation db a"
proof -
  let ?n = "transparent_incarnation db a"
  have "(?n + 1) mod 2 ^ 32 \<noteq> ?n" using incarnation_range [of db a]
    by (cases "?n + 1 = 2 ^ 32") (simp_all add: u32_max_def)
  then show ?thesis by (simp add: retire_incarnation u32_add_def)
qed

lemma clear_coverage_reads:
  "read_transparent_coverage (clear_transparent_coverage a db) a = \<lparr>certified = False, tc_gap = 0, tc_trim = 0\<rparr>"
  by (simp add: read_transparent_coverage_def clear_transparent_coverage_def retire_transparent_walks_def
      transparent_trim_counter_def Let_def get_prop_def put_prop_def)

section \<open>Coverage markers\<close>

text \<open>
  What a marker claims, against the set of heights whose history of the address has really been ingested:
  everything from the birth height up to the marker.
\<close>

definition marker_sound :: "nat set \<Rightarrow> nat \<Rightarrow> nat option \<Rightarrow> bool" where
  "marker_sound covered birth marker \<longleftrightarrow> (case marker of None \<Rightarrow> True | Some m \<Rightarrow> {birth..m} \<subseteq> covered)"

lemma marker_accepts_sound:
  assumes "marker_sound covered birth marker" and "marker_accepts birth from through marker"
  shows "marker_sound (covered \<union> {from..through}) birth (Some through)"
  using assms by (cases marker) (auto simp: marker_sound_def marker_accepts_def subset_eq)

lemma marker_sound_mono: "marker_sound c birth m \<Longrightarrow> c \<subseteq> d \<Longrightarrow> marker_sound d birth m"
  by (auto simp: marker_sound_def split: option.splits)

text \<open>
  A coverage marker never overstates: recording the ingested window \<open>[covered_from, through]\<close> leaves every
  address row with a marker below which the whole history since birth has been ingested, no marker is
  lowered, and no row of another address changes.
\<close>

theorem advance_backfilled_height_sound:
  assumes "\<forall>a \<in> set (taddrs db). ta_account a = account \<and> ta_scope a = scope \<and> ta_dindex a = dindex \<longrightarrow>
      marker_sound covered birth (ta_backfilled a)"
  shows "list_all2 (\<lambda>a b. ta_id b = ta_id a
      \<and> (case ta_backfilled a of None \<Rightarrow> True | Some m \<Rightarrow> \<exists>m'. ta_backfilled b = Some m' \<and> m \<le> m')
      \<and> (if ta_account a = account \<and> ta_scope a = scope \<and> ta_dindex a = dindex
         then marker_sound (covered \<union> {from..through}) birth (ta_backfilled b) else b = a))
    (taddrs db) (taddrs (advance_backfilled_height account birth scope dindex from through db))"
proof -
  have row: "ta_id b = ta_id a
      \<and> (case ta_backfilled a of None \<Rightarrow> True | Some m \<Rightarrow> \<exists>m'. ta_backfilled b = Some m' \<and> m \<le> m')
      \<and> (if ta_account a = account \<and> ta_scope a = scope \<and> ta_dindex a = dindex
         then marker_sound (covered \<union> {from..through}) birth (ta_backfilled b) else b = a)"
    if "a \<in> set (taddrs db)" "b = (if ta_account a = account \<and> ta_scope a = scope \<and> ta_dindex a = dindex
        \<and> marker_accepts birth from through (ta_backfilled a) then a\<lparr>ta_backfilled := Some through\<rparr> else a)" for a b
  proof (cases "marker_accepts birth from through (ta_backfilled a)")
    case True
    then show ?thesis using that assms marker_accepts_sound [OF _ True, of covered]
      by (auto simp: marker_accepts_def split: option.splits)
  next
    case False
    then show ?thesis using that assms marker_sound_mono [of covered birth "ta_backfilled a" "covered \<union> {from..through}"]
      by (auto split: option.splits)
  qed
  have rows: "taddrs (advance_backfilled_height account birth scope dindex from through db) = map (\<lambda>a.
      if ta_account a = account \<and> ta_scope a = scope \<and> ta_dindex a = dindex
        \<and> marker_accepts birth from through (ta_backfilled a) then a\<lparr>ta_backfilled := Some through\<rparr> else a) (taddrs db)"
    by (simp add: advance_backfilled_height_def update_where_def)
  show ?thesis unfolding rows by (rule list_all2_map_same) (rule row [OF _ refl])
qed

theorem advance_backfilled_height_sound_witness:
  "\<exists>db. map ta_backfilled (taddrs (advance_backfilled_height 1 90 0 0 90 100 db)) = [Some 100] \<and>
     marker_sound ({90..95} \<union> {90..100}) 90 (Some 100)"
proof -
  let ?a = "\<lparr>ta_id = 1, ta_account = 1, ta_scope = 0, ta_dindex = 0, ta_address = ''t1'', ta_backfilled = Some 95, ta_owed = None, ta_seen_used = True\<rparr>"
  let ?db = "ex_db\<lparr>taddrs := [?a]\<rparr>"
  have "\<forall>a \<in> set (taddrs ?db). ta_account a = 1 \<and> ta_scope a = 0 \<and> ta_dindex a = 0 \<longrightarrow>
      marker_sound {90..95} 90 (ta_backfilled a)" by (simp add: marker_sound_def)
  from advance_backfilled_height_sound [OF this, of 90 100] show ?thesis
    by (intro exI [of _ ?db]) (simp add: advance_backfilled_height_def update_where_def marker_accepts_def)
qed

end
