(* ===== verification/Trim.thy ===== *)
theory Trim
  imports Balances Coverage
begin

text \<open>
  Trimming, rewinding and pruning of scanned data (\<open>src/rust/rlz/src/sync.rs\<close>), and the reset of an account
  (\<open>account.rs\<close>). The activation heights of the network
  come from \<open>zcash_protocol\<close> and are the argument \<open>net\<close>.
\<close>

record Network =
  net_sapling :: nat
  net_nu5 :: nat
  net_nu6_3 :: "nat option"

section \<open>Trimming\<close>

text \<open>The transparent heights an address loses when everything above \<open>height\<close> goes.\<close>

definition trimmed_taddress_heights :: "Db \<Rightarrow> nat \<Rightarrow> nat \<Rightarrow> nat list" where
  "trimmed_taddress_heights db height id_taddress =
    map nr_height (filter (\<lambda>n. nr_taddress n = Some id_taddress \<and> height < nr_height n \<and> nr_pool n = 0) (note_rows db))"

definition owe_trimmed :: "nat \<Rightarrow> nat \<Rightarrow> Db \<Rightarrow> Db" where
  "owe_trimmed account height db =
    db\<lparr>taddrs := update_where
        (\<lambda>a. list_ex (\<lambda>n. nr_taddress n = Some (ta_id a) \<and> height < nr_height n \<and> nr_account n = account \<and> nr_pool n = 0)
               (note_rows db))
        (\<lambda>a. a\<lparr>ta_owed := Some (max (case ta_owed a of None \<Rightarrow> 0 | Some o' \<Rightarrow> o')
               (case sql_max (trimmed_taddress_heights db height (ta_id a)) of None \<Rightarrow> 0 | Some m \<Rightarrow> m))\<rparr>)
        (taddrs db)\<rparr>"

definition delete_above :: "nat \<Rightarrow> nat \<Rightarrow> Db \<Rightarrow> Db" where
  "delete_above account height db =
    db\<lparr>note_rows := delete_where (\<lambda>n. height < nr_height n \<and> nr_account n = account) (note_rows db),
       spends := delete_where (\<lambda>s. height < sp_height s \<and> sp_account s = account) (spends db),
       transactions := delete_where (\<lambda>t. height < tx_height t \<and> tx_account t = account) (transactions db),
       witnesses := delete_where (\<lambda>w. height < w_height w \<and> w_account w = account) (witnesses db),
       outputs := delete_where (\<lambda>x. height < ou_height x \<and> ou_account x = account) (outputs db),
       memos := delete_where (\<lambda>m. height < me_height m \<and> me_account m = account) (memos db)\<rparr>"

definition clamp_markers :: "nat \<Rightarrow> nat \<Rightarrow> Db \<Rightarrow> Db" where
  "clamp_markers account height db =
    db\<lparr>taddrs := update_where (\<lambda>a. ta_account a = account \<and> (case ta_backfilled a of None \<Rightarrow> False | Some m \<Rightarrow> height < m))
        (ta_backfilled_update (\<lambda>_. Some height)) (taddrs db)\<rparr>"

text \<open>Whether a \<open>DELETE\<close> or the clamp reports an affected row.\<close>

definition anything_trimmed :: "nat \<Rightarrow> nat \<Rightarrow> Db \<Rightarrow> bool" where
  "anything_trimmed account height db \<longleftrightarrow>
    list_ex (\<lambda>n. height < nr_height n \<and> nr_account n = account) (note_rows db) \<or>
    list_ex (\<lambda>s. height < sp_height s \<and> sp_account s = account) (spends db) \<or>
    list_ex (\<lambda>t. height < tx_height t \<and> tx_account t = account) (transactions db) \<or>
    list_ex (\<lambda>w. height < w_height w \<and> w_account w = account) (witnesses db) \<or>
    list_ex (\<lambda>x. height < ou_height x \<and> ou_account x = account) (outputs db) \<or>
    list_ex (\<lambda>m. height < me_height m \<and> me_account m = account) (memos db) \<or>
    list_ex (\<lambda>a. ta_account a = account \<and> (case ta_backfilled a of None \<Rightarrow> False | Some m \<Rightarrow> height < m)) (taddrs db)"

definition set_sync_heights :: "nat \<Rightarrow> nat \<Rightarrow> Db \<Rightarrow> Db" where
  "set_sync_heights account height db =
    db\<lparr>sync_heights := update_where (\<lambda>s. sh_account s = account) (sh_height_update (\<lambda>_. height)) (sync_heights db)\<rparr>"

definition trim_sync_data :: "nat \<Rightarrow> nat \<Rightarrow> Db \<Rightarrow> Db" where
  "trim_sync_data account height db =
    (let trimmed = anything_trimmed account height db;
         db1 = clamp_markers account height (delete_above account height (owe_trimmed account height db));
         db2 = (if trimmed then bump_trim_counter account db1 else db1)
     in set_sync_heights account height db2)"

section \<open>Recovery, rewind, pruning\<close>

text \<open>
  \<open>MIN(height)\<close> over no row is one row of NULLs, and the driver reads a NULL integer as 0, which the first
  \<open>store_account_metadata\<close> of a wallet relies on as well.
\<close>

definition recover_account :: "nat \<Rightarrow> Db \<Rightarrow> Db" where
  "recover_account account db =
    (case get_sync_height db account of None \<Rightarrow> trim_sync_data 0 0 db | Some h \<Rightarrow> trim_sync_data account h db)"

definition recover_from_partial_sync :: "nat list \<Rightarrow> Db \<Rightarrow> Db" where
  "recover_from_partial_sync accs db = fold recover_account accs db"

definition init_sync_heights :: "Network \<Rightarrow> nat \<Rightarrow> nat \<Rightarrow> Db \<Rightarrow> Db" where
  "init_sync_heights net account birth db =
    (let max_pool = (if net_nu6_3 net \<noteq> None then 4 else 3);
         activation = (\<lambda>p. if p = 0 then 0 else if p = 1 then net_sapling net else if p = 2 then net_nu5 net
                          else (case net_nu6_3 net of None \<Rightarrow> 0 | Some h \<Rightarrow> h))
     in fold (\<lambda>p db. db\<lparr>sync_heights := update_where (\<lambda>s. sh_account s = account \<and> sh_pool s = p)
              (sh_height_update (\<lambda>_. max birth (activation p))) (sync_heights db)\<rparr>) [0..<max_pool] db)"

definition reset_sync :: "Network \<Rightarrow> nat \<Rightarrow> Db \<Rightarrow> DbError + Db" where
  "reset_sync net account db =
    (case find (\<lambda>a. ac_id a = account) (accounts db) of
       None \<Rightarrow> Inl RowNotFound
     | Some a \<Rightarrow>
         Inr (init_sync_heights net account (ac_birth a)
           (retire_transparent_walks account (clear_catch_up_debts account (trim_sync_data account 0 db)))))"

definition latest_checkpoint :: "Db \<Rightarrow> nat \<Rightarrow> nat \<Rightarrow> nat option" where
  "latest_checkpoint db account height =
    sql_max (map w_height (filter (\<lambda>w. w_height w < height \<and> w_account w = account) (witnesses db)))"

definition rewind_sync :: "Network \<Rightarrow> nat \<Rightarrow> nat \<Rightarrow> Db \<Rightarrow> DbError + Db" where
  "rewind_sync net account height db =
    res_bind
      (case latest_checkpoint db account height of
         Some prev_height \<Rightarrow> Inr (retire_transparent_walks account (trim_sync_data account prev_height db))
       | None \<Rightarrow> reset_sync net account db)
      (\<lambda>db. Inr (db\<lparr>headers := delete_where (\<lambda>h. height < hd_height h) (headers db)\<rparr>))"

definition prune_old_checkpoints :: "nat \<Rightarrow> nat \<Rightarrow> Db \<Rightarrow> Db" where
  "prune_old_checkpoints account height db =
    (case latest_checkpoint db account height of
       None \<Rightarrow> db
     | Some cp \<Rightarrow> db\<lparr>witnesses := delete_where (\<lambda>w. w_account w = account \<and> w_height w < cp) (witnesses db)\<rparr>)"

text \<open>The debug-build check: an unspent shielded ZEC note without a witness at its pool's synced height.\<close>

definition check_witness_consistency :: "Db \<Rightarrow> bool" where
  "check_witness_consistency db \<longleftrightarrow>
    list_all (\<lambda>n. is_spent db n \<or> nr_pool n = 0 \<or> nr_asset n \<noteq> None \<or>
      list_all (\<lambda>d. sh_account d = nr_account n \<and> sh_pool d = nr_pool n \<longrightarrow>
        list_ex (\<lambda>w. w_note w = nr_id n \<and> w_account w = nr_account n \<and> w_height w = sh_height d) (witnesses db))
        (sync_heights db)) (note_rows db)"

definition get_db_height :: "Db \<Rightarrow> nat \<Rightarrow> DbError + nat \<times> nat" where
  "get_db_height db account =
    (case get_sync_height db account of
       None \<Rightarrow> Inl RowNotFound
     | Some m \<Rightarrow>
         (case find (\<lambda>h. hd_height h = m) (headers db) of
            None \<Rightarrow> Inl RowNotFound
          | Some h \<Rightarrow> Inr (hd_height h, hd_time h)))"

definition has_pool_row :: "Db \<Rightarrow> nat \<Rightarrow> nat \<Rightarrow> bool run" where
  "has_pool_row db account pool =
    (if pool = 0 then Ret (account \<in> fst ` set (transparent_accounts db))
     else if pool = 1 then Ret (account \<in> set (sapling_accounts db))
     else if pool = 2 then Ret (account \<in> set (orchard_accounts db))
     else if pool = 3 then Ret (account \<in> set (orchard_accounts db))
     else Panic)"

section \<open>What a trim leaves\<close>

lemma bump_trim_counter_fields [simp]:
  "note_rows (bump_trim_counter a db) = note_rows db" "spends (bump_trim_counter a db) = spends db"
  "transactions (bump_trim_counter a db) = transactions db" "witnesses (bump_trim_counter a db) = witnesses db"
  "outputs (bump_trim_counter a db) = outputs db" "memos (bump_trim_counter a db) = memos db"
  "taddrs (bump_trim_counter a db) = taddrs db" "sync_heights (bump_trim_counter a db) = sync_heights db"
  "headers (bump_trim_counter a db) = headers db" "accounts (bump_trim_counter a db) = accounts db"
  "reservations (bump_trim_counter a db) = reservations db" "pending_txs (bump_trim_counter a db) = pending_txs db"
  "user_memos (bump_trim_counter a db) = user_memos db"
  by (simp_all add: bump_trim_counter_def put_prop_def split: option.split)

lemmas trim_defs = trim_sync_data_def set_sync_heights_def clamp_markers_def delete_above_def owe_trimmed_def Let_def

lemma trim_tables [simp]:
  "note_rows (trim_sync_data a h db) = delete_where (\<lambda>n. h < nr_height n \<and> nr_account n = a) (note_rows db)"
  "spends (trim_sync_data a h db) = delete_where (\<lambda>s. h < sp_height s \<and> sp_account s = a) (spends db)"
  "transactions (trim_sync_data a h db) = delete_where (\<lambda>t. h < tx_height t \<and> tx_account t = a) (transactions db)"
  "witnesses (trim_sync_data a h db) = delete_where (\<lambda>w. h < w_height w \<and> w_account w = a) (witnesses db)"
  "outputs (trim_sync_data a h db) = delete_where (\<lambda>x. h < ou_height x \<and> ou_account x = a) (outputs db)"
  "memos (trim_sync_data a h db) = delete_where (\<lambda>m. h < me_height m \<and> me_account m = a) (memos db)"
  "sync_heights (trim_sync_data a h db) = update_where (\<lambda>s. sh_account s = a) (sh_height_update (\<lambda>_. h)) (sync_heights db)"
  "headers (trim_sync_data a h db) = headers db" "accounts (trim_sync_data a h db) = accounts db"
  "reservations (trim_sync_data a h db) = reservations db" "pending_txs (trim_sync_data a h db) = pending_txs db"
  "user_memos (trim_sync_data a h db) = user_memos db"
  by (simp_all add: trim_defs)

lemma trim_taddrs: "taddrs (trim_sync_data a h db) = taddrs (clamp_markers a h (owe_trimmed a h db))"
  by (simp add: trim_defs)

lemma trim_taddr_keys [db_update]:
  "map ta_id (taddrs (trim_sync_data a h db)) = map ta_id (taddrs db)"
  "map (\<lambda>r. (ta_account r, ta_scope r, ta_dindex r)) (taddrs (trim_sync_data a h db))
    = map (\<lambda>r. (ta_account r, ta_scope r, ta_dindex r)) (taddrs db)"
  by (simp_all add: trim_taddrs clamp_markers_def owe_trimmed_def map_update_where)

lemma keys_ok_trim: "keys_ok db \<Longrightarrow> keys_ok (trim_sync_data a h db)"
  unfolding keys_ok_def by (simp add: db_update map_update_where)

lemma spends_ok_trim:
  assumes "spends_ok db"
  shows "spends_ok (trim_sync_data a h db)"
  unfolding spends_ok_def
proof
  fix s assume "s \<in> set (spends (trim_sync_data a h db))"
  then have s: "s \<in> set (spends db)" "\<not> (h < sp_height s \<and> sp_account s = a)" by auto
  from assms s(1) obtain n where n: "n \<in> set (note_rows db)" "nr_id n = sp_note s" "nr_account n = sp_account s"
    "nr_pool n = sp_pool s" "nr_height n \<le> sp_height s" "sp_value s = - nr_value n"
    unfolding spends_ok_def by blast
  then have "n \<in> set (note_rows (trim_sync_data a h db))" using s(2) by auto
  with n show "\<exists>n\<in>set (note_rows (trim_sync_data a h db)). nr_id n = sp_note s \<and> nr_account n = sp_account s \<and>
      nr_pool n = sp_pool s \<and> nr_height n \<le> sp_height s \<and> sp_value s = - nr_value n" by blast
qed

text \<open>
  Every scanned row belongs to a transaction of the same account and height, and a witness to a note of the
  same account that is at least as old.
\<close>

definition refs_ok :: "Db \<Rightarrow> bool" where
  "refs_ok db \<longleftrightarrow>
    (\<forall>n \<in> set (note_rows db). \<exists>t \<in> set (transactions db).
       tx_id t = nr_tx n \<and> tx_account t = nr_account n \<and> tx_height t = nr_height n) \<and>
    (\<forall>s \<in> set (spends db). \<exists>t \<in> set (transactions db).
       tx_id t = sp_tx s \<and> tx_account t = sp_account s \<and> tx_height t = sp_height s) \<and>
    (\<forall>x \<in> set (outputs db). \<exists>t \<in> set (transactions db).
       tx_id t = ou_tx x \<and> tx_account t = ou_account x \<and> tx_height t = ou_height x) \<and>
    (\<forall>m \<in> set (memos db). \<exists>t \<in> set (transactions db).
       tx_id t = me_tx m \<and> tx_account t = me_account m \<and> tx_height t = me_height m) \<and>
    (\<forall>w \<in> set (witnesses db). \<exists>n \<in> set (note_rows db).
       nr_id n = w_note w \<and> nr_account n = w_account w \<and> nr_height n \<le> w_height w)"

lemma trim_ref_kept:
  assumes "\<forall>x \<in> set xs. \<exists>t \<in> set ts. k t = kx x \<and> acc t = acx x \<and> P (ht t) (hx x)"
    and "\<And>u v. P u v \<Longrightarrow> u \<le> (v :: nat)"
  shows "\<forall>x \<in> set (delete_where (\<lambda>x. h < hx x \<and> acx x = a) xs).
      \<exists>t \<in> set (delete_where (\<lambda>t. h < ht t \<and> acc t = a) ts). k t = kx x \<and> acc t = acx x \<and> P (ht t) (hx x)"
proof
  fix x assume "x \<in> set (delete_where (\<lambda>x. h < hx x \<and> acx x = a) xs)"
  then have x: "x \<in> set xs" "\<not> (h < hx x \<and> acx x = a)" by auto
  with assms(1) obtain t where t: "t \<in> set ts" "k t = kx x \<and> acc t = acx x \<and> P (ht t) (hx x)" by blast
  then have "\<not> (h < ht t \<and> acc t = a)" using x(2) assms(2) [of "ht t" "hx x"] by auto
  with t show "\<exists>t \<in> set (delete_where (\<lambda>t. h < ht t \<and> acc t = a) ts). k t = kx x \<and> acc t = acx x \<and> P (ht t) (hx x)"
    by auto
qed

lemma refs_ok_trim:
  assumes "refs_ok db"
  shows "refs_ok (trim_sync_data a h db)"
  using assms unfolding refs_ok_def trim_tables
  by (intro conjI; elim conjE; intro trim_ref_kept [where P = "(=)"] trim_ref_kept [where P = "(\<le>)"]; simp)

definition wallet_ok :: "Db \<Rightarrow> bool" where
  "wallet_ok db \<longleftrightarrow> keys_ok db \<and> spends_ok db \<and> refs_ok db"


lemma wallet_ok_trim: "wallet_ok db \<Longrightarrow> wallet_ok (trim_sync_data a h db)"
  by (simp add: wallet_ok_def keys_ok_trim spends_ok_trim refs_ok_trim)

text \<open>The rows of an account in the six scanned tables.\<close>

definition scanned_above :: "nat \<Rightarrow> nat \<Rightarrow> Db \<Rightarrow> bool" where
  "scanned_above account height db \<longleftrightarrow>
    list_ex (\<lambda>n. height < nr_height n \<and> nr_account n = account) (note_rows db) \<or>
    list_ex (\<lambda>s. height < sp_height s \<and> sp_account s = account) (spends db) \<or>
    list_ex (\<lambda>t. height < tx_height t \<and> tx_account t = account) (transactions db) \<or>
    list_ex (\<lambda>w. height < w_height w \<and> w_account w = account) (witnesses db) \<or>
    list_ex (\<lambda>x. height < ou_height x \<and> ou_account x = account) (outputs db) \<or>
    list_ex (\<lambda>m. height < me_height m \<and> me_account m = account) (memos db)"

definition same_scan :: "nat \<Rightarrow> Db \<Rightarrow> Db \<Rightarrow> bool" where
  "same_scan account db db' \<longleftrightarrow>
    filter (\<lambda>n. nr_account n = account) (note_rows db') = filter (\<lambda>n. nr_account n = account) (note_rows db) \<and>
    filter (\<lambda>s. sp_account s = account) (spends db') = filter (\<lambda>s. sp_account s = account) (spends db) \<and>
    filter (\<lambda>t. tx_account t = account) (transactions db') = filter (\<lambda>t. tx_account t = account) (transactions db) \<and>
    filter (\<lambda>w. w_account w = account) (witnesses db') = filter (\<lambda>w. w_account w = account) (witnesses db) \<and>
    filter (\<lambda>x. ou_account x = account) (outputs db') = filter (\<lambda>x. ou_account x = account) (outputs db) \<and>
    filter (\<lambda>m. me_account m = account) (memos db') = filter (\<lambda>m. me_account m = account) (memos db) \<and>
    filter (\<lambda>s. sh_account s = account) (sync_heights db') = filter (\<lambda>s. sh_account s = account) (sync_heights db)"

lemma trim_clears: "\<not> scanned_above a h (trim_sync_data a h db)"
  by (simp add: scanned_above_def list_ex_iff)

lemma trim_isolates: "b \<noteq> a \<Longrightarrow> same_scan b db (trim_sync_data a h db)"
  unfolding same_scan_def trim_tables
  by (intro conjI filter_delete_where filter_update_where_other) auto

lemma same_scan_trans: "same_scan a x y \<Longrightarrow> same_scan a y z \<Longrightarrow> same_scan a x z"
  by (simp add: same_scan_def)

lemma same_scan_refl [simp]: "same_scan a x x" by (simp add: same_scan_def)

lemma get_sync_height_same: "same_scan a x y \<Longrightarrow> get_sync_height y a = get_sync_height x a"
  by (simp add: same_scan_def get_sync_height_def)

lemma filter_same_rows: "filter P xs = filter P ys \<Longrightarrow> list_ex (\<lambda>x. Q x \<and> P x) xs = list_ex (\<lambda>x. Q x \<and> P x) ys"
proof -
  have "list_ex (\<lambda>x. Q x \<and> P x) zs = list_ex Q (filter P zs)" for zs by (induction zs) auto
  then show "filter P xs = filter P ys \<Longrightarrow> ?thesis" by simp
qed

lemma scanned_above_same: "same_scan a x y \<Longrightarrow> scanned_above a h y = scanned_above a h x"
  unfolding same_scan_def scanned_above_def
  by (intro arg_cong2 [where f = "(\<or>)"] filter_same_rows; elim conjE; assumption)

lemma get_sync_height_trim:
  "get_sync_height (trim_sync_data a h db) a = (if get_sync_height db a = None then None else Some h)"
proof -
  have "map sh_height (filter (\<lambda>s. sh_account s = a) (update_where (\<lambda>s. sh_account s = a) (sh_height_update (\<lambda>_. h)) t))
      = map (\<lambda>_. h) (filter (\<lambda>s. sh_account s = a) t)" for t :: "SyncHeightRow list"
    by (induction t) (auto simp: update_where_def)
  then show ?thesis by (auto simp: get_sync_height_def intro!: sql_min_const)
qed

section \<open>Trimming\<close>


text \<open>The balance queries look at rows up to a height, which is what a trim to that height keeps.\<close>

lemma filter_rows_delete:
  "filter (\<lambda>x. acc x = a \<and> Q x) (delete_where (\<lambda>x. h < ht x \<and> acc x = a) xs) = filter (\<lambda>x. ht x \<le> (h :: nat)) (filter (\<lambda>x. acc x = a \<and> Q x) xs)"
  by (induction xs) (auto simp: delete_where_def)

lemma zec_spend_kept:
  assumes "keys_ok db" "spends_ok db" "s \<in> set (spends db)" "sp_account s = a" "sp_height s \<le> h"
  shows "list_ex (\<lambda>n. nr_id n = sp_note s \<and> nr_asset n = None) (note_rows (trim_sync_data a h db))
    = list_ex (\<lambda>n. nr_id n = sp_note s \<and> nr_asset n = None) (note_rows db)"
proof -
  from assms obtain n where n: "n \<in> set (note_rows db)" "nr_id n = sp_note s" "nr_height n \<le> h"
    unfolding spends_ok_def by (metis le_trans)
  have "distinct (map nr_id (note_rows db))" using assms(1) by (simp add: keys_ok_def)
  then have "nr_height n' \<le> h" if "n' \<in> set (note_rows db)" "nr_id n' = sp_note s" for n'
    using that n distinct_key_unique [of nr_id "note_rows db" n' n] by simp
  then show ?thesis by (auto simp: list_ex_iff not_less)
qed

lemma balance_rows_trim:
  assumes "keys_ok db" "spends_ok db"
  shows "balance_rows (trim_sync_data a h db) a = filter (\<lambda>(_, _, ht). ht \<le> h) (balance_rows db a)"
proof -
  let ?db = "trim_sync_data a h db"
  let ?zec = "\<lambda>d s. list_ex (\<lambda>n. nr_id n = sp_note s \<and> nr_asset n = None) (note_rows d)"
  have "filter (\<lambda>s. sp_account s = a \<and> ?zec ?db s) (spends ?db)
      = filter (\<lambda>s. sp_account s = a \<and> ?zec db s) (spends ?db)"
    by (rule filter_cong [OF refl]) (auto simp: zec_spend_kept [OF assms] not_less simp del: trim_tables(1))
  then show ?thesis
    by (simp add: balance_rows_def filter_rows_delete filter_map comp_def del: filter_filter)
qed

text \<open>
  C24. After a trim to a height the balance of the account is what \<open>calculate_balance\<close> reported as of that
  height before.
\<close>

theorem trim_gives_balance_as_of:
  assumes "keys_ok db" and "spends_ok db" and "height \<le> u32_max"
  shows "calculate_balance (trim_sync_data account height db) account None = calculate_balance db account (Some height)"
proof -
  have "filter (\<lambda>(_, _, ht). ht \<le> u32_max) (filter (\<lambda>(_, _, ht). ht \<le> height) xs)
      = filter (\<lambda>(_, _, ht). ht \<le> height) xs" for xs :: "(int \<times> nat \<times> nat) list"
    using assms(3) by (induction xs) auto
  then show ?thesis by (simp add: calculate_balance_def balance_rows_trim [OF assms(1,2)])
qed

theorem trim_gives_balance_as_of_witness:
  "calculate_balance (trim_sync_data 1 110 ex_db) 1 None = Ret [0, 0, 57000, 0]
   \<and> calculate_balance ex_db 1 None = Ret [0, 30000, 50000, 0]"
proof -
  have "calculate_balance ex_db 1 (Some 110) = Ret [0, 0, 57000, 0]" "calculate_balance ex_db 1 None = Ret [0, 30000, 50000, 0]"
    by (simp_all add: calculate_balance_def balance_rows_def ex_db_defs NUM_POOLS_def as_u64_def u32_max_def upt_rec)
  then show ?thesis
    using trim_gives_balance_as_of [OF ex_db_ok, of 110 1] by (simp add: u32_max_def del: One_nat_def)
qed

text \<open>
  A trim keeps track of the transparent history it drops: every address row keeps its key, an address that
  loses a note owes a catch-up through at least that note's height, no debt is lowered, and no coverage marker
  of the account stays above the trim height.
\<close>

theorem trim_owes_catch_up:
  "list_all2 (\<lambda>r r'. ta_id r' = ta_id r \<and> ta_account r' = ta_account r
      \<and> (case ta_owed r of None \<Rightarrow> True | Some o1 \<Rightarrow> \<exists>o2. ta_owed r' = Some o2 \<and> o1 \<le> o2)
      \<and> (\<forall>n. n \<in> set (note_rows db) \<and> nr_account n = account \<and> nr_pool n = 0 \<and> nr_taddress n = Some (ta_id r)
            \<and> height < nr_height n \<longrightarrow> (\<exists>o2. ta_owed r' = Some o2 \<and> nr_height n \<le> o2))
      \<and> (ta_account r = account \<longrightarrow> (case ta_backfilled r' of None \<Rightarrow> True | Some m \<Rightarrow> m \<le> height)))
    (taddrs db) (taddrs (trim_sync_data account height db))"
proof -
  let ?hit = "\<lambda>r. list_ex (\<lambda>n. nr_taddress n = Some (ta_id r) \<and> height < nr_height n \<and> nr_account n = account \<and> nr_pool n = 0)
      (note_rows db)"
  let ?max = "\<lambda>r. case sql_max (trimmed_taddress_heights db height (ta_id r)) of None \<Rightarrow> 0 | Some m \<Rightarrow> m"
  have bound: "nr_height n \<le> ?max r"
    if "n \<in> set (note_rows db)" "nr_pool n = 0" "nr_taddress n = Some (ta_id r)" "height < nr_height n" for n r
  proof -
    have n: "nr_height n \<in> set (trimmed_taddress_heights db height (ta_id r))"
      using that by (auto simp: trimmed_taddress_heights_def)
    then obtain m where "sql_max (trimmed_taddress_heights db height (ta_id r)) = Some m"
      by (cases "sql_max (trimmed_taddress_heights db height (ta_id r))") (auto simp: sql_max_eq split: if_splits)
    then show ?thesis using sql_max_ge n by simp
  qed
  define owe where "owe r = (if ?hit r then r\<lparr>ta_owed := Some (max (case ta_owed r of None \<Rightarrow> 0 | Some o' \<Rightarrow> o') (?max r))\<rparr> else r)" for r :: TaddrRow
  define clamp where "clamp r = (if ta_account r = account \<and> (case ta_backfilled r of None \<Rightarrow> False | Some m \<Rightarrow> height < m)
      then r\<lparr>ta_backfilled := Some height\<rparr> else r)" for r :: TaddrRow
  have rows: "taddrs (trim_sync_data account height db) = map (\<lambda>r. clamp (owe r)) (taddrs db)"
    by (simp add: trim_taddrs clamp_markers_def owe_trimmed_def update_where_def owe_def clamp_def)
  have clamp: "ta_id (clamp r) = ta_id r" "ta_account (clamp r) = ta_account r" "ta_owed (clamp r) = ta_owed r"
    "ta_account r = account \<longrightarrow> (case ta_backfilled (clamp r) of None \<Rightarrow> True | Some m \<Rightarrow> m \<le> height)" for r
    by (auto simp: clamp_def split: option.split)
  have owe: "ta_id (owe r) = ta_id r" "ta_account (owe r) = ta_account r"
    "case ta_owed r of None \<Rightarrow> True | Some o1 \<Rightarrow> \<exists>o2. ta_owed (owe r) = Some o2 \<and> o1 \<le> o2"
    "?hit r \<Longrightarrow> \<exists>o2. ta_owed (owe r) = Some o2 \<and> ?max r \<le> o2" for r
    by (auto simp: owe_def split: option.split)
  have debt: "\<exists>o2. ta_owed (owe r) = Some o2 \<and> nr_height n \<le> o2"
    if n: "n \<in> set (note_rows db) \<and> nr_account n = account \<and> nr_pool n = 0 \<and> nr_taddress n = Some (ta_id r) \<and> height < nr_height n"
    for n r
  proof -
    from n have "?hit r" "nr_height n \<le> ?max r" by (auto simp: list_ex_iff intro: bound)
    then show ?thesis using owe(4) [of r] le_trans by blast
  qed
  show ?thesis unfolding rows
    by (rule list_all2_map_same, unfold clamp(1-3) owe(1,2), intro conjI allI)
      (rule refl owe(3) impI [OF debt] clamp(4) [of "owe r" for r, unfolded owe(2)] | assumption)+
qed

lemma wallet_ok_ex_db: "wallet_ok ex_db"
proof -
  have "refs_ok ex_db" by (simp add: refs_ok_def ex_db_defs)
  then show ?thesis by (simp add: wallet_ok_def ex_db_ok)
qed


definition ex_taddr :: TaddrRow where
  "ex_taddr = \<lparr>ta_id = 7, ta_account = 1, ta_scope = 0, ta_dindex = 0, ta_address = ''t1'', ta_backfilled = Some 124, ta_owed = Some 3,
     ta_seen_used = True\<rparr>"

definition ex_tnote :: NoteRow where
  "ex_tnote = \<lparr>nr_id = 9, nr_height = 122, nr_account = 1, nr_pool = 0, nr_scope = Some 0, nr_nullifier = [9],
     nr_tx = 3, nr_value = 9000, nr_taddress = Some 7, nr_position = None, nr_locked = False, nr_asset = None,
     nr_cmx = None, nr_diversifier = None, nr_rcm = None, nr_rho = None, nr_diversifier_index = None\<rparr>"

theorem trim_owes_catch_up_witness:
  "\<exists>db r o2. taddrs (trim_sync_data 1 110 db) = [r] \<and> ta_owed r = Some o2 \<and> 122 \<le> o2 \<and> ex_tnote \<in> set (note_rows db)"
proof -
  let ?db = "ex_db\<lparr>taddrs := [ex_taddr], note_rows := [ex_tnote]\<rparr>"
  obtain r where r: "taddrs (trim_sync_data 1 110 ?db) = [r]"
    using trim_taddr_keys(1) [of 1 110 ?db] by auto
  have "\<exists>o2. ta_owed r = Some o2 \<and> nr_height ex_tnote \<le> o2"
    using trim_owes_catch_up [of ?db 1 110] unfolding r by (simp add: ex_tnote_def ex_taddr_def del: One_nat_def)
  then show ?thesis using r by (auto simp: ex_tnote_def intro!: exI [of _ ?db])
qed

section \<open>Recovery\<close>

lemma get_sync_height_recover:
  assumes "0 \<notin> sh_account ` set (sync_heights db)"
  shows "get_sync_height (recover_account a db) b = get_sync_height db b"
    and "0 \<notin> sh_account ` set (sync_heights (recover_account a db))"
proof -
  have none: "get_sync_height db 0 = None"
    using assms by (auto simp: get_sync_height_def filter_empty_conv)
  show "get_sync_height (recover_account a db) b = get_sync_height db b"
  proof (cases "get_sync_height db a")
    case None
    then show ?thesis using none get_sync_height_same [OF trim_isolates [of b 0 db 0]]
      by (cases "b = 0") (simp_all add: recover_account_def get_sync_height_trim)
  next
    case (Some h)
    then show ?thesis using get_sync_height_same [OF trim_isolates [of b a db h]]
      by (cases "b = a") (simp_all add: recover_account_def get_sync_height_trim)
  qed
  show "0 \<notin> sh_account ` set (sync_heights (recover_account a db))"
    using assms by (auto simp: recover_account_def set_update_where split: option.split)
qed

text \<open>An account whose pools all stand at one height, with nothing scanned above it.\<close>

definition settled_at :: "nat \<Rightarrow> nat \<Rightarrow> Db \<Rightarrow> bool" where
  "settled_at account height db \<longleftrightarrow> \<not> scanned_above account height db \<and>
    list_all (\<lambda>s. sh_account s = account \<longrightarrow> sh_height s = height) (sync_heights db)"

lemma settled_trim: "settled_at a h (trim_sync_data a h db)"
proof -
  have "list_all (\<lambda>s. sh_account s = a \<longrightarrow> sh_height s = h) (update_where (\<lambda>s. sh_account s = a) (sh_height_update (\<lambda>_. h)) t)"
    for t :: "SyncHeightRow list" by (induction t) (simp_all add: update_where_def)
  then show ?thesis using trim_clears by (simp add: settled_at_def)
qed

lemma settled_same:
  assumes "same_scan a x y" and "settled_at a h x"
  shows "settled_at a h y"
proof -
  have "list_all P zs \<longleftrightarrow> list_all (\<lambda>s. sh_height s = h) (filter (\<lambda>s. sh_account s = a) zs)"
    if "P = (\<lambda>s. sh_account s = a \<longrightarrow> sh_height s = h)" for P and zs :: "SyncHeightRow list"
    using that by (induction zs) auto
  note * = this [OF refl]
  show ?thesis using assms(2) unfolding settled_at_def * scanned_above_same [OF assms(1)]
    using assms(1) by (simp add: same_scan_def)
qed

lemma settled_recover:
  assumes "get_sync_height db a = Some h" "a \<noteq> 0" "settled_at a h db"
  shows "settled_at a h (recover_account b db)"
proof (cases "get_sync_height db b")
  case None
  then show ?thesis using settled_same [OF trim_isolates assms(3)] assms(2) by (simp add: recover_account_def)
next
  case (Some k)
  then show ?thesis using settled_same [OF trim_isolates assms(3)] settled_trim assms(1)
    by (cases "a = b") (simp_all add: recover_account_def)
qed

lemma recover_fold_height:
  "0 \<notin> sh_account ` set (sync_heights db) \<Longrightarrow>
   get_sync_height (recover_from_partial_sync accs db) b = get_sync_height db b"
  unfolding recover_from_partial_sync_def
  by (induction accs arbitrary: db) (simp_all add: get_sync_height_recover)

lemma recover_keeps_settled:
  assumes "0 \<notin> sh_account ` set (sync_heights db)" "get_sync_height db a = Some h" "a \<noteq> 0" "settled_at a h db"
  shows "settled_at a h (recover_from_partial_sync accs db)"
  using assms unfolding recover_from_partial_sync_def
  by (induction accs arbitrary: db) (simp_all add: get_sync_height_recover settled_recover)

lemma recover_settles:
  assumes "a \<in> set accs" "0 \<notin> sh_account ` set (sync_heights db)" "get_sync_height db a = Some h" "a \<noteq> 0"
  shows "settled_at a h (recover_from_partial_sync accs db)"
  using assms
proof (induction accs arbitrary: db)
  case (Cons b accs)
  let ?db = "recover_account b db"
  have step: "recover_from_partial_sync (b # accs) db = recover_from_partial_sync accs ?db"
    by (simp add: recover_from_partial_sync_def)
  have inv: "0 \<notin> sh_account ` set (sync_heights ?db)" "get_sync_height ?db a = Some h"
    using Cons.prems get_sync_height_recover by simp_all
  show ?case
  proof (cases "a = b")
    case True
    then have "settled_at a h ?db" using Cons.prems(3) settled_trim by (simp add: recover_account_def)
    then show ?thesis using recover_keeps_settled [OF inv Cons.prems(4)] step by simp
  next
    case False
    then show ?thesis using Cons.IH [OF _ inv Cons.prems(4)] Cons.prems(1) step by simp
  qed
qed simp

lemma recover_isolates:
  assumes "b \<notin> set accs" "b \<noteq> 0"
  shows "same_scan b db (recover_from_partial_sync accs db)"
  using assms unfolding recover_from_partial_sync_def
proof (induction accs arbitrary: db)
  case (Cons a accs)
  have "same_scan b db (recover_account a db)"
    using Cons.prems by (auto simp: recover_account_def intro: trim_isolates split: option.split)
  from same_scan_trans [OF this Cons.IH] Cons.prems show ?case by simp
qed simp

lemma recover_fold_wallet: "wallet_ok db \<Longrightarrow> wallet_ok (recover_from_partial_sync accs db)"
  unfolding recover_from_partial_sync_def
  by (induction accs arbitrary: db) (auto simp: recover_account_def wallet_ok_trim split: option.split)

text \<open>
  Recovery from an interrupted synchronization: every listed account that has synced heights ends with all
  its pools at the lowest of them and with nothing scanned above it, the lowest height of no account moves, the
  accounts not listed keep their rows, and the wallet stays well formed.
\<close>

theorem recover_from_partial_sync_settles:
  assumes "wallet_ok db" and "0 \<notin> sh_account ` set (sync_heights db)"
  shows "wallet_ok (recover_from_partial_sync accs db)
    \<and> (\<forall>a h. a \<in> set accs \<longrightarrow> get_sync_height db a = Some h \<longrightarrow> settled_at a h (recover_from_partial_sync accs db))
    \<and> (\<forall>a. get_sync_height (recover_from_partial_sync accs db) a = get_sync_height db a)
    \<and> (\<forall>a. a \<notin> set accs \<longrightarrow> a \<noteq> 0 \<longrightarrow> same_scan a db (recover_from_partial_sync accs db))"
proof -
  have "a \<noteq> 0" if "get_sync_height db a = Some h" for a h
    using that assms(2) sql_min_in by (fastforce simp: get_sync_height_def)
  then show ?thesis
    using recover_settles [OF _ assms(2)] recover_fold_wallet [OF assms(1)] recover_fold_height [OF assms(2)] recover_isolates
    by blast
qed

definition ex_partial :: Db where
  "ex_partial = store_synced_height 1 2 110 ex_db"

theorem recover_from_partial_sync_settles_witness: "settled_at 1 110 (recover_from_partial_sync [1] ex_partial)"
proof -
  have "keys_ok ex_partial" using keys_ok_store_synced_height ex_db_ok by (simp add: ex_partial_def)
  moreover have "spends_ok ex_partial" "refs_ok ex_partial"
    using wallet_ok_ex_db by (simp_all add: wallet_ok_def ex_partial_def store_synced_height_def spends_ok_def refs_ok_def)
  ultimately have w: "wallet_ok ex_partial" by (simp add: wallet_ok_def)
  have z: "0 \<notin> sh_account ` set (sync_heights ex_partial)" "get_sync_height ex_partial 1 = Some 110"
    by (simp_all add: ex_partial_def store_synced_height_def ex_db_defs delete_where_def get_sync_height_def sql_min_def)
  show ?thesis using recover_from_partial_sync_settles [OF w z(1), of "[1]"] z(2) by auto
qed

section \<open>Rewind and pruning\<close>

lemma retire_fields [simp]:
  "note_rows (retire_transparent_walks a db) = note_rows db" "spends (retire_transparent_walks a db) = spends db"
  "transactions (retire_transparent_walks a db) = transactions db" "witnesses (retire_transparent_walks a db) = witnesses db"
  "outputs (retire_transparent_walks a db) = outputs db" "memos (retire_transparent_walks a db) = memos db"
  "taddrs (retire_transparent_walks a db) = taddrs db" "sync_heights (retire_transparent_walks a db) = sync_heights db"
  "headers (retire_transparent_walks a db) = headers db" "accounts (retire_transparent_walks a db) = accounts db"
  "reservations (retire_transparent_walks a db) = reservations db" "pending_txs (retire_transparent_walks a db) = pending_txs db"
  "user_memos (retire_transparent_walks a db) = user_memos db"
  by (simp_all add: retire_transparent_walks_def put_prop_def)

lemma settled_fields:
  "note_rows x = note_rows y \<Longrightarrow> spends x = spends y \<Longrightarrow> transactions x = transactions y \<Longrightarrow> witnesses x = witnesses y \<Longrightarrow>
   outputs x = outputs y \<Longrightarrow> memos x = memos y \<Longrightarrow> sync_heights x = sync_heights y \<Longrightarrow> settled_at a h x = settled_at a h y"
  by (simp add: settled_at_def scanned_above_def)

lemma latest_checkpoint_below: "latest_checkpoint db a h = Some cp \<Longrightarrow> cp < h"
  using sql_max_in by (fastforce simp: latest_checkpoint_def)

lemma latest_checkpoint_kept:
  "latest_checkpoint db a h = Some cp \<Longrightarrow> \<exists>w \<in> set (witnesses (trim_sync_data a cp db)). w_account w = a \<and> w_height w = cp"
  using sql_max_in by (fastforce simp: latest_checkpoint_def)

lemma incarnation_props: "props x = props y \<Longrightarrow> transparent_incarnation x a = transparent_incarnation y a"
  by (simp add: transparent_incarnation_def get_prop_def)

text \<open>
  After a reorganisation at \<open>height\<close>, \<open>rewind_sync\<close> lands on the newest checkpoint below it: all pools of the
  account stand at a height strictly below the reorganised block whose witnesses are still there, nothing is
  scanned above it, every walk in flight is retired, and no header above the reorganised block remains.
\<close>

theorem rewind_sync_lands_on_checkpoint:
  assumes "latest_checkpoint db account height = Some cp"
  shows "\<exists>db'. rewind_sync net account height db = Inr db' \<and> cp < height \<and> settled_at account cp db'
    \<and> list_ex (\<lambda>w. w_account w = account \<and> w_height w = cp) (witnesses db')
    \<and> list_all (\<lambda>w. w_account w = account \<and> w_height w < height \<longrightarrow> w_height w \<le> cp) (witnesses db)
    \<and> transparent_incarnation db' account \<noteq> transparent_incarnation (trim_sync_data account cp db) account
    \<and> list_all (\<lambda>h. hd_height h \<le> height) (headers db')"
proof -
  let ?t = "retire_transparent_walks account (trim_sync_data account cp db)"
  let ?db' = "?t\<lparr>headers := delete_where (\<lambda>h. height < hd_height h) (headers ?t)\<rparr>"
  have r: "rewind_sync net account height db = Inr ?db'" by (simp add: rewind_sync_def assms)
  have "settled_at account cp ?db' = settled_at account cp (trim_sync_data account cp db)"
    by (rule settled_fields) simp_all
  then have s: "settled_at account cp ?db'" using settled_trim by simp
  have w: "list_ex (\<lambda>w. w_account w = account \<and> w_height w = cp) (witnesses ?db')"
    using latest_checkpoint_kept [OF assms] by (simp add: list_ex_iff)
  have m: "list_all (\<lambda>w. w_account w = account \<and> w_height w < height \<longrightarrow> w_height w \<le> cp) (witnesses db)"
    using assms sql_max_ge by (fastforce simp: latest_checkpoint_def list_all_iff)
  have "transparent_incarnation ?db' account = transparent_incarnation ?t account" by (rule incarnation_props) simp
  then have i: "transparent_incarnation ?db' account \<noteq> transparent_incarnation (trim_sync_data account cp db) account"
    using retire_changes_incarnation by metis
  have h: "list_all (\<lambda>h. hd_height h \<le> height) (headers ?db')" by (simp add: list_all_iff not_less)
  show ?thesis using r s w m i h latest_checkpoint_below [OF assms] by blast
qed

theorem rewind_sync_lands_on_checkpoint_witness:
  "\<exists>db'. rewind_sync \<lparr>net_sapling = 0, net_nu5 = 0, net_nu6_3 = None\<rparr> 1 123 ex_db = Inr db' \<and> settled_at 1 110 db'"
proof -
  have "latest_checkpoint ex_db 1 123 = Some 110"
    by (simp add: latest_checkpoint_def ex_db_def sql_max_def)
  from rewind_sync_lands_on_checkpoint [OF this] show ?thesis by blast
qed

lemma sql_max_drop_lower:
  assumes "cp \<in> set ys" "set ys \<subseteq> set xs" "\<forall>x \<in> set xs. x \<in> set ys \<or> x < cp"
  shows "sql_max ys = sql_max xs"
proof -
  have "x \<le> Max (set ys)" if "x \<in> set xs" for x
  proof (cases "x \<in> set ys")
    case False
    then have "x < cp" using assms(3) that by blast
    also have "cp \<le> Max (set ys)" using assms(1) by simp
    finally show ?thesis by simp
  qed simp
  moreover have "Max (set ys) \<in> set ys" using assms(1) by (intro Max_in) auto
  ultimately have "Max (set xs) = Max (set ys)"
    using assms(2) by (intro Max_eqI) auto
  moreover have "xs \<noteq> []" "ys \<noteq> []" using assms by auto
  ultimately show ?thesis by (simp add: sql_max_eq)
qed

text \<open>
  Pruning never costs a rewind its target: for every reorganisation height at or above the pruning height the
  newest checkpoint is the one before pruning.
\<close>

theorem prune_keeps_rewind_targets:
  assumes "height \<le> reorg"
  shows "latest_checkpoint (prune_old_checkpoints account height db) b reorg = latest_checkpoint db b reorg"
proof (cases "latest_checkpoint db account height")
  case None
  then show ?thesis by (simp add: prune_old_checkpoints_def)
next
  case (Some cp)
  let ?ws = "\<lambda>d. map w_height (filter (\<lambda>w. w_height w < reorg \<and> w_account w = b) (witnesses d))"
  let ?db' = "prune_old_checkpoints account height db"
  have p: "witnesses ?db' = delete_where (\<lambda>w. w_account w = account \<and> w_height w < cp) (witnesses db)"
    by (simp add: prune_old_checkpoints_def Some)
  show ?thesis
  proof (cases "b = account")
    case False
    then have "?ws ?db' = ?ws db" unfolding p
      by (intro arg_cong [where f = "map w_height"] filter_delete_where) auto
    then show ?thesis by (simp add: latest_checkpoint_def)
  next
    case True
    have cp: "cp \<in> set (?ws ?db')"
      using Some sql_max_in [of _ cp] assms True unfolding p latest_checkpoint_def by fastforce
    have "set (?ws ?db') \<subseteq> set (?ws db)" "\<forall>x \<in> set (?ws db). x \<in> set (?ws ?db') \<or> x < cp" unfolding p using True by auto
    from sql_max_drop_lower [OF cp this] show ?thesis by (simp add: latest_checkpoint_def)
  qed
qed

theorem prune_keeps_rewind_targets_witness:
  "latest_checkpoint (prune_old_checkpoints 1 126 ex_db) 1 130 = Some 125
   \<and> witnesses (prune_old_checkpoints 1 126 ex_db) \<noteq> witnesses ex_db"
proof
  have "latest_checkpoint ex_db 1 130 = Some 125" by (simp add: latest_checkpoint_def ex_db_def sql_max_def)
  then show "latest_checkpoint (prune_old_checkpoints 1 126 ex_db) 1 130 = Some 125"
    using prune_keeps_rewind_targets [of 126 130 1 ex_db 1] by simp
  show "witnesses (prune_old_checkpoints 1 126 ex_db) \<noteq> witnesses ex_db"
    by (simp add: prune_old_checkpoints_def latest_checkpoint_def ex_db_def sql_max_def delete_where_def)
qed

section \<open>The synced block\<close>

text \<open>
  \<open>get_db_height\<close> answers only when the header of the lowest synced height is stored: an account that was synced
  without one, as a transparent-only account is, gets an error instead of the height with time 0.
\<close>

theorem get_db_height_needs_header:
  "(\<exists>h. get_db_height db account = Inr h) \<longleftrightarrow>
    (\<exists>m. get_sync_height db account = Some m \<and> m \<in> hd_height ` set (headers db))"
proof -
  have "find (\<lambda>h. hd_height h = m) hs = None \<longleftrightarrow> m \<notin> hd_height ` set hs" for m and hs :: "HeaderRow list"
    by (auto simp: find_None_iff)
  note f = this
  show ?thesis
  proof (cases "get_sync_height db account")
    case (Some m)
    then show ?thesis using f [of m "headers db"]
      by (cases "find (\<lambda>h. hd_height h = m) (headers db)") (simp_all add: get_db_height_def)
  qed (simp add: get_db_height_def)
qed

end
