(* ===== verification/Accounts.thy ===== *)
theory Accounts
  imports Trim
begin

text \<open>
  The account table of \<open>src/rust/rlz/src/db.rs\<close>: creating an account, deleting it with everything stored for it,
  and moving it in the list. The theorems say what a deletion leaves and that the list order stays an order.
\<close>

section \<open>Operations\<close>

text \<open>An empty table gives \<open>MAX(position)\<close> NULL, read as 0; the row id is one past the largest.\<close>

definition store_account_metadata :: "bytes option \<Rightarrow> nat \<Rightarrow> bool \<Rightarrow> Db \<Rightarrow> nat \<times> Db" where
  "store_account_metadata fingerprint birth use_internal db =
    (let last_position = (case sql_max (map ac_position (accounts db)) of None \<Rightarrow> 0 | Some p \<Rightarrow> p);
         id = next_rowid ac_id (accounts db)
     in (id, db\<lparr>accounts := accounts db @ [\<lparr>ac_id = id, ac_birth = birth, ac_position = u32_add last_position 1,
       ac_aindex = 0, ac_dindex = 0, ac_fingerprint = fingerprint, ac_use_internal = use_internal\<rparr>]\<rparr>))"

definition delete_account :: "nat \<Rightarrow> Db \<Rightarrow> Db" where
  "delete_account account db =
    clear_transparent_coverage account
      (db\<lparr>reservations := delete_where (\<lambda>r. rv_account r = account) (reservations db),
          pending_txs := delete_where (\<lambda>p. pt_account p = account) (pending_txs db),
          dkg_rows := delete_where (\<lambda>a. a = account) (dkg_rows db),
          frost_rows := delete_where (\<lambda>a. a = account) (frost_rows db),
          outputs := delete_where (\<lambda>x. ou_account x = account) (outputs db),
          memos := delete_where (\<lambda>m. me_account m = account) (memos db),
          witnesses := delete_where (\<lambda>w. w_account w = account) (witnesses db),
          note_rows := delete_where (\<lambda>n. nr_account n = account) (note_rows db),
          spends := delete_where (\<lambda>s. sp_account s = account) (spends db),
          transactions := delete_where (\<lambda>t. tx_account t = account) (transactions db),
          sync_heights := delete_where (\<lambda>s. sh_account s = account) (sync_heights db),
          transparent_accounts := delete_where (\<lambda>a. fst a = account) (transparent_accounts db),
          taddrs := delete_where (\<lambda>a. ta_account a = account) (taddrs db),
          sapling_accounts := delete_where (\<lambda>a. a = account) (sapling_accounts db),
          orchard_accounts := delete_where (\<lambda>a. a = account) (orchard_accounts db),
          accounts := delete_where (\<lambda>a. ac_id a = account) (accounts db)\<rparr>)"

definition reorder_account :: "nat \<Rightarrow> nat \<Rightarrow> Db \<Rightarrow> DbError + Db" where
  "reorder_account old_position new_position db =
    (case find (\<lambda>a. ac_position a = old_position) (accounts db) of
       None \<Rightarrow> Inl RowNotFound
     | Some moved \<Rightarrow>
         (let accs = accounts db;
              accs = (if old_position < new_position
                      then update_where (\<lambda>a. old_position < ac_position a \<and> ac_position a \<le> new_position)
                             (\<lambda>a. a\<lparr>ac_position := ac_position a - 1\<rparr>) accs else accs);
              accs = (if new_position < old_position
                      then update_where (\<lambda>a. new_position \<le> ac_position a \<and> ac_position a < old_position)
                             (\<lambda>a. a\<lparr>ac_position := ac_position a + 1\<rparr>) accs else accs);
              accs = update_where (\<lambda>a. ac_id a = ac_id moved) (\<lambda>a. a\<lparr>ac_position := new_position\<rparr>) accs
          in Inr (db\<lparr>accounts := accs\<rparr>)))"

section \<open>Deletion\<close>

lemma clear_coverage_fields [simp]:
  "note_rows (clear_transparent_coverage a db) = note_rows db" "spends (clear_transparent_coverage a db) = spends db"
  "transactions (clear_transparent_coverage a db) = transactions db" "witnesses (clear_transparent_coverage a db) = witnesses db"
  "outputs (clear_transparent_coverage a db) = outputs db" "memos (clear_transparent_coverage a db) = memos db"
  "sync_heights (clear_transparent_coverage a db) = sync_heights db" "taddrs (clear_transparent_coverage a db) = taddrs db"
  "accounts (clear_transparent_coverage a db) = accounts db" "reservations (clear_transparent_coverage a db) = reservations db"
  "pending_txs (clear_transparent_coverage a db) = pending_txs db" "user_memos (clear_transparent_coverage a db) = user_memos db"
  "headers (clear_transparent_coverage a db) = headers db"
  by (simp_all add: clear_transparent_coverage_def)

text \<open>The rows of an account in the tables keyed by it, the notes a user attached to transactions apart.\<close>

definition account_rows :: "nat \<Rightarrow> Db \<Rightarrow> bool" where
  "account_rows a db \<longleftrightarrow>
    a \<in> ac_id ` set (accounts db) \<union> ta_account ` set (taddrs db) \<union> sh_account ` set (sync_heights db)
      \<union> nr_account ` set (note_rows db) \<union> sp_account ` set (spends db) \<union> tx_account ` set (transactions db)
      \<union> w_account ` set (witnesses db) \<union> ou_account ` set (outputs db) \<union> me_account ` set (memos db)
      \<union> pt_account ` set (pending_txs db) \<union> rv_account ` set (reservations db)"

lemma keys_ok_delete_account: "keys_ok db \<Longrightarrow> keys_ok (delete_account a db)"
  unfolding keys_ok_def by (simp add: delete_account_def db_update)

lemma delete_account_isolates: "b \<noteq> a \<Longrightarrow> same_scan b db (delete_account a db)"
  unfolding same_scan_def delete_account_def
  by (simp, intro conjI filter_delete_where) auto

text \<open>
  Deleting an account removes its rows from every table keyed by it, clears its coverage ledger, keeps the keys
  and leaves the scanned rows of every other account alone.
\<close>

theorem delete_account_complete:
  assumes "keys_ok db"
  shows "\<not> account_rows account (delete_account account db) \<and> keys_ok (delete_account account db)
    \<and> read_transparent_coverage (delete_account account db) account = \<lparr>certified = False, tc_gap = 0, tc_trim = 0\<rparr>
    \<and> (\<forall>b. b \<noteq> account \<longrightarrow> same_scan b db (delete_account account db))"
proof (intro conjI allI impI)
  show "\<not> account_rows account (delete_account account db)" by (auto simp: account_rows_def delete_account_def)
  show "read_transparent_coverage (delete_account account db) account = \<lparr>certified = False, tc_gap = 0, tc_trim = 0\<rparr>"
    unfolding delete_account_def by (rule clear_coverage_reads)
qed (use keys_ok_delete_account [OF assms] delete_account_isolates in blast)+

theorem delete_account_complete_witness: "account_rows 1 ex_db \<and> \<not> account_rows 1 (delete_account 1 ex_db)"
  using delete_account_complete [OF ex_db_ok(1), of 1] by (simp add: account_rows_def ex_db_def)

section \<open>Order of the list\<close>

text \<open>Where a move takes the account at position \<open>p\<close>.\<close>

definition moved_position :: "nat \<Rightarrow> nat \<Rightarrow> nat \<Rightarrow> nat" where
  "moved_position old new p =
    (if p = old then new else if old < p \<and> p \<le> new then p - 1 else if new \<le> p \<and> p < old then p + 1 else p)"

lemma moved_position_inj: "moved_position old new p = moved_position old new q \<Longrightarrow> p = q"
  by (auto simp: moved_position_def split: if_splits)

lemma moved_position_mono: "p \<noteq> old \<Longrightarrow> q \<noteq> old \<Longrightarrow> p < q \<Longrightarrow> moved_position old new p < moved_position old new q"
  by (auto simp: moved_position_def)

lemma reorder_rows:
  assumes "distinct (map ac_id (accounts db))" "distinct (map ac_position (accounts db))"
    and "m \<in> set (accounts db)" "ac_position m = old"
  shows "reorder_account old new db =
    Inr (db\<lparr>accounts := map (\<lambda>a. a\<lparr>ac_position := moved_position old new (ac_position a)\<rparr>) (accounts db)\<rparr>)"
proof -
  obtain r where r: "find (\<lambda>a. ac_position a = old) (accounts db) = Some r"
    using assms(3,4) by (cases "find (\<lambda>a. ac_position a = old) (accounts db)") (auto simp: find_None_iff)
  then have "r \<in> set (accounts db)" "ac_position r = old" by (auto simp: find_Some_iff)
  then have "r = m" using assms(2-4) distinct_key_unique [of ac_position "accounts db" r m] by simp
  then have f: "find (\<lambda>a. ac_position a = old) (accounts db) = Some m" using r by simp
  have "ac_id a = ac_id m \<longleftrightarrow> ac_position a = old" if "a \<in> set (accounts db)" for a
    using that assms distinct_key_unique [of ac_id "accounts db" a m] distinct_key_unique [of ac_position "accounts db" a m] by auto
  then show ?thesis
    by (auto simp: reorder_account_def f Let_def update_where_def moved_position_def)
qed

text \<open>
  Moving an account in the list takes it to the requested position, keeps the positions distinct and the other
  accounts in the order they had, and touches nothing else; a position nobody has is an error.
\<close>

theorem reorder_account_keeps_order:
  assumes "distinct (map ac_id (accounts db))" "distinct (map ac_position (accounts db))"
  shows "(if old \<in> ac_position ` set (accounts db)
    then \<exists>f. reorder_account old new db = Inr (db\<lparr>accounts := map (\<lambda>a. a\<lparr>ac_position := f (ac_position a)\<rparr>) (accounts db)\<rparr>)
      \<and> f old = new \<and> inj f \<and> (\<forall>p q. p \<noteq> old \<longrightarrow> q \<noteq> old \<longrightarrow> p < q \<longrightarrow> f p < f q)
    else reorder_account old new db = Inl RowNotFound)"
proof (cases "old \<in> ac_position ` set (accounts db)")
  case True
  then obtain m where "m \<in> set (accounts db)" "ac_position m = old" by auto
  note r = reorder_rows [OF assms this]
  have "moved_position old new old = new" by (simp add: moved_position_def)
  moreover have "inj (moved_position old new)" by (rule injI) (rule moved_position_inj)
  ultimately show ?thesis unfolding if_P [OF True] using r moved_position_mono by blast
next
  case False
  then have "find (\<lambda>a. ac_position a = old) (accounts db) = None" by (auto simp: find_None_iff)
  then show ?thesis using False by (simp add: reorder_account_def)
qed

theorem reorder_account_keeps_order_witness:
  "\<exists>f. reorder_account 0 3 ex_db = Inr (ex_db\<lparr>accounts := map (\<lambda>a. a\<lparr>ac_position := f (ac_position a)\<rparr>) (accounts ex_db)\<rparr>) \<and> f 0 = 3"
proof -
  have "distinct (map ac_id (accounts ex_db))" "distinct (map ac_position (accounts ex_db))" "0 \<in> ac_position ` set (accounts ex_db)"
    by (simp_all add: ex_db_def)
  from reorder_account_keeps_order [OF this(1,2), of 0 3] this(3) show ?thesis by auto
qed

section \<open>Notes attached to transactions\<close>

text \<open>
  A user's note on a transaction survives the deletion of its account, and the next account created gets the
  account number that became free: the note is then filed under the new account.
\<close>

theorem deleted_account_leaves_user_memo:
  "\<exists>id db'. store_account_metadata None 200 False (delete_account 1 (set_user_memo 1 3 (Some ''rent'') ex_db)) = (id, db')
    \<and> id = 1 \<and> \<lparr>um_account = id, um_tx = 3, um_memo = ''rent''\<rparr> \<in> set (user_memos db')"
  by (simp add: store_account_metadata_def delete_account_def set_user_memo_def ex_db_def delete_where_def next_rowid_def Let_def)

end
