(* ===== verification/Windows.thy ===== *)
theory Windows
  imports Trim
begin

text \<open>
  One window of one transparent address (\<open>src/rust/rlz/src/sync.rs\<close>): the answer of the server is taken off its
  stream, checked and buffered, and written in one database transaction; then undated blocks are fetched.

  The server is the record \<open>Backend\<close>: its answers may depend on the number of requests made so far, may
  lie, fail, stall or be cut short by a cancellation. A stall is what the per-window deadline turns into a
  timeout. The address codec belongs to the Zcash crates and is the test \<open>be_decodes\<close>. The theorems say that a
  window writes nothing outside the heights it asked for and loses nothing of an answer it accepts.
\<close>

section \<open>The server\<close>

record TTx =
  tt_txid :: bytes
  tt_vins :: "bytes list"
  tt_vouts :: "(string option \<times> nat) list"

datatype Item = Item nat TTx | ItemError

datatype Reply = Refused | Stalled | Interrupted | Answer "Item list"

datatype BlockReply = BlockRefused | BlockStalled | Block bytes nat

record Backend =
  be_txs :: "nat \<Rightarrow> string \<Rightarrow> nat \<Rightarrow> nat \<Rightarrow> Reply"
  be_block :: "nat \<Rightarrow> nat \<Rightarrow> BlockReply"
  be_anchor :: "nat \<Rightarrow> nat \<Rightarrow> bytes option"
  be_decodes :: "string \<Rightarrow> bool"

datatype BackfillError =
    Fetch
  | DbFailure DbError
  | Timeout nat nat
  | WindowFull
  | Cancelled

section \<open>Draining an answer\<close>

record WindowRows =
  wr_transactions :: "(bytes \<times> nat) list"
  wr_notes :: "(bytes \<times> nat \<times> bytes \<times> int) list"
  wr_vins :: "(bytes \<times> nat \<times> bytes) list"

definition no_rows :: WindowRows where
  "no_rows = \<lparr>wr_transactions = [], wr_notes = [], wr_vins = []\<rparr>"

definition at_or_below :: "nat \<Rightarrow> WindowRows \<Rightarrow> WindowRows" where
  "at_or_below height rows =
    \<lparr>wr_transactions = filter (\<lambda>(_, h). h \<le> height) (wr_transactions rows),
     wr_notes = filter (\<lambda>(_, h, _, _). h \<le> height) (wr_notes rows),
     wr_vins = filter (\<lambda>(_, h, _). h \<le> height) (wr_vins rows)\<rparr>"

definition MAX_BUFFERED_TXS :: nat where "MAX_BUFFERED_TXS = 50000"

definition MAX_BUFFERED_VINS :: nat where "MAX_BUFFERED_VINS = 200000"

definition MAX_BUFFERED_NOTES :: nat where "MAX_BUFFERED_NOTES = 200000"

definition u32_le_bytes :: "nat \<Rightarrow> bytes" where
  "u32_le_bytes i = map (\<lambda>j. word_of_nat (i div 256 ^ j)) [0..<4]"

text \<open>The outpoint of an output, which the wallet stores as the nullifier of the note.\<close>

definition outpoint :: "bytes \<Rightarrow> nat \<Rightarrow> bytes" where
  "outpoint txid i = txid @ u32_le_bytes i"

definition vin_rows :: "nat \<Rightarrow> TTx \<Rightarrow> (bytes \<times> nat \<times> bytes) list" where
  "vin_rows height tx = map (\<lambda>nf. (tt_txid tx, height, nf)) (tt_vins tx)"

definition vout_rows :: "string \<Rightarrow> nat \<Rightarrow> TTx \<Rightarrow> (bytes \<times> nat \<times> bytes \<times> int) list" where
  "vout_rows my_address height tx =
    map (\<lambda>(i, _, value). (tt_txid tx, height, outpoint (tt_txid tx) i, as_i64 value))
      (filter (\<lambda>(_, to, _). to = Some my_address) (enumerate 0 (tt_vouts tx)))"

fun drain_items :: "string \<Rightarrow> nat \<Rightarrow> nat \<Rightarrow> Item list \<Rightarrow> WindowRows \<Rightarrow> BackfillError + WindowRows" where
  "drain_items my_address lo hi [] rows = Inr rows"
| "drain_items my_address lo hi (ItemError # items) rows = Inl Fetch"
| "drain_items my_address lo hi (Item height tx # items) rows =
    (if \<not> (lo \<le> height \<and> height \<le> hi) then Inl Fetch
     else
       (let txs = wr_transactions rows @ [(tt_txid tx, height)];
            vins = wr_vins rows @ vin_rows height tx;
            outs = wr_notes rows @ vout_rows my_address height tx
        in if MAX_BUFFERED_TXS < length txs \<or> MAX_BUFFERED_VINS < length vins \<or> MAX_BUFFERED_NOTES < length outs
           then Inl WindowFull
           else drain_items my_address lo hi items \<lparr>wr_transactions = txs, wr_notes = outs, wr_vins = vins\<rparr>))"

definition drain_transparent_window :: "string \<Rightarrow> Item list \<Rightarrow> nat \<Rightarrow> nat \<Rightarrow> BackfillError + WindowRows" where
  "drain_transparent_window my_address items lo hi = drain_items my_address lo hi items no_rows"

section \<open>Writing a window\<close>

definition insert_tx :: "nat \<Rightarrow> bytes \<times> nat \<Rightarrow> Db \<Rightarrow> Db" where
  "insert_tx account = (\<lambda>(txid, height) db.
    if list_ex (\<lambda>t. tx_account t = account \<and> tx_txid t = txid) (transactions db) then db
    else db\<lparr>transactions := transactions db @
      [\<lparr>tx_id = next_rowid tx_id (transactions db), tx_txid = txid, tx_height = height, tx_account = account,
        tx_time = Some 0, tx_details = False, tx_tpe = None, tx_value = 0, tx_fee = 0, tx_price = None, tx_category = None\<rparr>]\<rparr>)"

definition find_tx :: "Db \<Rightarrow> nat \<Rightarrow> bytes \<Rightarrow> TxRow option" where
  "find_tx db account txid = find (\<lambda>t. tx_txid t = txid \<and> tx_account t = account) (transactions db)"

definition insert_tnote :: "nat \<Rightarrow> nat \<Rightarrow> bytes \<times> nat \<times> bytes \<times> int \<Rightarrow> Db \<Rightarrow> Db" where
  "insert_tnote account id_taddress = (\<lambda>(txid, height, nf, value) db.
    case find_tx db account txid of
      None \<Rightarrow> db
    | Some t \<Rightarrow>
        (if list_ex (\<lambda>n. nr_account n = account \<and> nr_nullifier n = nf) (note_rows db) then db
         else db\<lparr>note_rows := note_rows db @
           [\<lparr>nr_id = next_rowid nr_id (note_rows db), nr_height = height, nr_account = account, nr_pool = 0, nr_scope = None,
             nr_nullifier = nf, nr_tx = tx_id t, nr_value = value, nr_taddress = Some id_taddress, nr_position = None,
             nr_locked = False, nr_asset = None,
     nr_cmx = None, nr_diversifier = None, nr_rcm = None, nr_rho = None, nr_diversifier_index = None\<rparr>]\<rparr>))"

definition find_note :: "Db \<Rightarrow> nat \<Rightarrow> bytes \<Rightarrow> NoteRow option" where
  "find_note db account nf = find (\<lambda>n. nr_account n = account \<and> nr_nullifier n = nf) (note_rows db)"

definition insert_tspend :: "nat \<Rightarrow> bytes \<times> nat \<times> bytes \<Rightarrow> Db \<Rightarrow> Db" where
  "insert_tspend account = (\<lambda>(txid, height, nf) db.
    case find_note db account nf of
      None \<Rightarrow> db
    | Some n \<Rightarrow>
        (case find_tx db account txid of
           None \<Rightarrow> db
         | Some t \<Rightarrow>
             (if list_ex (\<lambda>s. sp_note s = nr_id n) (spends db) then db
              else db\<lparr>spends := spends db @
                [\<lparr>sp_note = nr_id n, sp_height = height, sp_account = account, sp_pool = 0, sp_tx = tx_id t,
                  sp_value = i64_neg (nr_value n)\<rparr>]\<rparr>)))"

definition mark_used :: "nat \<Rightarrow> bool \<Rightarrow> Db \<Rightarrow> Db" where
  "mark_used id_taddress used db =
    (if used then db\<lparr>taddrs := update_where (\<lambda>a. ta_id a = id_taddress) (ta_seen_used_update (\<lambda>_. True)) (taddrs db)\<rparr> else db)"

definition write_transparent_window :: "nat \<Rightarrow> nat \<Rightarrow> WindowRows \<Rightarrow> bool \<Rightarrow> Db \<Rightarrow> Db" where
  "write_transparent_window account id_taddress rows used db =
    fold (insert_tspend account) (wr_vins rows)
      (fold (insert_tnote account id_taddress) (wr_notes rows)
        (fold (insert_tx account) (wr_transactions rows) (mark_used id_taddress used db)))"

section \<open>Block times\<close>

definition heights_of_transactions_without_time :: "Db \<Rightarrow> nat option \<Rightarrow> nat \<Rightarrow> nat \<Rightarrow> nat list" where
  "heights_of_transactions_without_time db account start end_height =
    remdups (map tx_height (filter (\<lambda>t. tx_time t = Some 0 \<and> start \<le> tx_height t \<and> tx_height t \<le> end_height
      \<and> (case account of None \<Rightarrow> True | Some a \<Rightarrow> tx_account t = a)) (transactions db)))"

definition fill_block_time :: "nat \<Rightarrow> bytes \<Rightarrow> nat \<Rightarrow> Db \<Rightarrow> Db" where
  "fill_block_time h hash time db =
    store_block_header \<lparr>hd_height = h, hd_hash = hash, hd_time = time\<rparr>
      (db\<lparr>transactions := update_where (\<lambda>t. tx_height t = h \<and> tx_time t = Some 0) (tx_time_update (\<lambda>_. Some time)) (transactions db)\<rparr>)"

text \<open>The heights are a set in the code; the order of the list stands for the order in which it is visited.\<close>

fun fill_missing_block_times :: "Backend \<Rightarrow> (nat \<times> nat) \<Rightarrow> nat list \<Rightarrow> Db \<times> nat \<Rightarrow> BackfillError option \<times> Db \<times> nat" where
  "fill_missing_block_times be window [] st = (None, st)"
| "fill_missing_block_times be window (h # hs) (db, k) =
    (case be_block be k h of
       BlockRefused \<Rightarrow> (Some Fetch, db, Suc k)
     | BlockStalled \<Rightarrow> (Some (Timeout (fst window) (snd window)), db, Suc k)
     | Block hash time \<Rightarrow> fill_missing_block_times be window hs (fill_block_time h hash time db, Suc k))"

section \<open>One window of one address\<close>

definition sync_address_window ::
    "Backend \<Rightarrow> nat \<Rightarrow> nat \<times> string \<Rightarrow> nat \<Rightarrow> nat \<Rightarrow> Db \<times> nat \<Rightarrow> BackfillError option \<times> Db \<times> nat" where
  "sync_address_window be account address_row lo hi = (\<lambda>(db, k).
    case be_txs be k (snd address_row) lo hi of
      Refused \<Rightarrow> (Some Fetch, db, Suc k)
    | Stalled \<Rightarrow> (Some (Timeout lo hi), db, Suc k)
    | Interrupted \<Rightarrow> (Some Cancelled, db, Suc k)
    | Answer items \<Rightarrow>
        (case drain_transparent_window (snd address_row) items lo hi of
           Inl e \<Rightarrow> (Some e, db, Suc k)
         | Inr rows \<Rightarrow>
             (let db' = write_transparent_window account (fst address_row) rows (wr_transactions rows \<noteq> []) db
              in fill_missing_block_times be (lo, hi)
                   (heights_of_transactions_without_time db' (Some account) lo hi) (db', Suc k))))"

definition account_seam :: "Db \<Rightarrow> nat \<Rightarrow> DbError + nat" where
  "account_seam db account = (case get_sync_height db account of None \<Rightarrow> Inl RowNotFound | Some h \<Rightarrow> Inr h)"

definition get_birth_height :: "Db \<Rightarrow> nat \<Rightarrow> DbError + nat" where
  "get_birth_height db account =
    (case find (\<lambda>a. ac_id a = account) (accounts db) of None \<Rightarrow> Inl RowNotFound | Some a \<Rightarrow> Inr (ac_birth a))"

definition advance_address_marker :: "nat \<Rightarrow> nat \<Rightarrow> nat \<Rightarrow> nat \<Rightarrow> nat \<Rightarrow> Db \<Rightarrow> DbError + Db" where
  "advance_address_marker account birth_height id_taddress covered_from through db =
    res_bind (taddress_scope_dindex db id_taddress)
      (\<lambda>(scope, dindex). Inr (advance_backfilled_height account birth_height scope dindex covered_from through db))"

section \<open>What a window may touch\<close>

definition appended :: "('a \<Rightarrow> bool) \<Rightarrow> 'a list \<Rightarrow> 'a list \<Rightarrow> bool" where
  "appended P xs ys \<longleftrightarrow> take (length xs) ys = xs \<and> list_all P (drop (length xs) ys)"

lemma appended_iff: "appended P xs ys \<longleftrightarrow> (\<exists>zs. ys = xs @ zs \<and> list_all P zs)"
  by (auto simp: appended_def) (metis append_take_drop_id)

lemma appended_refl [simp, intro]: "appended P xs xs"
  by (simp add: appended_def)

lemma appended_trans: "appended P xs ys \<Longrightarrow> appended P ys zs \<Longrightarrow> appended P xs zs"
  by (auto simp: appended_iff)

lemma appended_mono: "appended P xs ys \<Longrightarrow> (\<And>x. P x \<Longrightarrow> Q x) \<Longrightarrow> appended Q xs ys"
  unfolding appended_iff by (metis list.pred_mono_strong)

lemma appended_snoc [simp]: "appended P xs (xs @ [x]) \<longleftrightarrow> P x"
  by (simp add: appended_def)

lemma appended_set: "appended P xs ys \<Longrightarrow> set xs \<subseteq> set ys"
  by (auto simp: appended_iff)

text \<open>The columns of a transaction or address row that a window leaves as they are.\<close>

definition tx_key :: "TxRow \<Rightarrow> nat \<times> bytes \<times> nat \<times> nat" where
  "tx_key t = (tx_id t, tx_txid t, tx_height t, tx_account t)"

definition ta_key :: "TaddrRow \<Rightarrow> nat \<times> nat \<times> nat \<times> nat \<times> string \<times> nat option" where
  "ta_key a = (ta_id a, ta_account a, ta_scope a, ta_dindex a, ta_address a, ta_owed a)"

definition window_frame :: "nat \<Rightarrow> nat \<Rightarrow> nat \<Rightarrow> Db \<Rightarrow> Db \<Rightarrow> bool" where
  "window_frame account lo hi db db' \<longleftrightarrow>
    appended (\<lambda>n. nr_account n = account \<and> nr_pool n = 0 \<and> lo \<le> nr_height n \<and> nr_height n \<le> hi) (note_rows db) (note_rows db') \<and>
    appended (\<lambda>s. sp_account s = account \<and> lo \<le> sp_height s \<and> sp_height s \<le> hi) (spends db) (spends db') \<and>
    appended (\<lambda>(_, _, h, a). a = account \<and> lo \<le> h \<and> h \<le> hi) (map tx_key (transactions db)) (map tx_key (transactions db')) \<and>
    map ta_key (taddrs db') = map ta_key (taddrs db) \<and>
    sync_heights db' = sync_heights db \<and> accounts db' = accounts db \<and> witnesses db' = witnesses db \<and>
    outputs db' = outputs db \<and> memos db' = memos db \<and> reservations db' = reservations db \<and>
    pending_txs db' = pending_txs db \<and> props db' = props db"

lemma window_frame_refl [simp, intro]: "window_frame a lo hi db db"
  by (simp add: window_frame_def)

lemma window_frame_trans: "window_frame a lo hi x y \<Longrightarrow> window_frame a lo hi y z \<Longrightarrow> window_frame a lo hi x z"
  unfolding window_frame_def by (auto intro: appended_trans)

lemma window_frame_mono:
  assumes "window_frame a lo hi x y" "lo' \<le> lo" "hi \<le> hi'"
  shows "window_frame a lo' hi' x y"
  using assms unfolding window_frame_def by (auto elim!: appended_mono)

lemma fold_frame:
  assumes "\<And>x d. x \<in> set xs \<Longrightarrow> window_frame a lo hi d (f x d)"
  shows "window_frame a lo hi db (fold f xs db)"
  using assms by (induction xs arbitrary: db) (auto intro: window_frame_trans)

lemma insert_tx_frame: "lo \<le> snd x \<Longrightarrow> snd x \<le> hi \<Longrightarrow> window_frame a lo hi db (insert_tx a x db)"
  by (auto simp: insert_tx_def window_frame_def tx_key_def split: prod.split)

lemma insert_tnote_frame:
  "lo \<le> fst (snd x) \<Longrightarrow> fst (snd x) \<le> hi \<Longrightarrow> window_frame a lo hi db (insert_tnote a i x db)"
  by (auto simp: insert_tnote_def window_frame_def split: prod.split option.split)

lemma insert_tspend_frame:
  "lo \<le> fst (snd x) \<Longrightarrow> fst (snd x) \<le> hi \<Longrightarrow> window_frame a lo hi db (insert_tspend a x db)"
  by (auto simp: insert_tspend_def window_frame_def split: prod.split option.split)

lemma mark_used_frame: "window_frame a lo hi db (mark_used i u db)"
  by (simp add: mark_used_def window_frame_def ta_key_def map_update_where)

definition rows_within :: "nat \<Rightarrow> nat \<Rightarrow> WindowRows \<Rightarrow> bool" where
  "rows_within lo hi rows \<longleftrightarrow>
    list_all (\<lambda>(_, h). lo \<le> h \<and> h \<le> hi) (wr_transactions rows) \<and>
    list_all (\<lambda>(_, h, _, _). lo \<le> h \<and> h \<le> hi) (wr_notes rows) \<and>
    list_all (\<lambda>(_, h, _). lo \<le> h \<and> h \<le> hi) (wr_vins rows)"

lemma write_frame:
  assumes "rows_within lo hi rows"
  shows "window_frame a lo hi db (write_transparent_window a i rows u db)"
proof -
  let ?d1 = "mark_used i u db" and ?t = "fold (insert_tx a) (wr_transactions rows)" and ?n = "fold (insert_tnote a i) (wr_notes rows)"
  have "window_frame a lo hi db ?d1" by (rule mark_used_frame)
  also have "window_frame a lo hi \<dots> (?t ?d1)"
    using assms by (intro fold_frame insert_tx_frame) (auto simp: rows_within_def list_all_iff)
  also (window_frame_trans) have "window_frame a lo hi \<dots> (?n (?t ?d1))"
    using assms by (intro fold_frame insert_tnote_frame) (auto simp: rows_within_def list_all_iff)
  also (window_frame_trans) have "window_frame a lo hi \<dots> (fold (insert_tspend a) (wr_vins rows) (?n (?t ?d1)))"
    using assms by (intro fold_frame insert_tspend_frame) (auto simp: rows_within_def list_all_iff)
  finally (window_frame_trans) show ?thesis by (simp add: write_transparent_window_def)
qed

lemma drain_within:
  "drain_items addr lo hi items rows = Inr rows' \<Longrightarrow> rows_within lo hi rows \<Longrightarrow> rows_within lo hi rows'"
proof (induction addr lo hi items rows rule: drain_items.induct)
  case (3 addr lo hi h tx items rows)
  have "list_all (\<lambda>(_, h, _). lo \<le> h \<and> h \<le> hi) (vin_rows h tx)" "list_all (\<lambda>(_, h, _, _). lo \<le> h \<and> h \<le> hi) (vout_rows addr h tx)"
    if "lo \<le> h" "h \<le> hi" using that by (auto simp: vin_rows_def vout_rows_def list_all_iff)
  then show ?case using 3 by (auto simp: rows_within_def Let_def split: if_splits)
qed auto

lemma fill_block_time_frame: "window_frame a lo hi db (fill_block_time h x t db)"
  by (simp add: fill_block_time_def store_block_header_def window_frame_def tx_key_def map_update_where)

lemma fill_frame: "window_frame a lo hi (fst st) (fst (snd (fill_missing_block_times be w hs st)))"
  by (induction be w hs st rule: fill_missing_block_times.induct)
    (auto split: BlockReply.split intro: window_frame_trans [OF fill_block_time_frame])

lemma no_rows_within [simp]: "rows_within lo hi no_rows"
  by (simp add: rows_within_def no_rows_def)

lemma sync_address_window_frame:
  "window_frame a lo hi (fst st) (fst (snd (sync_address_window be a row lo hi st)))"
  by (auto simp: sync_address_window_def Let_def drain_transparent_window_def split: prod.split Reply.split sum.split
      intro!: window_frame_trans [OF write_frame fill_frame [where st = "(d, k)" for d k, unfolded fst_conv]] dest: drain_within)

section \<open>Keys are kept\<close>

lemma keys_ok_insert_tx: "keys_ok db \<Longrightarrow> keys_ok (insert_tx a x db)"
  by (auto simp: keys_ok_def insert_tx_def list_ex_iff next_rowid_notin split: prod.split)

lemma keys_ok_insert_tnote: "keys_ok db \<Longrightarrow> keys_ok (insert_tnote a i x db)"
  by (auto simp: keys_ok_def insert_tnote_def list_ex_iff next_rowid_notin split: prod.split option.split)

lemma keys_ok_insert_tspend: "keys_ok db \<Longrightarrow> keys_ok (insert_tspend a x db)"
  by (auto simp: keys_ok_def insert_tspend_def list_ex_iff split: prod.split option.split)

lemma keys_ok_mark_used: "keys_ok db \<Longrightarrow> keys_ok (mark_used i u db)"
  by (simp add: keys_ok_def mark_used_def map_update_where)

lemma keys_ok_fold: "(\<And>x d. keys_ok d \<Longrightarrow> keys_ok (f x d)) \<Longrightarrow> keys_ok db \<Longrightarrow> keys_ok (fold f xs db)"
  by (induction xs arbitrary: db) auto

lemma keys_ok_write: "keys_ok db \<Longrightarrow> keys_ok (write_transparent_window a i rows u db)"
  unfolding write_transparent_window_def
  by (intro keys_ok_fold keys_ok_insert_tx keys_ok_insert_tnote keys_ok_insert_tspend keys_ok_mark_used)

lemma keys_ok_fill_block_time: "keys_ok db \<Longrightarrow> keys_ok (fill_block_time h x t db)"
  unfolding fill_block_time_def by (rule keys_ok_store_block_header) (simp add: keys_ok_def map_update_where)

lemma keys_ok_fill: "keys_ok (fst st) \<Longrightarrow> keys_ok (fst (snd (fill_missing_block_times be w hs st)))"
  by (induction be w hs st rule: fill_missing_block_times.induct)
    (auto split: BlockReply.split simp: keys_ok_fill_block_time)

lemma keys_ok_sync_address_window: "keys_ok (fst st) \<Longrightarrow> keys_ok (fst (snd (sync_address_window be a row lo hi st)))"
  by (auto simp: sync_address_window_def Let_def split: prod.split Reply.split sum.split
      intro!: keys_ok_fill [where st = "(d, k)" for d k, unfolded fst_conv] keys_ok_write)

section \<open>Nothing of an answer is lost\<close>

definition has_note :: "Db \<Rightarrow> nat \<Rightarrow> bytes \<Rightarrow> bool" where
  "has_note db account nf \<longleftrightarrow> list_ex (\<lambda>n. nr_account n = account \<and> nr_nullifier n = nf) (note_rows db)"

definition has_tx :: "Db \<Rightarrow> nat \<Rightarrow> bytes \<Rightarrow> bool" where
  "has_tx db account txid \<longleftrightarrow> list_ex (\<lambda>t. tx_account t = account \<and> tx_txid t = txid) (transactions db)"

lemma has_tx_keys: "has_tx db account txid \<longleftrightarrow> list_ex (\<lambda>(_, x, _, a). a = account \<and> x = txid) (map tx_key (transactions db))"
  by (induction "transactions db") (auto simp: has_tx_def tx_key_def list_ex_iff)

lemma frame_has_note: "window_frame b lo hi x y \<Longrightarrow> has_note x a nf \<Longrightarrow> has_note y a nf"
  by (auto simp: window_frame_def has_note_def appended_iff)

lemma frame_has_tx: "window_frame b lo hi x y \<Longrightarrow> has_tx x a t \<Longrightarrow> has_tx y a t"
  by (auto simp: window_frame_def has_tx_keys appended_iff)

lemma frame_spent: "window_frame b lo hi x y \<Longrightarrow> is_spent x n \<Longrightarrow> is_spent y n"
  by (auto simp: window_frame_def is_spent_def appended_iff)

lemma frame_note: "window_frame b lo hi x y \<Longrightarrow> n \<in> set (note_rows x) \<Longrightarrow> n \<in> set (note_rows y)"
  by (auto simp: window_frame_def appended_iff)

lemma insert_tx_has: "has_tx (insert_tx a x db) a (fst x)"
  by (auto simp: has_tx_def insert_tx_def split: prod.split)

lemma find_tx_has: "has_tx db a t \<Longrightarrow> \<exists>r. find_tx db a t = Some r"
  by (cases "find_tx db a t") (auto simp: has_tx_def find_tx_def list_ex_iff find_None_iff)

lemma insert_tnote_has: "has_tx db a (fst x) \<Longrightarrow> has_note (insert_tnote a i x db) a (fst (snd (snd x)))"
  using find_tx_has [of db a "fst x"] by (auto simp: has_note_def insert_tnote_def split: prod.split)

lemma find_note_unique:
  assumes "keys_ok db" "n \<in> set (note_rows db)" "nr_account n = a" "nr_nullifier n = nf"
  shows "find_note db a nf = Some n"
proof -
  obtain m where m: "find_note db a nf = Some m"
    using assms by (cases "find_note db a nf") (auto simp: find_note_def find_None_iff)
  then have "m \<in> set (note_rows db)" "nr_account m = a" "nr_nullifier m = nf" by (auto simp: find_note_def find_Some_iff)
  moreover have "distinct (map (\<lambda>n. (nr_account n, nr_nullifier n)) (note_rows db))" using assms(1) by (simp add: keys_ok_def)
  ultimately have "m = n" using assms distinct_key_unique [of "\<lambda>n. (nr_account n, nr_nullifier n)" "note_rows db" m n] by simp
  then show ?thesis using m by simp
qed

lemma insert_tspend_has:
  assumes "keys_ok db" "n \<in> set (note_rows db)" "nr_account n = a" "nr_nullifier n = snd (snd x)" "has_tx db a (fst x)"
  shows "is_spent (insert_tspend a x db) n"
  using find_tx_has [OF assms(5)] find_note_unique [OF assms(1-4)]
  by (auto simp: insert_tspend_def is_spent_def split: prod.split)

text \<open>A fold over insertions establishes for every element what its own insertion establishes and the others keep.\<close>

lemma fold_establishes:
  assumes "x \<in> set xs" "\<And>d. I d \<Longrightarrow> Q (f x d)" "\<And>y d. I d \<Longrightarrow> I (f y d)" "\<And>y d. I d \<Longrightarrow> Q d \<Longrightarrow> Q (f y d)" "I db"
  shows "Q (fold f xs db)"
proof -
  have keep: "Q (fold f ys d)" if "I d" "Q d" for ys d using that assms(3,4) by (induction ys arbitrary: d) auto
  from assms(1,5) show ?thesis by (induction xs arbitrary: db) (auto intro: keep assms(2,3))
qed

lemma insert_frames:
  "window_frame a 0 (snd x) db (insert_tx a x db)"
  "window_frame a 0 (fst (snd y)) db (insert_tnote a i y db)"
  "window_frame a 0 (fst (snd z)) db (insert_tspend a z db)"
  by (simp_all add: insert_tx_frame insert_tnote_frame insert_tspend_frame)

lemma fold_keeps: "(\<And>x d. P d \<Longrightarrow> P (f x d)) \<Longrightarrow> P db \<Longrightarrow> P (fold f xs db)"
  by (induction xs arbitrary: db) auto

lemma fold_tspend_notes: "note_rows (fold (insert_tspend a) xs db) = note_rows db"
  by (rule fold_keeps [where P = "\<lambda>d. note_rows d = note_rows db"])
    (auto simp: insert_tspend_def split: prod.split option.split)

lemma fold_tx_has:
  assumes "(txid, h) \<in> set xs"
  shows "has_tx (fold (insert_tx a) xs db) a txid"
proof (rule fold_establishes [OF assms, where I = "\<lambda>_. True"])
  show "has_tx (insert_tx a (txid, h) d) a txid" for d using insert_tx_has [of a "(txid, h)"] by simp
  show "has_tx d a txid \<Longrightarrow> has_tx (insert_tx a y d) a txid" for y d by (rule frame_has_tx [OF insert_frames(1)])
qed simp_all

lemma fold_tnote_keeps: "has_tx db a t \<Longrightarrow> has_tx (fold (insert_tnote b i) xs db) a t"
  by (induction xs arbitrary: db) (simp_all add: frame_has_tx [OF insert_frames(2)])

lemma fold_tspend_keeps:
  "has_tx db a t \<Longrightarrow> has_tx (fold (insert_tspend b) xs db) a t"
  "has_note db a nf \<Longrightarrow> has_note (fold (insert_tspend b) xs db) a nf"
  by (induction xs arbitrary: db) (simp_all add: frame_has_tx [OF insert_frames(3)] frame_has_note [OF insert_frames(3)])

lemmas fold_insert_keeps = fold_tnote_keeps fold_tspend_keeps

lemma write_has_tx:
  assumes "(txid, h) \<in> set (wr_transactions rows)"
  shows "has_tx (write_transparent_window a i rows u db) a txid"
  unfolding write_transparent_window_def by (intro fold_insert_keeps fold_tx_has [OF assms])

lemma write_has_note:
  assumes "(txid, h, nf, v) \<in> set (wr_notes rows)" "(txid, h') \<in> set (wr_transactions rows)"
  shows "has_note (write_transparent_window a i rows u db) a nf"
proof -
  let ?d2 = "fold (insert_tx a) (wr_transactions rows) (mark_used i u db)"
  have "has_note (fold (insert_tnote a i) (wr_notes rows) ?d2) a nf"
  proof (rule fold_establishes [OF assms(1), where I = "\<lambda>d. has_tx d a txid"])
    show "has_note (insert_tnote a i (txid, h, nf, v) d) a nf" if "has_tx d a txid" for d
      using that insert_tnote_has [of d a "(txid, h, nf, v)"] by simp
  qed (rule frame_has_tx [OF insert_frames(2)] frame_has_note [OF insert_frames(2)] fold_tx_has [OF assms(2)]; assumption)+
  then show ?thesis unfolding write_transparent_window_def by (rule fold_insert_keeps)
qed

lemma write_spends:
  assumes "keys_ok db" "(txid, h, nf) \<in> set (wr_vins rows)" "(txid, h') \<in> set (wr_transactions rows)"
    and "n \<in> set (note_rows (write_transparent_window a i rows u db))" "nr_account n = a" "nr_nullifier n = nf"
  shows "is_spent (write_transparent_window a i rows u db) n"
proof -
  let ?d2 = "fold (insert_tx a) (wr_transactions rows) (mark_used i u db)"
  let ?d3 = "fold (insert_tnote a i) (wr_notes rows) ?d2"
  let ?I = "\<lambda>d. keys_ok d \<and> n \<in> set (note_rows d) \<and> has_tx d a txid"
  have "has_tx ?d3 a txid"
    by (intro fold_insert_keeps fold_tx_has [OF assms(3)])
  moreover have "keys_ok ?d3"
    using assms(1) by (intro keys_ok_fold keys_ok_insert_tx keys_ok_insert_tnote keys_ok_mark_used)
  ultimately have I: "?I ?d3" using assms(4) by (simp add: write_transparent_window_def fold_tspend_notes)
  have step: "?I (insert_tspend a y d)" if "?I d" for y d
    using that keys_ok_insert_tspend frame_note [OF insert_frames(3)] frame_has_tx [OF insert_frames(3)] by blast
  have "is_spent (fold (insert_tspend a) (wr_vins rows) ?d3) n"
  proof (rule fold_establishes [OF assms(2), where I = ?I])
    show "is_spent (insert_tspend a (txid, h, nf) d) n" if "?I d" for d
      using that assms(5,6) insert_tspend_has [of d n a "(txid, h, nf)"] by simp
    show "is_spent (insert_tspend a y d) n" if "is_spent d n" for y d by (rule frame_spent [OF insert_frames(3) that])
  qed (use step I in blast)+
  then show ?thesis by (simp add: write_transparent_window_def)
qed

text \<open>What a drained answer holds.\<close>

lemma drain_step:
  assumes "drain_items addr lo hi (Item h tx # items) rows = Inr rows'"
  obtains rows1 where "drain_items addr lo hi items rows1 = Inr rows'" "lo \<le> h" "h \<le> hi"
    "wr_transactions rows1 = wr_transactions rows @ [(tt_txid tx, h)]" "wr_vins rows1 = wr_vins rows @ vin_rows h tx"
    "wr_notes rows1 = wr_notes rows @ vout_rows addr h tx"
  using assms by (auto simp: Let_def split: if_splits)

lemma drain_keeps_rows:
  "drain_items addr lo hi items rows = Inr rows' \<Longrightarrow>
   set (wr_transactions rows) \<subseteq> set (wr_transactions rows') \<and> set (wr_vins rows) \<subseteq> set (wr_vins rows')
   \<and> set (wr_notes rows) \<subseteq> set (wr_notes rows')"
proof (induction items arbitrary: rows)
  case (Cons it items)
  show ?case
  proof (cases it)
    case (Item h tx)
    have d: "drain_items addr lo hi (it # items) rows = Inr rows'" by (rule Cons.prems)
    obtain r where r: "drain_items addr lo hi items r = Inr rows'" "wr_transactions r = wr_transactions rows @ [(tt_txid tx, h)]"
      "wr_vins r = wr_vins rows @ vin_rows h tx" "wr_notes r = wr_notes rows @ vout_rows addr h tx"
      using d unfolding Item by (elim drain_step) blast
    show ?thesis using Cons.IH [OF r(1)] by (simp add: r(2-4))
  qed (use Cons.prems in simp)
qed simp

lemma drain_has_item:
  "drain_items addr lo hi items rows = Inr rows' \<Longrightarrow> Item h tx \<in> set items \<Longrightarrow>
   (tt_txid tx, h) \<in> set (wr_transactions rows') \<and> set (vin_rows h tx) \<subseteq> set (wr_vins rows')
   \<and> set (vout_rows addr h tx) \<subseteq> set (wr_notes rows')"
proof (induction items arbitrary: rows)
  case (Cons it items)
  show ?case
  proof (cases it)
    case (Item h' tx')
    have d: "drain_items addr lo hi (it # items) rows = Inr rows'" by (rule Cons.prems)
    obtain r where r: "drain_items addr lo hi items r = Inr rows'" "wr_transactions r = wr_transactions rows @ [(tt_txid tx', h')]"
      "wr_vins r = wr_vins rows @ vin_rows h' tx'" "wr_notes r = wr_notes rows @ vout_rows addr h' tx'"
      using d unfolding Item by (elim drain_step) blast
    show ?thesis
    proof (cases "it = Item h tx")
      case True
      then show ?thesis using drain_keeps_rows [OF r(1)] Item by (simp add: r(2-4))
    next
      case False
      then show ?thesis using Cons.IH [OF r(1)] Cons.prems(2) by simp
    qed
  qed (use Cons.prems in simp)
qed simp

end
