(* ===== verification/TransparentSync.thy ===== *)
theory TransparentSync
  imports Windows Accounts "HOL-Library.Product_Lexorder"
begin

text \<open>
  The transparent pass of a synchronization (\<open>transparent_sync\<close> of \<open>src/rust/rlz/src/sync.rs\<close>): the addresses to scan,
  the walk of each address in windows that are halved when the server fails, the part below the seam that commits
  only against a confirmed anchor, and the height that moves at the end. The state is the database with the number of
  requests made. The heights are below \<open>2\<^sup>3\<^sup>2\<close>, so the saturating addition in the width of a window is absorbed
  by the minimum with the end of the range.
\<close>

section \<open>The addresses to scan\<close>

definition unspent_at :: "Db \<Rightarrow> nat \<Rightarrow> bool" where
  "unspent_at db id_taddress \<longleftrightarrow>
    list_ex (\<lambda>n. nr_taddress n = Some id_taddress \<and> nr_pool n = 0 \<and> nr_asset n = None \<and> \<not> is_spent db n) (note_rows db)"

definition newest_change :: "Db \<Rightarrow> nat \<Rightarrow> nat \<Rightarrow> TaddrRow list" where
  "newest_change db account limit =
    take limit (rev (sort_key ta_dindex (filter (\<lambda>a. ta_account a = account \<and> ta_scope a = 1) (taddrs db))))"

definition address_scan_order :: "Db \<Rightarrow> TaddrRow \<Rightarrow> nat" where
  "address_scan_order db a =
    (case find (\<lambda>c. ac_id c = ta_account a) (accounts db) of
       None \<Rightarrow> 1
     | Some c \<Rightarrow> (if ta_dindex a = ac_dindex c then 0 else 1))"

definition scan_rows :: "Db \<Rightarrow> nat \<Rightarrow> nat \<Rightarrow> (nat \<times> string \<times> nat \<times> nat) list" where
  "scan_rows db account limit =
    (let mine = filter (\<lambda>a. ta_account a = account) (taddrs db);
         change_row = (\<lambda>a. (ta_id a, ta_address a, 2 :: nat, ta_dindex a))
     in map (\<lambda>a. (ta_id a, ta_address a, address_scan_order db a, ta_dindex a)) (filter (\<lambda>a. ta_scope a = 0) mine)
        @ map change_row (newest_change db account limit)
        @ map change_row (filter (\<lambda>a. ta_scope a = 1 \<and> unspent_at db (ta_id a)) mine)
        @ map change_row (filter (\<lambda>a. ta_scope a = 1 \<and> ta_owed a \<noteq> None) mine))"

text \<open>The outermost set operation is a \<open>UNION\<close>, which removes every duplicate row.\<close>

definition transparent_addresses_to_scan :: "Db \<Rightarrow> nat \<Rightarrow> nat \<Rightarrow> (nat \<times> string) list" where
  "transparent_addresses_to_scan db account limit =
    map (\<lambda>(i, addr, _, _). (i, addr))
      (sort_key (\<lambda>(_, _, order, dindex). (int order, - int dindex)) (remdups (scan_rows db account limit)))"

section \<open>Walking an address\<close>

datatype SyncFailure =
    Backfill BackfillError
  | Database DbError
  | Reorganised
  | AnchorFailed
  | UndecodableAddress

definition MIN_BACKFILL_WINDOW :: nat where "MIN_BACKFILL_WINDOW = 1000"

fun narrows :: "BackfillError \<Rightarrow> bool" where
  "narrows Fetch = True"
| "narrows (Timeout _ _) = True"
| "narrows WindowFull = True"
| "narrows (DbFailure _) = False"
| "narrows Cancelled = False"

function walk_loop ::
    "Backend \<Rightarrow> nat \<Rightarrow> nat \<Rightarrow> nat \<times> string \<Rightarrow> nat \<Rightarrow> nat \<Rightarrow> nat \<Rightarrow> nat \<Rightarrow> Db \<times> nat \<Rightarrow> SyncFailure option \<times> Db \<times> nat" where
  "walk_loop be account birth row end_height window marker_lo lo st =
    (if end_height < lo then (None, st)
     else
       (let hi = min (lo + (window - 1)) end_height
        in case sync_address_window be account row lo hi st of
             (None, db, k) \<Rightarrow>
               (case advance_address_marker account birth (fst row) marker_lo hi db of
                  Inl e \<Rightarrow> (Some (Database e), db, k)
                | Inr db' \<Rightarrow>
                    (if hi = end_height then (None, db', k)
                     else walk_loop be account birth row end_height window (hi + 1) (hi + 1) (db', k)))
           | (Some e, st') \<Rightarrow>
               (if narrows e \<and> MIN_BACKFILL_WINDOW < window
                then walk_loop be account birth row end_height (max (window div 2) MIN_BACKFILL_WINDOW) marker_lo lo st'
                else (Some (Backfill e), st'))))"
  by pat_completeness auto
termination
  by (relation "measures [\<lambda>(_, _, _, _, e, _, _, lo, _). Suc e - lo, \<lambda>(_, _, _, _, _, w, _, _, _). w]")
    (auto simp: MIN_BACKFILL_WINDOW_def)

declare walk_loop.simps [simp del]

definition walk_windows ::
    "Backend \<Rightarrow> nat \<Rightarrow> nat \<Rightarrow> nat \<times> string \<Rightarrow> nat \<Rightarrow> nat \<Rightarrow> Db \<times> nat \<Rightarrow> SyncFailure option \<times> Db \<times> nat" where
  "walk_windows be account birth row lo end_height st =
    walk_loop be account birth row end_height (u32_sat_add (sat_sub end_height lo) 1) lo lo st"

definition sync_address_range ::
    "Backend \<Rightarrow> nat \<Rightarrow> nat \<times> string \<Rightarrow> nat option \<Rightarrow> nat \<Rightarrow> nat \<Rightarrow> bytes \<Rightarrow> Db \<times> nat \<Rightarrow> SyncFailure option \<times> Db \<times> nat" where
  "sync_address_range be account row marker start_height end_height anchor = (\<lambda>(db, k).
    case get_birth_height db account of
      Inl e \<Rightarrow> (Some (Database e), db, k)
    | Inr birth \<Rightarrow>
        (let lo = max (case marker of None \<Rightarrow> start_height | Some m \<Rightarrow> min start_height (u32_add m 1)) birth
         in case account_seam db account of
              Inl e \<Rightarrow> (Some (Database e), db, k)
            | Inr seam \<Rightarrow>
                (if lo \<le> seam
                 then
                   (case walk_windows be account birth row lo seam (db, k) of
                      (Some e, _, k') \<Rightarrow> (Some e, db, k')
                    | (None, db', k') \<Rightarrow>
                        (case be_anchor be k' end_height of
                           None \<Rightarrow> (Some AnchorFailed, db, Suc k')
                         | Some a \<Rightarrow>
                             (if a \<noteq> anchor then (Some Reorganised, db, Suc k')
                              else walk_windows be account birth row (max lo (seam + 1)) end_height (db', Suc k'))))
                 else walk_windows be account birth row (max lo (seam + 1)) end_height (db, k))))"

section \<open>The pass\<close>

fun sync_addresses ::
    "Backend \<Rightarrow> nat \<Rightarrow> nat \<Rightarrow> bytes \<Rightarrow> (nat \<times> nat \<times> string) list \<Rightarrow> Db \<times> nat \<Rightarrow> SyncFailure option \<times> Db \<times> nat" where
  "sync_addresses be start_height end_height anchor [] st = (None, st)"
| "sync_addresses be start_height end_height anchor ((account, row) # rest) (db, k) =
    (if \<not> be_decodes be (snd row) then (Some UndecodableAddress, db, k)
     else
       (case transparent_backfilled_height db (fst row) of
          Inl e \<Rightarrow> (Some (Database e), db, k)
        | Inr marker \<Rightarrow>
            (case sync_address_range be account row marker start_height end_height anchor (db, k) of
               (Some e, st) \<Rightarrow> (Some e, st)
             | (None, st) \<Rightarrow> sync_addresses be start_height end_height anchor rest st)))"

definition settle_account :: "nat \<Rightarrow> nat \<Rightarrow> Db \<Rightarrow> Db" where
  "settle_account end_height account db =
    db\<lparr>sync_heights := update_where (\<lambda>s. sh_account s = account \<and> sh_pool s = 0) (sh_height_update (\<lambda>_. end_height)) (sync_heights db),
       taddrs := update_where (\<lambda>a. ta_account a = account
           \<and> (case (ta_owed a, ta_backfilled a) of (Some owed, Some m) \<Rightarrow> owed \<le> m | _ \<Rightarrow> False))
         (ta_owed_update (\<lambda>_. None)) (taddrs db)\<rparr>"

definition scanned_addresses :: "Db \<Rightarrow> nat list \<Rightarrow> nat \<Rightarrow> (nat \<times> nat \<times> string) list" where
  "scanned_addresses db accs limit =
    concat (map (\<lambda>a. map (Pair a) (transparent_addresses_to_scan db a limit)) accs)"

definition transparent_sync ::
    "Backend \<Rightarrow> nat list \<Rightarrow> nat \<Rightarrow> nat \<Rightarrow> nat \<Rightarrow> Db \<times> nat \<Rightarrow> SyncFailure option \<times> Db \<times> nat" where
  "transparent_sync be accs start_height end_height limit = (\<lambda>(db, k).
    let addresses = scanned_addresses db accs limit;
        scanned_accounts = filter (\<lambda>a. transparent_addresses_to_scan db a limit \<noteq> []) accs
    in if addresses = [] then (None, db, k)
       else
         (case be_anchor be k end_height of
            None \<Rightarrow> (Some AnchorFailed, db, Suc k)
          | Some anchor \<Rightarrow>
              (case sync_addresses be start_height end_height anchor addresses (db, Suc k) of
                 (Some e, st) \<Rightarrow> (Some e, st)
               | (None, db', k') \<Rightarrow>
                   (case be_anchor be k' end_height of
                      None \<Rightarrow> (Some AnchorFailed, db', Suc k')
                    | Some a \<Rightarrow>
                        (if a \<noteq> anchor then (Some Reorganised, db', Suc k')
                         else (None, fold (settle_account end_height) scanned_accounts db', Suc k'))))))"

section \<open>The scan set\<close>

lemma set_scan: "set (transparent_addresses_to_scan db a limit) = (\<lambda>(i, addr, _, _). (i, addr)) ` set (scan_rows db a limit)"
  by (simp add: transparent_addresses_to_scan_def)

lemma set_newest_change: "set (newest_change db a limit) \<subseteq> {r \<in> set (taddrs db). ta_account r = a \<and> ta_scope r = 1}"
  by (auto simp: newest_change_def dest: in_set_takeD)

text \<open>
  No address that can still receive or owes history falls out of the scan set: every receive address of the
  account is scanned, and so is every change address that is among the newest, still holds an unspent note, or owes a
  catch-up; nothing but addresses of the account is.
\<close>

theorem scan_set_complete:
  "set (transparent_addresses_to_scan db account limit) =
    {(ta_id a, ta_address a) | a. a \<in> set (taddrs db) \<and> ta_account a = account \<and>
      (ta_scope a = 0 \<or> (ta_scope a = 1 \<and> (a \<in> set (newest_change db account limit) \<or> unspent_at db (ta_id a) \<or> (\<exists>owed. ta_owed a = Some owed))))}"
  using set_newest_change [of db account limit]
  by (auto simp: set_scan scan_rows_def Let_def image_Un image_image)

section \<open>What a walk may touch\<close>

lemma advance_marker_frame: "advance_address_marker a b i c t db = Inr db' \<Longrightarrow> window_frame acc lo hi db db'"
  by (auto simp: advance_address_marker_def advance_backfilled_height_def window_frame_def ta_key_def map_update_where)

lemma keys_ok_advance_marker: "advance_address_marker a b i c t db = Inr db' \<Longrightarrow> keys_ok db \<Longrightarrow> keys_ok db'"
  by (auto simp: advance_address_marker_def advance_backfilled_height_def keys_ok_def map_update_where)

text \<open>The ways one round of the loop can go, with the upper end of its window named.\<close>

lemma walk_loop_end: "e < lo \<Longrightarrow> walk_loop be a b row e w m lo st = (None, st)"
  by (subst walk_loop.simps) simp

lemma walk_loop_step:
  assumes "lo \<le> e" "hi = min (lo + (w - 1)) e" "sync_address_window be a row lo hi st = (r, db, k)"
  shows "walk_loop be a b row e w m lo st =
    (case r of
       None \<Rightarrow>
         (case advance_address_marker a b (fst row) m hi db of
            Inl x \<Rightarrow> (Some (Database x), db, k)
          | Inr db' \<Rightarrow> (if hi = e then (None, db', k) else walk_loop be a b row e w (hi + 1) (hi + 1) (db', k)))
     | Some x \<Rightarrow>
         (if narrows x \<and> MIN_BACKFILL_WINDOW < w
          then walk_loop be a b row e (max (w div 2) MIN_BACKFILL_WINDOW) m lo (db, k) else (Some (Backfill x), db, k)))"
proof -
  have "\<not> e < lo" using assms(1) by simp
  then show ?thesis
    by (subst walk_loop.simps)
      (simp only: Let_def if_False assms(2) [symmetric] assms(3) prod.case cong: option.case_cong sum.case_cong)
qed

lemma walk_loop_invariant:
  assumes "I (fst st)"
    and "\<And>lo' hi' st. lo \<le> lo' \<Longrightarrow> hi' \<le> e \<Longrightarrow> I (fst st) \<Longrightarrow> I (fst (snd (sync_address_window be a row lo' hi' st)))"
    and "\<And>c t db db'. advance_address_marker a b (fst row) c t db = Inr db' \<Longrightarrow> I db \<Longrightarrow> I db'"
  shows "I (fst (snd (walk_loop be a b row e w m lo st)))"
  using assms
proof (induction be a b row e w m lo st rule: walk_loop.induct)
  case (1 be a b row e w m lo st)
  show ?case
  proof (cases "e < lo")
    case False
    define hi where "hi = min (lo + (w - 1)) e"
    obtain r db k where w: "sync_address_window be a row lo hi st = (r, db, k)" by (metis prod_cases3)
    have hi: "lo \<le> hi" "hi \<le> e" using False by (simp_all add: hi_def)
    note step = walk_loop_step [OF _ hi_def w, of b m]
    have I: "I db" using 1(4) [of lo hi st] 1(3) w hi by simp
    show ?thesis
    proof (cases r)
      case None
      show ?thesis
      proof (cases "advance_address_marker a b (fst row) m hi db")
        case (Inr db')
        then have I': "I db'" using 1(5) I by blast
        have "I (fst (snd (walk_loop be a b row e w (hi + 1) (hi + 1) (db', k))))" if ne: "hi \<noteq> e"
        proof (rule 1(1) [OF False hi_def w [symmetric] None refl Inr ne])
          show "I (fst (snd (sync_address_window be a row lo' hi' s)))" if "hi + 1 \<le> lo'" "hi' \<le> e" "I (fst s)" for lo' hi' s
            using that hi 1(4) [of lo' hi' s] by simp
        qed (use I' 1(5) in \<open>simp, blast\<close>)
        then show ?thesis using False I' None Inr by (simp add: step)
      qed (use False I None in \<open>simp add: step\<close>)
    next
      case (Some x)
      have "I (fst (snd (walk_loop be a b row e (max (w div 2) MIN_BACKFILL_WINDOW) m lo (db, k))))"
        if "narrows x \<and> MIN_BACKFILL_WINDOW < w"
        by (rule 1(2) [OF False hi_def w [symmetric] Some that]) (use I 1(4,5) in \<open>simp, blast, blast\<close>)
      then show ?thesis using False I Some by (simp add: step)
    qed
  qed (use 1(3) in \<open>simp add: walk_loop_end\<close>)
qed

lemma walk_loop_frame: "window_frame a lo e (fst st) (fst (snd (walk_loop be a b row e w m lo st)))"
proof (rule walk_loop_invariant [where I = "window_frame a lo e (fst st)"])
  fix lo' hi' and st' :: "Db \<times> nat" assume "lo \<le> lo'" "hi' \<le> e" and f: "window_frame a lo e (fst st) (fst st')"
  then have "window_frame a lo e (fst st') (fst (snd (sync_address_window be a row lo' hi' st')))"
    by (intro window_frame_mono [OF sync_address_window_frame])
  with f show "window_frame a lo e (fst st) (fst (snd (sync_address_window be a row lo' hi' st')))" by (rule window_frame_trans)
qed (auto intro: window_frame_trans advance_marker_frame)

lemma walk_windows_frame: "window_frame a lo e (fst st) (fst (snd (walk_windows be a b row lo e st)))"
  unfolding walk_windows_def by (rule walk_loop_frame)

lemma walk_windows_keys: "keys_ok (fst st) \<Longrightarrow> keys_ok (fst (snd (walk_windows be a b row lo e st)))"
  unfolding walk_windows_def
  by (rule walk_loop_invariant [where I = keys_ok]) (auto intro: keys_ok_sync_address_window keys_ok_advance_marker)

section \<open>Completeness against an honest server\<close>

text \<open>
  A chain is the list of its transactions with their heights. A transaction touches an address when it pays it or
  spends an output that does. A server is honest about a chain when every answer it completes holds all the
  transactions of the requested heights that touch the address, which is what \<open>GetTaddressTxids\<close> documents.
\<close>

definition pays :: "TTx \<Rightarrow> nat \<Rightarrow> string \<Rightarrow> bool" where
  "pays t i addr \<longleftrightarrow> i < length (tt_vouts t) \<and> fst (tt_vouts t ! i) = Some addr"

definition touches :: "(nat \<times> TTx) list \<Rightarrow> string \<Rightarrow> TTx \<Rightarrow> bool" where
  "touches chain addr t \<longleftrightarrow> (\<exists>i. pays t i addr) \<or>
    (\<exists>(h, t') \<in> set chain. \<exists>i. pays t' i addr \<and> outpoint (tt_txid t') i \<in> set (tt_vins t))"

definition honest :: "Backend \<Rightarrow> (nat \<times> TTx) list \<Rightarrow> bool" where
  "honest be chain \<longleftrightarrow> (\<forall>k addr lo hi items h t. be_txs be k addr lo hi = Answer items \<longrightarrow>
    (h, t) \<in> set chain \<longrightarrow> lo \<le> h \<longrightarrow> h \<le> hi \<longrightarrow> touches chain addr t \<longrightarrow> Item h t \<in> set items)"

text \<open>
  What has been ingested of a range for one address: a note for every output that pays it, and a spend for every
  note of \<open>base\<close> that a transaction of the range consumes.
\<close>

definition ingested :: "(nat \<times> TTx) list \<Rightarrow> nat \<Rightarrow> string \<Rightarrow> nat \<Rightarrow> nat \<Rightarrow> NoteRow list \<Rightarrow> Db \<Rightarrow> bool" where
  "ingested chain account addr lo hi base db \<longleftrightarrow>
    (\<forall>(h, t) \<in> set chain. lo \<le> h \<and> h \<le> hi \<and> touches chain addr t \<longrightarrow>
      (\<forall>i. pays t i addr \<longrightarrow> has_note db account (outpoint (tt_txid t) i)) \<and>
      (\<forall>n \<in> set base. nr_account n = account \<and> nr_nullifier n \<in> set (tt_vins t) \<longrightarrow> is_spent db n))"

lemma ingested_mono:
  assumes "ingested chain a addr lo hi base db" "window_frame b lo' hi' db db'"
  shows "ingested chain a addr lo hi base db'"
  using assms(1) frame_has_note [OF assms(2)] frame_spent [OF assms(2)] unfolding ingested_def by blast

lemma ingested_join:
  "ingested chain a addr lo m base db \<Longrightarrow> ingested chain a addr (Suc m) hi base db \<Longrightarrow> ingested chain a addr lo hi base db"
  unfolding ingested_def by (fastforce simp: not_le Suc_le_eq)

lemma ingested_narrow:
  "ingested chain a addr lo hi base db \<Longrightarrow> lo \<le> lo' \<Longrightarrow> ingested chain a addr lo' hi base db"
  unfolding ingested_def by fastforce

lemma ingested_empty [simp]: "hi < lo \<Longrightarrow> ingested chain a addr lo hi base db"
  by (auto simp: ingested_def)

lemma vout_rows_pays: "pays t i addr \<Longrightarrow> \<exists>v. (tt_txid t, h, outpoint (tt_txid t) i, v) \<in> set (vout_rows addr h t)"
proof -
  assume p: "pays t i addr"
  then have "(i, tt_vouts t ! i) \<in> set (filter (\<lambda>(_, to, _). to = Some addr) (enumerate 0 (tt_vouts t)))"
    by (cases "tt_vouts t ! i") (auto simp: pays_def in_set_enumerate_eq)
  then show ?thesis
    by (cases "tt_vouts t ! i") (auto simp: vout_rows_def intro!: exI [of _ "as_i64 (snd (tt_vouts t ! i))"] image_eqI)
qed

lemma window_ingests:
  assumes "honest be chain" "sync_address_window be a row lo hi st = (None, db', k')" "keys_ok (fst st)"
    and "set base \<subseteq> set (note_rows (fst st))"
  shows "ingested chain a (snd row) lo hi base db'"
proof -
  obtain db k where st: "st = (db, k)" by (cases st)
  obtain items rows where it: "be_txs be k (snd row) lo hi = Answer items"
    and dr: "drain_transparent_window (snd row) items lo hi = Inr rows"
    and f: "fill_missing_block_times be (lo, hi) (heights_of_transactions_without_time
        (write_transparent_window a (fst row) rows (wr_transactions rows \<noteq> []) db) (Some a) lo hi)
        (write_transparent_window a (fst row) rows (wr_transactions rows \<noteq> []) db, Suc k) = (None, db', k')"
    using assms(2) by (auto simp: st sync_address_window_def Let_def split: Reply.splits sum.splits)
  let ?w = "write_transparent_window a (fst row) rows (wr_transactions rows \<noteq> []) db"
  have within: "rows_within lo hi rows" using dr drain_within by (simp add: drain_transparent_window_def)
  have "ingested chain a (snd row) lo hi base ?w"
    unfolding ingested_def
  proof (clarify, intro conjI allI ballI impI)
    fix h t assume c: "(h, t) \<in> set chain" "lo \<le> h" "h \<le> hi" "touches chain (snd row) t"
    then have "Item h t \<in> set items" using assms(1) it unfolding honest_def by blast
    note d = drain_has_item [OF dr [unfolded drain_transparent_window_def] this]
    show "has_note ?w a (outpoint (tt_txid t) i)" if p: "pays t i (snd row)" for i
      using vout_rows_pays [OF p, of h] d write_has_note by blast
    show "is_spent ?w n" if n: "n \<in> set base" and e: "nr_account n = a \<and> nr_nullifier n \<in> set (tt_vins t)" for n
    proof (rule write_spends)
      show "(tt_txid t, h, nr_nullifier n) \<in> set (wr_vins rows)" using d e by (auto simp: vin_rows_def)
      show "n \<in> set (note_rows ?w)" using n assms(4) st frame_note [OF write_frame [OF within]] by auto
    qed (use assms(3) st d e in auto)
  qed
  then show ?thesis using ingested_mono fill_frame [of a 0 0 "(?w, Suc k)" be "(lo, hi)"] f by (metis fst_conv snd_conv)
qed

lemma walk_loop_ingests:
  assumes "walk_loop be a b row e w m lo st = (None, db', k')" "honest be chain" "keys_ok (fst st)"
    and "set base \<subseteq> set (note_rows (fst st))"
  shows "ingested chain a (snd row) lo e base db'"
  using assms
proof (induction be a b row e w m lo st rule: walk_loop.induct)
  case (1 be a b row e w m lo st)
  show ?case
  proof (cases "e < lo")
    case False
    define hi where "hi = min (lo + (w - 1)) e"
    obtain r db k where w: "sync_address_window be a row lo hi st = (r, db, k)" by (metis prod_cases3)
    have hi: "lo \<le> hi" "hi \<le> e" using False by (simp_all add: hi_def)
    note run = 1(3) [unfolded walk_loop_step [OF hi(1) [THEN order_trans, OF hi(2)] hi_def w]]
    have frame: "window_frame a lo hi (fst st) db" and keys: "keys_ok db"
      using sync_address_window_frame [of a lo hi st be row] keys_ok_sync_address_window [OF 1(5), of be a row lo hi] w by simp_all
    have base: "set base \<subseteq> set (note_rows db)" using 1(6) frame_note [OF frame] by blast
    show ?thesis
    proof (cases r)
      case None
      then obtain d1 where adv: "advance_address_marker a b (fst row) m hi db = Inr d1"
        and rest: "(if hi = e then (None, d1, k) else walk_loop be a b row e w (hi + 1) (hi + 1) (d1, k)) = (None, db', k')"
        using run by (auto split: sum.splits)
      have f1: "window_frame a 0 0 db d1" by (rule advance_marker_frame [OF adv])
      have now: "ingested chain a (snd row) lo hi base d1"
        using ingested_mono [OF window_ingests [OF 1(4) w [unfolded None] 1(5,6)] f1] .
      show ?thesis
      proof (cases "hi = e")
        case True
        then show ?thesis using now rest by simp
      next
        case ne: False
        then have r': "walk_loop be a b row e w (hi + 1) (hi + 1) (d1, k) = (None, db', k')" using rest by simp
        have "keys_ok d1" "set base \<subseteq> set (note_rows d1)"
          using keys_ok_advance_marker [OF adv keys] base frame_note [OF f1] by blast+
        then have "ingested chain a (snd row) (hi + 1) e base db'"
          using 1(1) [OF False hi_def w [symmetric] None refl adv ne r' 1(4)] by simp
        moreover have "ingested chain a (snd row) lo hi base db'"
          using ingested_mono [OF now] walk_loop_frame [of a "hi + 1" e "(d1, k)" be b row w "hi + 1"] r' by simp
        ultimately show ?thesis using ingested_join by simp
      qed
    next
      case (Some x)
      then have n: "narrows x \<and> MIN_BACKFILL_WINDOW < w" using run by (auto split: if_splits)
      then show ?thesis using run Some 1(2) [OF False hi_def w [symmetric] Some n _ 1(4)] keys base by simp
    qed
  qed simp
qed

lemma walk_windows_ingests:
  assumes "walk_windows be a b row lo e (db, k) = (None, db', k')" "honest be chain" "keys_ok db" "set base \<subseteq> set (note_rows db)"
  shows "ingested chain a (snd row) lo e base db'" "keys_ok db'" "window_frame a lo e db db'"
  using walk_loop_ingests [OF assms(1) [unfolded walk_windows_def] assms(2)] assms
    walk_windows_keys [of "(db, k)" be a b row lo e] walk_windows_frame [of a lo e "(db, k)" be b row] by auto

section \<open>A whole pass\<close>

text \<open>What a pass over several accounts may touch before its last step.\<close>

definition pass_frame :: "nat list \<Rightarrow> nat \<Rightarrow> Db \<Rightarrow> Db \<Rightarrow> bool" where
  "pass_frame accs hi db db' \<longleftrightarrow>
    appended (\<lambda>n. nr_account n \<in> set accs \<and> nr_pool n = 0 \<and> nr_height n \<le> hi) (note_rows db) (note_rows db') \<and>
    appended (\<lambda>s. sp_account s \<in> set accs \<and> sp_height s \<le> hi) (spends db) (spends db') \<and>
    map ta_key (taddrs db') = map ta_key (taddrs db) \<and>
    sync_heights db' = sync_heights db \<and> accounts db' = accounts db \<and> witnesses db' = witnesses db \<and>
    reservations db' = reservations db \<and> props db' = props db"

lemma pass_frame_refl [simp, intro]: "pass_frame accs hi db db"
  by (simp add: pass_frame_def)

lemma pass_frame_trans: "pass_frame accs hi x y \<Longrightarrow> pass_frame accs hi y z \<Longrightarrow> pass_frame accs hi x z"
  unfolding pass_frame_def by (auto intro: appended_trans)

lemma window_pass_frame: "window_frame a lo hi x y \<Longrightarrow> a \<in> set accs \<Longrightarrow> hi \<le> hi' \<Longrightarrow> pass_frame accs hi' x y"
  unfolding window_frame_def pass_frame_def by (auto elim!: appended_mono)

lemma ingested_pass:
  assumes "ingested chain a addr lo hi base db" "pass_frame accs e db db'"
  shows "ingested chain a addr lo hi base db'"
proof -
  have "has_note db b nf \<Longrightarrow> has_note db' b nf" "is_spent db n \<Longrightarrow> is_spent db' n" for b nf n
    using assms(2) by (auto simp: pass_frame_def has_note_def is_spent_def appended_iff)
  then show ?thesis using assms(1) unfolding ingested_def by blast
qed

lemma sync_address_range_cases:
  assumes "sync_address_range be a row marker start e anchor (db, k) = (r, db', k')"
  obtains (unchanged) "db' = db" "r \<noteq> None"
  | (above) b lo where "walk_windows be a b row lo e (db, k) = (r, db', k')"
      "\<And>s. get_sync_height db a = Some s \<Longrightarrow> s < lo"
  | (both) b lo seam d1 k1 where "get_sync_height db a = Some seam" "walk_windows be a b row lo seam (db, k) = (None, d1, k1)"
      "be_anchor be k1 e = Some anchor" "walk_windows be a b row (seam + 1) e (d1, Suc k1) = (r, db', k')"
proof -
  consider (err) x where "get_birth_height db a = Inl x" | (seamless) x where "account_seam db a = Inl x"
    | (ok) b seam where "get_birth_height db a = Inr b" "account_seam db a = Inr seam"
    by (metis sum.exhaust)
  then show thesis
  proof cases
    case (ok b seam)
    have s: "get_sync_height db a = Some seam" using ok(2) by (simp add: account_seam_def split: option.splits)
    define lo where "lo = max (case marker of None \<Rightarrow> start | Some m \<Rightarrow> min start (u32_add m 1)) b"
    note run = assms [unfolded sync_address_range_def Let_def prod.case ok sum.case lo_def [symmetric]]
    show thesis
    proof (cases "lo \<le> seam")
      case True
      obtain q d1 k1 where one: "walk_windows be a b row lo seam (db, k) = (q, d1, k1)" by (metis prod_cases3)
      have "max lo (seam + 1) = seam + 1" using True by simp
      then show thesis using run True one unchanged both [OF s, of b lo d1 k1]
        by (cases q) (auto split: option.splits if_splits)
    next
      case False
      then have "max lo (seam + 1) = lo" by simp
      then show thesis using run False above [of b lo] s by simp
    qed
  qed (use assms unchanged in \<open>auto simp: sync_address_range_def Let_def split: sum.splits\<close>)
qed

lemma sync_address_range_pass:
  assumes "a \<in> set accs" "\<And>s. get_sync_height db a = Some s \<Longrightarrow> s \<le> e"
    and "sync_address_range be a row marker start e anchor (db, k) = (r, db', k')"
  shows "pass_frame accs e db db' \<and> (keys_ok db \<longrightarrow> keys_ok db')"
proof -
  have w: "pass_frame accs e x y \<and> (keys_ok x \<longrightarrow> keys_ok y)"
    if "walk_windows be a b row lo hi (x, i) = (q, y, j)" "hi \<le> e" for b lo hi x i q y j
    using that assms(1) window_pass_frame [OF walk_windows_frame [of a lo hi "(x, i)" be b row]]
      walk_windows_keys [of "(x, i)" be a b row lo hi] by simp
  from assms(3) show ?thesis
  proof (cases rule: sync_address_range_cases)
    case (above b lo)
    then show ?thesis using w by blast
  next
    case (both b lo seam d1 k1)
    then show ?thesis using w [OF both(2)] w [OF both(4)] assms(2) pass_frame_trans by blast
  qed simp
qed

lemma sync_address_range_ingests:
  assumes "sync_address_range be a row marker start e anchor (db, k) = (None, db', k')" "honest be chain" "keys_ok db"
    and "set base \<subseteq> set (note_rows db)" "get_birth_height db a = Inr birth"
  shows "ingested chain a (snd row) (max start birth) e base db'"
proof -
  define lo where "lo = max (case marker of None \<Rightarrow> start | Some m \<Rightarrow> min start (u32_add m 1)) birth"
  have lo: "lo \<le> max start birth" by (auto simp: lo_def split: option.split)
  obtain seam where seam: "account_seam db a = Inr seam"
    using assms(1,5) by (cases "account_seam db a") (auto simp: sync_address_range_def Let_def)
  note run = assms(1) [unfolded sync_address_range_def Let_def prod.case assms(5) sum.case lo_def [symmetric] seam]
  have "ingested chain a (snd row) lo e base db'"
  proof (cases "lo \<le> seam")
    case True
    then obtain d1 k1 where one: "walk_windows be a birth row lo seam (db, k) = (None, d1, k1)"
      and two: "walk_windows be a birth row (max lo (seam + 1)) e (d1, Suc k1) = (None, db', k')"
      using run by (auto split: prod.splits option.splits if_splits)
    note w1 = walk_windows_ingests [OF one assms(2-4)]
    have "set base \<subseteq> set (note_rows d1)" using assms(4) frame_note [OF w1(3)] by blast
    note w2 = walk_windows_ingests [OF two assms(2) w1(2) this]
    show ?thesis using ingested_join [OF ingested_mono [OF w1(1) w2(3)]] w2(1) True by (simp add: max_def)
  next
    case False
    then have "max lo (seam + 1) = lo" by simp
    then show ?thesis using run False walk_windows_ingests(1) [OF _ assms(2-4)] by simp
  qed
  then show ?thesis using lo by (rule ingested_narrow)
qed

lemma sync_addresses_invariant:
  assumes "sync_addresses be start e anchor rows (db, k) = (r, db', k')" "I db"
    and "\<And>a row marker d n q d' n'. sync_address_range be a row marker start e anchor (d, n) = (q, d', n') \<Longrightarrow> I d \<Longrightarrow> I d'"
  shows "I db'"
  using assms(1,2)
proof (induction rows arbitrary: db k)
  case (Cons x rows)
  obtain a row where x: "x = (a, row)" by (cases x)
  show ?case
  proof (cases "be_decodes be (snd row) \<and> (\<exists>marker. transparent_backfilled_height db (fst row) = Inr marker)")
    case True
    then obtain marker where m: "transparent_backfilled_height db (fst row) = Inr marker" by blast
    obtain q d1 k1 where one: "sync_address_range be a row marker start e anchor (db, k) = (q, d1, k1)" by (metis prod_cases3)
    then show ?thesis using Cons assms(3) [OF one] True m by (cases q) (auto simp: x)
  qed (use Cons.prems in \<open>auto simp: x split: if_splits sum.splits\<close>)
qed simp

lemma sync_addresses_pass:
  assumes "sync_addresses be start e anchor rows (db, k) = (r, db', k')" "fst ` set rows \<subseteq> set accs"
    and "\<And>a s. a \<in> set accs \<Longrightarrow> get_sync_height db a = Some s \<Longrightarrow> s \<le> e"
  shows "pass_frame accs e db db' \<and> (keys_ok db \<longrightarrow> keys_ok db')"
  using assms
proof (induction rows arbitrary: db k)
  case (Cons x rows)
  obtain a row where x: "x = (a, row)" by (cases x)
  show ?case
  proof (cases "be_decodes be (snd row) \<and> (\<exists>m. transparent_backfilled_height db (fst row) = Inr m)")
    case True
    then obtain m where m: "transparent_backfilled_height db (fst row) = Inr m" by blast
    obtain q d1 k1 where one: "sync_address_range be a row m start e anchor (db, k) = (q, d1, k1)" by (metis prod_cases3)
    have f: "pass_frame accs e db d1 \<and> (keys_ok db \<longrightarrow> keys_ok d1)"
      by (rule sync_address_range_pass [OF _ _ one]) (use Cons.prems x in auto)
    show ?thesis
    proof (cases q)
      case None
      then have "sync_addresses be start e anchor rows (d1, k1) = (r, db', k')" using Cons.prems(1) x True m one by simp
      moreover have "get_sync_height d1 b = get_sync_height db b" for b using f by (simp add: pass_frame_def get_sync_height_def)
      ultimately show ?thesis using Cons.IH [of d1 k1] Cons.prems(2,3) f pass_frame_trans by auto
    qed (use Cons.prems(1) x True m one f in auto)
  qed (use Cons.prems(1) x in \<open>auto split: sum.splits if_splits\<close>)
qed simp

lemma sync_addresses_ingests:
  assumes "sync_addresses be start e anchor rows (db, k) = (None, db', k')" "fst ` set rows \<subseteq> set accs"
    and "\<And>a s. a \<in> set accs \<Longrightarrow> get_sync_height db a = Some s \<Longrightarrow> s \<le> e"
    and "honest be chain" "keys_ok db" "set base \<subseteq> set (note_rows db)"
    and "(a, row) \<in> set rows" "get_birth_height db a = Inr birth"
  shows "ingested chain a (snd row) (max start birth) e base db'"
  using assms
proof (induction rows arbitrary: db k)
  case (Cons x rows)
  obtain c rw where x: "x = (c, rw)" by (cases x)
  obtain m d1 k1 where one: "sync_address_range be c rw m start e anchor (db, k) = (None, d1, k1)"
    and rest: "sync_addresses be start e anchor rows (d1, k1) = (None, db', k')"
    using Cons.prems(1) x by (auto split: if_splits sum.splits option.splits prod.splits)
  have f: "pass_frame accs e db d1 \<and> (keys_ok db \<longrightarrow> keys_ok d1)"
    by (rule sync_address_range_pass [OF _ _ one]) (use Cons.prems(2,3) x in auto)
  have same: "get_sync_height d1 b = get_sync_height db b" "get_birth_height d1 b = get_birth_height db b" for b
    using f by (simp_all add: pass_frame_def get_sync_height_def get_birth_height_def)
  have base: "set base \<subseteq> set (note_rows d1)" using Cons.prems(6) f appended_set unfolding pass_frame_def by blast
  show ?case
  proof (cases "(a, row) = x")
    case True
    then have "ingested chain a (snd row) (max start birth) e base d1"
      using sync_address_range_ingests [OF _ Cons.prems(4-6,8)] one x by simp
    moreover have "pass_frame accs e d1 db'"
      using sync_addresses_pass [OF rest, of accs] Cons.prems(2,3) same by auto
    ultimately show ?thesis by (rule ingested_pass)
  next
    case False
    then show ?thesis using Cons.IH [OF rest] Cons.prems same base f by auto
  qed
qed simp

lemma settle_fields [simp]:
  "note_rows (fold (settle_account e) accs db) = note_rows db" "spends (fold (settle_account e) accs db) = spends db"
  by (induction accs arbitrary: db) (simp_all add: settle_account_def)

lemma settle_step:
  assumes "b = a \<or> list_all (\<lambda>s. sh_account s = a \<and> sh_pool s = 0 \<longrightarrow> sh_height s = e) (sync_heights db)"
  shows "list_all (\<lambda>s. sh_account s = a \<and> sh_pool s = 0 \<longrightarrow> sh_height s = e) (sync_heights (settle_account e b db))"
proof -
  have "list_all (\<lambda>s. sh_account s = a \<and> sh_pool s = 0 \<longrightarrow> sh_height s = e)
      (update_where (\<lambda>s. sh_account s = b \<and> sh_pool s = 0) (sh_height_update (\<lambda>_. e)) t)"
    if "b = a \<or> list_all (\<lambda>s. sh_account s = a \<and> sh_pool s = 0 \<longrightarrow> sh_height s = e) t" for t :: "SyncHeightRow list"
    using that by (induction t) (auto simp: update_where_def)
  then show ?thesis using assms by (simp add: settle_account_def)
qed

lemma settle_heights:
  "a \<in> set accs \<or> list_all (\<lambda>s. sh_account s = a \<and> sh_pool s = 0 \<longrightarrow> sh_height s = e) (sync_heights db) \<Longrightarrow>
   list_all (\<lambda>s. sh_account s = a \<and> sh_pool s = 0 \<longrightarrow> sh_height s = e) (sync_heights (fold (settle_account e) accs db))"
proof (induction accs arbitrary: db)
  case (Cons b accs)
  then show ?case using settle_step [of b a e db] by (cases "b = a") auto
qed simp

lemma scanned_addresses_accounts: "fst ` set (scanned_addresses db accs limit) \<subseteq> set accs"
  by (auto simp: scanned_addresses_def)


lemma transparent_sync_cases:
  assumes "transparent_sync be accs start e limit (db, k) = (r, db', k')"
  obtains (same) "db' = db"
  | (walked) anchor q d1 k1 where "sync_addresses be start e anchor (scanned_addresses db accs limit) (db, Suc k) = (q, d1, k1)"
      "db' = (if r = None then fold (settle_account e) (filter (\<lambda>a. transparent_addresses_to_scan db a limit \<noteq> []) accs) d1 else d1)"
proof (cases "scanned_addresses db accs limit = [] \<or> be_anchor be k e = None")
  case True
  then show thesis using assms same by (auto simp: transparent_sync_def Let_def split: if_splits)
next
  case False
  then obtain anchor where a: "be_anchor be k e = Some anchor" by auto
  obtain q d1 k1 where run: "sync_addresses be start e anchor (scanned_addresses db accs limit) (db, Suc k) = (q, d1, k1)" by (metis prod_cases3)
  show thesis
  proof (rule walked [OF run])
    show "db' = (if r = None then fold (settle_account e) (filter (\<lambda>a. transparent_addresses_to_scan db a limit \<noteq> []) accs) d1 else d1)"
      using assms False a run
      by (cases q; cases "be_anchor be k1 e") (auto simp: transparent_sync_def Let_def split: if_splits)
  qed
qed

text \<open>
  C26. Whatever the server does, a transparent pass stays within its bounds. New notes and spends belong to the accounts
  asked for and lie at or below the end of the range, the keys of the tables hold, and unless the pass succeeds no
  synced height moves and no catch-up debt is cleared.
\<close>

theorem transparent_sync_confined:
  assumes "transparent_sync be accs start e limit (db, k) = (r, db', k')"
    and "\<forall>a \<in> set accs. \<forall>s. get_sync_height db a = Some s \<longrightarrow> s \<le> e"
  shows "appended (\<lambda>n. nr_account n \<in> set accs \<and> nr_pool n = 0 \<and> nr_height n \<le> e) (note_rows db) (note_rows db')
    \<and> appended (\<lambda>s. sp_account s \<in> set accs \<and> sp_height s \<le> e) (spends db) (spends db')
    \<and> (keys_ok db \<longrightarrow> keys_ok db')
    \<and> (r \<noteq> None \<longrightarrow> sync_heights db' = sync_heights db \<and> map ta_owed (taddrs db') = map ta_owed (taddrs db))"
proof -
  have keys: "keys_ok d \<Longrightarrow> keys_ok (fold (settle_account e) as d)" for d as
    by (rule keys_ok_fold) (simp_all add: settle_account_def keys_ok_def map_update_where)
  have owed: "map ta_owed (taddrs y) = map ta_owed (taddrs x)" if "pass_frame accs e x y" for x y
  proof -
    have "map ta_owed t = map (\<lambda>(_, _, _, _, _, o'). o') (map ta_key t)" for t by (induction t) (simp_all add: ta_key_def)
    moreover have "map ta_key (taddrs y) = map ta_key (taddrs x)" using that by (simp add: pass_frame_def)
    ultimately show ?thesis by (simp only:)
  qed
  from assms(1) show ?thesis
  proof (cases rule: transparent_sync_cases)
    case (walked anchor q d1 k1)
    have f: "pass_frame accs e db d1 \<and> (keys_ok db \<longrightarrow> keys_ok d1)"
      by (rule sync_addresses_pass [OF walked(1) scanned_addresses_accounts]) (use assms(2) in auto)
    show ?thesis
    proof (cases r)
      case None
      then show ?thesis using walked(2) f keys by (simp add: pass_frame_def)
    next
      case (Some x)
      then show ?thesis using walked(2) f owed by (simp add: pass_frame_def)
    qed
  qed simp
qed


end
