(* ===== verification/TransparentLive.thy ===== *)
theory TransparentLive
  imports TransparentSync
begin

text \<open>
  The transparent pass reaches its end when the server answers, and concrete runs of it.
\<close>

definition responsive :: "Backend \<Rightarrow> nat \<Rightarrow> bool" where
  "responsive be e \<longleftrightarrow>
    (\<forall>k addr lo hi. \<exists>items rows. be_txs be k addr lo hi = Answer items \<and> drain_transparent_window addr items lo hi = Inr rows) \<and>
    (\<forall>k h. \<exists>hash time. be_block be k h = Block hash time) \<and>
    (\<exists>anchor. \<forall>k. be_anchor be k e = Some anchor) \<and> (\<forall>addr. be_decodes be addr)"

lemma fill_responsive:
  assumes "\<forall>k h. \<exists>hash time. be_block be k h = Block hash time"
  shows "fst (fill_missing_block_times be w hs st) = None"
proof (induction hs arbitrary: st)
  case (Cons h hs)
  obtain db k where st: "st = (db, k)" by (cases st)
  obtain x t where "be_block be k h = Block x t" using assms by blast
  then show ?case using Cons.IH by (simp add: st)
qed simp

lemma window_responsive:
  assumes "responsive be e"
  shows "fst (sync_address_window be a row lo hi st) = None"
proof -
  obtain db k where st: "st = (db, k)" by (cases st)
  obtain items rows where "be_txs be k (snd row) lo hi = Answer items" "drain_transparent_window (snd row) items lo hi = Inr rows"
    using assms unfolding responsive_def by blast
  then show ?thesis using fill_responsive assms by (simp add: st sync_address_window_def Let_def responsive_def)
qed

definition has_taddr :: "Db \<Rightarrow> nat \<Rightarrow> bool" where
  "has_taddr db i \<longleftrightarrow> i \<in> fst ` set (map ta_key (taddrs db))"

lemma has_taddr_marker: "has_taddr db i \<Longrightarrow> \<exists>db'. advance_address_marker a b i c t db = Inr db'"
  and has_taddr_backfilled: "has_taddr db i \<Longrightarrow> \<exists>m. transparent_backfilled_height db i = Inr m"
proof -
  assume "has_taddr db i"
  then have "find (\<lambda>r. ta_id r = i) (taddrs db) \<noteq> None" unfolding has_taddr_def find_None_iff by (auto simp: ta_key_def)
  then show "\<exists>db'. advance_address_marker a b i c t db = Inr db'" "\<exists>m. transparent_backfilled_height db i = Inr m"
    by (auto simp: advance_address_marker_def taddress_scope_dindex_def transparent_backfilled_height_def)
qed

lemma frame_taddr: "window_frame a lo hi x y \<Longrightarrow> has_taddr y i = has_taddr x i"
  and pass_taddr: "pass_frame accs hi x y \<Longrightarrow> has_taddr y i = has_taddr x i"
  by (simp_all add: window_frame_def pass_frame_def has_taddr_def)

lemma walk_responsive:
  assumes "responsive be e'" "has_taddr (fst st) (fst row)"
  shows "fst (walk_loop be a b row e w m lo st) = None"
  using assms
proof (induction be a b row e w m lo st rule: walk_loop.induct)
  case (1 be a b row e w m lo st)
  show ?case
  proof (cases "e < lo")
    case False
    define hi where "hi = min (lo + (w - 1)) e"
    obtain db k where w: "sync_address_window be a row lo hi st = (None, db, k)"
      using window_responsive [OF 1(3)] by (metis prod.collapse)
    have le: "lo \<le> e" using False by simp
    have "window_frame a lo hi (fst st) db" using sync_address_window_frame [of a lo hi st be row] w by simp
    then obtain db' where adv: "advance_address_marker a b (fst row) m hi db = Inr db'"
      using has_taddr_marker frame_taddr 1(4) by blast
    have row: "has_taddr db' (fst row)"
      using frame_taddr [OF advance_marker_frame [OF adv, of a 0 0]] \<open>window_frame a lo hi (fst st) db\<close> frame_taddr 1(4) by blast
    have "fst (walk_loop be a b row e w (hi + 1) (hi + 1) (db', k)) = None" if "hi \<noteq> e"
      using 1(1) [OF False hi_def w [symmetric] refl refl adv that 1(3)] row by simp
    then show ?thesis using adv by (simp add: walk_loop_step [OF le hi_def w])
  qed (simp add: walk_loop_end)
qed

lemma range_responsive:
  assumes "responsive be e" "\<forall>k. be_anchor be k e = Some anchor" "has_taddr db (fst row)"
    and "get_birth_height db a = Inr birth" "get_sync_height db a = Some seam"
  shows "fst (sync_address_range be a row marker start e anchor (db, k)) = None"
proof -
  have s: "account_seam db a = Inr seam" using assms(5) by (simp add: account_seam_def)
  have w: "\<exists>d j. walk_windows be a b row lo hi (x, i) = (None, d, j) \<and> has_taddr d (fst row)" if "has_taddr x (fst row)" for b lo hi x i
    using walk_responsive [OF assms(1), of "(x, i)" row] that walk_windows_frame [of a lo hi "(x, i)" be b row] frame_taddr
    unfolding walk_windows_def by (metis fst_conv prod.collapse snd_conv)
  define lo where "lo = max (case marker of None \<Rightarrow> start | Some m \<Rightarrow> min start (u32_add m 1)) birth"
  obtain d1 k1 where one: "walk_windows be a birth row lo seam (db, k) = (None, d1, k1)" and t: "has_taddr d1 (fst row)"
    using w [OF assms(3)] by blast
  show ?thesis
    using w [OF t, of birth "max lo (seam + 1)" e "Suc k1"] w [OF assms(3), of birth "max lo (seam + 1)" e k] one assms(2)
    unfolding sync_address_range_def Let_def prod.case assms(4) sum.case lo_def [symmetric] s by auto
qed

lemma addresses_responsive:
  assumes "responsive be e" "\<forall>k. be_anchor be k e = Some anchor"
    and "\<And>a row. (a, row) \<in> set rows \<Longrightarrow> a \<in> set accs \<and> has_taddr db (fst row)"
    and "\<And>a. a \<in> set accs \<Longrightarrow> \<exists>birth seam. get_birth_height db a = Inr birth \<and> get_sync_height db a = Some seam \<and> seam \<le> e"
  shows "fst (sync_addresses be start e anchor rows (db, k)) = None"
  using assms(3,4)
proof (induction rows arbitrary: db k)
  case (Cons x rows)
  obtain a row where x: "x = (a, row)" by (cases x)
  obtain birth seam where b: "get_birth_height db a = Inr birth" "get_sync_height db a = Some seam" "seam \<le> e"
    using Cons.prems x by (meson list.set_intros(1))
  obtain m where m: "transparent_backfilled_height db (fst row) = Inr m" using has_taddr_backfilled Cons.prems(1) x by fastforce
  obtain d1 k1 where one: "sync_address_range be a row m start e anchor (db, k) = (None, d1, k1)"
    using range_responsive [OF assms(1,2) _ b(1,2)] Cons.prems(1) x by (metis list.set_intros(1) prod.collapse)
  have "a \<in> set accs" using Cons.prems(1) [of a row] x by simp
  then have f: "pass_frame accs e db d1" using sync_address_range_pass [OF _ _ one, of accs] b(2,3) by simp
  have "fst (sync_addresses be start e anchor rows (d1, k1)) = None"
  proof (rule Cons.IH)
    show "a' \<in> set accs \<and> has_taddr d1 (fst row')" if "(a', row') \<in> set rows" for a' row'
      using Cons.prems(1) that pass_taddr [OF f] by (meson list.set_intros(2))
    show "\<exists>birth seam. get_birth_height d1 c = Inr birth \<and> get_sync_height d1 c = Some seam \<and> seam \<le> e" if "c \<in> set accs" for c
      using Cons.prems(2) [OF that] f by (simp add: pass_frame_def get_birth_height_def get_sync_height_def)
  qed
  then show ?case using assms(1) x m one by (simp add: responsive_def)
qed simp

lemma transparent_sync_returns:
  assumes "responsive be e"
    and "\<forall>a \<in> set accs. \<exists>birth seam. get_birth_height db a = Inr birth \<and> get_sync_height db a = Some seam \<and> seam \<le> e"
  shows "\<exists>db' k'. transparent_sync be accs start e limit (db, k) = (None, db', k')"
proof (cases "scanned_addresses db accs limit = []")
  case True
  then show ?thesis by (simp add: transparent_sync_def Let_def)
next
  case False
  obtain anchor where a: "\<forall>k. be_anchor be k e = Some anchor" using assms(1) by (auto simp: responsive_def)
  have rows: "c \<in> set accs \<and> has_taddr db (fst row)" if "(c, row) \<in> set (scanned_addresses db accs limit)" for c row
  proof -
    have "row \<in> set (transparent_addresses_to_scan db c limit)" "c \<in> set accs" using that by (auto simp: scanned_addresses_def)
    moreover have "fst row \<in> ta_id ` set (taddrs db)" if "row \<in> set (transparent_addresses_to_scan db c limit)"
      using that set_newest_change [of db c limit] by (auto simp: set_scan scan_rows_def Let_def)
    ultimately show ?thesis by (force simp: has_taddr_def ta_key_def image_image)
  qed
  obtain d1 k1 where "sync_addresses be start e anchor (scanned_addresses db accs limit) (db, Suc k) = (None, d1, k1)"
    using addresses_responsive [OF assms(1) a rows] assms(2) by (metis prod.collapse)
  then show ?thesis using False a by (simp add: transparent_sync_def Let_def)
qed


section \<open>Concrete runs\<close>

text \<open>One payment of 9000 to the address \<open>t1\<close> at height 130, and a server that knows it.\<close>

definition ex_pay :: TTx where
  "ex_pay = \<lparr>tt_txid = [7], tt_vins = [], tt_vouts = [(Some ''t1'', 9000)]\<rparr>"

definition ex_chain :: "(nat \<times> TTx) list" where
  "ex_chain = [(130, ex_pay)]"

definition ex_backend :: Backend where
  "ex_backend = \<lparr>be_txs = (\<lambda>_ _ lo hi. Answer (if lo \<le> 130 \<and> 130 \<le> hi then [Item 130 ex_pay] else [])),
     be_block = (\<lambda>_ _. Block [] 1), be_anchor = (\<lambda>_ _. Some [1]), be_decodes = (\<lambda>_. True)\<rparr>"

definition ex_tdb :: Db where
  "ex_tdb = ex_db\<lparr>taddrs := [ex_taddr]\<rparr>"

lemma ex_honest: "honest ex_backend ex_chain"
  by (auto simp: honest_def ex_backend_def ex_chain_def split: if_splits)

lemma ex_responsive: "responsive ex_backend e"
proof -
  have "\<exists>rows. drain_transparent_window addr (if lo \<le> 130 \<and> 130 \<le> hi then [Item 130 ex_pay] else []) lo hi = Inr rows" for addr lo hi
    by (simp add: drain_transparent_window_def ex_pay_def no_rows_def vin_rows_def vout_rows_def MAX_BUFFERED_TXS_def
        MAX_BUFFERED_VINS_def MAX_BUFFERED_NOTES_def Let_def)
  then show ?thesis by (simp add: responsive_def ex_backend_def)
qed

lemma ex_tdb_facts: "keys_ok ex_tdb" "get_birth_height ex_tdb 1 = Inr 90" "get_sync_height ex_tdb 1 = Some 125"
  "(7, ''t1'') \<in> set (transparent_addresses_to_scan ex_tdb 1 100)"
proof -
  show "keys_ok ex_tdb" using ex_db_ok(1) by (simp add: ex_tdb_def keys_ok_def)
  show "get_birth_height ex_tdb 1 = Inr 90" "get_sync_height ex_tdb 1 = Some 125"
    by (simp_all add: ex_tdb_def ex_db_def get_birth_height_def get_sync_height_def sql_min_def)
  show "(7, ''t1'') \<in> set (transparent_addresses_to_scan ex_tdb 1 100)"
    by (simp add: set_scan scan_rows_def Let_def ex_tdb_def ex_taddr_def)
qed



text \<open>A server that refuses every request: the pass fails and moves nothing.\<close>

definition ex_refusing :: Backend where
  "ex_refusing = ex_backend\<lparr>be_txs := (\<lambda>_ _ _ _. Refused)\<rparr>"

definition ex_forked :: Backend where
  "ex_forked = ex_backend\<lparr>be_anchor := (\<lambda>_ _. Some [2])\<rparr>"

theorem transparent_sync_confined_witness:
  "\<exists>r db' k'. transparent_sync ex_refusing [1] 126 140 100 (ex_tdb, 0) = (r, db', k') \<and> keys_ok db'"
proof -
  obtain r db' k' where run: "transparent_sync ex_refusing [1] 126 140 100 (ex_tdb, 0) = (r, db', k')" by (metis prod_cases3)
  have "\<forall>a \<in> set [1]. \<forall>s. get_sync_height ex_tdb a = Some s \<longrightarrow> s \<le> 140" using ex_tdb_facts(3) by simp
  from transparent_sync_confined [OF run this] show ?thesis using run ex_tdb_facts(1) by blast
qed


end
