(* ===== verification/SyncPlan.thy ===== *)
theory SyncPlan
  imports Trim
begin

text \<open>
  How a synchronization cycle is cut into height ranges (\<open>sync_height_ranges\<close> of \<open>src/rust/rlz/src/sync.rs\<close>): the next
  height of every account, the distinct start heights in order, and for each start the accounts that take part.
  The passes over a range are modelled elsewhere; the cut does not depend on what they do. A range stops the cycle
  when it would end before it starts. The theorems say that every account is scanned from its next height to the tip
  without a gap or an overlap, as long as no account is ahead of the tip.
\<close>

section \<open>Definitions\<close>

definition account_heights :: "Db \<Rightarrow> nat list \<Rightarrow> (nat \<times> nat) list" where
  "account_heights db accs =
    List.map_filter (\<lambda>a. if list_ex (\<lambda>c. ac_id c = a) (accounts db)
        then map_option (\<lambda>h. (a, u32_add h 1)) (get_sync_height db a) else None) (remdups accs)"

definition unique_heights :: "(nat \<times> nat) list \<Rightarrow> nat list" where
  "unique_heights hs = remdups (sort (map snd hs))"

fun plan_ranges :: "(nat \<times> nat) list \<Rightarrow> nat \<Rightarrow> nat list \<Rightarrow> (nat \<times> nat \<times> nat list) list" where
  "plan_ranges hs current [] = []"
| "plan_ranges hs current (start # rest) =
    (let end_height = (case rest of [] \<Rightarrow> current | next # _ \<Rightarrow> next - 1);
         to_sync = map fst (filter (\<lambda>(_, h). h \<le> start) hs)
     in if to_sync = [] then plan_ranges hs current rest
        else if end_height < start then []
        else (start, end_height, to_sync) #
          plan_ranges (map (\<lambda>(a, h). (a, if h \<le> start then end_height else h)) hs) current rest)"

definition sync_ranges :: "Db \<Rightarrow> nat list \<Rightarrow> nat \<Rightarrow> (nat \<times> nat \<times> nat list) list" where
  "sync_ranges db accs current =
    (let db = recover_from_partial_sync accs db; hs = account_heights db accs
     in plan_ranges hs current (unique_heights hs))"

section \<open>Every account is scanned to the tip\<close>

definition scanned_blocks :: "nat \<Rightarrow> (nat \<times> nat \<times> nat list) list \<Rightarrow> nat list" where
  "scanned_blocks a ranges = concat (map (\<lambda>(s, e, _). [s..<Suc e]) (filter (\<lambda>(_, _, accs). a \<in> set accs) ranges))"

lemma scanned_blocks_Cons: "scanned_blocks a ((s, e, accs) # rs) = (if a \<in> set accs then [s..<Suc e] else []) @ scanned_blocks a rs"
  by (simp add: scanned_blocks_def)

lemma upt_join: "i \<le> j \<Longrightarrow> j \<le> k \<Longrightarrow> [i..<j] @ [j..<k] = [i..<k]"
  using upt_add_eq_append [of i j "k - j"] by simp

lemma plan_ranges_cover:
  assumes "sorted_wrt (<) starts" "starts \<noteq> []" "\<forall>s \<in> set starts. s \<le> Suc current" "0 < hd starts"
    and "distinct (map fst hs)" "\<forall>(_, h) \<in> set hs. h \<in> set starts \<or> h < hd starts" "(a, h) \<in> set hs"
  shows "scanned_blocks a (plan_ranges hs current starts) = [(if h \<in> set starts then h else hd starts)..<Suc current]"
  using assms
proof (induction starts arbitrary: hs h)
  case (Cons s rest)
  define e where "e = (case rest of [] \<Rightarrow> current | next # _ \<Rightarrow> next - 1)"
  let ?accs = "map fst (filter (\<lambda>(_, h). h \<le> s) hs)"
  let ?hs = "map (\<lambda>(a, h). (a, if h \<le> s then e else h)) hs"
  have uniq: "h' = h" if "(a, h') \<in> set hs" for h' using that Cons.prems(5,7) by (simp add: eq_key_imp_eq_value)
  have mem: "a \<in> set ?accs \<longleftrightarrow> h \<le> s"
  proof
    assume "a \<in> set ?accs"
    then obtain h' where "(a, h') \<in> set hs" "h' \<le> s" by auto
    then show "h \<le> s" using uniq by blast
  next
    assume "h \<le> s"
    then have "(a, h) \<in> set (filter (\<lambda>(_, h). h \<le> s) hs)" using Cons.prems(7) by simp
    then show "a \<in> set ?accs" by (metis fst_conv image_eqI set_map)
  qed
  have gt: "s < x" if "x \<in> set rest" for x using Cons.prems(1) that by simp
  have fst_hs: "map fst ?hs = map fst hs" by (simp add: comp_def case_prod_beta)
  have in_hs: "(a, if h \<le> s then e else h) \<in> set ?hs" using Cons.prems(7) by force
  have first: "h \<le> s \<Longrightarrow> (if h \<in> set (s # rest) then h else s) = s"
    using gt [of h] by auto
  have far: "\<not> h \<le> s \<Longrightarrow> h \<in> set rest" using Cons.prems(6,7) by auto
  show ?case
  proof (cases rest)
    case Nil
    have "h \<le> s" using far Nil by (cases "h \<le> s") auto
    then have a: "a \<in> set ?accs" using mem by simp
    then have "?accs \<noteq> []" by (metis empty_iff empty_set)
    then show ?thesis using a first [OF \<open>h \<le> s\<close>] Nil by (simp add: Let_def scanned_blocks_Cons) (simp add: scanned_blocks_def)
  next
    case (Cons n more)
    have sn: "s < n" "n \<le> Suc current" using gt Cons Cons.prems(3) by auto
    have e: "e = n - 1" using Cons by (simp add: e_def)
    have rest_ok: "sorted_wrt (<) rest" "rest \<noteq> []" "\<forall>s \<in> set rest. s \<le> Suc current" "0 < hd rest" "hd rest = n"
      using Cons.prems Cons sn by auto
    show ?thesis
    proof (cases "?accs = []")
      case True
      then have none: "\<forall>(_, h') \<in> set hs. \<not> h' \<le> s" by (auto simp: filter_empty_conv)
      then have h: "\<not> h \<le> s" using Cons.prems(7) by auto
      have "\<forall>(_, h') \<in> set hs. h' \<in> set rest \<or> h' < hd rest" using none Cons.prems(6) by fastforce
      then show ?thesis using Cons.IH [OF rest_ok(1-4) Cons.prems(5) _ Cons.prems(7)] True far [OF h] by (simp add: Let_def)
    next
      case False
      have le: "\<not> n - 1 < s" and fresh: "e \<notin> set rest" using e sn rest_ok(1) Cons by auto
      have step: "plan_ranges hs current (s # rest) = (s, e, ?accs) # plan_ranges ?hs current rest"
        using False le unfolding plan_ranges.simps Let_def e_def [symmetric] by (simp add: e)
      have "\<forall>(_, h') \<in> set ?hs. h' \<in> set rest \<or> h' < hd rest"
        using Cons.prems(6) sn e rest_ok(5) by (fastforce split: if_splits)
      from Cons.IH [OF rest_ok(1-4) _ this in_hs, unfolded fst_hs, OF Cons.prems(5), unfolded rest_ok(5)]
      have IH: "scanned_blocks a (plan_ranges ?hs current rest) =
          [(if (if h \<le> s then e else h) \<in> set rest then (if h \<le> s then e else h) else n)..<Suc current]"
        .
      show ?thesis
      proof (cases "h \<le> s")
        case True
        have "[s..<Suc e] @ [n..<Suc current] = [s..<Suc current]" using e sn upt_join [of s n "Suc current"] by simp
        then show ?thesis using True IH mem first [OF True] fresh by (simp only: step scanned_blocks_Cons if_True list.sel if_False)
      next
        case h: False
        then show ?thesis using IH mem far [OF h] by (simp only: step scanned_blocks_Cons if_True if_False append_Nil) simp
      qed
    qed
  qed
qed simp

lemma unique_heights_props:
  "sorted_wrt (<) (unique_heights hs)" "set (unique_heights hs) = snd ` set hs"
  by (simp_all add: unique_heights_def strict_sorted_iff)

lemma account_heights_mem:
  "(a, n) \<in> set (account_heights db accs) \<longleftrightarrow>
    a \<in> set accs \<and> (\<exists>c \<in> set (accounts db). ac_id c = a) \<and> (\<exists>h. get_sync_height db a = Some h \<and> n = u32_add h 1)"
  by (auto simp: account_heights_def map_filter_def list_ex_iff image_iff split: if_splits)

lemma account_heights_distinct: "distinct (map fst (account_heights db accs))"
proof -
  let ?f = "\<lambda>a. if list_ex (\<lambda>c. ac_id c = a) (accounts db) then map_option (\<lambda>h. (a, u32_add h 1)) (get_sync_height db a) else None"
  have "map fst (List.map_filter ?f xs) = filter (\<lambda>a. ?f a \<noteq> None) xs" for xs
    by (induction xs) (auto split: option.splits)
  then show ?thesis by (simp add: account_heights_def distinct_filter)
qed

lemma recover_accounts: "accounts (recover_from_partial_sync accs db) = accounts db"
  unfolding recover_from_partial_sync_def
  by (induction accs arbitrary: db) (simp_all add: recover_account_def split: option.split)

text \<open>
  C35. A cycle scans every account to the tip exactly once: the ranges an account takes part in, put one after the other,
  are the heights from the one after its synced height to the current height, with no gap, no overlap and nothing
  else, when no account of the cycle is ahead of the current height.
\<close>

theorem sync_ranges_reach_tip:
  assumes "0 \<notin> sh_account ` set (sync_heights db)" and "current < u32_max"
    and "\<forall>a \<in> set accs. \<forall>s. get_sync_height db a = Some s \<longrightarrow> s \<le> current"
    and "account \<in> set accs" and "account \<in> ac_id ` set (accounts db)" and "get_sync_height db account = Some h"
  shows "scanned_blocks account (sync_ranges db accs current) = [Suc h..<Suc current]"
proof -
  let ?db = "recover_from_partial_sync accs db"
  let ?hs = "account_heights ?db accs"
  note sync = recover_fold_height [OF assms(1), of accs]
  have next_height: "u32_add s 1 = Suc s \<and> Suc s \<le> Suc current" if "a \<in> set accs" "get_sync_height db a = Some s" for a s
    using assms(2,3) that by (auto simp: u32_add_def u32_max_def intro!: mod_less)
  have mem: "(a, n) \<in> set ?hs \<Longrightarrow> 0 < n \<and> n \<le> Suc current" for a n
    using next_height unfolding account_heights_mem sync by auto
  have a: "(account, Suc h) \<in> set ?hs"
    using assms(4-6) next_height [OF assms(4,6)] unfolding account_heights_mem sync recover_accounts by auto
  then have ne: "unique_heights ?hs \<noteq> []" and inn: "Suc h \<in> set (unique_heights ?hs)"
    using unique_heights_props(2) [of ?hs] by (force, force)
  have bounds: "\<forall>s \<in> set (unique_heights ?hs). s \<le> Suc current" "0 < hd (unique_heights ?hs)"
    using mem unique_heights_props(2) [of ?hs] hd_in_set [OF ne] by auto
  have starts: "\<forall>(_, n) \<in> set ?hs. n \<in> set (unique_heights ?hs) \<or> n < hd (unique_heights ?hs)"
    using unique_heights_props(2) [of ?hs] by force
  show ?thesis
    using plan_ranges_cover [OF unique_heights_props(1) ne bounds account_heights_distinct starts a] inn
    by (simp add: sync_ranges_def Let_def)
qed

theorem sync_ranges_reach_tip_witness: "scanned_blocks 1 (sync_ranges ex_db [1] 130) = [126..<131]"
proof -
  have "0 \<notin> sh_account ` set (sync_heights ex_db)" "(130 :: nat) < u32_max" "get_sync_height ex_db 1 = Some 125"
    "1 \<in> ac_id ` set (accounts ex_db)"
    by (simp_all add: ex_db_def u32_max_def get_sync_height_def sql_min_def)
  then show ?thesis using sync_ranges_reach_tip [of ex_db 130 "[1]" 1 125] by simp
qed

text \<open>
  An account ahead of the tip drags the range of the others past it: with the next heights 101 and 501 and the chain
  at 300, the first account is sent to scan up to 500, beyond the last block there is.
\<close>

theorem sync_range_past_tip:
  "plan_ranges [(1, 101), (2, 501)] 300 (unique_heights [(1, 101), (2, 501)]) = [(101, 500, [1])]"
  by (simp add: unique_heights_def)

end
