(* ===== verification/WarpTree.thy ===== *)
theory WarpTree
  imports Prelude
begin

text \<open>
  The note-commitment tree of one pool during a scan (the loop over the depths in \<open>Synchronizer::add\<close> of
  \<open>src/rust/rlz/src/warp/sync/shielded.rs\<close>). The scanner never holds the tree: it keeps the right edge (at each
  depth the last complete node that has no sibling yet) and one witness per note (the siblings on the path of the
  note that are complete), and brings all of them up to date with the commitments of a batch of blocks in one pass.

  \<open>Edge\<close>, \<open>Witness\<close>, the depth of the tree and the hash of a list of pairs belong to the crate \<open>zcash-trees\<close>: an edge
  is the array of its nodes, the depth \<open>n\<close> and the hash \<open>combine_opt\<close> are arguments. What is relied on is that
  \<open>parallel_combine_opt\<close> hashes the pairs of its input. The reference is the tree itself: \<open>node\<close> is the hash of a
  complete subtree of the list of all commitments ever added, \<open>padded_node\<close> that of any subtree, with the missing
  commitments empty. The theorems say that the pass computes, without a failing assertion or index, the edge and the
  witnesses the reference tree has, and that such a witness recomputes the root of the tree.
\<close>

section \<open>Definitions\<close>

type_synonym Hash = bytes
type_synonym Edge = "Hash option list"

record Witness =
  wi_value :: Hash
  wi_position :: nat
  wi_ommers :: Edge

record Layer =
  la_cmxs :: "Hash option list"
  la_edge :: Edge
  la_old :: "Witness list"
  la_new :: "(nat \<times> Witness) list"

text \<open>The nodes of a depth that the batch completes, headed by the node of the edge when it gets its sibling.\<close>

definition join_edge :: "nat \<Rightarrow> nat \<Rightarrow> Edge \<Rightarrow> Hash option list \<Rightarrow> (nat \<times> Hash option list) run" where
  "join_edge start depth edge cmxs =
    (let position = start div 2 ^ depth
     in if odd position
        then (case edge ! depth of None \<Rightarrow> Panic | Some h \<Rightarrow> Ret (position - 1, Some h # cmxs))
        else Ret (position, cmxs))"

definition set_value :: "nat \<Rightarrow> nat \<Rightarrow> nat \<Rightarrow> Hash option list \<Rightarrow> Witness \<Rightarrow> Witness run" where
  "set_value depth npos nidx cmxs w =
    (if depth = 0
     then (if length cmxs \<le> nidx then Panic
           else case cmxs ! nidx of None \<Rightarrow> Panic | Some h \<Rightarrow> Ret (w\<lparr>wi_position := npos, wi_value := h\<rparr>))
     else Ret w)"

definition set_ommer :: "nat \<Rightarrow> nat \<Rightarrow> Hash option list \<Rightarrow> Witness \<Rightarrow> Witness run" where
  "set_ommer depth nidx cmxs w =
    (if even nidx
     then (if nidx + 1 < length cmxs
           then (if cmxs ! (nidx + 1) = None then Panic else Ret (w\<lparr>wi_ommers := (wi_ommers w)[depth := cmxs ! (nidx + 1)]\<rparr>))
           else Ret (w\<lparr>wi_ommers := (wi_ommers w)[depth := None]\<rparr>))
     else (if length cmxs \<le> nidx - 1 \<or> cmxs ! (nidx - 1) = None then Panic
           else Ret (w\<lparr>wi_ommers := (wi_ommers w)[depth := cmxs ! (nidx - 1)]\<rparr>)))"

definition new_witness :: "nat \<Rightarrow> nat \<Rightarrow> Hash option list \<Rightarrow> nat \<times> Witness \<Rightarrow> (nat \<times> Witness) run" where
  "new_witness depth position cmxs = (\<lambda>(p, w).
    let npos = p div 2 ^ depth;
        nidx = (npos + 2 ^ 32 - position) mod 2 ^ 32
    in run_bind (set_value depth npos nidx cmxs w) (\<lambda>w. run_bind (set_ommer depth nidx cmxs w) (\<lambda>w. Ret (p, w))))"

definition old_witness :: "nat \<Rightarrow> Hash option list \<Rightarrow> Witness \<Rightarrow> Witness run" where
  "old_witness depth cmxs w =
    (if 2 \<le> length cmxs \<and> wi_ommers w ! depth = None
     then (if cmxs ! 1 = None then Panic else Ret (w\<lparr>wi_ommers := (wi_ommers w)[depth := cmxs ! 1]\<rparr>))
     else Ret w)"

definition next_edge :: "nat \<Rightarrow> Hash option list \<Rightarrow> Edge \<Rightarrow> Edge" where
  "next_edge depth cmxs edge = edge[depth := if odd (length cmxs) then cmxs ! (length cmxs - 1) else None]"

fun run_map :: "('a \<Rightarrow> 'b run) \<Rightarrow> 'a list \<Rightarrow> 'b list run" where
  "run_map f [] = Ret []"
| "run_map f (x # xs) = run_bind (f x) (\<lambda>y. run_bind (run_map f xs) (\<lambda>ys. Ret (y # ys)))"

definition add_layer ::
    "(nat \<Rightarrow> Hash option list \<Rightarrow> nat \<Rightarrow> Hash option list) \<Rightarrow> nat \<Rightarrow> Hash list \<Rightarrow> nat \<Rightarrow> Layer \<Rightarrow> Layer run" where
  "add_layer combine_opt start leaves depth s =
    run_bind (join_edge start depth (la_edge s) (la_cmxs s)) (\<lambda>(position, cmxs).
      let cmxs = (if depth = 0 then cmxs @ map Some leaves else cmxs)
      in run_bind (run_map (new_witness depth position cmxs) (la_new s)) (\<lambda>new.
         run_bind (run_map (old_witness depth cmxs) (la_old s)) (\<lambda>old.
           Ret \<lparr>la_cmxs = combine_opt depth cmxs (length cmxs div 2), la_edge = next_edge depth cmxs (la_edge s),
                la_old = old, la_new = new\<rparr>)))"

definition blank_witness :: "nat \<Rightarrow> Witness" where
  "blank_witness n = \<lparr>wi_value = replicate 32 0, wi_position = 0, wi_ommers = replicate n None\<rparr>"

definition add_leaves ::
    "(nat \<Rightarrow> Hash option list \<Rightarrow> nat \<Rightarrow> Hash option list) \<Rightarrow> nat \<Rightarrow> nat \<Rightarrow> Hash list \<Rightarrow> Edge \<Rightarrow> Witness list \<Rightarrow> nat list
      \<Rightarrow> (Edge \<times> Witness list \<times> Witness list) run" where
  "add_leaves combine_opt n start leaves edge old new =
    run_bind (run_fold (add_layer combine_opt start leaves) [0..<n]
        \<lparr>la_cmxs = [], la_edge = edge, la_old = old, la_new = map (\<lambda>p. (p, blank_witness n)) new\<rparr>)
      (\<lambda>s. Ret (la_edge s, la_old s, map snd (la_new s)))"

section \<open>The reference tree\<close>

fun node :: "(nat \<Rightarrow> Hash \<Rightarrow> Hash \<Rightarrow> Hash) \<Rightarrow> Hash list \<Rightarrow> nat \<Rightarrow> nat \<Rightarrow> Hash" where
  "node h L 0 i = L ! i"
| "node h L (Suc d) i = h d (node h L d (2 * i)) (node h L d (2 * i + 1))"

fun padded_node :: "(nat \<Rightarrow> Hash \<Rightarrow> Hash \<Rightarrow> Hash) \<Rightarrow> Hash \<Rightarrow> Hash list \<Rightarrow> nat \<Rightarrow> nat \<Rightarrow> Hash" where
  "padded_node h uncommitted L 0 i = (if i < length L then L ! i else uncommitted)"
| "padded_node h uncommitted L (Suc d) i = h d (padded_node h uncommitted L d (2 * i)) (padded_node h uncommitted L d (2 * i + 1))"

text \<open>The number of complete nodes at a depth.\<close>

definition width :: "Hash list \<Rightarrow> nat \<Rightarrow> nat" where
  "width L d = length L div 2 ^ d"

definition combines :: "(nat \<Rightarrow> Hash \<Rightarrow> Hash \<Rightarrow> Hash) \<Rightarrow> (nat \<Rightarrow> Hash option list \<Rightarrow> nat \<Rightarrow> Hash option list) \<Rightarrow> bool" where
  "combines h combine_opt \<longleftrightarrow>
    (\<forall>d xs k. 2 * k \<le> length xs \<longrightarrow>
      combine_opt d (map Some xs) k = map (\<lambda>i. Some (h d (xs ! (2 * i)) (xs ! (2 * i + 1)))) [0..<k])"

definition edge_node :: "(nat \<Rightarrow> Hash \<Rightarrow> Hash \<Rightarrow> Hash) \<Rightarrow> Hash list \<Rightarrow> nat \<Rightarrow> Hash option" where
  "edge_node h L d = (if odd (width L d) then Some (node h L d (width L d - 1)) else None)"

definition ommer :: "(nat \<Rightarrow> Hash \<Rightarrow> Hash \<Rightarrow> Hash) \<Rightarrow> Hash list \<Rightarrow> nat \<Rightarrow> nat \<Rightarrow> Hash option" where
  "ommer h L d i =
    (if odd i then Some (node h L d (i - 1)) else if i + 1 < width L d then Some (node h L d (i + 1)) else None)"

definition edge_of :: "(nat \<Rightarrow> Hash \<Rightarrow> Hash \<Rightarrow> Hash) \<Rightarrow> nat \<Rightarrow> Hash list \<Rightarrow> Edge" where
  "edge_of h n L = map (edge_node h L) [0..<n]"

definition witness_of :: "(nat \<Rightarrow> Hash \<Rightarrow> Hash \<Rightarrow> Hash) \<Rightarrow> nat \<Rightarrow> Hash list \<Rightarrow> nat \<Rightarrow> Witness" where
  "witness_of h n L p =
    \<lparr>wi_value = L ! p, wi_position = p, wi_ommers = map (\<lambda>d. ommer h L d (p div 2 ^ d)) [0..<n]\<rparr>"

section \<open>Nodes of a growing list\<close>

lemma width_Suc: "width L (Suc d) = width L d div 2"
  by (simp only: width_def power_Suc2 div_mult2_eq)

lemma width_append: "width L d \<le> width (L @ C) d"
  by (simp add: width_def div_le_mono)

lemma node_append: "i < width L d \<Longrightarrow> node h (L @ C) d i = node h L d i"
proof (induction d arbitrary: i)
  case 0
  then show ?case by (simp add: nth_append width_def)
next
  case (Suc d)
  then have "2 * i + 1 < width L d" by (simp add: width_Suc)
  then show ?case using Suc.IH [of "2 * i"] Suc.IH [of "2 * i + 1"] by simp
qed

lemma path_le_width: "p < length L \<Longrightarrow> p div 2 ^ d \<le> width L d"
  by (simp add: width_def div_le_mono)

text \<open>The node of the edge with even index at which a depth is extended.\<close>

definition edge_base :: "Hash list \<Rightarrow> nat \<Rightarrow> nat" where
  "edge_base L d = 2 * (width L d div 2)"

lemma base_facts: "edge_base L d \<le> width L d" "width L d \<le> Suc (edge_base L d)" "even (edge_base L d)"
  "edge_base L d div 2 = width L (Suc d)" "odd (width L d) \<Longrightarrow> width L d = Suc (edge_base L d)" "even (width L d) \<Longrightarrow> edge_base L d = width L d"
  by (auto simp: edge_base_def width_Suc)

lemma ommer_stable:
  assumes "i \<le> width L d" "ommer h L d i \<noteq> None"
  shows "ommer h (L @ C) d i = ommer h L d i"
proof (cases "odd i")
  case True
  then have "i - 1 < width L d" using assms(1) by (cases i) auto
  then show ?thesis using True by (simp add: ommer_def node_append)
next
  case False
  then have "i + 1 < width L d" using assms(2) by (auto simp: ommer_def split: if_splits)
  moreover have "i + 1 < width (L @ C) d" using calculation width_append [of L d C] by simp
  ultimately show ?thesis using False by (simp add: ommer_def node_append)
qed

lemma ommer_missing:
  assumes "i \<le> width L d" "ommer h L d i = None"
  shows "i = edge_base L d" "even i"
proof -
  show ev: "even i" using assms(2) by (auto simp: ommer_def split: if_splits)
  then have "width L d \<le> i + 1" using assms(2) by (auto simp: ommer_def split: if_splits)
  then show "i = edge_base L d" using assms(1) ev base_facts(1,2,3) [of L d] by (metis Suc_eq_plus1 even_Suc le_antisym le_SucE le_less_Suc_eq not_less_eq_eq)
qed

section \<open>One depth\<close>

lemma run_map_map: "(\<And>x. x \<in> set xs \<Longrightarrow> f (k x) = Ret (g x)) \<Longrightarrow> run_map f (map k xs) = Ret (map g xs)"
  by (induction xs) auto

text \<open>The nodes a depth works on: those from the base of the old tree to the end of the new one.\<close>

definition fresh :: "(nat \<Rightarrow> Hash \<Rightarrow> Hash \<Rightarrow> Hash) \<Rightarrow> Hash list \<Rightarrow> Hash list \<Rightarrow> nat \<Rightarrow> Hash list" where
  "fresh h L C d = map (node h (L @ C) d) [edge_base L d..<width (L @ C) d]"

lemma length_fresh [simp]: "length (fresh h L C d) = width (L @ C) d - edge_base L d"
  by (simp add: fresh_def)

lemma nth_fresh: "i < width (L @ C) d - edge_base L d \<Longrightarrow> fresh h L C d ! i = node h (L @ C) d (edge_base L d + i)"
  by (simp add: fresh_def)

lemma base_le: "edge_base L d \<le> width (L @ C) d"
  using base_facts(1) [of L d] width_append [of L d C] by simp

definition arriving :: "(nat \<Rightarrow> Hash \<Rightarrow> Hash \<Rightarrow> Hash) \<Rightarrow> Hash list \<Rightarrow> Hash list \<Rightarrow> nat \<Rightarrow> Hash option list" where
  "arriving h L C d = (if d = 0 then [] else map (Some \<circ> node h (L @ C) d) [width L d..<width (L @ C) d])"

lemma join_edge_exact:
  assumes "edge ! d = edge_node h L d"
  shows "\<exists>cmxs. join_edge (length L) d edge (arriving h L C d) = Ret (edge_base L d, cmxs)
    \<and> (if d = 0 then cmxs @ map Some C else cmxs) = map Some (fresh h L C d)"
proof -
  have leaves: "map Some C = map (Some \<circ> node h (L @ C) 0) [width L 0..<width (L @ C) 0]"
    by (rule nth_equalityI) (simp_all add: width_def)
  have split: "map Some (fresh h L C d) =
      (if odd (width L d) then [Some (node h (L @ C) d (edge_base L d))] else []) @ map (Some \<circ> node h (L @ C) d) [width L d..<width (L @ C) d]"
    using base_facts(5,6) [of L d] width_append [of L d C] by (auto simp: fresh_def upt_conv_Cons)
  have node: "node h L d (width L d - Suc 0) = node h (L @ C) d (edge_base L d)" if "odd (width L d)"
    using base_facts(5) [OF that] node_append [of "edge_base L d" L d h C] by simp
  show ?thesis
  proof (cases "odd (width L d)")
    case True
    then have "join_edge (length L) d edge (arriving h L C d) =
        Ret (edge_base L d, Some (node h (L @ C) d (edge_base L d)) # arriving h L C d)"
      using assms node base_facts(5) [OF True] by (simp add: join_edge_def edge_node_def flip: width_def)
    then show ?thesis using split leaves True by (cases "d = 0") (auto simp: arriving_def)
  next
    case False
    then have "join_edge (length L) d edge (arriving h L C d) = Ret (edge_base L d, arriving h L C d)"
      using base_facts(6) [of L d] by (simp add: join_edge_def flip: width_def)
    then show ?thesis using split leaves False by (cases "d = 0") (auto simp: arriving_def)
  qed
qed

lemma next_edge_exact:
  assumes "d < length edge"
  shows "next_edge d (map Some (fresh h L C d)) edge = edge[d := edge_node h (L @ C) d]"
proof -
  have par: "odd (width (L @ C) d - edge_base L d) = odd (width (L @ C) d)" using base_le [of L d C] base_facts(3) [of L d] by simp
  show ?thesis
  proof (cases "odd (width (L @ C) d)")
    case True
    then have pos: "0 < width (L @ C) d - edge_base L d" using base_facts(3) [of L d] base_le [of L d C] by (metis le_neq_implies_less zero_less_diff)
    then have "fresh h L C d ! (width (L @ C) d - edge_base L d - 1) = node h (L @ C) d (width (L @ C) d - 1)"
      by (subst nth_fresh) auto
    then show ?thesis using True par pos by (simp add: next_edge_def edge_node_def)
  qed (use par in \<open>simp add: next_edge_def edge_node_def\<close>)
qed

lemma combine_exact:
  assumes "combines h combine_opt"
  shows "combine_opt d (map Some (fresh h L C d)) (length (fresh h L C d) div 2) = arriving h L C (Suc d)"
proof -
  let ?k = "(width (L @ C) d - edge_base L d) div 2"
  have len: "width (L @ C) (Suc d) = width L (Suc d) + ?k"
    using base_le [of L d C] unfolding width_Suc edge_base_def by linarith
  have "combine_opt d (map Some (fresh h L C d)) ?k =
      map (\<lambda>i. Some (h d (fresh h L C d ! (2 * i)) (fresh h L C d ! (2 * i + 1)))) [0..<?k]"
    using assms by (simp add: combines_def)
  also have "\<dots> = map (Some \<circ> node h (L @ C) (Suc d)) [width L (Suc d)..<width (L @ C) (Suc d)]"
  proof (rule nth_equalityI)
    fix i assume "i < length (map (\<lambda>i. Some (h d (fresh h L C d ! (2 * i)) (fresh h L C d ! (2 * i + 1)))) [0..<?k])"
    then have i: "i < ?k" by simp
    have "2 * (width L (Suc d) + i) = edge_base L d + 2 * i" using base_facts(3,4) [of L d] by (metis add_mult_distrib2 dvd_mult_div_cancel)
    then show "map (\<lambda>i. Some (h d (fresh h L C d ! (2 * i)) (fresh h L C d ! (2 * i + 1)))) [0..<?k] ! i =
        map (Some \<circ> node h (L @ C) (Suc d)) [width L (Suc d)..<width (L @ C) (Suc d)] ! i"
      using i len by (simp add: nth_fresh)
  qed (simp add: len)
  finally show ?thesis by (simp add: arriving_def)
qed

lemma update_upto: "d < n \<Longrightarrow> (map (\<lambda>k. if k < d then f k else g k) [0..<n])[d := f d] = map (\<lambda>k. if k < Suc d then f k else g k) [0..<n]"
  by (rule nth_equalityI) (auto simp: nth_list_update)

lemma nth_upto: "d < n \<Longrightarrow> map (\<lambda>k. if k < d then f k else g k) [0..<n] ! d = g d"
  by simp

definition half_new :: "(nat \<Rightarrow> Hash \<Rightarrow> Hash \<Rightarrow> Hash) \<Rightarrow> nat \<Rightarrow> Hash list \<Rightarrow> nat \<Rightarrow> nat \<Rightarrow> Witness" where
  "half_new h n T d p =
    \<lparr>wi_value = (if d = 0 then replicate 32 0 else T ! p), wi_position = (if d = 0 then 0 else p),
     wi_ommers = map (\<lambda>k. if k < d then ommer h T k (p div 2 ^ k) else None) [0..<n]\<rparr>"

definition half_old :: "(nat \<Rightarrow> Hash \<Rightarrow> Hash \<Rightarrow> Hash) \<Rightarrow> nat \<Rightarrow> Hash list \<Rightarrow> Hash list \<Rightarrow> nat \<Rightarrow> nat \<Rightarrow> Witness" where
  "half_old h n L T d p =
    \<lparr>wi_value = L ! p, wi_position = p,
     wi_ommers = map (\<lambda>k. if k < d then ommer h T k (p div 2 ^ k) else ommer h L k (p div 2 ^ k)) [0..<n]\<rparr>"

lemma set_ommer_exact:
  assumes "edge_base L d \<le> i" "i \<le> width (L @ C) d"
  shows "set_ommer d (i - edge_base L d) (map Some (fresh h L C d)) w = Ret (w\<lparr>wi_ommers := (wi_ommers w)[d := ommer h (L @ C) d i]\<rparr>)"
proof (cases "odd i")
  case True
  then have lt: "edge_base L d < i" using assms(1) base_facts(3) [of L d] by (metis le_neq_implies_less)
  have odd: "odd (i - edge_base L d)" using assms(1) True base_facts(3) [of L d] by simp
  have at: "fresh h L C d ! (i - edge_base L d - 1) = node h (L @ C) d (i - 1)" "i - edge_base L d - 1 < width (L @ C) d - edge_base L d"
    using lt assms(2) by (auto simp: nth_fresh)
  show ?thesis unfolding set_ommer_def using odd at True by (simp add: ommer_def)
next
  case False
  then have ev: "even (i - edge_base L d)" using assms(1) base_facts(3) [of L d] by simp
  have lt: "i - edge_base L d + 1 < width (L @ C) d - edge_base L d \<longleftrightarrow> i + 1 < width (L @ C) d" using assms(1) by auto
  have at: "fresh h L C d ! (i - edge_base L d + 1) = node h (L @ C) d (i + 1)" if "i + 1 < width (L @ C) d"
    using that assms(1) by (simp add: nth_fresh)
  show ?thesis unfolding set_ommer_def using ev lt at False by (simp add: ommer_def)
qed

lemma new_witness_exact:
  assumes "length L \<le> p" "p < length (L @ C)" "length (L @ C) \<le> 2 ^ 32" "d < n"
  shows "new_witness d (edge_base L d) (map Some (fresh h L C d)) (p, half_new h n (L @ C) d p) = Ret (p, half_new h n (L @ C) (Suc d) p)"
proof -
  let ?i = "p div 2 ^ d" and ?cs = "map Some (fresh h L C d)"
  have lo: "edge_base L d \<le> ?i" using base_facts(1) [of L d] div_le_mono [OF assms(1), of "2 ^ d"] unfolding width_def by simp
  have hi: "?i \<le> width (L @ C) d" using path_le_width assms(2) by blast
  have "?i < 2 ^ 32" using assms(2,3) div_le_dividend [of p "2 ^ d"] by linarith
  then have idx: "(?i + 2 ^ 32 - edge_base L d) mod 2 ^ 32 = ?i - edge_base L d" using lo by (simp add: nat_mod_eq_iff) (metis Nat.add_diff_assoc2 add.commute less_imp_diff_less mod_add_self2 mod_less)
  have val: "set_value d ?i (?i - edge_base L d) ?cs (half_new h n (L @ C) d p) =
      Ret ((half_new h n (L @ C) d p)\<lparr>wi_value := (L @ C) ! p, wi_position := p\<rparr>)"
  proof (cases "d = 0")
    case True
    have "edge_base L 0 \<le> p" "p - edge_base L 0 < width (L @ C) 0 - edge_base L 0" using lo assms(2) True by (auto simp: width_def)
    then show ?thesis using True by (simp add: set_value_def nth_fresh half_new_def)
  qed (simp add: set_value_def half_new_def)
  show ?thesis
    unfolding new_witness_def Let_def prod.case idx val run_bind.simps set_ommer_exact [OF lo hi]
    using update_upto [OF assms(4), of "\<lambda>k. ommer h (L @ C) k (p div 2 ^ k)" "\<lambda>_. None"] by (simp add: half_new_def)
qed

lemma old_witness_exact:
  assumes "p < length L" "d < n"
  shows "old_witness d (map Some (fresh h L C d)) (half_old h n L (L @ C) d p) = Ret (half_old h n L (L @ C) (Suc d) p)"
proof -
  let ?i = "p div 2 ^ d" and ?w = "half_old h n L (L @ C) d p"
  note upto = update_upto [OF assms(2), of "\<lambda>k. ommer h (L @ C) k (p div 2 ^ k)" "\<lambda>k. ommer h L k (p div 2 ^ k)"]
  have i: "?i \<le> width L d" using path_le_width [OF assms(1)] .
  have cur: "wi_ommers ?w ! d = ommer h L d ?i" using assms(2) by (simp add: half_old_def)
  have upd: "?w\<lparr>wi_ommers := (wi_ommers ?w)[d := ommer h (L @ C) d ?i]\<rparr> = half_old h n L (L @ C) (Suc d) p"
    using upto by (simp add: half_old_def)
  show ?thesis
  proof (cases "ommer h L d ?i")
    case None
    note b = ommer_missing [OF i None]
    show ?thesis
    proof (cases "2 \<le> width (L @ C) d - edge_base L d")
      case True
      then have "fresh h L C d ! 1 = node h (L @ C) d (?i + 1)" using b by (simp add: nth_fresh)
      then have "ommer h (L @ C) d ?i = Some (fresh h L C d ! 1)" using True b by (auto simp: ommer_def)
      then show ?thesis using True cur None upd by (simp add: old_witness_def)
    next
      case False
      then have "ommer h (L @ C) d ?i = None" using b by (auto simp: ommer_def)
      moreover have "(wi_ommers ?w)[d := None] = wi_ommers ?w" using list_update_id [of "wi_ommers ?w" d] cur None by simp
      ultimately show ?thesis using False upd by (simp add: old_witness_def)
    qed
  next
    case (Some x)
    then have "ommer h (L @ C) d ?i = Some x" using ommer_stable [OF i] by auto
    moreover have "(wi_ommers ?w)[d := Some x] = wi_ommers ?w" using list_update_id [of "wi_ommers ?w" d] cur Some by simp
    ultimately show ?thesis using Some cur upd by (simp add: old_witness_def)
  qed
qed

section \<open>The whole pass\<close>

definition half_layer ::
    "(nat \<Rightarrow> Hash \<Rightarrow> Hash \<Rightarrow> Hash) \<Rightarrow> nat \<Rightarrow> Hash list \<Rightarrow> Hash list \<Rightarrow> nat list \<Rightarrow> nat list \<Rightarrow> nat \<Rightarrow> Layer" where
  "half_layer h n L C old new d =
    \<lparr>la_cmxs = arriving h L C d,
     la_edge = map (\<lambda>k. if k < d then edge_node h (L @ C) k else edge_node h L k) [0..<n],
     la_old = map (half_old h n L (L @ C) d) old,
     la_new = map (\<lambda>p. (p, half_new h n (L @ C) d p)) new\<rparr>"

lemma add_layer_exact:
  assumes "combines h combine_opt" "\<forall>p \<in> set old. p < length L" "\<forall>p \<in> set new. length L \<le> p \<and> p < length (L @ C)"
    and "length (L @ C) \<le> 2 ^ 32" "d < n"
  shows "add_layer combine_opt (length L) C d (half_layer h n L C old new d) = Ret (half_layer h n L C old new (Suc d))"
proof -
  let ?s = "half_layer h n L C old new d" and ?cs = "map Some (fresh h L C d)"
  have edge: "la_edge ?s ! d = edge_node h L d" "length (la_edge ?s) = n" using assms(5) by (simp_all add: half_layer_def)
  obtain cmxs where cs: "join_edge (length L) d (la_edge ?s) (arriving h L C d) = Ret (edge_base L d, cmxs)"
      "(if d = 0 then cmxs @ map Some C else cmxs) = ?cs"
    using join_edge_exact [OF edge(1)] by blast
  have new: "run_map (new_witness d (edge_base L d) ?cs) (la_new ?s) = Ret (la_new (half_layer h n L C old new (Suc d)))"
    using new_witness_exact assms(3-5) by (simp add: half_layer_def run_map_map)
  have old: "run_map (old_witness d ?cs) (la_old ?s) = Ret (la_old (half_layer h n L C old new (Suc d)))"
    using old_witness_exact assms(2,5) by (simp add: half_layer_def run_map_map)
  have arr: "la_cmxs ?s = arriving h L C d" by (simp add: half_layer_def)
  have nx: "next_edge d ?cs (la_edge ?s) = la_edge (half_layer h n L C old new (Suc d))"
    using next_edge_exact [of d "la_edge ?s" h L C] edge(2) assms(5) update_upto [OF assms(5), of "edge_node h (L @ C)"]
    by (simp add: half_layer_def)
  have comb: "combine_opt d ?cs (length ?cs div 2) = la_cmxs (half_layer h n L C old new (Suc d))"
    using combine_exact [OF assms(1)] by (simp add: half_layer_def)
  show ?thesis
    unfolding add_layer_def arr cs(1) run_bind.simps prod.case Let_def cs(2) new old nx comb by (simp add: half_layer_def)
qed

lemma add_layers_exact:
  assumes "combines h combine_opt" "\<forall>p \<in> set old. p < length L" "\<forall>p \<in> set new. length L \<le> p \<and> p < length (L @ C)"
    and "length (L @ C) \<le> 2 ^ 32" "d \<le> n"
  shows "run_fold (add_layer combine_opt (length L) C) [d..<n] (half_layer h n L C old new d) = Ret (half_layer h n L C old new n)"
  using assms(5)
proof (induction "n - d" arbitrary: d)
  case (Suc k)
  then have "[d..<n] = d # [Suc d..<n]" by (simp add: upt_conv_Cons)
  then show ?case using Suc add_layer_exact [OF assms(1-4), of d n] by simp
qed simp

lemma add_leaves_refines:
  assumes "combines h combine_opt" "\<forall>p \<in> set old. p < length L" "\<forall>p \<in> set new. length L \<le> p \<and> p < length (L @ C)"
    and "length (L @ C) \<le> 2 ^ 32" "0 < n"
  shows "add_leaves combine_opt n (length L) C (edge_of h n L) (map (witness_of h n L) old) new =
    Ret (edge_of h n (L @ C), map (witness_of h n (L @ C)) old, map (witness_of h n (L @ C)) new)"
proof -
  have start: "\<lparr>la_cmxs = [], la_edge = edge_of h n L, la_old = map (witness_of h n L) old, la_new = map (\<lambda>p. (p, blank_witness n)) new\<rparr>
      = half_layer h n L C old new 0"
    by (simp add: half_layer_def edge_of_def witness_of_def half_old_def half_new_def arriving_def blank_witness_def map_replicate_const fun_eq_iff)
  have "map (half_old h n L (L @ C) n) old = map (witness_of h n (L @ C)) old"
    using assms(2) by (auto simp: half_old_def witness_of_def nth_append)
  moreover have "map (half_new h n (L @ C) n) new = map (witness_of h n (L @ C)) new"
    using assms(5) by (auto simp: half_new_def witness_of_def)
  ultimately show ?thesis
    unfolding add_leaves_def start add_layers_exact [OF assms(1-4) le0]
    by (simp add: half_layer_def edge_of_def comp_def)
qed

section \<open>A witness recomputes the root\<close>

text \<open>
  Where a witness has no sibling, the spender uses the fragment of the right edge at that depth, which is the same for
  every note: the subtree next to the base, with the missing commitments empty.
\<close>

definition fragment :: "(nat \<Rightarrow> Hash \<Rightarrow> Hash \<Rightarrow> Hash) \<Rightarrow> Hash \<Rightarrow> Hash list \<Rightarrow> nat \<Rightarrow> Hash" where
  "fragment h uncommitted L d = padded_node h uncommitted L d (edge_base L d + 1)"

fun climb :: "(nat \<Rightarrow> Hash \<Rightarrow> Hash \<Rightarrow> Hash) \<Rightarrow> (nat \<Rightarrow> Hash) \<Rightarrow> Witness \<Rightarrow> nat \<Rightarrow> Hash" where
  "climb h frag w 0 = wi_value w"
| "climb h frag w (Suc d) =
    (let sibling = (case wi_ommers w ! d of None \<Rightarrow> frag d | Some x \<Rightarrow> x)
     in if odd (wi_position w div 2 ^ d) then h d sibling (climb h frag w d) else h d (climb h frag w d) sibling)"

lemma padded_complete: "i < width L d \<Longrightarrow> padded_node h uncommitted L d i = node h L d i"
proof (induction d arbitrary: i)
  case 0
  then show ?case by (simp add: width_def)
next
  case (Suc d)
  then have "2 * i < width L d" "2 * i + 1 < width L d" by (auto simp: width_Suc)
  then show ?case using Suc.IH by simp
qed

lemma sibling_exact:
  assumes "p < length L" "i = p div 2 ^ d"
  shows "(case ommer h L d i of None \<Rightarrow> fragment h uncommitted L d | Some x \<Rightarrow> x) =
    padded_node h uncommitted L d (if odd i then i - 1 else i + 1)"
proof (cases "ommer h L d i")
  case None
  have "i \<le> width L d" unfolding assms(2) by (rule path_le_width [OF assms(1)])
  then have "i = edge_base L d" "even i" using ommer_missing None by auto
  then show ?thesis using None by (simp add: fragment_def)
next
  case (Some x)
  have "i - 1 < width L d" if "odd i" using that path_le_width [OF assms(1), of d] assms(2) by (cases i) auto
  then show ?thesis using Some padded_complete [of "i - 1" L d h] padded_complete [of "i + 1" L d h]
    by (auto simp: ommer_def split: if_splits)
qed

lemma climb_exact:
  assumes "p < length L" "d \<le> n"
  shows "climb h (fragment h uncommitted L) (witness_of h n L p) d = padded_node h uncommitted L d (p div 2 ^ d)"
  using assms(2)
proof (induction d)
  case 0
  then show ?case using assms(1) by (simp add: witness_of_def)
next
  case (Suc d)
  let ?i = "p div 2 ^ d"
  have half: "p div 2 ^ Suc d = ?i div 2" by (simp only: power_Suc2 div_mult2_eq)
  have om: "wi_ommers (witness_of h n L p) ! d = ommer h L d ?i" "wi_position (witness_of h n L p) = p"
    using Suc.prems by (simp_all add: witness_of_def)
  have par: "odd ?i \<Longrightarrow> 2 * (?i div 2) = ?i - 1 \<and> 2 * (?i div 2) + 1 = ?i" "even ?i \<Longrightarrow> 2 * (?i div 2) = ?i"
    by (auto elim: oddE)
  show ?case
    unfolding climb.simps om sibling_exact [OF assms(1) refl] half padded_node.simps Let_def
    using Suc.IH Suc.prems par by (cases "odd ?i") simp_all
qed

text \<open>
  C14. The pass over a batch keeps every witness valid. Started with the right edge and the witnesses of the tree so far,
  it returns the right edge and the witnesses of the tree with the commitments of the batch appended, for the notes
  the wallet had and for the notes found in the batch; no assertion fails and no index is out of range. Each of these
  witnesses, completed with the fragment of the right edge, which does not depend on the note, leads from the
  commitment of its note to the root of the tree.
\<close>

theorem add_leaves_keeps_witnesses:
  assumes "combines h combine_opt" and "0 < n" and "length (L @ C) \<le> 2 ^ n" and "length (L @ C) \<le> 2 ^ 32"
    and "\<forall>p \<in> set old. p < length L" and "\<forall>p \<in> set new. length L \<le> p \<and> p < length (L @ C)"
  shows "add_leaves combine_opt n (length L) C (edge_of h n L) (map (witness_of h n L) old) new =
      Ret (edge_of h n (L @ C), map (witness_of h n (L @ C)) old, map (witness_of h n (L @ C)) new)
    \<and> (\<forall>p \<in> set (old @ new). wi_value (witness_of h n (L @ C) p) = (L @ C) ! p \<and>
        climb h (fragment h uncommitted (L @ C)) (witness_of h n (L @ C) p) n = padded_node h uncommitted (L @ C) n 0)"
proof -
  have "climb h (fragment h uncommitted (L @ C)) (witness_of h n (L @ C) p) n = padded_node h uncommitted (L @ C) n 0"
    if "p \<in> set (old @ new)" for p
  proof -
    have p: "p < length (L @ C)" using that assms(5,6) by auto
    then have "p div 2 ^ n = 0" using assms(3) by simp
    then show ?thesis using climb_exact [OF p order_refl] by metis
  qed
  then show ?thesis using add_leaves_refines [OF assms(1,5,6,4,2)] by (auto simp: witness_of_def)
qed

text \<open>A hash that keeps its arguments apart, and its extension to lists of pairs.\<close>

definition pair_hash :: "nat \<Rightarrow> Hash \<Rightarrow> Hash \<Rightarrow> Hash" where
  "pair_hash d x y = word_of_nat d # x @ y"

definition pair_hash_opt :: "nat \<Rightarrow> Hash option list \<Rightarrow> nat \<Rightarrow> Hash option list" where
  "pair_hash_opt d xs k = map (\<lambda>i. Some (pair_hash d (the (xs ! (2 * i))) (the (xs ! (2 * i + 1))))) [0..<k]"

lemma pair_hash_combines: "combines pair_hash pair_hash_opt"
  by (auto simp: combines_def pair_hash_opt_def)

theorem add_leaves_keeps_witnesses_witness:
  "add_leaves pair_hash_opt 3 (length [[1], [2], [3]]) [[4], [5]] (edge_of pair_hash 3 [[1], [2], [3]])
      (map (witness_of pair_hash 3 [[1], [2], [3]]) [2]) [4] =
    Ret (edge_of pair_hash 3 ([[1], [2], [3]] @ [[4], [5]]), map (witness_of pair_hash 3 ([[1], [2], [3]] @ [[4], [5]])) [2],
      map (witness_of pair_hash 3 ([[1], [2], [3]] @ [[4], [5]])) [4])"
  using add_leaves_keeps_witnesses [OF pair_hash_combines, of 3 "[[1], [2], [3]]" "[[4], [5]]" "[2]" "[4]"] by simp

end
