(* ===== verification/CompactBlocks.thy ===== *)
theory CompactBlocks
  imports WarpTree
begin

text \<open>
  The data of a shielded scan: the compact blocks of the server (\<open>src/rust/rlz/src/lwd.rs\<close>), the notes and messages a
  scanner sends to the database writer, and the three shielded protocols as instances of one record
  (\<open>ShieldedProtocol\<close> in \<open>src/rust/rlz/src/warp/sync/shielded.rs\<close> and the files under \<open>shielded/\<close>).

  Decrypting an output, deriving a nullifier, building an issued note and the encoding of an asset are cryptography of
  the Zcash crates: they are the record \<open>Crypto\<close>. The messages and the note of the scanner are types of the crate
  \<open>zcash-trees\<close> with the fields the code fills in.
\<close>

section \<open>Compact blocks\<close>

record CompactSaplingOutput =
  so_cmu :: bytes
  so_epk :: bytes
  so_ciphertext :: bytes

record CompactOrchardAction =
  oa_nullifier :: bytes
  oa_cmx :: bytes
  oa_ephemeral_key :: bytes
  oa_ciphertext :: bytes

record CompactIssueNote =
  in_recipient :: bytes
  in_value :: nat
  in_rho :: bytes
  in_rseed :: bytes

record CompactIssuance =
  is_asset_desc_hash :: bytes
  is_finalize :: bool
  is_ik :: bytes
  is_notes :: "CompactIssueNote list"

record CompactTx =
  ct_hash :: bytes
  ct_spends :: "bytes list"
  ct_outputs :: "CompactSaplingOutput list"
  ct_actions :: "CompactOrchardAction list"
  ct_ironwood_actions :: "CompactOrchardAction list"
  ct_issuances :: "CompactIssuance list"

record CompactBlock =
  cb_height :: nat
  cb_hash :: bytes
  cb_prev_hash :: bytes
  cb_time :: nat
  cb_vtx :: "CompactTx list"

record BlockHeader =
  bh_height :: nat
  bh_hash :: bytes
  bh_time :: nat

section \<open>Notes and messages\<close>

record DbNote =
  dn_account :: nat
  dn_scope :: nat
  dn_height :: nat
  dn_pool :: nat
  dn_value :: nat
  dn_rcm :: bytes
  dn_rho :: bytes
  dn_vout :: nat
  dn_ivtx :: nat
  dn_diversifier :: bytes
  dn_cmx :: bytes
  dn_asset_base :: bytes
  dn_position :: nat
  dn_nf :: bytes
  dn_txid :: bytes

record Utxo =
  ut_account :: nat
  ut_pool :: nat
  ut_position :: nat
  ut_nullifier :: bytes
  ut_value :: nat
  ut_cmx :: bytes
  ut_txid :: bytes
  ut_witness :: Witness

datatype WarpSyncMessage =
    MIssuance bytes bytes bytes bool nat
  | MTransaction nat nat nat bytes
  | MNote DbNote
  | MWitness nat nat bytes Witness
  | MSpend Utxo
  | MCheckpoint "nat list" nat nat
  | MBlockHeader BlockHeader
  | MCommit
  | MRewind "nat list" nat
  | MError

section \<open>Protocols\<close>

text \<open>What decrypting an output yields: the note of the protocol, opaque, and its parts.\<close>

record Opened =
  op_note :: bytes
  op_pool :: nat
  op_value :: nat
  op_rcm :: bytes
  op_rho :: bytes
  op_diversifier :: bytes
  op_cmx :: bytes
  op_asset_base :: bytes

record Crypto =
  cr_open_sapling :: "bytes \<Rightarrow> nat \<Rightarrow> CompactSaplingOutput \<Rightarrow> Opened option run"
  cr_open_orchard :: "bytes \<Rightarrow> nat \<Rightarrow> CompactOrchardAction \<Rightarrow> Opened option run"
  cr_nf_sapling :: "bytes \<Rightarrow> nat \<Rightarrow> bytes \<Rightarrow> bytes"
  cr_nf_orchard :: "bytes \<Rightarrow> bytes \<Rightarrow> bytes"
  cr_asset_base :: "bytes \<Rightarrow> bytes \<Rightarrow> bytes option"
  cr_owns :: "bytes \<Rightarrow> bytes \<Rightarrow> bool"
  cr_issue_note :: "CompactIssueNote \<Rightarrow> bytes \<Rightarrow> Opened option"

record ('i, 'o) Protocol =
  extract_inputs :: "CompactTx \<Rightarrow> 'i list"
  extract_outputs :: "CompactTx \<Rightarrow> 'o list"
  extract_nf :: "'i \<Rightarrow> bytes run"
  extract_cmx :: "'o \<Rightarrow> bytes run"
  raw_cmx :: "'o \<Rightarrow> bytes"
  open_output :: "bytes \<Rightarrow> nat \<Rightarrow> 'o \<Rightarrow> Opened option run"
  derive_nf :: "bytes \<Rightarrow> nat \<Rightarrow> bytes \<Rightarrow> bytes"
  compute_issuance :: "CompactIssueNote \<Rightarrow> bytes \<Rightarrow> unit + Opened option"

text \<open>\<open>try_into().unwrap()\<close> to an array of 32 bytes.\<close>

definition hash32 :: "bytes \<Rightarrow> bytes run" where
  "hash32 bs = (if length bs = 32 then Ret bs else Panic)"

definition SaplingProtocol :: "Crypto \<Rightarrow> (bytes, CompactSaplingOutput) Protocol" where
  "SaplingProtocol cr =
    \<lparr>extract_inputs = ct_spends, extract_outputs = ct_outputs, extract_nf = hash32, extract_cmx = (\<lambda>o'. hash32 (so_cmu o')),
     raw_cmx = so_cmu, open_output = cr_open_sapling cr, derive_nf = cr_nf_sapling cr, compute_issuance = (\<lambda>_ _. Inr None)\<rparr>"

definition OrchardProtocol :: "Crypto \<Rightarrow> (CompactOrchardAction, CompactOrchardAction) Protocol" where
  "OrchardProtocol cr =
    \<lparr>extract_inputs = ct_actions, extract_outputs = ct_actions, extract_nf = (\<lambda>a. hash32 (oa_nullifier a)),
     extract_cmx = (\<lambda>a. hash32 (oa_cmx a)), raw_cmx = oa_cmx, open_output = cr_open_orchard cr,
     derive_nf = (\<lambda>nk _ note. cr_nf_orchard cr nk note),
     compute_issuance = (\<lambda>note base. case cr_issue_note cr note base of None \<Rightarrow> Inl () | Some op \<Rightarrow> Inr (Some op))\<rparr>"

definition IronwoodProtocol :: "Crypto \<Rightarrow> (CompactOrchardAction, CompactOrchardAction) Protocol" where
  "IronwoodProtocol cr =
    \<lparr>extract_inputs = ct_ironwood_actions, extract_outputs = ct_ironwood_actions, extract_nf = (\<lambda>a. hash32 (oa_nullifier a)),
     extract_cmx = (\<lambda>a. hash32 (oa_cmx a)), raw_cmx = oa_cmx, open_output = cr_open_orchard cr,
     derive_nf = (\<lambda>nk _ note. cr_nf_orchard cr nk note), compute_issuance = (\<lambda>_ _. Inr None)\<rparr>"

end
