(* ===== verification/BlockStream.thy ===== *)
theory BlockStream
  imports CompactBlocks
begin

text \<open>
  The reader of the compact-block stream (\<open>read_block_stream\<close> and \<open>ResumableBlocks\<close> of \<open>src/rust/rlz/src/warp/sync.rs\<close>)
  as a state machine. An event is what one \<open>select!\<close> wakes up on: a cancellation, a tick of the stall timer, a
  block, an error or the end of the stream, and the outcome of reopening a broken stream. The messages sent to the
  block processor are the output log. Sending fails only when the processor has stopped, which ends the scan with
  the processor's own error, so the log is taken to accept every message.
\<close>

section \<open>Blocks and messages\<close>

datatype BlockMessage =
    Chunk "CompactBlock list"
  | SaveHeader BlockHeader
  | Reorg "nat list" nat

datatype Event =
    Cancel
  | Tick
  | NextBlock CompactBlock
  | StreamError
  | StreamEnd
  | Reopened
  | ReopenFailed

datatype Status = Reading | Resuming | Finished | StopCancelled | StopOther | StopReorg nat

definition MAX_BLOCKS_PER_CHUNK :: nat where "MAX_BLOCKS_PER_CHUNK = 1000"

definition STREAM_RESUME_DELAYS :: "nat list" where "STREAM_RESUME_DELAYS = [500, 1000, 2000]"

record ScanJob =
  job_start :: nat
  job_end :: nat
  job_accounts :: "nat list"
  job_actions :: nat
  job_prev_hash :: "bytes option"
  job_without_time :: "nat list"

record Reader =
  rd_status :: Status
  rd_chunk :: "CompactBlock list"
  rd_current :: nat
  rd_previous :: nat
  rd_expected :: nat
  rd_actions :: nat
  rd_prev_hash :: "bytes option"
  rd_without_time :: "nat list"
  rd_failures :: nat
  rd_breaks :: nat
  rd_resumed :: nat
  rd_sent :: "BlockMessage list"

section \<open>Steps\<close>

definition start_reader :: "ScanJob \<Rightarrow> Reader" where
  "start_reader job =
    \<lparr>rd_status = Reading, rd_chunk = [], rd_current = job_start job, rd_previous = 0, rd_expected = job_start job,
     rd_actions = 0, rd_prev_hash = job_prev_hash job, rd_without_time = job_without_time job, rd_failures = 0,
     rd_breaks = 0, rd_resumed = 0, rd_sent = []\<rparr>"

definition flush_chunk :: "Reader \<Rightarrow> Reader" where
  "flush_chunk r = (if rd_chunk r = [] then r else r\<lparr>rd_chunk := [], rd_sent := rd_sent r @ [Chunk (rd_chunk r)]\<rparr>)"

text \<open>One turn of the loop of \<open>resume\<close>: count the break and wait for the next delay, or give up.\<close>

definition resume_turn :: "Reader \<Rightarrow> Reader" where
  "resume_turn r =
    (let r = r\<lparr>rd_breaks := rd_breaks r + 1, rd_failures := rd_failures r + 1\<rparr>
     in if rd_failures r - 1 < length STREAM_RESUME_DELAYS
        then r\<lparr>rd_status := Resuming\<rparr> else r\<lparr>rd_status := StopOther\<rparr>)"

definition break_stream :: "ScanJob \<Rightarrow> Reader \<Rightarrow> Reader" where
  "break_stream job r =
    (let r = flush_chunk r
     in if job_end job < rd_expected r then r\<lparr>rd_status := StopOther\<rparr> else resume_turn r)"

definition delivered_block :: "Reader \<Rightarrow> Reader" where
  "delivered_block r = (if 0 < rd_failures r then r\<lparr>rd_resumed := rd_resumed r + 1, rd_failures := 0\<rparr> else r)"

definition save_header :: "CompactBlock \<Rightarrow> Reader \<Rightarrow> Reader" where
  "save_header b r =
    (if rd_current r \<in> set (rd_without_time r)
     then r\<lparr>rd_without_time := removeAll (rd_current r) (rd_without_time r),
            rd_sent := rd_sent r @ [SaveHeader \<lparr>bh_height = rd_current r, bh_hash = cb_hash b, bh_time = cb_time b\<rparr>]\<rparr>
     else r)"

definition block_actions :: "CompactBlock \<Rightarrow> nat" where
  "block_actions b = sum_list (map (\<lambda>tx. length (ct_outputs tx) + length (ct_actions tx)) (cb_vtx b))"

definition accept_block :: "ScanJob \<Rightarrow> CompactBlock \<Rightarrow> Reader \<Rightarrow> Reader" where
  "accept_block job b r =
    (let r = save_header b (delivered_block (r\<lparr>rd_prev_hash := Some (cb_hash b), rd_expected := rd_expected r + 1\<rparr>));
         r = r\<lparr>rd_actions := rd_actions r + block_actions b, rd_chunk := rd_chunk r @ [b]\<rparr>
     in if job_actions job \<le> rd_actions r \<or> MAX_BLOCKS_PER_CHUNK \<le> length (rd_chunk r)
        then (flush_chunk r)\<lparr>rd_actions := 0\<rparr> else r)"

definition pred_u32 :: "nat \<Rightarrow> nat" where
  "pred_u32 h = (h + 2 ^ 32 - 1) mod 2 ^ 32"

definition on_block :: "ScanJob \<Rightarrow> CompactBlock \<Rightarrow> Reader \<Rightarrow> Reader" where
  "on_block job b r =
    (if cb_height b \<noteq> rd_expected r then (flush_chunk r)\<lparr>rd_status := StopOther\<rparr>
     else
       (let r = r\<lparr>rd_current := cb_height b mod 2 ^ 32\<rparr>;
            reorg = (case rd_prev_hash r of None \<Rightarrow> False | Some previous \<Rightarrow> previous \<noteq> cb_prev_hash b)
        in if reorg
           then (let r = flush_chunk r; h = pred_u32 (rd_current r)
                 in r\<lparr>rd_sent := rd_sent r @ [Reorg (job_accounts job) h], rd_status := StopReorg h\<rparr>)
           else accept_block job b r))"

definition on_tick :: "ScanJob \<Rightarrow> Reader \<Rightarrow> Reader" where
  "on_tick job r =
    (if rd_previous r \<noteq> rd_current r then r\<lparr>rd_previous := rd_current r\<rparr> else break_stream job r)"

definition on_end :: "ScanJob \<Rightarrow> Reader \<Rightarrow> Reader" where
  "on_end job r =
    (if job_end job < rd_expected r then (flush_chunk r)\<lparr>rd_status := Finished\<rparr> else break_stream job r)"

text \<open>An event that cannot occur in a status leaves the reader as it is.\<close>

definition reader_step :: "ScanJob \<Rightarrow> Event \<Rightarrow> Reader \<Rightarrow> Reader" where
  "reader_step job e r =
    (case rd_status r of
       Reading \<Rightarrow>
         (case e of
            Cancel \<Rightarrow> r\<lparr>rd_status := StopCancelled\<rparr>
          | Tick \<Rightarrow> on_tick job r
          | NextBlock b \<Rightarrow> on_block job b r
          | StreamError \<Rightarrow> break_stream job r
          | StreamEnd \<Rightarrow> on_end job r
          | Reopened \<Rightarrow> r
          | ReopenFailed \<Rightarrow> r)
     | Resuming \<Rightarrow>
         (case e of
            Cancel \<Rightarrow> r\<lparr>rd_status := StopCancelled\<rparr>
          | Reopened \<Rightarrow> r\<lparr>rd_status := Reading\<rparr>
          | ReopenFailed \<Rightarrow> resume_turn r
          | _ \<Rightarrow> r)
     | _ \<Rightarrow> r)"

definition read_block_stream :: "ScanJob \<Rightarrow> Event list \<Rightarrow> Reader" where
  "read_block_stream job es = fold (reader_step job) es (start_reader job)"

section \<open>Invariants of a machine\<close>

text \<open>A property that holds at the start and is kept by every step holds after every run.\<close>

locale invariant_machine =
  fixes step :: "'e \<Rightarrow> 's \<Rightarrow> 's" and init :: 's and inv :: "'s \<Rightarrow> bool"
  assumes inv_init: "inv init" and inv_step: "inv s \<Longrightarrow> inv (step e s)"
begin

lemma run_inv: "inv (fold step es init)"
proof -
  have "inv s \<Longrightarrow> inv (fold step es s)" for s by (induction es arbitrary: s) (auto intro: inv_step)
  then show ?thesis using inv_init by blast
qed

end

section \<open>What the reader delivers\<close>

fun reorgs_of :: "BlockMessage list \<Rightarrow> (nat list \<times> nat) list" where
  "reorgs_of [] = []"
| "reorgs_of (Reorg accs h # ms) = (accs, h) # reorgs_of ms"
| "reorgs_of (_ # ms) = reorgs_of ms"

lemma reorgs_of_append [simp]: "reorgs_of (xs @ ys) = reorgs_of xs @ reorgs_of ys"
  by (induction xs rule: reorgs_of.induct) auto

fun blocks_of :: "BlockMessage list \<Rightarrow> CompactBlock list" where
  "blocks_of [] = []"
| "blocks_of (Chunk bs # ms) = bs @ blocks_of ms"
| "blocks_of (_ # ms) = blocks_of ms"

lemma blocks_of_append [simp]: "blocks_of (xs @ ys) = blocks_of xs @ blocks_of ys"
  by (induction xs rule: blocks_of.induct) auto

definition received :: "Reader \<Rightarrow> CompactBlock list" where
  "received r = blocks_of (rd_sent r) @ rd_chunk r"

text \<open>Consecutive heights from \<open>s\<close>, each block naming the hash of the one before it.\<close>

fun linked :: "bytes option \<Rightarrow> CompactBlock list \<Rightarrow> bool" where
  "linked prev [] = True"
| "linked prev (b # bs) = ((case prev of None \<Rightarrow> True | Some h \<Rightarrow> cb_prev_hash b = h) \<and> linked (Some (cb_hash b)) bs)"

definition last_hash :: "bytes option \<Rightarrow> CompactBlock list \<Rightarrow> bytes option" where
  "last_hash prev bs = (if bs = [] then prev else Some (cb_hash (last bs)))"

lemma linked_snoc: "linked prev (bs @ [b]) \<longleftrightarrow>
    linked prev bs \<and> (case last_hash prev bs of None \<Rightarrow> True | Some h \<Rightarrow> cb_prev_hash b = h)"
  by (induction prev bs rule: linked.induct) (auto simp: last_hash_def)

lemma linked_append: "linked prev (xs @ ys) \<longleftrightarrow> linked prev xs \<and> linked (last_hash prev xs) ys"
  by (induction prev xs rule: linked.induct) (auto simp: last_hash_def)

definition chunk_ok :: "BlockMessage \<Rightarrow> bool" where
  "chunk_ok msg \<longleftrightarrow> (case msg of Chunk bs \<Rightarrow> 0 < length bs \<and> length bs \<le> MAX_BLOCKS_PER_CHUNK | _ \<Rightarrow> True)"

fun is_reorg :: "Status \<Rightarrow> bool" where
  "is_reorg (StopReorg _) = True"
| "is_reorg _ = False"

definition reader_inv :: "ScanJob \<Rightarrow> Reader \<Rightarrow> bool" where
  "reader_inv job r \<longleftrightarrow>
    map cb_height (received r) = [job_start job..<rd_expected r] \<and> job_start job \<le> rd_expected r \<and>
    linked (job_prev_hash job) (received r) \<and> rd_prev_hash r = last_hash (job_prev_hash job) (received r) \<and>
    list_all chunk_ok (rd_sent r) \<and> length (rd_chunk r) < MAX_BLOCKS_PER_CHUNK \<and>
    rd_failures r \<le> Suc (length STREAM_RESUME_DELAYS) \<and>
    (rd_status r \<notin> {Reading, StopCancelled} \<longrightarrow> rd_chunk r = []) \<and>
    reorgs_of (rd_sent r) =
      (if is_reorg (rd_status r) then [(job_accounts job, pred_u32 (rd_expected r mod 2 ^ 32))] else []) \<and>
    (\<forall>h. rd_status r = StopReorg h \<longrightarrow> h = pred_u32 (rd_expected r mod 2 ^ 32)) \<and>
    (rd_status r = Finished \<longrightarrow> job_end job < rd_expected r) \<and>
    (rd_status r = Resuming \<longrightarrow> rd_expected r \<le> job_end job \<and> rd_failures r \<le> length STREAM_RESUME_DELAYS) \<and>
    (rd_status r = Reading \<longrightarrow> rd_failures r \<le> length STREAM_RESUME_DELAYS)"

lemma flush_fields [simp]:
  "received (flush_chunk r) = received r" "rd_chunk (flush_chunk r) = []" "rd_expected (flush_chunk r) = rd_expected r"
  "rd_prev_hash (flush_chunk r) = rd_prev_hash r" "rd_failures (flush_chunk r) = rd_failures r"
  "rd_status (flush_chunk r) = rd_status r" "reorgs_of (rd_sent (flush_chunk r)) = reorgs_of (rd_sent r)" "rd_current (flush_chunk r) = rd_current r"
  by (simp_all add: flush_chunk_def received_def)

lemma received_updates [simp]:
  "received (rd_status_update f r) = received r" "received (rd_actions_update g r) = received r"
  "received (rd_failures_update h r) = received r" "received (rd_previous_update i r) = received r"
  "received (rd_current_update j r) = received r" "received (rd_prev_hash_update k r) = received r"
  "received (rd_expected_update l r) = received r" "received (rd_without_time_update m r) = received r"
  "received (rd_breaks_update n r) = received r" "received (rd_resumed_update q r) = received r"
  by (simp_all add: received_def)

lemma flush_chunks: "list_all chunk_ok (rd_sent r) \<Longrightarrow> length (rd_chunk r) \<le> MAX_BLOCKS_PER_CHUNK \<Longrightarrow> list_all chunk_ok (rd_sent (flush_chunk r))"
  by (auto simp: flush_chunk_def chunk_ok_def)

lemma resume_turn_inv:
  assumes "reader_inv job r" "rd_status r = Reading \<or> rd_status r = Resuming" "rd_chunk r = []"
    "rd_expected r \<le> job_end job" "rd_failures r \<le> length STREAM_RESUME_DELAYS"
  shows "reader_inv job (resume_turn r)"
  using assms(2) by (rule disjE) (use assms in \<open>simp_all add: reader_inv_def resume_turn_def Let_def\<close>)

lemma flush_inv: "reader_inv job r \<Longrightarrow> reader_inv job (flush_chunk r)"
  by (auto simp: reader_inv_def flush_chunks MAX_BLOCKS_PER_CHUNK_def)

lemma break_stream_inv:
  assumes "reader_inv job r" "rd_status r = Reading"
  shows "reader_inv job (break_stream job r)"
proof (cases "job_end job < rd_expected r")
  case True
  then show ?thesis using flush_inv [OF assms(1)] assms(2) by (auto simp: break_stream_def Let_def reader_inv_def)
next
  case False
  then show ?thesis using resume_turn_inv [OF flush_inv [OF assms(1)]] assms
    by (auto simp: break_stream_def Let_def reader_inv_def)
qed

lemma save_header_fields [simp]:
  "received (save_header b r) = received r" "rd_chunk (save_header b r) = rd_chunk r" "rd_expected (save_header b r) = rd_expected r"
  "rd_prev_hash (save_header b r) = rd_prev_hash r" "rd_failures (save_header b r) = rd_failures r"
  "rd_status (save_header b r) = rd_status r" "reorgs_of (rd_sent (save_header b r)) = reorgs_of (rd_sent r)" "list_all chunk_ok (rd_sent (save_header b r)) = list_all chunk_ok (rd_sent r)"
  by (simp_all add: save_header_def received_def chunk_ok_def)

lemma sent_blocks [simp]:
  "blocks_of (rd_sent (flush_chunk r)) = blocks_of (rd_sent r) @ rd_chunk r" "blocks_of (rd_sent (save_header b r)) = blocks_of (rd_sent r)"
  by (simp_all add: flush_chunk_def save_header_def)

lemma accept_block_inv:
  assumes inv: "reader_inv job r" "rd_status r = Reading" and h: "cb_height b = rd_expected r"
    and p: "case rd_prev_hash r of None \<Rightarrow> True | Some x \<Rightarrow> x = cb_prev_hash b"
  shows "reader_inv job (accept_block job b r)"
proof -
  define r1 where "r1 = save_header b (delivered_block (r\<lparr>rd_prev_hash := Some (cb_hash b), rd_expected := rd_expected r + 1\<rparr>))"
  define r2 where "r2 = r1\<lparr>rd_actions := rd_actions r1 + block_actions b, rd_chunk := rd_chunk r1 @ [b]\<rparr>"
  have r1: "reorgs_of (rd_sent r1) = []" "received r1 = received r" "rd_chunk r1 = rd_chunk r" "rd_expected r1 = rd_expected r + 1" "rd_prev_hash r1 = Some (cb_hash b)"
    "rd_failures r1 = 0" "rd_status r1 = Reading" "list_all chunk_ok (rd_sent r1)"
    using inv by (simp_all add: r1_def delivered_block_def reader_inv_def)
  have rec: "received r2 = received r @ [b]" using r1(2) by (simp add: r2_def received_def)
  have link: "linked (job_prev_hash job) (received r @ [b])"
    using inv p by (auto simp: linked_snoc reader_inv_def split: option.splits)
  have base: "map cb_height (received r2) = [job_start job..<rd_expected r2]" "job_start job \<le> rd_expected r2"
    "rd_prev_hash r2 = last_hash (job_prev_hash job) (received r2)" "list_all chunk_ok (rd_sent r2)" "rd_status r2 = Reading"
    "rd_failures r2 = 0" "reorgs_of (rd_sent r2) = []" "length (rd_chunk r2) \<le> MAX_BLOCKS_PER_CHUNK"
    using inv h r1 rec by (auto simp: r2_def reader_inv_def last_hash_def)
  have step: "accept_block job b r = (if job_actions job \<le> rd_actions r2 \<or> MAX_BLOCKS_PER_CHUNK \<le> length (rd_chunk r2)
      then (flush_chunk r2)\<lparr>rd_actions := 0\<rparr> else r2)"
    by (simp add: accept_block_def r1_def r2_def Let_def)
  show ?thesis
    using base link rec flush_chunks [OF base(4,8)]
    by (auto simp: step reader_inv_def MAX_BLOCKS_PER_CHUNK_def)
qed

lemma stop_inv:
  assumes "reader_inv job r" "rd_status r \<in> {Reading, Resuming}"
  shows "rd_chunk r = [] \<Longrightarrow> reader_inv job (r\<lparr>rd_status := StopOther\<rparr>)" "reader_inv job (r\<lparr>rd_status := StopCancelled\<rparr>)"
  using assms by (auto simp: reader_inv_def)

lemma reorg_inv:
  assumes "reader_inv job r" "rd_status r = Reading" "rd_chunk r = []" "h = pred_u32 (rd_expected r mod 2 ^ 32)"
  shows "reader_inv job (r\<lparr>rd_sent := rd_sent r @ [Reorg (job_accounts job) h], rd_status := StopReorg h\<rparr>)"
  using assms by (simp add: reader_inv_def received_def chunk_ok_def)

lemma reader_step_inv:
  assumes "reader_inv job r"
  shows "reader_inv job (reader_step job e r)"
proof (cases "rd_status r")
  case Reading
  have block: "reader_inv job (on_block job b r)" for b
  proof (cases "cb_height b = rd_expected r")
    case False
    then show ?thesis using stop_inv(1) [OF flush_inv [OF assms]] Reading by (simp add: on_block_def)
  next
    case True
    let ?r = "r\<lparr>rd_current := cb_height b mod 2 ^ 32\<rparr>"
    have cur: "reader_inv job ?r" using assms by (simp add: reader_inv_def)
    show ?thesis
    proof (cases "case rd_prev_hash r of None \<Rightarrow> True | Some x \<Rightarrow> x = cb_prev_hash b")
      case ok: True
      then have "on_block job b r = accept_block job b ?r" using True by (auto simp: on_block_def Let_def split: option.splits)
      then show ?thesis using accept_block_inv [OF cur] True ok Reading by simp
    next
      case False
      then show ?thesis using True Reading reorg_inv [OF flush_inv [OF cur]] by (auto simp: on_block_def Let_def split: option.splits)
    qed
  qed
  have tick: "reader_inv job (on_tick job r)"
    using assms break_stream_inv [OF assms Reading] by (simp add: on_tick_def reader_inv_def)
  have fin: "reader_inv job (on_end job r)"
  proof (cases "job_end job < rd_expected r")
    case True
    then show ?thesis using Reading flush_inv [OF assms] by (simp add: on_end_def reader_inv_def)
  next
    case False
    then show ?thesis using break_stream_inv [OF assms Reading] by (simp add: on_end_def)
  qed
  show ?thesis using Reading block tick fin break_stream_inv [OF assms Reading] stop_inv(2) [OF assms] assms
    by (cases e) (simp_all add: reader_step_def)
next
  case Resuming
  then have turn: "reader_inv job (resume_turn r)" using resume_turn_inv [of job r] assms by (simp add: reader_inv_def)
  have again: "reader_inv job (r\<lparr>rd_status := Reading\<rparr>)" using Resuming assms by (simp add: reader_inv_def)
  show ?thesis using Resuming turn again stop_inv(2) [OF assms] assms by (cases e) (simp_all add: reader_step_def)
qed (use assms in \<open>simp_all add: reader_step_def\<close>)

interpretation reader: invariant_machine "reader_step job" "start_reader job" "reader_inv job" for job
proof unfold_locales
  show "reader_inv job (start_reader job)"
    by (simp add: reader_inv_def start_reader_def received_def last_hash_def MAX_BLOCKS_PER_CHUNK_def)
qed (rule reader_step_inv)

section \<open>Consequences of the invariant\<close>

lemma inv_linked: "reader_inv job r \<Longrightarrow> linked (job_prev_hash job) (blocks_of (rd_sent r))"
  by (simp add: reader_inv_def received_def linked_append)

lemma inv_heights: "reader_inv job r \<Longrightarrow> map cb_height (blocks_of (rd_sent r) @ rd_chunk r) = [job_start job..<rd_expected r]"
  unfolding reader_inv_def received_def by blast

lemma inv_flushed: "reader_inv job r \<Longrightarrow> rd_status r \<notin> {Reading, StopCancelled} \<Longrightarrow> rd_chunk r = []"
  unfolding reader_inv_def by blast

lemma inv_rest:
  assumes "reader_inv job r"
  shows "list_all chunk_ok (rd_sent r)" "rd_status r = Finished \<Longrightarrow> job_end job < rd_expected r"
    "reorgs_of (rd_sent r) = (if is_reorg (rd_status r) then [(job_accounts job, pred_u32 (rd_expected r mod 2 ^ 32))] else [])"
  using assms unfolding reader_inv_def by blast+

section \<open>Properties of the reader\<close>


section \<open>A scan that completes\<close>

text \<open>The events of one block behind \<open>n\<close> breaks of the stream, each reopened.\<close>

definition breaks :: "nat \<Rightarrow> Event list" where
  "breaks n = concat (replicate n [StreamError, Reopened])"

definition served :: "(nat \<times> CompactBlock) list \<Rightarrow> Event list" where
  "served nbs = concat (map (\<lambda>(n, b). breaks n @ [NextBlock b]) nbs)"

definition reading :: "CompactBlock list \<Rightarrow> nat \<Rightarrow> bytes option \<Rightarrow> nat \<Rightarrow> Reader \<Rightarrow> bool" where
  "reading bs e p k r \<longleftrightarrow>
    rd_status r = Reading \<and> received r = bs \<and> rd_expected r = e \<and> rd_prev_hash r = p \<and> rd_failures r = k"

lemma reading_breaks:
  assumes "reading bs e p k r" "e \<le> job_end job" "k + n \<le> length STREAM_RESUME_DELAYS"
  shows "reading bs e p (k + n) (fold (reader_step job) (breaks n) r)"
  using assms
proof (induction n arbitrary: r k)
  case (Suc n)
  have "reading bs e p (Suc k) (reader_step job Reopened (reader_step job StreamError r))"
    using Suc.prems by (simp add: reading_def reader_step_def break_stream_def resume_turn_def Let_def)
  then show ?case using Suc.IH [of "Suc k"] Suc.prems by (simp add: breaks_def)
qed (simp add: breaks_def)

lemma reading_block:
  assumes "reading bs e p k r" "cb_height b = e" "case p of None \<Rightarrow> True | Some h \<Rightarrow> cb_prev_hash b = h"
  shows "reading (bs @ [b]) (Suc e) (Some (cb_hash b)) 0 (reader_step job (NextBlock b) r)"
proof -
  define r' where "r' = r\<lparr>rd_current := cb_height b mod 2 ^ 32\<rparr>"
  have "reader_step job (NextBlock b) r = accept_block job b r'"
    using assms by (auto simp: reading_def reader_step_def on_block_def r'_def Let_def split: option.splits)
  then show ?thesis using assms
    by (simp add: reading_def accept_block_def delivered_block_def r'_def received_def Let_def)
qed

lemma reading_served:
  assumes "reading bs e p 0 r" "map cb_height (map snd nbs) = [e..<Suc (job_end job)]" "linked p (map snd nbs)"
    "list_all (\<lambda>(n, _). n \<le> length STREAM_RESUME_DELAYS) nbs"
  shows "\<exists>p'. reading (bs @ map snd nbs) (e + length nbs) p' 0 (fold (reader_step job) (served nbs) r)"
  using assms
proof (induction nbs arbitrary: bs e p r)
  case (Cons nb nbs)
  obtain n b where nb: "nb = (n, b)" by force
  have e: "e \<le> job_end job" "cb_height b = e" "map cb_height (map snd nbs) = [Suc e..<Suc (job_end job)]"
    using Cons.prems(2) by (auto simp: nb upt_rec [of e] split: if_splits)
  define r1 where "r1 = reader_step job (NextBlock b) (fold (reader_step job) (breaks n) r)"
  have "reading (bs @ [b]) (Suc e) (Some (cb_hash b)) 0 r1"
    unfolding r1_def using reading_block [OF reading_breaks [OF Cons.prems(1) e(1)] e(2)] Cons.prems(3,4)
    by (auto simp: nb split: option.splits)
  then show ?case using Cons.IH [of "bs @ [b]" "Suc e" "Some (cb_hash b)" r1] Cons.prems(3,4) e(3)
    by (simp del: map_map upt_Suc add: nb served_def r1_def)
qed (auto simp: served_def)

text \<open>
  C37. A scan completes when the server keeps answering: if the blocks of the requested range arrive in order and
  chained, with at most three breaks of the stream before each of them, however many in all, the reader finishes and
  has handed over exactly those blocks, once each and in order.
\<close>

theorem read_block_stream_completes:
  assumes "map cb_height (map snd nbs) = [job_start job..<Suc (job_end job)]" "job_start job \<le> job_end job"
    "linked (job_prev_hash job) (map snd nbs)" "list_all (\<lambda>(n, _). n \<le> 3) nbs"
  shows "rd_status (read_block_stream job (served nbs @ [StreamEnd])) = Finished \<and>
    blocks_of (rd_sent (read_block_stream job (served nbs @ [StreamEnd]))) = map snd nbs"
proof -
  define r where "r = fold (reader_step job) (served nbs) (start_reader job)"
  have start: "reading [] (job_start job) (job_prev_hash job) 0 (start_reader job)"
    by (simp add: reading_def start_reader_def received_def)
  have few: "list_all (\<lambda>(n, _). n \<le> length STREAM_RESUME_DELAYS) nbs" using assms(4) by (simp add: STREAM_RESUME_DELAYS_def numeral_3_eq_3)
  obtain p' where r: "reading (map snd nbs) (job_start job + length nbs) p' 0 r"
    using reading_served [OF start assms(1,3) few] unfolding r_def by auto
  have len: "job_start job + length nbs = Suc (job_end job)" using arg_cong [OF assms(1), of length] assms(2) by simp
  have run: "read_block_stream job (served nbs @ [StreamEnd]) = (flush_chunk r)\<lparr>rd_status := Finished\<rparr>"
    using r len by (simp add: read_block_stream_def reader_step_def on_end_def reading_def flip: r_def)
  have "blocks_of (rd_sent (flush_chunk r)) = received (flush_chunk r)" by (simp add: received_def)
  then show ?thesis using r by (simp add: run reading_def)
qed

section \<open>Witnesses\<close>

definition sample_block :: "nat \<Rightarrow> nat \<Rightarrow> nat \<Rightarrow> CompactBlock" where
  "sample_block h hash prev = \<lparr>cb_height = h, cb_hash = [of_nat hash], cb_prev_hash = [of_nat prev], cb_time = 7, 
    cb_vtx = [\<lparr>ct_hash = [], ct_spends = [], ct_outputs = replicate 3 \<lparr>so_cmu = [], so_epk = [], so_ciphertext = []\<rparr>, ct_actions = [],
      ct_ironwood_actions = [], ct_issuances = []\<rparr>]\<rparr>"

definition sample_job :: ScanJob where
  "sample_job = \<lparr>job_start = 10, job_end = 12, job_accounts = [1], job_actions = 5, job_prev_hash = Some [9], job_without_time = [11]\<rparr>"

definition sample_served :: "(nat \<times> CompactBlock) list" where
  "sample_served = [(0, sample_block 10 10 9), (3, sample_block 11 11 10), (1, sample_block 12 12 11)]"

theorem read_block_stream_completes_witness:
  "rd_status (read_block_stream sample_job (served sample_served @ [StreamEnd])) = Finished"
proof -
  have "map cb_height (map snd sample_served) = [job_start sample_job..<Suc (job_end sample_job)]"
    "job_start sample_job \<le> job_end sample_job" "linked (job_prev_hash sample_job) (map snd sample_served)"
    "list_all (\<lambda>(n, _). n \<le> 3) sample_served"
    by (simp_all add: sample_served_def sample_job_def sample_block_def)
  then show ?thesis using read_block_stream_completes [of sample_served sample_job] by blast
qed


end
