(* ===== verification/Synchronizer.thy ===== *)
theory Synchronizer
  imports CompactBlocks "HOL-Library.Product_Lexorder"
begin

text \<open>
  The scanner of one pool (\<open>Synchronizer\<close> of \<open>src/rust/rlz/src/warp/sync/shielded.rs\<close>): trial decryption of the outputs
  of a batch of blocks, the positions of the notes found, their witnesses, and the spends of the notes held. The
  messages sent to the database writer are the second component of the result. The unspent notes are a hash map in
  the code; the order of the list stands for the order in which it is visited. Errors of the scan leave no message
  behind, because they occur before the first is sent.
\<close>

section \<open>Definitions\<close>

record ScanKey =
  sk_account :: nat
  sk_scope :: nat
  sk_ivk :: bytes
  sk_nk :: bytes

record Sync =
  sy_pool :: nat
  sy_keys :: "ScanKey list"
  sy_position :: nat
  sy_utxos :: "Utxo list"
  sy_edge :: Edge

text \<open>A transaction of the batch with the height (as \<open>u32\<close>) and time of its block and its index there.\<close>

record Located =
  lo_height :: nat
  lo_time :: nat
  lo_ivtx :: nat
  lo_tx :: CompactTx

definition located :: "CompactBlock list \<Rightarrow> Located list" where
  "located blocks =
    concat (map (\<lambda>cb. map (\<lambda>(ivtx, tx). \<lparr>lo_height = cb_height cb mod 2 ^ 32, lo_time = cb_time cb, lo_ivtx = ivtx, lo_tx = tx\<rparr>)
      (enumerate 0 (cb_vtx cb))) blocks)"

definition lo_key :: "Located \<Rightarrow> nat \<times> nat" where
  "lo_key l = (lo_height l, lo_ivtx l)"

text \<open>A note found, with the protocol's note and the key that derives its nullifier.\<close>

record FoundNote =
  fn_note :: bytes
  fn_db :: DbNote
  fn_nk :: bytes

definition found_note :: "Opened \<Rightarrow> ScanKey \<Rightarrow> Located \<Rightarrow> nat \<Rightarrow> FoundNote" where
  "found_note op key l vout =
    \<lparr>fn_note = op_note op,
     fn_db = \<lparr>dn_account = sk_account key, dn_scope = sk_scope key, dn_height = lo_height l, dn_pool = op_pool op,
       dn_value = op_value op, dn_rcm = op_rcm op, dn_rho = op_rho op, dn_vout = vout, dn_ivtx = lo_ivtx l,
       dn_diversifier = op_diversifier op, dn_cmx = op_cmx op, dn_asset_base = op_asset_base op, dn_position = 0,
       dn_nf = [], dn_txid = []\<rparr>,
     fn_nk = sk_nk key\<rparr>"

definition try_decrypt :: "('i, 'o) Protocol \<Rightarrow> Located \<Rightarrow> nat \<Rightarrow> 'o \<Rightarrow> ScanKey \<Rightarrow> FoundNote list run" where
  "try_decrypt P l vout out key =
    run_bind (open_output P (sk_ivk key) (lo_height l) out) (\<lambda>r.
      case r of
        None \<Rightarrow> Ret []
      | Some op \<Rightarrow> (if op_cmx op = raw_cmx P out then Ret [found_note op key l vout] else Ret []))"

definition run_concat :: "('a \<Rightarrow> 'b list run) \<Rightarrow> 'a list \<Rightarrow> 'b list run" where
  "run_concat f xs = run_bind (run_map f xs) (\<lambda>yss. Ret (concat yss))"

definition decrypt_tx :: "('i, 'o) Protocol \<Rightarrow> ScanKey list \<Rightarrow> Located \<Rightarrow> FoundNote list run" where
  "decrypt_tx P keys l =
    run_concat (\<lambda>(vout, out). run_concat (try_decrypt P l vout out) keys) (enumerate 0 (extract_outputs P (lo_tx l)))"

subsection \<open>Issuance\<close>

datatype AddError = BadDescHash | BadIssuerKey | BadIssueNote

definition issue_note ::
    "Crypto \<Rightarrow> ('i, 'o) Protocol \<Rightarrow> ScanKey list \<Rightarrow> Located \<Rightarrow> bytes \<Rightarrow> CompactIssueNote
      \<Rightarrow> nat \<times> bytes list \<times> FoundNote list \<Rightarrow> AddError + nat \<times> bytes list \<times> FoundNote list" where
  "issue_note cr P keys l base note = (\<lambda>(vout, cmxs, found).
    case compute_issuance P note base of
      Inl _ \<Rightarrow> Inl BadIssueNote
    | Inr None \<Rightarrow> Inr (vout + 1, cmxs, found)
    | Inr (Some op) \<Rightarrow>
        Inr (vout + 1, cmxs @ [op_cmx op],
          found @ map (\<lambda>key. found_note op key l vout) (filter (\<lambda>key. cr_owns cr (sk_ivk key) (in_recipient note)) keys)))"

definition issue_action ::
    "Crypto \<Rightarrow> ('i, 'o) Protocol \<Rightarrow> ScanKey list \<Rightarrow> Located \<Rightarrow> CompactIssuance
      \<Rightarrow> nat \<times> bytes list \<times> FoundNote list \<Rightarrow> AddError + nat \<times> bytes list \<times> FoundNote list" where
  "issue_action cr P keys l iss st =
    (if length (is_asset_desc_hash iss) \<noteq> 32 then Inl BadDescHash
     else case cr_asset_base cr (is_ik iss) (is_asset_desc_hash iss) of
            None \<Rightarrow> Inl BadIssuerKey
          | Some base \<Rightarrow> res_fold (issue_note cr P keys l base) (is_notes iss) st)"

definition issue_tx ::
    "Crypto \<Rightarrow> ('i, 'o) Protocol \<Rightarrow> ScanKey list \<Rightarrow> Located \<Rightarrow> AddError + nat \<times> bytes list \<times> FoundNote list" where
  "issue_tx cr P keys l =
    res_fold (issue_action cr P keys l) (ct_issuances (lo_tx l)) (length (extract_outputs P (lo_tx l)), [], [])"

definition issue_step ::
    "Crypto \<Rightarrow> ('i, 'o) Protocol \<Rightarrow> ScanKey list \<Rightarrow> Located
      \<Rightarrow> ((nat \<times> nat) \<times> bytes list) list \<times> FoundNote list \<Rightarrow> AddError + ((nat \<times> nat) \<times> bytes list) list \<times> FoundNote list" where
  "issue_step cr P keys l = (\<lambda>(table, notes).
    res_bind (issue_tx cr P keys l) (\<lambda>(_, cmxs, found).
      Inr (if cmxs = [] then table else table @ [(lo_key l, cmxs)], notes @ found)))"

text \<open>The lookup in the table by height and index: a later entry of a key replaces an earlier one.\<close>

definition issued :: "((nat \<times> nat) \<times> bytes list) list \<Rightarrow> Located \<Rightarrow> bytes list" where
  "issued table l = (case map_of (rev table) (lo_key l) of None \<Rightarrow> [] | Some cmxs \<Rightarrow> cmxs)"

subsection \<open>Positions\<close>

definition note_key :: "FoundNote \<Rightarrow> nat \<times> nat \<times> nat" where
  "note_key f = (dn_height (fn_db f), dn_ivtx (fn_db f), dn_vout (fn_db f))"

definition place_note :: "('i, 'o) Protocol \<Rightarrow> nat \<Rightarrow> Located \<Rightarrow> FoundNote \<Rightarrow> FoundNote" where
  "place_note P position l f =
    (let p = u32_add position (dn_vout (fn_db f))
     in f\<lparr>fn_db := (fn_db f)\<lparr>dn_position := p, dn_nf := derive_nf P (fn_nk f) p (fn_note f), dn_txid := ct_hash (lo_tx l)\<rparr>\<rparr>)"

definition note_messages :: "Located \<Rightarrow> FoundNote \<Rightarrow> WarpSyncMessage list" where
  "note_messages l f =
    [MTransaction (dn_account (fn_db f)) (lo_height l) (lo_time l) (ct_hash (lo_tx l)), MNote (fn_db f)]"

text \<open>One transaction: the notes at the head of the queue that belong to it, and the position after it.\<close>

definition place_tx ::
    "('i, 'o) Protocol \<Rightarrow> ((nat \<times> nat) \<times> bytes list) list \<Rightarrow> Located
      \<Rightarrow> nat \<times> FoundNote list \<times> FoundNote list \<times> WarpSyncMessage list
      \<Rightarrow> nat \<times> FoundNote list \<times> FoundNote list \<times> WarpSyncMessage list" where
  "place_tx P table l = (\<lambda>(position, queue, done, msgs).
    let here = (\<lambda>f. dn_height (fn_db f) = lo_height l \<and> dn_ivtx (fn_db f) = lo_ivtx l);
        placed = map (place_note P position l) (takeWhile here queue)
    in (u32_add position (length (extract_outputs P (lo_tx l)) + length (issued table l)), dropWhile here queue, done @ placed,
        msgs @ concat (map (note_messages l) placed)))"

definition place_notes ::
    "('i, 'o) Protocol \<Rightarrow> ((nat \<times> nat) \<times> bytes list) list \<Rightarrow> Located list \<Rightarrow> nat \<Rightarrow> FoundNote list
      \<Rightarrow> FoundNote list \<times> WarpSyncMessage list" where
  "place_notes P table ls position notes =
    (let (_, queue, done, msgs) = fold (place_tx P table) ls (position, notes, [], []) in (done @ queue, msgs))"

subsection \<open>Commitments, witnesses and spends\<close>

definition tx_leaves :: "('i, 'o) Protocol \<Rightarrow> ((nat \<times> nat) \<times> bytes list) list \<Rightarrow> Located \<Rightarrow> bytes list run" where
  "tx_leaves P table l = run_bind (run_map (extract_cmx P) (extract_outputs P (lo_tx l))) (\<lambda>cs. Ret (cs @ issued table l))"

definition new_utxo :: "nat \<Rightarrow> FoundNote \<Rightarrow> Utxo" where
  "new_utxo pool f =
    \<lparr>ut_account = dn_account (fn_db f), ut_pool = pool, ut_position = dn_position (fn_db f), ut_nullifier = dn_nf (fn_db f),
     ut_value = dn_value (fn_db f), ut_cmx = dn_cmx (fn_db f), ut_txid = [], ut_witness = blank_witness 0\<rparr>"

definition ut_key :: "Utxo \<Rightarrow> nat \<times> bytes" where
  "ut_key u = (ut_account u, ut_nullifier u)"

definition insert_utxo :: "Utxo \<Rightarrow> Utxo list \<Rightarrow> Utxo list" where
  "insert_utxo u us = filter (\<lambda>v. ut_key v \<noteq> ut_key u) us @ [u]"

definition spend_nf :: "nat \<Rightarrow> nat \<Rightarrow> bytes \<Rightarrow> bytes \<Rightarrow> nat \<Rightarrow> Utxo list \<times> WarpSyncMessage list \<Rightarrow> Utxo list \<times> WarpSyncMessage list" where
  "spend_nf height time txid nf account = (\<lambda>(us, msgs).
    case find (\<lambda>u. ut_key u = (account, nf)) us of
      None \<Rightarrow> (us, msgs)
    | Some u \<Rightarrow>
        (filter (\<lambda>v. ut_key v \<noteq> (account, nf)) us,
         msgs @ [MTransaction (ut_account u) height time txid, MSpend (u\<lparr>ut_txid := txid\<rparr>)]))"

definition spend_tx ::
    "('i, 'o) Protocol \<Rightarrow> nat list \<Rightarrow> Located \<Rightarrow> Utxo list \<times> WarpSyncMessage list \<Rightarrow> (Utxo list \<times> WarpSyncMessage list) run" where
  "spend_tx P accs l st =
    run_bind (run_map (extract_nf P) (extract_inputs P (lo_tx l))) (\<lambda>nfs.
      Ret (fold (\<lambda>nf. fold (spend_nf (lo_height l) (lo_time l) (ct_hash (lo_tx l)) nf) accs) nfs st))"

definition witness_message :: "nat \<Rightarrow> Utxo \<Rightarrow> WarpSyncMessage" where
  "witness_message height u = MWitness (ut_account u) height (ut_cmx u) (ut_witness u)"

definition set_witnesses :: "Utxo list \<Rightarrow> Witness list \<Rightarrow> Utxo list" where
  "set_witnesses us ws = map2 (\<lambda>u w. u\<lparr>ut_witness := w\<rparr>) us ws"

subsection \<open>A batch of blocks\<close>

definition add_placed ::
    "(nat \<Rightarrow> Hash option list \<Rightarrow> nat \<Rightarrow> Hash option list) \<Rightarrow> nat \<Rightarrow> ('i, 'o) Protocol \<Rightarrow> nat \<Rightarrow> Located list
      \<Rightarrow> ((nat \<times> nat) \<times> bytes list) list \<Rightarrow> FoundNote list \<Rightarrow> WarpSyncMessage list \<Rightarrow> Sync \<Rightarrow> (Sync \<times> WarpSyncMessage list) run" where
  "add_placed combine_opt n P height ls table placed msgs s =
    (let new = map (new_utxo (sy_pool s)) placed; accs = map sk_account (sy_keys s)
     in run_bind (run_concat (tx_leaves P table) ls) (\<lambda>leaves.
        run_bind (add_leaves combine_opt n (sy_position s) leaves (sy_edge s) (map ut_witness (sy_utxos s)) (map ut_position new))
          (\<lambda>(edge, old_ws, new_ws).
            let utxos = fold insert_utxo (set_witnesses new new_ws) (set_witnesses (sy_utxos s) old_ws);
                msgs = msgs @ map (witness_message height) utxos
            in run_bind (run_fold (spend_tx P accs) ls (utxos, msgs)) (\<lambda>(utxos, msgs).
               Ret (s\<lparr>sy_position := u32_add (sy_position s) (length leaves), sy_utxos := utxos, sy_edge := edge\<rparr>,
                    msgs @ [MCheckpoint accs (sy_pool s) height])))))"

definition add_blocks ::
    "(nat \<Rightarrow> Hash option list \<Rightarrow> nat \<Rightarrow> Hash option list) \<Rightarrow> nat \<Rightarrow> Crypto \<Rightarrow> ('i, 'o) Protocol \<Rightarrow> CompactBlock list \<Rightarrow> Sync
      \<Rightarrow> (AddError + Sync \<times> WarpSyncMessage list) run" where
  "add_blocks combine_opt n cr P blocks s =
    (if blocks = [] then Ret (Inr (s, []))
     else
       (let ls = located blocks; height = cb_height (last blocks) mod 2 ^ 32
        in run_bind (run_concat (decrypt_tx P (sy_keys s)) ls) (\<lambda>notes.
           case res_fold (issue_step cr P (sy_keys s)) ls ([], notes) of
             Inl e \<Rightarrow> Ret (Inl e)
           | Inr (table, notes) \<Rightarrow>
               (let (placed, msgs) = place_notes P table ls (sy_position s) (sort_key note_key notes)
                in run_bind (add_placed combine_opt n P height ls table placed msgs s) (\<lambda>r. Ret (Inr r))))))"

end
