(* ===== verification/Scanning.thy ===== *)
theory Scanning
  imports Synchronizer
begin

text \<open>
  Correctness of the scanner of one pool. The reference is the list of commitments of the batch: for each transaction in
  the order of the chain the commitments of its outputs and then those of its issued notes. The scanner is in step
  with a list of commitments when its position is the length of the list, its edge is the edge of that tree and
  every note it holds has the witness of the leaf at its position, which is its own commitment.
\<close>

section \<open>The reference\<close>

text \<open>The commitments of the issued notes of a transaction.\<close>

definition issue_cmxs :: "Crypto \<Rightarrow> ('i, 'o) Protocol \<Rightarrow> Located \<Rightarrow> bytes list" where
  "issue_cmxs cr P l = (case issue_tx cr P [] l of Inl _ \<Rightarrow> [] | Inr (_, cmxs, _) \<Rightarrow> cmxs)"

definition leaves_of :: "Crypto \<Rightarrow> ('i, 'o) Protocol \<Rightarrow> Located \<Rightarrow> bytes list" where
  "leaves_of cr P l = map (raw_cmx P) (extract_outputs P (lo_tx l)) @ issue_cmxs cr P l"

definition batch_leaves :: "Crypto \<Rightarrow> ('i, 'o) Protocol \<Rightarrow> Located list \<Rightarrow> bytes list" where
  "batch_leaves cr P ls = concat (map (leaves_of cr P) ls)"

definition tracks :: "(nat \<Rightarrow> Hash \<Rightarrow> Hash \<Rightarrow> Hash) \<Rightarrow> nat \<Rightarrow> Hash list \<Rightarrow> Utxo \<Rightarrow> bool" where
  "tracks h n L u \<longleftrightarrow> ut_position u < length L \<and> ut_cmx u = L ! ut_position u \<and> ut_witness u = witness_of h n L (ut_position u)"

definition in_step :: "(nat \<Rightarrow> Hash \<Rightarrow> Hash \<Rightarrow> Hash) \<Rightarrow> nat \<Rightarrow> Hash list \<Rightarrow> Sync \<Rightarrow> bool" where
  "in_step h n L s \<longleftrightarrow> sy_position s = length L \<and> sy_edge s = edge_of h n L \<and> list_all (tracks h n L) (sy_utxos s)
    \<and> distinct (map ut_key (sy_utxos s))"

text \<open>
  A batch the scanner can read: heights ascend within \<open>u32\<close>, hashes have 32 bytes, decryption does not panic, the
  issuances are well formed; a protocol supports the issuance of all notes or of none.
\<close>

definition readable :: "Crypto \<Rightarrow> ('i, 'o) Protocol \<Rightarrow> ScanKey list \<Rightarrow> Located \<Rightarrow> bool" where
  "readable cr P keys l \<longleftrightarrow>
    (\<forall>out \<in> set (extract_outputs P (lo_tx l)). extract_cmx P out = Ret (raw_cmx P out)
      \<and> (\<forall>key \<in> set keys. open_output P (sk_ivk key) (lo_height l) out \<noteq> Panic)) \<and>
    (\<forall>inp \<in> set (extract_inputs P (lo_tx l)). extract_nf P inp \<noteq> Panic) \<and>
    (\<exists>r. issue_tx cr P [] l = Inr r)"

definition issuance_uniform :: "('i, 'o) Protocol \<Rightarrow> bool" where
  "issuance_uniform P \<longleftrightarrow> (\<forall>note base. compute_issuance P note base = Inr None) \<or> (\<forall>note base. compute_issuance P note base \<noteq> Inr None)"

definition ascending :: "CompactBlock list \<Rightarrow> bool" where
  "ascending blocks \<longleftrightarrow> sorted_wrt (<) (map cb_height blocks) \<and> list_all (\<lambda>b. cb_height b < 2 ^ 32) blocks"

lemma protocols_uniform:
  "issuance_uniform (SaplingProtocol cr)" "issuance_uniform (OrchardProtocol cr)" "issuance_uniform (IronwoodProtocol cr)"
  by (auto simp: issuance_uniform_def SaplingProtocol_def OrchardProtocol_def IronwoodProtocol_def split: option.split)

section \<open>Runs that return\<close>

lemma run_map_total: "(\<And>x. x \<in> set xs \<Longrightarrow> \<exists>y. f x = Ret y \<and> Q x y) \<Longrightarrow> \<exists>ys. run_map f xs = Ret ys \<and> list_all2 Q xs ys"
proof (induction xs)
  case (Cons x xs)
  obtain y where "f x = Ret y" "Q x y" using Cons.prems [of x] by auto
  moreover obtain ys where "run_map f xs = Ret ys" "list_all2 Q xs ys" using Cons.IH Cons.prems by auto
  ultimately show ?case by auto
qed simp

lemma run_concat_total:
  assumes "\<And>x. x \<in> set xs \<Longrightarrow> \<exists>ys. f x = Ret ys \<and> (\<forall>y \<in> set ys. Q y) \<and> (\<forall>z. R x z \<longrightarrow> z \<in> set ys)"
  shows "\<exists>ys. run_concat f xs = Ret ys \<and> (\<forall>y \<in> set ys. Q y) \<and> (\<forall>x \<in> set xs. \<forall>z. R x z \<longrightarrow> z \<in> set ys)"
proof -
  obtain yss where ok: "run_map f xs = Ret yss" and all: "list_all2 (\<lambda>x ys. (\<forall>y \<in> set ys. Q y) \<and> (\<forall>z. R x z \<longrightarrow> z \<in> set ys)) xs yss"
    using run_map_total [of xs f "\<lambda>x ys. (\<forall>y \<in> set ys. Q y) \<and> (\<forall>z. R x z \<longrightarrow> z \<in> set ys)", OF assms] by blast
  have "\<forall>ys \<in> set yss. \<forall>y \<in> set ys. Q y" "\<forall>x \<in> set xs. \<forall>z. R x z \<longrightarrow> z \<in> set (concat yss)"
    using all by (induction xs yss rule: list_all2_induct) auto
  then show ?thesis using ok by (auto simp: run_concat_def)
qed

section \<open>Decryption\<close>

definition opens :: "('i, 'o) Protocol \<Rightarrow> Located \<Rightarrow> nat \<Rightarrow> ScanKey \<Rightarrow> Opened \<Rightarrow> bool" where
  "opens P l vout key op \<longleftrightarrow> vout < length (extract_outputs P (lo_tx l)) \<and>
    open_output P (sk_ivk key) (lo_height l) (extract_outputs P (lo_tx l) ! vout) = Ret (Some op) \<and>
    op_cmx op = raw_cmx P (extract_outputs P (lo_tx l) ! vout)"

definition aligned :: "Crypto \<Rightarrow> ('i, 'o) Protocol \<Rightarrow> Located \<Rightarrow> FoundNote \<Rightarrow> bool" where
  "aligned cr P l f \<longleftrightarrow> (dn_height (fn_db f), dn_ivtx (fn_db f)) = lo_key l \<and>
    dn_vout (fn_db f) < length (leaves_of cr P l) \<and> dn_cmx (fn_db f) = leaves_of cr P l ! dn_vout (fn_db f)"

lemma opens_aligned: "opens P l vout key op \<Longrightarrow> aligned cr P l (found_note op key l vout)"
  by (auto simp: opens_def aligned_def found_note_def lo_key_def leaves_of_def nth_append)

lemma decrypt_tx_total:
  assumes "readable cr P keys l"
  shows "\<exists>fs. decrypt_tx P keys l = Ret fs \<and> (\<forall>f \<in> set fs. aligned cr P l f) \<and>
    (\<forall>vout key op. key \<in> set keys \<longrightarrow> opens P l vout key op \<longrightarrow> found_note op key l vout \<in> set fs)"
proof -
  let ?outs = "extract_outputs P (lo_tx l)"
  have one: "\<exists>fs. try_decrypt P l vout out key = Ret fs \<and> (\<forall>f \<in> set fs. aligned cr P l f) \<and>
      (\<forall>f. (\<exists>op. opens P l vout key op \<and> f = found_note op key l vout) \<longrightarrow> f \<in> set fs)"
    if "key \<in> set keys" "(vout, out) \<in> set (enumerate 0 ?outs)" for vout out key
  proof -
    have out: "vout < length ?outs" "out = ?outs ! vout" using that(2) by (auto simp: in_set_enumerate_eq)
    then have "open_output P (sk_ivk key) (lo_height l) out \<noteq> Panic" using assms that(1) by (simp add: readable_def)
    then obtain r where r: "open_output P (sk_ivk key) (lo_height l) out = Ret r" by (cases "open_output P (sk_ivk key) (lo_height l) out") auto
    then have "try_decrypt P l vout out key = Ret (case r of None \<Rightarrow> [] | Some op \<Rightarrow> if op_cmx op = raw_cmx P out then [found_note op key l vout] else [])"
      by (simp add: try_decrypt_def split: option.split)
    moreover have "opens P l vout key op \<longleftrightarrow> r = Some op \<and> op_cmx op = raw_cmx P out" for op
      using r out by (auto simp: opens_def)
    moreover have "aligned cr P l (found_note op key l vout)" if "opens P l vout key op" for op
      using that by (rule opens_aligned)
    ultimately show ?thesis by (auto split: option.split)
  qed
  have tx: "\<exists>fs. (\<lambda>(vout, out). run_concat (try_decrypt P l vout out) keys) vo = Ret fs \<and> (\<forall>f \<in> set fs. aligned cr P l f) \<and>
      (\<forall>f. (\<exists>key \<in> set keys. \<exists>op. opens P l (fst vo) key op \<and> f = found_note op key l (fst vo)) \<longrightarrow> f \<in> set fs)"
    if "vo \<in> set (enumerate 0 ?outs)" for vo
    using run_concat_total [of keys "try_decrypt P l (fst vo) (snd vo)" "aligned cr P l"
        "\<lambda>key f. \<exists>op. opens P l (fst vo) key op \<and> f = found_note op key l (fst vo)"] one [of _ "fst vo" "snd vo"] that
    by (fastforce simp: case_prod_beta)
  obtain fs where fs: "decrypt_tx P keys l = Ret fs" "\<forall>f \<in> set fs. aligned cr P l f"
      "\<forall>vo \<in> set (enumerate 0 ?outs). \<forall>f. (\<exists>key \<in> set keys. \<exists>op. opens P l (fst vo) key op \<and> f = found_note op key l (fst vo)) \<longrightarrow> f \<in> set fs"
    using run_concat_total [of "enumerate 0 ?outs" "\<lambda>(vout, out). run_concat (try_decrypt P l vout out) keys" "aligned cr P l"
        "\<lambda>vo f. \<exists>key \<in> set keys. \<exists>op. opens P l (fst vo) key op \<and> f = found_note op key l (fst vo)", OF tx]
    unfolding decrypt_tx_def by blast
  have "found_note op key l vout \<in> set fs" if "key \<in> set keys" "opens P l vout key op" for vout key op
  proof -
    have "(vout, ?outs ! vout) \<in> set (enumerate 0 ?outs)" using that(2) by (auto simp: opens_def in_set_enumerate_eq)
    then show ?thesis using fs(3) that by fastforce
  qed
  then show ?thesis using fs(1,2) by blast
qed

section \<open>Issuance\<close>

definition at_leaf :: "Located \<Rightarrow> bytes list \<Rightarrow> FoundNote \<Rightarrow> bool" where
  "at_leaf l xs f \<longleftrightarrow> (dn_height (fn_db f), dn_ivtx (fn_db f)) = lo_key l \<and>
    dn_vout (fn_db f) < length xs \<and> dn_cmx (fn_db f) = xs ! dn_vout (fn_db f)"

lemma aligned_at_leaf: "aligned cr P l f \<longleftrightarrow> at_leaf l (leaves_of cr P l) f"
  by (simp add: aligned_def at_leaf_def)

lemma at_leaf_append: "at_leaf l xs f \<Longrightarrow> at_leaf l (xs @ ys) f"
  by (simp add: at_leaf_def nth_append)

lemma at_leaf_found: "at_leaf l (xs @ [op_cmx op]) (found_note op key l (length xs))"
  by (simp add: at_leaf_def found_note_def lo_key_def)

definition issue_inv :: "('i, 'o) Protocol \<Rightarrow> Located \<Rightarrow> bytes list \<Rightarrow> nat \<times> bytes list \<times> FoundNote list \<Rightarrow> bool" where
  "issue_inv P l outs = (\<lambda>(v, cs, fs).
    ((\<forall>n b. compute_issuance P n b = Inr None) \<or> v = length outs + length cs) \<and> (\<forall>f \<in> set fs. at_leaf l (outs @ cs) f))"

lemma issue_note_inv:
  assumes "issuance_uniform P" "issue_note cr P keys l base note st = Inr st'" "issue_inv P l outs st"
  shows "issue_inv P l outs st'"
proof -
  obtain v cs fs where st: "st = (v, cs, fs)" by (cases st)
  show ?thesis
  proof (cases "compute_issuance P note base")
    case (Inr r)
    show ?thesis
    proof (cases r)
      case None
      then show ?thesis using Inr assms by (auto simp: st issue_note_def issue_inv_def issuance_uniform_def)
    next
      case (Some op)
      then have v: "v = length (outs @ cs)" using assms(3) Inr by (fastforce simp: st issue_inv_def)
      have st': "st' = (v + 1, cs @ [op_cmx op],
          fs @ map (\<lambda>key. found_note op key l v) (filter (\<lambda>key. cr_owns cr (sk_ivk key) (in_recipient note)) keys))"
        using assms(2) Inr Some by (simp add: st issue_note_def)
      have "at_leaf l (outs @ cs @ [op_cmx op]) f" if "f \<in> set fs" for f
        using that assms(3) at_leaf_append [of l "outs @ cs" f "[op_cmx op]"] by (simp add: st issue_inv_def)
      moreover have "at_leaf l (outs @ cs @ [op_cmx op]) (found_note op key l v)" for key
        using at_leaf_found [of l "outs @ cs" op key] v by simp
      ultimately show ?thesis using v by (auto simp: st' issue_inv_def)
    qed
  qed (use assms(2) in \<open>simp add: st issue_note_def\<close>)
qed

lemma issue_tx_inv:
  assumes "issuance_uniform P" "issue_tx cr P keys l = Inr (v, cs, fs)"
  shows "\<forall>f \<in> set fs. at_leaf l (map (raw_cmx P) (extract_outputs P (lo_tx l)) @ cs) f"
proof -
  let ?outs = "map (raw_cmx P) (extract_outputs P (lo_tx l))"
  have action: "issue_inv P l ?outs t" if "issue_inv P l ?outs s" "issue_action cr P keys l iss s = Inr t" for iss s t
    using that res_fold_invariant [of "issue_note cr P keys l _" "is_notes iss" s t "issue_inv P l ?outs"] issue_note_inv [OF assms(1)]
    by (auto simp: issue_action_def split: if_splits option.splits)
  have "issue_inv P l ?outs (v, cs, fs)"
    using assms(2) unfolding issue_tx_def
    by (rule res_fold_invariant [where P = "issue_inv P l ?outs"]) (simp add: issue_inv_def, rule action)
  then show ?thesis by (simp add: issue_inv_def)
qed

text \<open>The keys of the wallet change which notes are found, never the commitments or a failure.\<close>

definition unfound :: "nat \<times> bytes list \<times> FoundNote list \<Rightarrow> nat \<times> bytes list \<times> FoundNote list" where
  "unfound = (\<lambda>(v, cs, _). (v, cs, []))"

lemma res_fold_map: "(\<And>x s. map_sum id p (f x s) = g x (p s)) \<Longrightarrow> map_sum id p (res_fold f xs s) = res_fold g xs (p s)"
proof (induction xs arbitrary: s)
  case (Cons x xs)
  then show ?case using Cons.prems [of x s, symmetric] by (cases "f x s") simp_all
qed simp

lemma issue_tx_keys: "map_sum id unfound (issue_tx cr P keys l) = issue_tx cr P [] l"
proof -
  have single: "map_sum id unfound (issue_note cr P keys l base nt s) = issue_note cr P [] l base nt (unfound s)" for base nt s
    by (cases s) (auto simp: issue_note_def unfound_def split: sum.split option.split)
  have action: "map_sum id unfound (issue_action cr P keys l iss s) = issue_action cr P [] l iss (unfound s)" for iss s
    using res_fold_map [of unfound "issue_note cr P keys l _" "issue_note cr P [] l _", OF single]
    by (auto simp: issue_action_def split: option.split)
  show ?thesis unfolding issue_tx_def 
    using res_fold_map [of unfound "issue_action cr P keys l" "issue_action cr P [] l", OF action] by (simp add: unfound_def)
qed

lemma issue_tx_total:
  assumes "issuance_uniform P" "readable cr P keys l"
  shows "\<exists>v fs. issue_tx cr P keys l = Inr (v, issue_cmxs cr P l, fs) \<and> (\<forall>f \<in> set fs. aligned cr P l f)"
proof -
  obtain v cs fs where r: "issue_tx cr P keys l = Inr (v, cs, fs)"
    using assms(2) issue_tx_keys [of cr P keys l] by (cases "issue_tx cr P keys l") (auto simp: readable_def)
  then have "cs = issue_cmxs cr P l" using issue_tx_keys [of cr P keys l] by (simp add: issue_cmxs_def unfound_def flip: issue_tx_keys [of cr P keys l])
  then show ?thesis using r issue_tx_inv [OF assms(1) r] by (simp add: aligned_at_leaf leaves_of_def)
qed

definition issue_table :: "Crypto \<Rightarrow> ('i, 'o) Protocol \<Rightarrow> Located list \<Rightarrow> ((nat \<times> nat) \<times> bytes list) list" where
  "issue_table cr P ls = filter (\<lambda>(_, cs). cs \<noteq> []) (map (\<lambda>l. (lo_key l, issue_cmxs cr P l)) ls)"

lemma issue_steps_total:
  assumes "issuance_uniform P" "\<forall>l \<in> set ls. readable cr P keys l"
  shows "\<exists>fs. res_fold (issue_step cr P keys) ls (table, found) = Inr (table @ issue_table cr P ls, found @ fs)
    \<and> (\<forall>f \<in> set fs. \<exists>l \<in> set ls. aligned cr P l f)"
  using assms(2)
proof (induction ls arbitrary: table found)
  case (Cons l ls)
  obtain v fs where l: "issue_tx cr P keys l = Inr (v, issue_cmxs cr P l, fs)" "\<forall>f \<in> set fs. aligned cr P l f"
    using issue_tx_total [OF assms(1)] Cons.prems by (meson list.set_intros(1))
  let ?t = "if issue_cmxs cr P l = [] then table else table @ [(lo_key l, issue_cmxs cr P l)]"
  obtain gs where gs: "res_fold (issue_step cr P keys) ls (?t, found @ fs) = Inr (?t @ issue_table cr P ls, (found @ fs) @ gs)"
      "\<forall>f \<in> set gs. \<exists>l \<in> set ls. aligned cr P l f"
    using Cons.IH [of ?t "found @ fs"] Cons.prems by auto
  have "res_fold (issue_step cr P keys) (l # ls) (table, found) = Inr (table @ issue_table cr P (l # ls), found @ fs @ gs)"
    using l(1) gs(1) by (simp add: issue_step_def issue_table_def)
  moreover have "\<forall>f \<in> set (fs @ gs). \<exists>l' \<in> set (l # ls). aligned cr P l' f" using l(2) gs(2) by auto
  ultimately show ?case by blast
qed (simp add: issue_table_def)

lemma issued_table:
  assumes "distinct (map lo_key ls)" "l \<in> set ls"
  shows "issued (issue_table cr P ls) l = issue_cmxs cr P l"
proof -
  have keys: "map fst (issue_table cr P ls) = map lo_key (filter (\<lambda>l. issue_cmxs cr P l \<noteq> []) ls)"
    by (induction ls) (auto simp: issue_table_def)
  have dist: "distinct (map fst (rev (issue_table cr P ls)))"
    unfolding rev_map [symmetric] distinct_rev keys using assms(1) by (rule distinct_map_filter)
  show ?thesis
  proof (cases "issue_cmxs cr P l = []")
    case True
    have "lo_key l \<notin> fst ` set (issue_table cr P ls)"
    proof
      assume "lo_key l \<in> fst ` set (issue_table cr P ls)"
      then obtain l' where "l' \<in> set ls" "lo_key l' = lo_key l" "issue_cmxs cr P l' \<noteq> []" by (auto simp: issue_table_def)
      then show False using True distinct_key_unique [OF assms(1) _ assms(2)] by auto
    qed
    then have "map_of (rev (issue_table cr P ls)) (lo_key l) = None" by (simp add: map_of_eq_None_iff)
    then show ?thesis using True by (simp add: issued_def)
  next
    case False
    then have "(lo_key l, issue_cmxs cr P l) \<in> set (rev (issue_table cr P ls))" using assms(2) by (auto simp: issue_table_def)
    then show ?thesis using map_of_is_SomeI [OF dist] by (simp add: issued_def)
  qed
qed

section \<open>Positions\<close>

definition here :: "Located \<Rightarrow> FoundNote \<Rightarrow> bool" where
  "here l f \<longleftrightarrow> dn_height (fn_db f) = lo_height l \<and> dn_ivtx (fn_db f) = lo_ivtx l"

lemma here_key: "here l f \<longleftrightarrow> (dn_height (fn_db f), dn_ivtx (fn_db f)) = lo_key l"
  by (auto simp: here_def lo_key_def)

text \<open>The notes of every transaction, placed from the position of that transaction.\<close>

fun place_all :: "('i, 'o) Protocol \<Rightarrow> (Located \<Rightarrow> nat) \<Rightarrow> Located list \<Rightarrow> nat \<Rightarrow> FoundNote list \<Rightarrow> (Located \<times> FoundNote) list" where
  "place_all P w [] position queue = []"
| "place_all P w (l # ls) position queue =
    map (\<lambda>f. (l, place_note P position l f)) (filter (here l) queue) @ place_all P w ls (position + w l) queue"

lemma place_all_filter: "(\<And>l. l \<in> set ls \<Longrightarrow> filter (here l) q = filter (here l) r) \<Longrightarrow> place_all P w ls p q = place_all P w ls p r"
  by (induction ls arbitrary: p) auto

lemma takeWhile_here:
  assumes "sorted (map note_key q)" "\<forall>f \<in> set q. lo_key l \<le> (dn_height (fn_db f), dn_ivtx (fn_db f))"
  shows "takeWhile (here l) q = filter (here l) q" "dropWhile (here l) q = filter (\<lambda>f. \<not> here l f) q"
proof -
  have "takeWhile (here l) q = filter (here l) q \<and> dropWhile (here l) q = filter (\<lambda>f. \<not> here l f) q"
    using assms
  proof (induction q)
    case (Cons f q)
    show ?case
    proof (cases "here l f")
      case False
      then have "lo_key l < (dn_height (fn_db f), dn_ivtx (fn_db f))" using Cons.prems(2) by (simp add: here_key order.strict_iff_order)
      moreover have "(dn_height (fn_db f), dn_ivtx (fn_db f)) \<le> (dn_height (fn_db g), dn_ivtx (fn_db g))" if "g \<in> set q" for g
        using Cons.prems(1) that by (auto simp: note_key_def less_eq_prod_def)
      ultimately have "\<not> here l g" if "g \<in> set q" for g using that by (fastforce simp: here_key)
      then have "filter (here l) q = []" "filter (\<lambda>f. \<not> here l f) q = q" by (auto simp: filter_empty_conv filter_id_conv)
      then show ?thesis using False by simp
    qed (use Cons in simp)
  qed simp
  then show "takeWhile (here l) q = filter (here l) q" "dropWhile (here l) q = filter (\<lambda>f. \<not> here l f) q" by auto
qed

lemma place_txs_exact:
  assumes "sorted_wrt (<) (map lo_key ls)" "sorted (map note_key q)" "\<forall>f \<in> set q. \<exists>l \<in> set ls. here l f"
    and "\<forall>l \<in> set ls. length (extract_outputs P (lo_tx l)) + length (issued table l) = w l" "p + sum_list (map w ls) < 2 ^ 32"
  shows "fold (place_tx P table) ls (p, q, fin, msgs) =
    (p + sum_list (map w ls), [], fin @ map snd (place_all P w ls p q), msgs @ concat (map (case_prod note_messages) (place_all P w ls p q)))"
  using assms
proof (induction ls arbitrary: p q fin msgs)
  case (Cons l ls)
  have ge: "lo_key l \<le> (dn_height (fn_db f), dn_ivtx (fn_db f))" if f: "f \<in> set q" for f
  proof -
    obtain l' where "l' \<in> set (l # ls)" "here l' f" using Cons.prems(3) f by blast
    then show ?thesis using Cons.prems(1) by (auto simp: here_key less_imp_le)
  qed
  let ?q = "filter (\<lambda>f. \<not> here l f) q" and ?placed = "map (place_note P p l) (filter (here l) q)"
  have here: "(\<lambda>f. dn_height (fn_db f) = lo_height l \<and> dn_ivtx (fn_db f) = lo_ivtx l) = here l" by (simp add: here_def fun_eq_iff)
  have w: "length (extract_outputs P (lo_tx l)) + length (issued table l) = w l" using Cons.prems(4) by simp
  have pos: "u32_add p (w l) = p + w l" using Cons.prems(5) by (simp add: u32_add_def)
  have step: "place_tx P table l (p, q, fin, msgs) = (p + w l, ?q, fin @ ?placed, msgs @ concat (map (note_messages l) ?placed))"
    using takeWhile_here [OF Cons.prems(2)] ge by (simp add: place_tx_def Let_def here w pos)
  have sorted: "sorted (map note_key ?q)" using Cons.prems(2) by (rule sorted_filter)
  have rest: "\<forall>f \<in> set ?q. \<exists>l \<in> set ls. here l f" using Cons.prems(3) by auto
  have "filter (here l') ?q = filter (here l') q" if "l' \<in> set ls" for l'
  proof -
    have "lo_key l < lo_key l'" using Cons.prems(1) that by auto
    then show ?thesis unfolding filter_filter by (intro filter_cong) (auto simp: here_key)
  qed
  then have same: "place_all P w ls (p + w l) ?q = place_all P w ls (p + w l) q" by (rule place_all_filter)
  have IH: "fold (place_tx P table) ls (p + w l, ?q, fin @ ?placed, msgs @ concat (map (note_messages l) ?placed)) =
      (p + w l + sum_list (map w ls), [], (fin @ ?placed) @ map snd (place_all P w ls (p + w l) ?q),
       (msgs @ concat (map (note_messages l) ?placed)) @ concat (map (case_prod note_messages) (place_all P w ls (p + w l) ?q)))"
    by (rule Cons.IH [OF _ sorted rest]) (use Cons.prems in auto)
  show ?case unfolding fold_simps step IH same by (simp add: comp_def)
qed simp

lemma place_all_mem:
  "(l, g) \<in> set (place_all P w ls p q) \<longleftrightarrow>
    (\<exists>pre post f. ls = pre @ l # post \<and> f \<in> set q \<and> here l f \<and> g = place_note P (p + sum_list (map w pre)) l f)"
proof (induction ls arbitrary: p)
  case (Cons a ls)
  show ?case
  proof
    assume "(l, g) \<in> set (place_all P w (a # ls) p q)"
    then consider f where "l = a" "f \<in> set q" "here l f" "g = place_note P p l f" | "(l, g) \<in> set (place_all P w ls (p + w a) q)" by auto
    then show "\<exists>pre post f. a # ls = pre @ l # post \<and> f \<in> set q \<and> here l f \<and> g = place_note P (p + sum_list (map w pre)) l f"
    proof cases
      case 1
      then have "a # ls = [] @ l # ls \<and> f \<in> set q \<and> here l f \<and> g = place_note P (p + sum_list (map w [])) l f" by simp
      then show ?thesis by blast
    next
      case 2
      then obtain pre post f where "ls = pre @ l # post" "f \<in> set q" "here l f" "g = place_note P (p + w a + sum_list (map w pre)) l f"
        using Cons.IH by blast
      then have "a # ls = (a # pre) @ l # post \<and> f \<in> set q \<and> here l f \<and> g = place_note P (p + sum_list (map w (a # pre))) l f"
        by (simp add: add.assoc)
      then show ?thesis by blast
    qed
  next
    assume "\<exists>pre post f. a # ls = pre @ l # post \<and> f \<in> set q \<and> here l f \<and> g = place_note P (p + sum_list (map w pre)) l f"
    then obtain pre post f where pre: "a # ls = pre @ l # post" "f \<in> set q" "here l f" "g = place_note P (p + sum_list (map w pre)) l f" by blast
    show "(l, g) \<in> set (place_all P w (a # ls) p q)"
    proof (cases pre)
      case c: (Cons b pre')
      then have "ls = pre' @ l # post \<and> f \<in> set q \<and> here l f \<and> g = place_note P (p + w a + sum_list (map w pre')) l f"
        using pre by (simp add: add.assoc)
      then have "(l, g) \<in> set (place_all P w ls (p + w a) q)" unfolding Cons.IH by blast
      then show ?thesis by simp
    qed (use pre in auto)
  qed
qed simp

section \<open>The commitments of a batch\<close>

lemma located_keys:
  assumes "ascending blocks"
  shows "sorted_wrt (<) (map lo_key (located blocks))"
  using assms
proof (induction blocks)
  case (Cons b blocks)
  let ?row = "\<lambda>b. map (\<lambda>(ivtx, tx). \<lparr>lo_height = cb_height b mod 2 ^ 32, lo_time = cb_time b, lo_ivtx = ivtx, lo_tx = tx\<rparr>) (enumerate 0 (cb_vtx b))"
  have row: "map lo_key (?row b) = map (Pair (cb_height b)) [0..<length (cb_vtx b)]"
    using Cons.prems by (intro nth_equalityI) (simp_all add: ascending_def lo_key_def nth_enumerate_eq)
  have heights: "\<exists>c \<in> set blocks. lo_height l = cb_height c" if "l \<in> set (located blocks)" for l
    using that Cons.prems by (fastforce simp: located_def ascending_def list_all_iff)
  have "lo_key x < lo_key y" if x: "x \<in> set (?row b)" and y: "y \<in> set (located blocks)" for x y
  proof -
    have "lo_height x = cb_height b" using x Cons.prems by (auto simp: ascending_def)
    moreover obtain c where "c \<in> set blocks" "lo_height y = cb_height c" using heights y by blast
    ultimately show ?thesis using Cons.prems by (auto simp: lo_key_def ascending_def)
  qed
  moreover have "sorted_wrt (<) (map lo_key (?row b))" unfolding row by (simp add: sorted_wrt_map sorted_wrt_upt)
  moreover have "sorted_wrt (<) (map lo_key (located blocks))" using Cons by (simp add: ascending_def)
  moreover have "located (b # blocks) = ?row b @ located blocks" by (simp add: located_def)
  ultimately show ?case by (auto simp: sorted_wrt_append)
qed (simp add: located_def)

lemma located_distinct: "ascending blocks \<Longrightarrow> distinct (map lo_key (located blocks))"
  using located_keys strict_sorted_iff by blast

lemma tx_leaves_total:
  assumes "distinct (map lo_key ls)" "\<forall>l \<in> set ls. readable cr P keys l"
  shows "run_concat (tx_leaves P (issue_table cr P ls)) ls = Ret (batch_leaves cr P ls)"
proof -
  have "tx_leaves P (issue_table cr P ls) l = Ret (leaves_of cr P l)" if "l \<in> set ls" for l
  proof -
    have "run_map (extract_cmx P) (extract_outputs P (lo_tx l)) = Ret (map (raw_cmx P) (extract_outputs P (lo_tx l)))"
      using run_map_map [of "extract_outputs P (lo_tx l)" "extract_cmx P" id "raw_cmx P"] assms(2) that by (simp add: readable_def)
    then show ?thesis using issued_table [OF assms(1) that] by (simp add: tx_leaves_def leaves_of_def)
  qed
  then have "run_map (tx_leaves P (issue_table cr P ls)) ls = Ret (map (leaves_of cr P) ls)"
    using run_map_map [of ls "tx_leaves P (issue_table cr P ls)" id "leaves_of cr P"] by simp
  then show ?thesis by (simp add: run_concat_def batch_leaves_def)
qed

lemma length_batch: "length (batch_leaves cr P ls) = sum_list (map (length \<circ> leaves_of cr P) ls)"
  by (simp add: batch_leaves_def length_concat comp_def)

lemma batch_nth:
  assumes "ls = pre @ l # post" "v < length (leaves_of cr P l)"
  shows "length (batch_leaves cr P pre) + v < length (batch_leaves cr P ls)"
    "batch_leaves cr P ls ! (length (batch_leaves cr P pre) + v) = leaves_of cr P l ! v"
  using assms by (simp_all add: batch_leaves_def nth_append)

section \<open>Unspent notes\<close>

lemma insert_utxo_keys: "distinct (map ut_key us) \<Longrightarrow> distinct (map ut_key (insert_utxo u us))"
  by (auto simp: insert_utxo_def distinct_map_filter)

lemma insert_utxos:
  "distinct (map ut_key us) \<Longrightarrow> distinct (map ut_key (fold insert_utxo new us))"
  "set (fold insert_utxo new us) \<subseteq> set new \<union> set us"
  "ut_key ` set (fold insert_utxo new us) = ut_key ` set new \<union> ut_key ` set us"
proof (induction new arbitrary: us)
  case (Cons u new)
  { case 1 then show ?case using Cons.IH(1) insert_utxo_keys by simp }
  { case 2 show ?case using Cons.IH(2) [of "insert_utxo u us"] by (auto simp: insert_utxo_def) }
  { case 3 show ?case using Cons.IH(3) [of "insert_utxo u us"] by (auto simp: insert_utxo_def) }
qed auto

text \<open>What a step of the search for spends does: it takes away the notes of a set of keys and reports each of them.\<close>

definition spend_messages :: "(Utxo \<times> nat \<times> nat \<times> bytes) list \<Rightarrow> WarpSyncMessage list" where
  "spend_messages R = concat (map (\<lambda>(u, height, time, txid). [MTransaction (ut_account u) height time txid, MSpend (u\<lparr>ut_txid := txid\<rparr>)]) R)"

definition takes_by ::
    "(Utxo \<times> nat \<times> nat \<times> bytes) list \<Rightarrow> (Utxo \<Rightarrow> bool) \<Rightarrow> Utxo list \<times> WarpSyncMessage list \<Rightarrow> Utxo list \<times> WarpSyncMessage list \<Rightarrow> bool" where
  "takes_by R S st st' \<longleftrightarrow> fst st' = filter (\<lambda>u. \<not> S u) (fst st) \<and> snd st' = snd st @ spend_messages R \<and>
    distinct (map fst R) \<and> fst ` set R = {u \<in> set (fst st). S u}"

definition takes :: "(Utxo \<Rightarrow> bool) \<Rightarrow> Utxo list \<times> WarpSyncMessage list \<Rightarrow> Utxo list \<times> WarpSyncMessage list \<Rightarrow> bool" where
  "takes S st st' \<longleftrightarrow> (\<exists>R. takes_by R S st st')"

lemma takes_trans: "takes S st st' \<Longrightarrow> takes Q st' st'' \<Longrightarrow> takes (\<lambda>u. S u \<or> Q u) st st''"
proof -
  assume "takes S st st'" "takes Q st' st''"
  then obtain R1 R2 where "takes_by R1 S st st'" "takes_by R2 Q st' st''" by (auto simp: takes_def)
  then have "takes_by (R1 @ R2) (\<lambda>u. S u \<or> Q u) st st''"
    by (auto simp: takes_by_def spend_messages_def filter_filter image_Un cong: conj_cong)
  then show ?thesis by (auto simp: takes_def)
qed

lemma takes_none: "takes (\<lambda>_. False) st st"
  unfolding takes_def takes_by_def by (intro exI [of _ "[]"]) (simp add: spend_messages_def)

lemma takes_cong: "(\<And>u. S u \<longleftrightarrow> Q u) \<Longrightarrow> takes S st st' \<Longrightarrow> takes Q st st'"
  unfolding takes_def takes_by_def by auto

lemma spend_nf_takes:
  assumes "distinct (map ut_key (fst st))"
  shows "takes (\<lambda>u. ut_key u = (a, nf)) st (spend_nf height time txid nf a st)"
proof (cases "find (\<lambda>u. ut_key u = (a, nf)) (fst st)")
  case None
  then have "\<forall>u \<in> set (fst st). ut_key u \<noteq> (a, nf)" by (auto simp: find_None_iff)
  then have "takes_by [] (\<lambda>u. ut_key u = (a, nf)) st (spend_nf height time txid nf a st)"
    using None by (auto simp: spend_nf_def takes_by_def case_prod_beta filter_id_conv spend_messages_def)
  then show ?thesis by (auto simp: takes_def)
next
  case (Some u)
  then have u: "u \<in> set (fst st)" "ut_key u = (a, nf)" by (auto simp: find_Some_iff)
  have "v = u" if "v \<in> set (fst st)" "ut_key v = (a, nf)" for v using that u distinct_key_unique [OF assms] by metis
  then have "{v \<in> set (fst st). ut_key v = (a, nf)} = {u}" using u by blast
  then have "takes_by [(u, height, time, txid)] (\<lambda>u. ut_key u = (a, nf)) st (spend_nf height time txid nf a st)"
    using Some by (simp add: spend_nf_def takes_by_def case_prod_beta spend_messages_def)
  then show ?thesis by (auto simp: takes_def)
qed

lemma takes_distinct: "takes S st st' \<Longrightarrow> distinct (map ut_key (fst st)) \<Longrightarrow> distinct (map ut_key (fst st'))"
  by (auto simp: takes_def takes_by_def distinct_map_filter)

lemma takes_fold:
  assumes "\<And>x st. distinct (map ut_key (fst st)) \<Longrightarrow> takes (S x) st (f x st)" "distinct (map ut_key (fst st))"
  shows "takes (\<lambda>u. \<exists>x \<in> set xs. S x u) st (fold f xs st)"
  using assms(2)
proof (induction xs arbitrary: st)
  case (Cons x xs)
  have one: "takes (S x) st (f x st)" using assms(1) Cons.prems by blast
  then have "takes (\<lambda>u. \<exists>x \<in> set xs. S x u) (f x st) (fold f xs (f x st))" using Cons.IH takes_distinct Cons.prems by blast
  then show ?case using takes_trans [OF one] by (auto intro: takes_cong)
qed (simp add: takes_none)

lemma spend_tx_total:
  assumes "readable cr P keys l" "distinct (map ut_key (fst st))"
  shows "\<exists>st'. spend_tx P accs l st = Ret st' \<and>
    takes (\<lambda>u. ut_account u \<in> set accs \<and> (\<exists>inp \<in> set (extract_inputs P (lo_tx l)). extract_nf P inp = Ret (ut_nullifier u))) st st'"
proof -
  have ok: "\<exists>nf. extract_nf P inp = Ret nf \<and> extract_nf P inp = Ret nf" if "inp \<in> set (extract_inputs P (lo_tx l))" for inp
    using assms(1) that by (cases "extract_nf P inp") (auto simp: readable_def)
  obtain nfs where nfs: "run_map (extract_nf P) (extract_inputs P (lo_tx l)) = Ret nfs"
      "list_all2 (\<lambda>inp nf. extract_nf P inp = Ret nf) (extract_inputs P (lo_tx l)) nfs"
    using run_map_total [of "extract_inputs P (lo_tx l)" "extract_nf P" "\<lambda>inp nf. extract_nf P inp = Ret nf", OF ok] by blast
  have mem: "nf \<in> set nfs \<longleftrightarrow> (\<exists>inp \<in> set (extract_inputs P (lo_tx l)). extract_nf P inp = Ret nf)" for nf
    using nfs(2) by (induction rule: list_all2_induct) auto
  let ?one = "\<lambda>nf. fold (spend_nf (lo_height l) (lo_time l) (ct_hash (lo_tx l)) nf) accs"
  have "takes (\<lambda>u. \<exists>a \<in> set accs. ut_key u = (a, nf)) st (?one nf st)" if "distinct (map ut_key (fst st))" for nf st
    using takes_fold [of "\<lambda>a u. ut_key u = (a, nf)", OF spend_nf_takes that] .
  then have "takes (\<lambda>u. \<exists>nf \<in> set nfs. \<exists>a \<in> set accs. ut_key u = (a, nf)) st (fold ?one nfs st)"
    using takes_fold [of "\<lambda>nf u. \<exists>a \<in> set accs. ut_key u = (a, nf)" ?one st nfs] assms(2) by blast
  then have "takes (\<lambda>u. ut_account u \<in> set accs \<and> (\<exists>inp \<in> set (extract_inputs P (lo_tx l)). extract_nf P inp = Ret (ut_nullifier u))) st (fold ?one nfs st)"
    by (rule takes_cong [rotated]) (auto simp: ut_key_def mem)
  then show ?thesis using nfs(1) by (simp add: spend_tx_def)
qed

definition revealed :: "('i, 'o) Protocol \<Rightarrow> nat list \<Rightarrow> Located list \<Rightarrow> Utxo \<Rightarrow> bool" where
  "revealed P accs ls u \<longleftrightarrow> ut_account u \<in> set accs \<and>
    (\<exists>l \<in> set ls. \<exists>inp \<in> set (extract_inputs P (lo_tx l)). extract_nf P inp = Ret (ut_nullifier u))"

lemma spend_txs_total:
  assumes "\<forall>l \<in> set ls. readable cr P keys l" "distinct (map ut_key (fst st))"
  shows "\<exists>st'. run_fold (spend_tx P accs) ls st = Ret st' \<and> takes (revealed P accs ls) st st'"
  using assms
proof (induction ls arbitrary: st)
  case Nil
  then show ?case by (simp add: revealed_def takes_none)
next
  case (Cons l ls)
  obtain st1 where one: "spend_tx P accs l st = Ret st1"
      "takes (\<lambda>u. ut_account u \<in> set accs \<and> (\<exists>inp \<in> set (extract_inputs P (lo_tx l)). extract_nf P inp = Ret (ut_nullifier u))) st st1"
    using spend_tx_total [of cr P keys l st accs] Cons.prems by auto
  obtain st2 where "run_fold (spend_tx P accs) ls st1 = Ret st2" "takes (revealed P accs ls) st1 st2"
    using Cons.IH [of st1] Cons.prems takes_distinct [OF one(2)] by auto
  moreover have "takes (revealed P accs (l # ls)) st st2"
    by (rule takes_cong [rotated, OF takes_trans [OF one(2) calculation(2)]]) (auto simp: revealed_def)
  ultimately show ?case using one(1) by simp
qed

section \<open>A batch\<close>

text \<open>The notes of a batch that the keys open are announced, each at the leaf of its commitment.\<close>

definition announced :: "('i, 'o) Protocol \<Rightarrow> Hash list \<Rightarrow> ScanKey list \<Rightarrow> Located list \<Rightarrow> WarpSyncMessage list \<Rightarrow> bool" where
  "announced P T keys ls msgs \<longleftrightarrow>
    (\<forall>l \<in> set ls. \<forall>key \<in> set keys. \<forall>vout op. opens P l vout key op \<longrightarrow>
      (\<exists>d. MNote d \<in> set msgs \<and> dn_account d = sk_account key \<and> dn_value d = op_value op \<and> dn_txid d = ct_hash (lo_tx l)
        \<and> dn_position d < length T \<and> T ! dn_position d = op_cmx op
        \<and> dn_nf d = derive_nf P (sk_nk key) (dn_position d) (op_note op)))"

lemma place_note_fields:
  assumes "position + dn_vout (fn_db f) < 2 ^ 32"
  shows "dn_position (fn_db (place_note P position l f)) = position + dn_vout (fn_db f)"
    "dn_cmx (fn_db (place_note P position l f)) = dn_cmx (fn_db f)"
  using assms by (simp_all add: place_note_def Let_def u32_add_def)

lemma placed_at_leaf:
  assumes "distinct (map lo_key ls)" "\<forall>f \<in> set q. \<exists>l \<in> set ls. aligned cr P l f" "length (L @ batch_leaves cr P ls) < 2 ^ 32"
    and "ls = pre @ l # post" "f \<in> set q" "here l f" "g = place_note P (length L + sum_list (map (length \<circ> leaves_of cr P) pre)) l f"
  shows "length L \<le> dn_position (fn_db g)" "dn_position (fn_db g) < length (L @ batch_leaves cr P ls)"
    "dn_cmx (fn_db g) = (L @ batch_leaves cr P ls) ! dn_position (fn_db g)"
    "dn_position (fn_db g) = length L + length (batch_leaves cr P pre) + dn_vout (fn_db f)"
proof -
  obtain l' where l': "l' \<in> set ls" "aligned cr P l' f" using assms(2,5) by blast
  then have "lo_key l' = lo_key l" using assms(6) by (simp add: aligned_def here_key)
  then have "l' = l" using distinct_key_unique [OF assms(1) l'(1)] assms(4) by simp
  then have al: "dn_vout (fn_db f) < length (leaves_of cr P l)" "dn_cmx (fn_db f) = leaves_of cr P l ! dn_vout (fn_db f)"
    using l'(2) by (simp_all add: aligned_def)
  note at = batch_nth [OF assms(4) al(1)]
  have g: "g = place_note P (length L + length (batch_leaves cr P pre)) l f" using assms(7) by (simp add: length_batch)
  have "length L + length (batch_leaves cr P pre) + dn_vout (fn_db f) < 2 ^ 32" using at(1) assms(3) by simp
  note fields = place_note_fields [OF this, of P l]
  show "dn_position (fn_db g) = length L + length (batch_leaves cr P pre) + dn_vout (fn_db f)" unfolding g fields ..
  then show "length L \<le> dn_position (fn_db g)" "dn_position (fn_db g) < length (L @ batch_leaves cr P ls)"
    "dn_cmx (fn_db g) = (L @ batch_leaves cr P ls) ! dn_position (fn_db g)"
    using at al(2) by (simp_all add: g fields nth_append)
qed

lemma set_witnesses_map: "set_witnesses us (map f (map ut_position us)) = map (\<lambda>u. u\<lparr>ut_witness := f (ut_position u)\<rparr>) us"
  by (induction us) (simp_all add: set_witnesses_def)

lemma tracks_witnesses:
  "list_all (tracks h n L) us \<Longrightarrow> map ut_witness us = map (witness_of h n L) (map ut_position us)"
  by (induction us) (simp_all add: tracks_def)

lemma tracks_append:
  "tracks h n L u \<Longrightarrow> tracks h n (L @ C) (u\<lparr>ut_witness := witness_of h n (L @ C) (ut_position u)\<rparr>)"
  by (simp add: tracks_def nth_append)

text \<open>The notes held when the witnesses of a batch are sent, before its spends are taken out.\<close>

definition refreshed :: "(nat \<Rightarrow> Hash \<Rightarrow> Hash \<Rightarrow> Hash) \<Rightarrow> nat \<Rightarrow> Hash list \<Rightarrow> Utxo \<Rightarrow> Utxo" where
  "refreshed h n T u = u\<lparr>ut_witness := witness_of h n T (ut_position u)\<rparr>"

definition held_notes :: "(nat \<Rightarrow> Hash \<Rightarrow> Hash \<Rightarrow> Hash) \<Rightarrow> nat \<Rightarrow> Hash list \<Rightarrow> Sync \<Rightarrow> FoundNote list \<Rightarrow> Utxo list" where
  "held_notes h n T s placed =
    fold insert_utxo (map (refreshed h n T) (map (new_utxo (sy_pool s)) placed)) (map (refreshed h n T) (sy_utxos s))"

lemma refreshed_key [simp]: "ut_key (refreshed h n T u) = ut_key u"
  by (simp add: refreshed_def ut_key_def)

lemma held_notes_ok:
  assumes "in_step h n L s" "T = L @ C"
    and "\<forall>g \<in> set placed. dn_position (fn_db g) < length T \<and> dn_cmx (fn_db g) = T ! dn_position (fn_db g)"
  shows "distinct (map ut_key (held_notes h n T s placed))" "list_all (tracks h n T) (held_notes h n T s placed)"
    "ut_key ` set (held_notes h n T s placed) = ut_key ` (set (sy_utxos s) \<union> set (map (new_utxo (sy_pool s)) placed))"
proof -
  let ?new = "map (new_utxo (sy_pool s)) placed"
  have old: "list_all (tracks h n L) (sy_utxos s)" "distinct (map ut_key (sy_utxos s))" using assms(1) by (simp_all add: in_step_def)
  show "distinct (map ut_key (held_notes h n T s placed))"
    unfolding held_notes_def by (rule insert_utxos(1)) (simp add: comp_def old(2))
  show "ut_key ` set (held_notes h n T s placed) = ut_key ` (set (sy_utxos s) \<union> set ?new)"
    unfolding held_notes_def insert_utxos(3) by (simp add: image_Un Un_commute image_image)
  have "tracks h n T (refreshed h n T u)" if "u \<in> set ?new" for u
    using that assms(3) by (auto simp: tracks_def new_utxo_def refreshed_def)
  moreover have "tracks h n T (refreshed h n T u)" if "u \<in> set (sy_utxos s)" for u
    using that old(1) tracks_append unfolding assms(2) refreshed_def by (fastforce simp: list_all_iff)
  ultimately show "list_all (tracks h n T) (held_notes h n T s placed)"
    using insert_utxos(2) [of "map (refreshed h n T) ?new" "map (refreshed h n T) (sy_utxos s)"] unfolding held_notes_def list_all_iff by fastforce
qed

lemma add_placed_exact:
  assumes "combines h combine_opt" "0 < n" "in_step h n L s" "distinct (map lo_key ls)"
    and "\<forall>l \<in> set ls. readable cr P (sy_keys s) l" "T = L @ batch_leaves cr P ls" "length T < 2 ^ 32"
    and placed: "\<forall>g \<in> set placed. length L \<le> dn_position (fn_db g) \<and> dn_position (fn_db g) < length T \<and> dn_cmx (fn_db g) = T ! dn_position (fn_db g)"
    and us: "us = held_notes h n T s placed" and accs: "accs = map sk_account (sy_keys s)"
  shows "\<exists>s' R. add_placed combine_opt n P height ls (issue_table cr P ls) placed msgs s =
      Ret (s', msgs @ map (witness_message height) us @ spend_messages R @ [MCheckpoint accs (sy_pool s) height])
    \<and> in_step h n T s' \<and> sy_keys s' = sy_keys s \<and> sy_pool s' = sy_pool s \<and> sy_utxos s' = filter (\<lambda>u. \<not> revealed P accs ls u) us
    \<and> distinct (map fst R) \<and> fst ` set R = {u \<in> set us. revealed P accs ls u}"
proof -
  let ?new = "map (new_utxo (sy_pool s)) placed" and ?C = "batch_leaves cr P ls"
  have old: "sy_position s = length L" "sy_edge s = edge_of h n L" "list_all (tracks h n L) (sy_utxos s)"
    using assms(3) by (simp_all add: in_step_def)
  have tree: "add_leaves combine_opt n (sy_position s) ?C (sy_edge s) (map ut_witness (sy_utxos s)) (map ut_position ?new) =
      Ret (edge_of h n T, map (witness_of h n T) (map ut_position (sy_utxos s)), map (witness_of h n T) (map ut_position ?new))"
    unfolding old(1,2) tracks_witnesses [OF old(3)] assms(6)
    by (rule add_leaves_refines [OF assms(1)]) (use old(3) assms(2,6,7) placed in \<open>auto simp: list_all_iff tracks_def new_utxo_def\<close>)
  have held: "fold insert_utxo (map (\<lambda>u. u\<lparr>ut_witness := witness_of h n T (ut_position u)\<rparr>) ?new)
      (map (\<lambda>u. u\<lparr>ut_witness := witness_of h n T (ut_position u)\<rparr>) (sy_utxos s)) = us"
    unfolding us held_notes_def refreshed_def [abs_def] ..
  have us_ok: "distinct (map ut_key us)" "list_all (tracks h n T) us"
    using held_notes_ok(1,2) [OF assms(3,6), of placed] placed unfolding us by blast+
  obtain us' msgs' R where sp: "run_fold (spend_tx P accs) ls (us, msgs @ map (witness_message height) us) = Ret (us', msgs')"
      "takes_by R (revealed P accs ls) (us, msgs @ map (witness_message height) us) (us', msgs')"
    using spend_txs_total [OF assms(5), of "(us, msgs @ map (witness_message height) us)" accs] us_ok(1) unfolding takes_def by auto
  let ?s = "s\<lparr>sy_position := u32_add (sy_position s) (length ?C), sy_utxos := us', sy_edge := edge_of h n T\<rparr>"
  have run: "add_placed combine_opt n P height ls (issue_table cr P ls) placed msgs s = Ret (?s, msgs' @ [MCheckpoint accs (sy_pool s) height])"
    unfolding add_placed_def Let_def tx_leaves_total [OF assms(4,5)] run_bind.simps tree prod.case set_witnesses_map held accs [symmetric] sp(1) ..
  have us': "us' = filter (\<lambda>u. \<not> revealed P accs ls u) us" "msgs' = (msgs @ map (witness_message height) us) @ spend_messages R"
      "distinct (map fst R)" "fst ` set R = {u \<in> set us. revealed P accs ls u}"
    using sp(2) by (simp_all add: takes_by_def)
  have "u32_add (length L) (length ?C) = length T" using assms(6,7) by (simp add: u32_add_def)
  then have "in_step h n T ?s" using us_ok old(1) us'(1) by (auto simp: in_step_def list_all_iff distinct_map_filter)
  then show ?thesis using run us' by (intro exI [of _ ?s] exI [of _ R]) simp
qed

lemma decrypt_batch_total:
  assumes "\<forall>l \<in> set ls. readable cr P keys l"
  shows "\<exists>fs. run_concat (decrypt_tx P keys) ls = Ret fs \<and> (\<forall>f \<in> set fs. \<exists>l \<in> set ls. aligned cr P l f) \<and>
    (\<forall>l \<in> set ls. \<forall>key \<in> set keys. \<forall>vout op. opens P l vout key op \<longrightarrow> found_note op key l vout \<in> set fs)"
proof -
  let ?R = "\<lambda>l f. \<exists>key \<in> set keys. \<exists>vout op. opens P l vout key op \<and> f = found_note op key l vout"
  have "\<exists>fs. decrypt_tx P keys l = Ret fs \<and> (\<forall>f \<in> set fs. \<exists>l \<in> set ls. aligned cr P l f) \<and> (\<forall>f. ?R l f \<longrightarrow> f \<in> set fs)"
    if "l \<in> set ls" for l
    using decrypt_tx_total [of cr P keys l] assms that by blast
  from run_concat_total [of ls "decrypt_tx P keys" "\<lambda>f. \<exists>l \<in> set ls. aligned cr P l f" ?R, OF this]
  show ?thesis by blast
qed

lemma place_notes_total:
  assumes "sorted_wrt (<) (map lo_key ls)" "\<forall>f \<in> set notes. \<exists>l \<in> set ls. aligned cr P l f" "length (L @ batch_leaves cr P ls) < 2 ^ 32"
  shows "\<exists>A. place_notes P (issue_table cr P ls) ls (length L) (sort_key note_key notes) = (map snd A, concat (map (case_prod note_messages) A))
    \<and> (\<forall>l g. (l, g) \<in> set A \<longleftrightarrow> (\<exists>pre post f. ls = pre @ l # post \<and> f \<in> set notes \<and> here l f
        \<and> g = place_note P (length L + sum_list (map (length \<circ> leaves_of cr P) pre)) l f))"
proof -
  let ?w = "length \<circ> leaves_of cr P" and ?q = "sort_key note_key notes"
  have dist: "distinct (map lo_key ls)" using assms(1) strict_sorted_iff by blast
  have "\<forall>f \<in> set ?q. \<exists>l \<in> set ls. here l f" using assms(2) by (auto simp: aligned_def here_key)
  moreover have "\<forall>l \<in> set ls. length (extract_outputs P (lo_tx l)) + length (issued (issue_table cr P ls) l) = ?w l"
    using issued_table [OF dist, of _ cr P] by (auto simp: leaves_of_def)
  moreover have "length L + sum_list (map ?w ls) < 2 ^ 32" using assms(3) by (simp add: length_batch)
  ultimately have "fold (place_tx P (issue_table cr P ls)) ls (length L, ?q, [], []) =
      (length L + sum_list (map ?w ls), [], [] @ map snd (place_all P ?w ls (length L) ?q),
       [] @ concat (map (case_prod note_messages) (place_all P ?w ls (length L) ?q)))"
    by (intro place_txs_exact [OF assms(1)]) simp_all
  then have "place_notes P (issue_table cr P ls) ls (length L) ?q =
      (map snd (place_all P ?w ls (length L) ?q), concat (map (case_prod note_messages) (place_all P ?w ls (length L) ?q)))"
    by (simp add: place_notes_def)
  then show ?thesis using place_all_mem [of _ _ P ?w ls "length L" ?q] by (intro exI [of _ "place_all P ?w ls (length L) ?q"]) simp
qed

text \<open>A note found belongs to the account of a key.\<close>

definition owned :: "ScanKey list \<Rightarrow> FoundNote \<Rightarrow> bool" where
  "owned keys f \<longleftrightarrow> dn_account (fn_db f) \<in> sk_account ` set keys"

lemma run_concat_mem:
  assumes "run_concat f xs = Ret ys" "y \<in> set ys"
  shows "\<exists>x \<in> set xs. \<exists>zs. f x = Ret zs \<and> y \<in> set zs"
proof -
  obtain yss where yss: "run_map f xs = Ret yss" "ys = concat yss" using assms(1) by (auto simp: run_concat_def)
  have "\<forall>zs \<in> set yss. \<exists>x \<in> set xs. f x = Ret zs"
    using yss(1) by (induction xs arbitrary: yss) fastforce+
  then show ?thesis using assms(2) unfolding yss(2) by fastforce
qed

lemma decrypt_owned:
  assumes "run_concat (decrypt_tx P keys) ls = Ret fs" "f \<in> set fs"
  shows "owned keys f"
proof -
  obtain l gs where gs: "decrypt_tx P keys l = Ret gs" "f \<in> set gs" using run_concat_mem [OF assms] by blast
  then obtain vo where "\<exists>zs. (\<lambda>(vout, out). run_concat (try_decrypt P l vout out) keys) vo = Ret zs \<and> f \<in> set zs"
    using run_concat_mem [OF gs(1) [unfolded decrypt_tx_def]] by blast
  then obtain zs where zs: "run_concat (try_decrypt P l (fst vo) (snd vo)) keys = Ret zs" "f \<in> set zs" by (auto simp: case_prod_unfold)
  then obtain key ws where "key \<in> set keys" "try_decrypt P l (fst vo) (snd vo) key = Ret ws" "f \<in> set ws" using run_concat_mem [OF zs] by blast
  then show ?thesis by (auto simp: try_decrypt_def owned_def found_note_def split: option.splits if_splits)
qed

lemma issue_owned:
  assumes "res_fold (issue_step cr P keys) ls (table, found) = Inr (table', found')" "\<forall>f \<in> set found. owned keys f"
  shows "\<forall>f \<in> set found'. owned keys f"
proof -
  let ?O = "\<lambda>st :: nat \<times> bytes list \<times> FoundNote list. \<forall>f \<in> set (snd (snd st)). owned keys f"
  have single: "?O t" if "?O s" "issue_note cr P keys l base nt s = Inr t" for l base nt s t
    using that by (cases s) (auto simp: issue_note_def owned_def found_note_def split: sum.splits option.splits)
  have action: "?O t" if "?O s" "issue_action cr P keys l iss s = Inr t" for l iss s t
    using that res_fold_invariant [of "issue_note cr P keys l _" "is_notes iss" s t ?O] single
    by (auto simp: issue_action_def split: if_splits option.splits)
  have tx: "?O t" if "issue_tx cr P keys l = Inr t" for l t
    using that unfolding issue_tx_def by (rule res_fold_invariant [where P = ?O]) (simp, rule action)
  have "\<forall>f \<in> set (snd (table', found')). owned keys f"
    using assms(1)
    by (rule res_fold_invariant [where P = "\<lambda>st. \<forall>f \<in> set (snd st). owned keys f"])
      (use assms(2) tx in \<open>fastforce simp: issue_step_def\<close>)+
  then show ?thesis by simp
qed

definition placed_notes :: "Crypto \<Rightarrow> ('i, 'o) Protocol \<Rightarrow> Hash list \<Rightarrow> ScanKey list \<Rightarrow> Located list \<Rightarrow> (Located \<times> FoundNote) list \<Rightarrow> bool" where
  "placed_notes cr P L keys ls A \<longleftrightarrow>
    (\<forall>(l, g) \<in> set A. l \<in> set ls \<and> length L \<le> dn_position (fn_db g) \<and> dn_position (fn_db g) < length (L @ batch_leaves cr P ls)
      \<and> dn_cmx (fn_db g) = (L @ batch_leaves cr P ls) ! dn_position (fn_db g) \<and> dn_txid (fn_db g) = ct_hash (lo_tx l) \<and> owned keys g) \<and>
    (\<forall>l \<in> set ls. \<forall>key \<in> set keys. \<forall>vout op. opens P l vout key op \<longrightarrow>
      (\<exists>g. (l, g) \<in> set A \<and> dn_account (fn_db g) = sk_account key \<and> dn_value (fn_db g) = op_value op \<and> dn_cmx (fn_db g) = op_cmx op
        \<and> dn_nf (fn_db g) = derive_nf P (sk_nk key) (dn_position (fn_db g)) (op_note op)))"

lemma add_blocks_exact:
  assumes "combines h combine_opt" "0 < n" "issuance_uniform P" "in_step h n L s" "blocks \<noteq> []" "ascending blocks"
    and "ls = located blocks" "\<forall>l \<in> set ls. readable cr P (sy_keys s) l" "T = L @ batch_leaves cr P ls" "length T < 2 ^ 32"
    and "height = cb_height (last blocks) mod 2 ^ 32" "accs = map sk_account (sy_keys s)"
  shows "\<exists>s' A us R. add_blocks combine_opt n cr P blocks s = Ret (Inr (s',
        concat (map (case_prod note_messages) A) @ map (witness_message height) us @ spend_messages R @ [MCheckpoint accs (sy_pool s) height]))
    \<and> us = held_notes h n T s (map snd A) \<and> placed_notes cr P L (sy_keys s) ls A
    \<and> in_step h n T s' \<and> sy_keys s' = sy_keys s \<and> sy_pool s' = sy_pool s \<and> sy_utxos s' = filter (\<lambda>u. \<not> revealed P accs ls u) us
    \<and> distinct (map fst R) \<and> fst ` set R = {u \<in> set us. revealed P accs ls u}"
proof -
  note sorted = located_keys [OF assms(6), folded assms(7)] and dist = located_distinct [OF assms(6), folded assms(7)]
  obtain fs where fs: "run_concat (decrypt_tx P (sy_keys s)) ls = Ret fs" "\<forall>f \<in> set fs. \<exists>l \<in> set ls. aligned cr P l f"
      "\<forall>l \<in> set ls. \<forall>key \<in> set (sy_keys s). \<forall>vout op. opens P l vout key op \<longrightarrow> found_note op key l vout \<in> set fs"
    using decrypt_batch_total [OF assms(8)] by blast
  obtain gs where gs: "res_fold (issue_step cr P (sy_keys s)) ls ([], fs) = Inr (issue_table cr P ls, fs @ gs)"
      "\<forall>f \<in> set gs. \<exists>l \<in> set ls. aligned cr P l f"
    using issue_steps_total [OF assms(3,8), of "[]" fs] by auto
  have al: "\<forall>f \<in> set (fs @ gs). \<exists>l \<in> set ls. aligned cr P l f" using fs(2) gs(2) by auto
  note size = assms(10) [unfolded assms(9)]
  have own: "\<forall>f \<in> set (fs @ gs). owned (sy_keys s) f" using issue_owned [OF gs(1)] decrypt_owned [OF fs(1)] by blast
  obtain A where A: "place_notes P (issue_table cr P ls) ls (length L) (sort_key note_key (fs @ gs)) = (map snd A, concat (map (case_prod note_messages) A))"
      "\<And>l g. (l, g) \<in> set A \<longleftrightarrow> (\<exists>pre post f. ls = pre @ l # post \<and> f \<in> set (fs @ gs) \<and> here l f
        \<and> g = place_note P (length L + sum_list (map (length \<circ> leaves_of cr P) pre)) l f)"
    using place_notes_total [OF sorted al size] by blast
  note leaf = placed_at_leaf [OF dist al size]
  have at: "l \<in> set ls \<and> length L \<le> dn_position (fn_db g) \<and> dn_position (fn_db g) < length T \<and> dn_cmx (fn_db g) = T ! dn_position (fn_db g)
      \<and> dn_txid (fn_db g) = ct_hash (lo_tx l) \<and> owned (sy_keys s) g" if mem: "(l, g) \<in> set A" for l g
  proof -
    obtain pre post f where split: "ls = pre @ l # post" "f \<in> set (fs @ gs)" "here l f"
        "g = place_note P (length L + sum_list (map (length \<circ> leaves_of cr P) pre)) l f" using mem A(2) by blast
    have "dn_txid (fn_db g) = ct_hash (lo_tx l)" unfolding split(4) by (simp add: place_note_def Let_def)
    moreover have "l \<in> set ls" unfolding split(1) by simp
    moreover have "owned (sy_keys s) g" unfolding split(4) using own split(2) by (simp add: place_note_def Let_def owned_def)
    ultimately show ?thesis using leaf(1-3) [OF split] unfolding assms(9) by blast
  qed
  have found: "\<exists>g. (l, g) \<in> set A \<and> dn_account (fn_db g) = sk_account key \<and> dn_value (fn_db g) = op_value op \<and> dn_cmx (fn_db g) = op_cmx op
      \<and> dn_nf (fn_db g) = derive_nf P (sk_nk key) (dn_position (fn_db g)) (op_note op)"
    if l: "l \<in> set ls" and key: "key \<in> set (sy_keys s)" and op: "opens P l vout key op" for l key vout op
  proof -
    let ?f = "found_note op key l vout"
    obtain pre post where split: "ls = pre @ l # post" using split_list [OF l] by blast
    have f: "?f \<in> set (fs @ gs)" "here l ?f" using fs(3) l key op by (auto simp: here_def found_note_def)
    define g where "g = place_note P (length L + sum_list (map (length \<circ> leaves_of cr P) pre)) l ?f"
    have "(l, g) \<in> set A" using A(2) split f g_def by blast
    then show ?thesis by (intro exI [of _ g]) (simp add: g_def place_note_def found_note_def Let_def)
  qed
  have placed: "\<forall>g \<in> set (map snd A). length L \<le> dn_position (fn_db g) \<and> dn_position (fn_db g) < length T \<and> dn_cmx (fn_db g) = T ! dn_position (fn_db g)"
    using at by fastforce
  note run = add_placed_exact [OF assms(1,2,4) dist assms(8,9,10) placed refl assms(12), of height "concat (map (case_prod note_messages) A)"]
  have "sy_position s = length L" using assms(4) by (simp add: in_step_def)
  then have ret: "add_blocks combine_opt n cr P blocks s =
      run_bind (add_placed combine_opt n P height ls (issue_table cr P ls) (map snd A) (concat (map (case_prod note_messages) A)) s) (\<lambda>r. Ret (Inr r))"
    using assms(5,11) fs(1) gs(1) A(1) by (simp add: add_blocks_def Let_def flip: assms(7))
  have "placed_notes cr P L (sy_keys s) ls A" using at found unfolding placed_notes_def assms(9) by fast
  then show ?thesis using run unfolding ret by (elim exE conjE) (simp, blast)
qed

text \<open>
  C15. Scanning a batch of blocks keeps the scanner in step with the chain. From a scanner in step with the commitments so
  far, a readable batch with ascending heights is scanned without a panic or an error, and the scanner is then in step
  with the commitments including those of the batch: each note it holds has its own commitment at its position and
  the witness of that leaf. Every output that a key opens is announced as a note at the leaf of its commitment, with
  the nullifier derived for that position; no note whose nullifier the batch reveals is held any longer; every note
  held is sent with its witness; and a note held before is still held or is reported spent.
\<close>

theorem add_blocks_in_step:
  assumes "combines h combine_opt" and "0 < n" and "issuance_uniform P" and "in_step h n L s"
    and "blocks \<noteq> []" and "ascending blocks" and "\<forall>l \<in> set (located blocks). readable cr P (sy_keys s) l"
    and "length (L @ batch_leaves cr P (located blocks)) < 2 ^ 32"
  shows "\<exists>s' msgs. add_blocks combine_opt n cr P blocks s = Ret (Inr (s', msgs)) \<and>
    in_step h n (L @ batch_leaves cr P (located blocks)) s' \<and> sy_keys s' = sy_keys s \<and>
    announced P (L @ batch_leaves cr P (located blocks)) (sy_keys s) (located blocks) msgs \<and>
    (\<forall>u \<in> set (sy_utxos s'). \<not> revealed P (map sk_account (sy_keys s)) (located blocks) u
      \<and> witness_message (cb_height (last blocks) mod 2 ^ 32) u \<in> set msgs) \<and>
    (\<forall>u \<in> set (sy_utxos s). ut_key u \<in> ut_key ` set (sy_utxos s') \<or> (\<exists>v. MSpend v \<in> set msgs \<and> ut_key v = ut_key u))"
proof -
  let ?ls = "located blocks" and ?height = "cb_height (last blocks) mod 2 ^ 32" and ?accs = "map sk_account (sy_keys s)"
  let ?T = "L @ batch_leaves cr P ?ls"
  obtain s' A us R where run: "add_blocks combine_opt n cr P blocks s = Ret (Inr (s',
        concat (map (case_prod note_messages) A) @ map (witness_message ?height) us @ spend_messages R @ [MCheckpoint ?accs (sy_pool s) ?height]))"
      and us: "us = held_notes h n ?T s (map snd A)" and A: "placed_notes cr P L (sy_keys s) ?ls A"
      and s': "in_step h n ?T s'" "sy_keys s' = sy_keys s" "sy_utxos s' = filter (\<lambda>u. \<not> revealed P ?accs ?ls u) us"
      and R: "fst ` set R = {u \<in> set us. revealed P ?accs ?ls u}"
    using add_blocks_exact [OF assms(1-6) refl assms(7) refl assms(8) refl refl] by blast
  let ?msgs = "concat (map (case_prod note_messages) A) @ map (witness_message ?height) us @ spend_messages R @ [MCheckpoint ?accs (sy_pool s) ?height]"
  have "announced P ?T (sy_keys s) ?ls ?msgs"
    unfolding announced_def
  proof (intro ballI allI impI)
    fix l key vout op assume "l \<in> set ?ls" "key \<in> set (sy_keys s)" "opens P l vout key op"
    then obtain g where g: "(l, g) \<in> set A" "dn_account (fn_db g) = sk_account key" "dn_value (fn_db g) = op_value op" "dn_cmx (fn_db g) = op_cmx op"
        "dn_nf (fn_db g) = derive_nf P (sk_nk key) (dn_position (fn_db g)) (op_note op)"
      using A unfolding placed_notes_def by blast
    then have "MNote (fn_db g) \<in> set ?msgs" by (force simp: note_messages_def)
    moreover have "dn_position (fn_db g) < length ?T \<and> ?T ! dn_position (fn_db g) = op_cmx op \<and> dn_txid (fn_db g) = ct_hash (lo_tx l)"
      using A g(1,4) unfolding placed_notes_def by auto
    ultimately show "\<exists>d. MNote d \<in> set ?msgs \<and> dn_account d = sk_account key \<and> dn_value d = op_value op \<and> dn_txid d = ct_hash (lo_tx l)
        \<and> dn_position d < length ?T \<and> ?T ! dn_position d = op_cmx op \<and> dn_nf d = derive_nf P (sk_nk key) (dn_position d) (op_note op)"
      using g by (intro exI [of _ "fn_db g"]) simp
  qed
  moreover have "\<forall>u \<in> set (sy_utxos s'). \<not> revealed P ?accs ?ls u \<and> witness_message ?height u \<in> set ?msgs" unfolding s'(3) by auto
  moreover have "ut_key u \<in> ut_key ` set (sy_utxos s') \<or> (\<exists>v. MSpend v \<in> set ?msgs \<and> ut_key v = ut_key u)" if u: "u \<in> set (sy_utxos s)" for u
  proof -
    have "\<forall>g \<in> set (map snd A). dn_position (fn_db g) < length ?T \<and> dn_cmx (fn_db g) = ?T ! dn_position (fn_db g)"
      using A unfolding placed_notes_def by fastforce
    from held_notes_ok(3) [OF assms(4) refl this] have "ut_key u \<in> ut_key ` set us" using u unfolding us by blast
    then obtain v where v: "v \<in> set us" "ut_key v = ut_key u" by force
    show ?thesis
    proof (cases "revealed P ?accs ?ls v")
      case True
      then have "v \<in> fst ` set R" using v(1) R by blast
      then obtain height time txid where "(v, height, time, txid) \<in> set R" by force
      then have "MSpend (v\<lparr>ut_txid := txid\<rparr>) \<in> set ?msgs" by (force simp: spend_messages_def)
      then show ?thesis using v(2) by (intro disjI2 exI [of _ "v\<lparr>ut_txid := txid\<rparr>"]) (simp add: ut_key_def)
    next
      case False
      then have "v \<in> set (sy_utxos s')" using v(1) unfolding s'(3) by simp
      then have "ut_key v \<in> ut_key ` set (sy_utxos s')" by (rule imageI)
      then show ?thesis using v(2) by simp
    qed
  qed
  ultimately show ?thesis using run s'(1,2) by blast
qed

section \<open>A concrete batch\<close>

text \<open>A stand-in for the cryptography: an output is open to the key that its ciphertext names.\<close>

definition toy_crypto :: Crypto where
  "toy_crypto =
    \<lparr>cr_open_sapling = (\<lambda>_ _ _. Ret None),
     cr_open_orchard = (\<lambda>ivk _ a. Ret (if oa_ciphertext a = ivk
       then Some \<lparr>op_note = [1], op_pool = 2, op_value = 5000, op_rcm = [2], op_rho = oa_nullifier a, op_diversifier = [6],
         op_cmx = oa_cmx a, op_asset_base = []\<rparr> else None)),
     cr_nf_sapling = (\<lambda>nk p note. nk @ note), cr_nf_orchard = (\<lambda>nk note. nk @ note), cr_asset_base = (\<lambda>_ _. None),
     cr_owns = (\<lambda>_ _. False), cr_issue_note = (\<lambda>_ _. None)\<rparr>"

definition toy_block :: CompactBlock where
  "toy_block =
    \<lparr>cb_height = 10, cb_hash = [10], cb_prev_hash = [9], cb_time = 77,
     cb_vtx = [\<lparr>ct_hash = [5], ct_spends = [], ct_outputs = [],
       ct_actions = [\<lparr>oa_nullifier = replicate 32 1, oa_cmx = replicate 32 7, oa_ephemeral_key = [], oa_ciphertext = [3]\<rparr>],
       ct_ironwood_actions = [], ct_issuances = []\<rparr>]\<rparr>"

definition toy_key :: ScanKey where
  "toy_key = \<lparr>sk_account = 1, sk_scope = 0, sk_ivk = [3], sk_nk = [4]\<rparr>"

definition toy_sync :: Sync where
  "toy_sync = \<lparr>sy_pool = 2, sy_keys = [toy_key], sy_position = 0, sy_utxos = [], sy_edge = edge_of pair_hash 3 []\<rparr>"

definition toy_located :: Located where
  "toy_located = \<lparr>lo_height = 10, lo_time = 77, lo_ivtx = 0, lo_tx = hd (cb_vtx toy_block)\<rparr>"

lemma toy_batch:
  "located [toy_block] = [toy_located]" "ascending [toy_block]" "in_step pair_hash 3 [] toy_sync"
  "readable toy_crypto (OrchardProtocol toy_crypto) [toy_key] toy_located"
  "batch_leaves toy_crypto (OrchardProtocol toy_crypto) [toy_located] = [replicate 32 7]"
proof -
  have iss: "issue_tx toy_crypto (OrchardProtocol toy_crypto) [] toy_located = Inr (1, [], [])"
    by (simp add: issue_tx_def toy_located_def toy_block_def OrchardProtocol_def)
  show "located [toy_block] = [toy_located]" by (simp add: located_def toy_located_def toy_block_def)
  show "ascending [toy_block]" by (simp add: ascending_def toy_block_def)
  show "in_step pair_hash 3 [] toy_sync" by (simp add: in_step_def toy_sync_def)
  show "readable toy_crypto (OrchardProtocol toy_crypto) [toy_key] toy_located" unfolding readable_def iss
    by (simp add: OrchardProtocol_def toy_crypto_def toy_located_def toy_block_def hash32_def)
  show "batch_leaves toy_crypto (OrchardProtocol toy_crypto) [toy_located] = [replicate 32 7]"
    by (simp add: batch_leaves_def leaves_of_def issue_cmxs_def iss) (simp add: OrchardProtocol_def toy_located_def toy_block_def)
qed

theorem add_blocks_in_step_witness:
  "\<exists>s' msgs d. add_blocks pair_hash_opt 3 toy_crypto (OrchardProtocol toy_crypto) [toy_block] toy_sync = Ret (Inr (s', msgs))
    \<and> MNote d \<in> set msgs \<and> dn_value d = 5000 \<and> dn_position d = 0"
proof -
  let ?P = "OrchardProtocol toy_crypto"
  have keys: "sy_keys toy_sync = [toy_key]" by (simp add: toy_sync_def)
  obtain s' msgs where run: "add_blocks pair_hash_opt 3 toy_crypto ?P [toy_block] toy_sync = Ret (Inr (s', msgs))"
      and ann: "announced ?P [replicate 32 7] [toy_key] [toy_located] msgs"
    using add_blocks_in_step [OF pair_hash_combines _ protocols_uniform(2) [of toy_crypto] toy_batch(3) _ toy_batch(2), of toy_crypto] toy_batch(4)
    by (auto simp: keys toy_batch(1,5))
  let ?op = "\<lparr>op_note = [1], op_pool = 2, op_value = 5000, op_rcm = [2], op_rho = replicate 32 1, op_diversifier = [6],
         op_cmx = replicate 32 7, op_asset_base = []\<rparr>"
  have "opens ?P toy_located 0 toy_key ?op"
    by (simp add: opens_def OrchardProtocol_def toy_located_def toy_block_def toy_crypto_def toy_key_def)
  then obtain d where "MNote d \<in> set msgs" "dn_value d = op_value ?op" "dn_position d < length [replicate 32 (7 :: 8 word)]"
    using ann unfolding announced_def by (metis list.set_intros(1))
  then show ?thesis using run by auto
qed

end
