(* ===== verification/WarpMessages.thy ===== *)
theory WarpMessages
  imports CompactBlocks Windows
begin

text \<open>
  The writer of a shielded scan (\<open>handle_message\<close>, \<open>commit_warp_messages\<close> and \<open>write_warp_messages\<close> of
  \<open>src/rust/rlz/src/sync.rs\<close>): the messages between two commits are one database transaction. A statement that violates
  a unique constraint is an error, and a statement that does not insert exactly one row where one is asserted is a
  panic; either drops the open transaction. The encoding of a witness (\<open>bincode\<close>) and the search for the index of a
  diversifier (cryptography of the Zcash crates) are arguments. The consistency check at the end of a scan exists in
  debug builds only.
\<close>

section \<open>Statements\<close>

definition insert_asset :: "bytes \<Rightarrow> bytes \<Rightarrow> bytes \<Rightarrow> bool \<Rightarrow> nat \<Rightarrow> Db \<Rightarrow> Db" where
  "insert_asset desc_hash ik asset_base finalized height db =
    (if list_ex (\<lambda>a. (as_desc_hash a = desc_hash \<and> as_ik a = ik) \<or> as_base a = asset_base) (assets db) then db
     else db\<lparr>assets := assets db @
       [\<lparr>as_id = next_rowid as_id (assets db), as_desc_hash = desc_hash, as_ik = ik, as_base = asset_base,
         as_finalized = finalized, as_first_seen = height\<rparr>]\<rparr>)"

definition store_issuance :: "bytes \<Rightarrow> bytes \<Rightarrow> bytes \<Rightarrow> bool \<Rightarrow> nat \<Rightarrow> Db \<Rightarrow> Db" where
  "store_issuance desc_hash ik asset_base finalized height db =
    (let db = insert_asset desc_hash ik asset_base finalized height db
     in if finalized
        then db\<lparr>assets := update_where (\<lambda>a. as_desc_hash a = desc_hash \<and> as_ik a = ik) (as_finalized_update (\<lambda>_. True)) (assets db)\<rparr>
        else db)"

definition store_transaction :: "nat \<Rightarrow> nat \<Rightarrow> nat \<Rightarrow> bytes \<Rightarrow> Db \<Rightarrow> Db" where
  "store_transaction account height time txid db =
    (if list_ex (\<lambda>t. tx_account t = account \<and> tx_txid t = txid) (transactions db) then db
     else db\<lparr>transactions := transactions db @
       [\<lparr>tx_id = next_rowid tx_id (transactions db), tx_txid = txid, tx_height = height, tx_account = account,
         tx_time = Some time, tx_details = False, tx_tpe = None, tx_value = 0, tx_fee = 0, tx_price = None, tx_category = None\<rparr>]\<rparr>)"

text \<open>
  An \<open>INSERT ... SELECT\<close> of the rows \<open>rs\<close> into a table with the key \<open>k\<close>, of which exactly one is asserted to be inserted.
\<close>

definition insert_one :: "('r \<Rightarrow> 'k) \<Rightarrow> 'r list \<Rightarrow> 'r list \<Rightarrow> (DbError + 'r list) run" where
  "insert_one k rs table =
    (if \<not> distinct (map k rs) \<or> list_ex (\<lambda>r. k r \<in> k ` set table) rs then Ret (Inl UniqueViolation)
     else if length rs \<noteq> 1 then Panic
     else Ret (Inr (table @ rs)))"

definition register_asset :: "DbNote \<Rightarrow> Db \<Rightarrow> Db" where
  "register_asset note db =
    (if length (dn_asset_base note) = 32 \<and> dn_asset_base note \<noteq> replicate 32 0
     then insert_asset (dn_asset_base note) (0 # dn_asset_base note) (dn_asset_base note) False (dn_height note) db
     else db)"

definition joined_assets :: "bytes \<Rightarrow> Db \<Rightarrow> nat option list" where
  "joined_assets asset_base db =
    (case filter (\<lambda>a. as_base a = asset_base) (assets db) of [] \<Rightarrow> [None] | as \<Rightarrow> map (\<lambda>a. Some (as_id a)) as)"

definition note_row :: "(nat \<Rightarrow> nat \<Rightarrow> nat \<Rightarrow> bytes \<Rightarrow> int option) \<Rightarrow> Db \<Rightarrow> DbNote \<Rightarrow> TxRow \<Rightarrow> nat option \<Rightarrow> NoteRow" where
  "note_row resolve db note t asset =
    \<lparr>nr_id = next_rowid nr_id (note_rows db), nr_height = dn_height note, nr_account = tx_account t, nr_pool = dn_pool note,
     nr_scope = Some (dn_scope note), nr_nullifier = dn_nf note, nr_tx = tx_id t, nr_value = as_i64 (dn_value note),
     nr_taddress = None, nr_position = Some (dn_position note), nr_locked = False, nr_asset = asset, nr_cmx = Some (dn_cmx note),
     nr_diversifier = Some (dn_diversifier note), nr_rcm = Some (dn_rcm note), nr_rho = Some (dn_rho note),
     nr_diversifier_index = resolve (dn_account note) (dn_pool note) (dn_scope note) (dn_diversifier note)\<rparr>"

definition store_note :: "(nat \<Rightarrow> nat \<Rightarrow> nat \<Rightarrow> bytes \<Rightarrow> int option) \<Rightarrow> DbNote \<Rightarrow> Db \<Rightarrow> (DbError + Db) run" where
  "store_note resolve note db =
    (let db = register_asset note db;
         txs = filter (\<lambda>t. tx_account t = dn_account note \<and> tx_txid t = dn_txid note) (transactions db);
         rows = concat (map (\<lambda>t. map (note_row resolve db note t) (joined_assets (dn_asset_base note) db)) txs)
     in run_bind (insert_one (\<lambda>n. (nr_account n, nr_nullifier n)) rows (note_rows db)) (\<lambda>r.
          Ret (res_bind r (\<lambda>table. Inr (db\<lparr>note_rows := table\<rparr>)))))"

definition store_witness :: "(Witness \<Rightarrow> bytes) \<Rightarrow> nat \<Rightarrow> nat \<Rightarrow> bytes \<Rightarrow> Witness \<Rightarrow> Db \<Rightarrow> (DbError + Db) run" where
  "store_witness encode account height cmx witness db =
    (let rows = map (\<lambda>n. \<lparr>w_account = account, w_note = nr_id n, w_height = height, w_data = encode witness\<rparr>)
           (filter (\<lambda>n. nr_account n = account \<and> nr_cmx n = Some cmx) (note_rows db))
     in run_bind (insert_one (\<lambda>w. (w_note w, w_height w)) rows (witnesses db)) (\<lambda>r.
          Ret (res_bind r (\<lambda>table. Inr (db\<lparr>witnesses := table\<rparr>)))))"

definition store_spend :: "Utxo \<Rightarrow> Db \<Rightarrow> (DbError + Db) run" where
  "store_spend utxo db =
    (let ns = filter (\<lambda>n. nr_account n = ut_account utxo \<and> nr_cmx n = Some (ut_cmx utxo)) (note_rows db);
         txs = filter (\<lambda>t. tx_txid t = ut_txid utxo \<and> tx_account t = ut_account utxo) (transactions db);
         rows = concat (map (\<lambda>n. map (\<lambda>t. \<lparr>sp_note = nr_id n, sp_height = tx_height t, sp_account = ut_account utxo, sp_pool = ut_pool utxo,
             sp_tx = tx_id t, sp_value = i64_neg (as_i64 (ut_value utxo))\<rparr>) txs) ns)
     in run_bind (insert_one sp_note rows (spends db)) (\<lambda>r. Ret (res_bind r (\<lambda>table. Inr (db\<lparr>spends := table\<rparr>)))))"

definition checkpoint_account :: "nat \<Rightarrow> nat \<Rightarrow> nat \<Rightarrow> Db \<Rightarrow> Db run" where
  "checkpoint_account pool height account db =
    run_bind (has_pool_row db account pool) (\<lambda>has. Ret (if has then store_synced_height account pool height db else db))"

definition store_scanned_header :: "BlockHeader \<Rightarrow> Db \<Rightarrow> Db" where
  "store_scanned_header bh db =
    (let db = store_block_header \<lparr>hd_height = bh_height bh, hd_hash = bh_hash bh, hd_time = bh_time bh\<rparr> db
     in db\<lparr>transactions := update_where (\<lambda>t. tx_height t = bh_height bh) (tx_time_update (\<lambda>_. Some (bh_time bh))) (transactions db)\<rparr>)"

section \<open>The writer\<close>

record Writer =
  wr_network :: Network
  wr_encode :: "Witness \<Rightarrow> bytes"
  wr_resolve :: "nat \<Rightarrow> nat \<Rightarrow> nat \<Rightarrow> bytes \<Rightarrow> int option"

definition handle_message :: "Writer \<Rightarrow> WarpSyncMessage \<Rightarrow> Db \<Rightarrow> (DbError + Db) run" where
  "handle_message wr msg db =
    (case msg of
       MIssuance desc_hash ik asset_base finalized height \<Rightarrow> Ret (Inr (store_issuance desc_hash ik asset_base finalized height db))
     | MTransaction account height time txid \<Rightarrow> Ret (Inr (store_transaction account height time txid db))
     | MNote note \<Rightarrow> store_note (wr_resolve wr) note db
     | MWitness account height cmx witness \<Rightarrow> store_witness (wr_encode wr) account height cmx witness db
     | MSpend utxo \<Rightarrow> store_spend utxo db
     | MCheckpoint accs pool height \<Rightarrow> run_bind (run_fold (checkpoint_account pool height) accs db) (\<lambda>db. Ret (Inr db))
     | MBlockHeader bh \<Rightarrow> Ret (Inr (store_scanned_header bh db))
     | MCommit \<Rightarrow> Ret (Inr db)
     | MRewind accs height \<Rightarrow> Ret (res_fold (\<lambda>a. rewind_sync (wr_network wr) a height) accs db)
     | MError \<Rightarrow> Ret (Inl ScanFailed))"

fun handle_messages :: "Writer \<Rightarrow> WarpSyncMessage list \<Rightarrow> Db \<Rightarrow> (DbError + Db) run" where
  "handle_messages wr [] db = Ret (Inr db)"
| "handle_messages wr (m # ms) db =
    run_bind (handle_message wr m db) (\<lambda>r. case r of Inl e \<Rightarrow> Ret (Inl e) | Inr db \<Rightarrow> handle_messages wr ms db)"

text \<open>How the writer ends; the database is always the one of the last commit.\<close>

datatype WriterEnd = Written | WriteFailed DbError | WriterPanicked

definition commit_warp_messages :: "Writer \<Rightarrow> WarpSyncMessage list \<Rightarrow> Db \<Rightarrow> WriterEnd \<times> Db" where
  "commit_warp_messages wr msgs db =
    (case handle_messages wr msgs db of
       Panic \<Rightarrow> (WriterPanicked, db)
     | Ret (Inl e) \<Rightarrow> (WriteFailed e, db)
     | Ret (Inr db') \<Rightarrow> (Written, db'))"

fun write_loop :: "Writer \<Rightarrow> WarpSyncMessage list \<Rightarrow> WarpSyncMessage list \<Rightarrow> Db \<Rightarrow> WriterEnd \<times> Db" where
  "write_loop wr buffered [] db = commit_warp_messages wr buffered db"
| "write_loop wr buffered (m # ms) db =
    (if m = MCommit
     then (case commit_warp_messages wr buffered db of
             (Written, db') \<Rightarrow> write_loop wr [] ms db'
           | stop \<Rightarrow> stop)
     else write_loop wr (buffered @ [m]) ms db)"

definition write_warp_messages :: "Writer \<Rightarrow> WarpSyncMessage list \<Rightarrow> Db \<Rightarrow> WriterEnd \<times> Db" where
  "write_warp_messages wr msgs db = write_loop wr [] msgs db"

section \<open>Transactions of the writer\<close>

text \<open>The batches of messages between commits, and the database after all of them, if none fails.\<close>

fun commit_batches :: "WarpSyncMessage list \<Rightarrow> WarpSyncMessage list \<Rightarrow> WarpSyncMessage list list" where
  "commit_batches buffered [] = [buffered]"
| "commit_batches buffered (m # ms) = (if m = MCommit then buffered # commit_batches [] ms else commit_batches (buffered @ [m]) ms)"

fun after_batches :: "Writer \<Rightarrow> WarpSyncMessage list list \<Rightarrow> Db \<Rightarrow> Db option" where
  "after_batches wr [] db = Some db"
| "after_batches wr (b # bs) db = (case handle_messages wr b db of Ret (Inr db') \<Rightarrow> after_batches wr bs db' | _ \<Rightarrow> None)"

lemma commit_warp_messages_cases:
  "(\<exists>db'. handle_messages wr msgs db = Ret (Inr db') \<and> commit_warp_messages wr msgs db = (Written, db')) \<or>
    (\<exists>e. commit_warp_messages wr msgs db = (e, db) \<and> e \<noteq> Written \<and> after_batches wr [msgs] db = None)"
  by (auto simp: commit_warp_messages_def split: run.split sum.split)

lemma write_loop_batches:
  "\<exists>k \<le> length (commit_batches buffered msgs).
    after_batches wr (take k (commit_batches buffered msgs)) db = Some (snd (write_loop wr buffered msgs db)) \<and>
    (fst (write_loop wr buffered msgs db) = Written \<longleftrightarrow> k = length (commit_batches buffered msgs)) \<and>
    (k = length (commit_batches buffered msgs) \<or> after_batches wr (take (Suc k) (commit_batches buffered msgs)) db = None)"
proof (induction msgs arbitrary: buffered db)
  case Nil
  from commit_warp_messages_cases [of wr buffered db] show ?case
    by (elim disjE exE conjE) (auto intro: exI [of _ 1] exI [of _ 0])
next
  case (Cons m ms)
  show ?case
  proof (cases "m = MCommit")
    case True
    from commit_warp_messages_cases [of wr buffered db] show ?thesis
    proof (elim disjE exE conjE)
      fix db' assume ok: "handle_messages wr buffered db = Ret (Inr db')" "commit_warp_messages wr buffered db = (Written, db')"
      obtain k where "k \<le> length (commit_batches [] ms)" "after_batches wr (take k (commit_batches [] ms)) db' = Some (snd (write_loop wr [] ms db'))"
          "fst (write_loop wr [] ms db') = Written \<longleftrightarrow> k = length (commit_batches [] ms)"
          "k = length (commit_batches [] ms) \<or> after_batches wr (take (Suc k) (commit_batches [] ms)) db' = None"
        using Cons.IH [of "[]" db'] by blast
      then show ?thesis using True ok by (intro exI [of _ "Suc k"]) simp
    next
      fix e assume "commit_warp_messages wr buffered db = (e, db)" "e \<noteq> Written" "after_batches wr [buffered] db = None"
      then show ?thesis using True by (intro exI [of _ 0]) (cases e, simp_all)
    qed
  qed (use Cons.IH in simp)
qed

text \<open>
  C19. The writer is atomic per commit. Whatever the messages are, and however the writer ends, the database is the one after
  the first \<open>k\<close> complete batches between commits: all of them exactly when the writer reports success, and otherwise the
  batch that follows them is one that fails or panics, and nothing of it is kept.
\<close>

theorem write_warp_messages_atomic:
  "\<exists>k \<le> length (commit_batches [] msgs).
    after_batches wr (take k (commit_batches [] msgs)) db = Some (snd (write_warp_messages wr msgs db)) \<and>
    (fst (write_warp_messages wr msgs db) = Written \<longleftrightarrow> k = length (commit_batches [] msgs)) \<and>
    (k = length (commit_batches [] msgs) \<or> after_batches wr (take (Suc k) (commit_batches [] msgs)) db = None)"
  unfolding write_warp_messages_def by (rule write_loop_batches)

definition toy_writer :: Writer where
  "toy_writer = \<lparr>wr_network = \<lparr>net_sapling = 1, net_nu5 = 1, net_nu6_3 = None\<rparr>, wr_encode = (\<lambda>_. [9]), wr_resolve = (\<lambda>_ _ _ _. None)\<rparr>"

theorem write_warp_messages_atomic_witness:
  "\<exists>k \<le> 2. after_batches toy_writer (take k [[MTransaction 1 130 7 [9]], [MError]]) ex_db =
    Some (snd (write_warp_messages toy_writer [MTransaction 1 130 7 [9], MCommit, MError] ex_db))"
proof -
  have batches: "commit_batches [] [MTransaction 1 130 7 [9], MCommit, MError] = [[MTransaction 1 130 7 [9]], [MError]]" by simp
  have "length [[MTransaction 1 130 7 [9]], [MError]] = 2" by simp
  then show ?thesis using write_warp_messages_atomic [of "[MTransaction 1 130 7 [9], MCommit, MError]" toy_writer ex_db] unfolding batches by metis
qed

section \<open>Equal commitments\<close>

text \<open>
  C20. A second note with the commitment of a first stops the writer. Once two notes of an account have the same commitment
  (a Sapling sender may reuse the randomness of a note; the nullifiers differ by position), the message with a
  witness for that commitment selects both, more than the one row that is asserted, and the writer panics.
\<close>

theorem equal_commitments_panic:
  assumes "keys_ok db" and "n1 \<in> set (note_rows db)" and "n2 \<in> set (note_rows db)" and "nr_id n1 \<noteq> nr_id n2"
    and "nr_account n1 = account" and "nr_account n2 = account" and "nr_cmx n1 = Some cmx" and "nr_cmx n2 = Some cmx"
    and "\<forall>w \<in> set (witnesses db). w_height w \<noteq> height"
  shows "commit_warp_messages wr (MWitness account height cmx witness # msgs) db = (WriterPanicked, db)"
proof -
  let ?ns = "filter (\<lambda>n. nr_account n = account \<and> nr_cmx n = Some cmx) (note_rows db)"
  let ?rows = "map (\<lambda>n. \<lparr>w_account = account, w_note = nr_id n, w_height = height, w_data = wr_encode wr witness\<rparr>) ?ns"
  have mem: "n1 \<in> set ?ns" "n2 \<in> set ?ns" "n1 \<noteq> n2" using assms by auto
  have two: "length ?ns \<noteq> 1"
  proof
    assume "length ?ns = 1"
    then obtain y where y: "?ns = [y]" unfolding One_nat_def length_Suc_conv by blast
    show False using mem unfolding y by simp
  qed
  have "distinct (map nr_id ?ns)" using assms(1) by (simp add: keys_ok_def distinct_map_filter)
  then have "distinct (map (\<lambda>w. (w_note w, w_height w)) ?rows)" by (simp add: comp_def distinct_map inj_on_def)
  moreover have "\<not> list_ex (\<lambda>r. (w_note r, w_height r) \<in> (\<lambda>w. (w_note w, w_height w)) ` set (witnesses db)) ?rows"
    using assms(9) by (auto simp: list_ex_iff)
  ultimately have "insert_one (\<lambda>w. (w_note w, w_height w)) ?rows (witnesses db) = Panic" using two by (simp add: insert_one_def)
  then show ?thesis by (simp add: commit_warp_messages_def handle_message_def store_witness_def Let_def)
qed

theorem equal_commitments_panic_witness:
  "commit_warp_messages toy_writer
      [MWitness 1 130 [7] (blank_witness 0)]
      (ex_db\<lparr>note_rows := [ex_note_1\<lparr>nr_cmx := Some [7]\<rparr>, ex_note_2\<lparr>nr_cmx := Some [7]\<rparr>, ex_note_3]\<rparr>)
    = (WriterPanicked, ex_db\<lparr>note_rows := [ex_note_1\<lparr>nr_cmx := Some [7]\<rparr>, ex_note_2\<lparr>nr_cmx := Some [7]\<rparr>, ex_note_3]\<rparr>)"
  by (rule equal_commitments_panic [where ?n1.0 = "ex_note_1\<lparr>nr_cmx := Some [7]\<rparr>" and ?n2.0 = "ex_note_2\<lparr>nr_cmx := Some [7]\<rparr>"])
    (simp_all add: keys_ok_def ex_db_defs)

end
