(* ===== verification/ShieldedSync.thy ===== *)
theory ShieldedSync
  imports Scanning WarpMessages
begin

text \<open>
  The scanner of a pool and the writer together. The database mirrors a scanner when the unspent notes of the pool in the
  database are the notes the scanner holds, each with its witness at the last scanned height. The messages of a batch,
  written in one database transaction, take the mirror of the scanner before the batch to the mirror of the scanner
  after it, and a scanner built from the database (\<open>Synchronizer::new\<close>) holds the same notes as the one that wrote it.
\<close>

section \<open>Building a scanner\<close>

text \<open>
  The viewing keys are columns of the account tables, decoded by the key types of the Zcash crates: \<open>derive\<close> gives the
  incoming viewing key and the nullifier key of an account for a pool and a scope, or a panic when the stored bytes
  are no key. \<open>decode\<close> reads a stored witness. A column that is \<open>NULL\<close> or too large where an integer or a blob is read is a panic.
\<close>

definition extract_ivk :: "(nat \<Rightarrow> nat \<Rightarrow> nat \<Rightarrow> (bytes \<times> bytes) run) \<Rightarrow> nat \<Rightarrow> Db \<Rightarrow> nat \<Rightarrow> nat \<Rightarrow> (bytes \<times> bytes) option run" where
  "extract_ivk derive pool db account scope =
    (if account \<in> set (if pool = 1 then sapling_accounts db else orchard_accounts db)
     then run_bind (derive pool account scope) (\<lambda>key. Ret (Some key)) else Ret None)"

definition scan_key :: "(nat \<Rightarrow> nat \<Rightarrow> nat \<Rightarrow> (bytes \<times> bytes) run) \<Rightarrow> nat \<Rightarrow> Db \<Rightarrow> nat \<Rightarrow> nat \<Rightarrow> ScanKey list run" where
  "scan_key derive pool db account scope =
    run_bind (extract_ivk derive pool db account scope) (\<lambda>key.
      Ret (case key of None \<Rightarrow> [] | Some (ivk, nk) \<Rightarrow> [\<lparr>sk_account = account, sk_scope = scope, sk_ivk = ivk, sk_nk = nk\<rparr>]))"

definition account_keys :: "(nat \<Rightarrow> nat \<Rightarrow> nat \<Rightarrow> (bytes \<times> bytes) run) \<Rightarrow> nat \<Rightarrow> Db \<Rightarrow> nat \<times> bool \<Rightarrow> ScanKey list run" where
  "account_keys derive pool db = (\<lambda>(account, use_internal).
    run_bind (scan_key derive pool db account 0) (\<lambda>ext.
      if use_internal then run_bind (scan_key derive pool db account 1) (\<lambda>int. Ret (ext @ int)) else Ret ext))"

definition stored_notes :: "nat \<Rightarrow> nat \<Rightarrow> Db \<Rightarrow> nat \<Rightarrow> (NoteRow \<times> WitnessRow) list" where
  "stored_notes pool height db account =
    concat (map (\<lambda>n. map (Pair n) (filter (\<lambda>w. w_note w = nr_id n \<and> w_height w = height) (witnesses db)))
      (filter (\<lambda>n. nr_id n \<notin> sp_note ` set (spends db) \<and> nr_pool n = pool \<and> nr_account n = account) (note_rows db)))"

definition load_utxo :: "(bytes \<Rightarrow> Witness option) \<Rightarrow> nat \<Rightarrow> NoteRow \<times> WitnessRow \<Rightarrow> Utxo run" where
  "load_utxo decode pool = (\<lambda>(n, w).
    case nr_position n of
      None \<Rightarrow> Panic
    | Some position \<Rightarrow>
        (if 2 ^ 32 \<le> position then Panic
         else case nr_cmx n of
           None \<Rightarrow> Panic
         | Some cmx \<Rightarrow>
             (case decode (w_data w) of
                None \<Rightarrow> Panic
              | Some witness \<Rightarrow>
                  Ret \<lparr>ut_account = nr_account n, ut_pool = pool, ut_position = position, ut_nullifier = nr_nullifier n,
                    ut_value = as_u64 (nr_value n), ut_cmx = cmx, ut_txid = [], ut_witness = witness\<rparr>)))"

definition load_account :: "(bytes \<Rightarrow> Witness option) \<Rightarrow> nat \<Rightarrow> nat \<Rightarrow> Db \<Rightarrow> nat \<Rightarrow> Utxo list \<Rightarrow> Utxo list run" where
  "load_account decode pool height db account us =
    run_fold (\<lambda>row us. run_bind (load_utxo decode pool row) (\<lambda>u. Ret (insert_utxo u us))) (stored_notes pool height db account) us"

definition Synchronizer_new ::
    "(nat \<Rightarrow> nat \<Rightarrow> nat \<Rightarrow> (bytes \<times> bytes) run) \<Rightarrow> (bytes \<Rightarrow> Witness option) \<Rightarrow> Db \<Rightarrow> nat \<Rightarrow> nat \<Rightarrow> (nat \<times> bool) list \<Rightarrow> nat \<Rightarrow> Edge \<Rightarrow> Sync run" where
  "Synchronizer_new derive decode db pool height accs position tree_state =
    run_bind (run_concat (account_keys derive pool db) accs) (\<lambda>keys.
      run_bind (run_fold (load_account decode pool ((height + 2 ^ 32 - 1) mod 2 ^ 32) db) (map sk_account keys) []) (\<lambda>us.
        Ret \<lparr>sy_pool = pool, sy_keys = keys, sy_position = position, sy_utxos = us, sy_edge = tree_state\<rparr>))"

section \<open>Writing in sequence\<close>

lemma handle_messages_append:
  "handle_messages wr (xs @ ys) db =
    run_bind (handle_messages wr xs db) (\<lambda>r. case r of Inl e \<Rightarrow> Ret (Inl e) | Inr db \<Rightarrow> handle_messages wr ys db)"
proof (induction xs arbitrary: db)
  case (Cons m xs)
  show ?case
  proof (cases "handle_message wr m db")
    case (Ret r)
    then show ?thesis using Cons by (cases r) simp_all
  qed simp
qed simp

lemma handle_messages_then:
  "handle_messages wr xs db = Ret (Inr db1) \<Longrightarrow> handle_messages wr (xs @ ys) db = handle_messages wr ys db1"
  by (simp add: handle_messages_append)

section \<open>Single messages\<close>

text \<open>The tables a note or a transaction message leaves alone.\<close>

definition scan_frame :: "Db \<Rightarrow> Db \<Rightarrow> bool" where
  "scan_frame db db' \<longleftrightarrow> witnesses db' = witnesses db \<and> sync_heights db' = sync_heights db \<and> accounts db' = accounts db \<and>
    transparent_accounts db' = transparent_accounts db \<and> sapling_accounts db' = sapling_accounts db \<and> orchard_accounts db' = orchard_accounts db"

lemma scan_frame_trans: "scan_frame x y \<Longrightarrow> scan_frame y z \<Longrightarrow> scan_frame x z"
  by (simp add: scan_frame_def)

lemma scan_frame_refl [simp]: "scan_frame x x"
  by (simp add: scan_frame_def)

lemma store_transaction_facts:
  "keys_ok db \<Longrightarrow> keys_ok (store_transaction a h t txid db)" "assets (store_transaction a h t txid db) = assets db"
  "scan_frame db (store_transaction a h t txid db)" "note_rows (store_transaction a h t txid db) = note_rows db"
  "spends (store_transaction a h t txid db) = spends db"
  "\<exists>r \<in> set (transactions (store_transaction a h t txid db)). tx_account r = a \<and> tx_txid r = txid"
  by (auto simp: store_transaction_def keys_ok_def scan_frame_def list_ex_iff next_rowid_notin)

lemma register_asset_facts:
  "keys_ok db \<Longrightarrow> keys_ok (register_asset d db)" "assets_ok db \<Longrightarrow> assets_ok (register_asset d db)"
  "scan_frame db (register_asset d db)" "note_rows (register_asset d db) = note_rows db" "spends (register_asset d db) = spends db"
  "transactions (register_asset d db) = transactions db"
  by (auto simp: register_asset_def insert_asset_def keys_ok_def assets_ok_def scan_frame_def list_ex_iff next_rowid_notin)

lemma joined_one: "assets_ok db \<Longrightarrow> \<exists>x. joined_assets base db = [x]"
proof (cases "\<exists>a \<in> set (assets db). as_base a = base")
  case True
  moreover assume "assets_ok db"
  ultimately obtain a where "filter (\<lambda>x. as_base x = base) (assets db) = [a]"
    using filter_unique [of as_base "assets db"] by (auto simp: assets_ok_def)
  then show ?thesis by (simp add: joined_assets_def)
next
  case False
  then have "filter (\<lambda>x. as_base x = base) (assets db) = []" by (auto simp: filter_empty_conv)
  then show ?thesis by (simp add: joined_assets_def)
qed

text \<open>The row of an announced note.\<close>

definition is_row :: "DbNote \<Rightarrow> NoteRow \<Rightarrow> bool" where
  "is_row d n \<longleftrightarrow> nr_account n = dn_account d \<and> nr_pool n = dn_pool d \<and> nr_nullifier n = dn_nf d \<and> nr_cmx n = Some (dn_cmx d) \<and>
    nr_position n = Some (dn_position d) \<and> nr_value n = as_i64 (dn_value d)"

lemma handle_note:
  assumes "keys_ok db" "assets_ok db" "(dn_account d, dn_nf d) \<notin> (\<lambda>n. (nr_account n, nr_nullifier n)) ` set (note_rows db)"
  shows "\<exists>db' n. handle_messages wr [MTransaction (dn_account d) h t (dn_txid d), MNote d] db = Ret (Inr db') \<and>
    note_rows db' = note_rows db @ [n] \<and> is_row d n \<and> nr_id n \<notin> nr_id ` set (note_rows db) \<and> keys_ok db' \<and> assets_ok db' \<and>
    scan_frame db db' \<and> spends db' = spends db"
proof -
  let ?db1 = "store_transaction (dn_account d) h t (dn_txid d) db"
  define db2 where "db2 = register_asset d ?db1"
  have "assets_ok ?db1" using assms(2) by (simp add: assets_ok_def store_transaction_facts(2))
  then have db2: "keys_ok db2" "assets_ok db2" "scan_frame db db2" "note_rows db2 = note_rows db" "spends db2 = spends db"
    "transactions db2 = transactions ?db1"
    using register_asset_facts(1,2) [of ?db1 d] store_transaction_facts(1) [OF assms(1)]
      scan_frame_trans [OF store_transaction_facts(3) register_asset_facts(3)]
    by (simp_all add: db2_def register_asset_facts(4-6) store_transaction_facts(4,5))
  obtain r where r: "r \<in> set (transactions db2)" "tx_account r = dn_account d" "tx_txid r = dn_txid d"
    using store_transaction_facts(6) db2(6) by metis
  have "filter (\<lambda>x. (tx_account x, tx_txid x) = (tx_account r, tx_txid r)) (transactions db2) = [r]"
    using filter_unique [of "\<lambda>x. (tx_account x, tx_txid x)" "transactions db2" r] db2(1) r(1) by (simp add: keys_ok_def)
  then have txs: "filter (\<lambda>x. tx_account x = dn_account d \<and> tx_txid x = dn_txid d) (transactions db2) = [r]" using r by simp
  obtain x where x: "joined_assets (dn_asset_base d) db2 = [x]" using joined_one [OF db2(2)] by blast
  define n where "n = note_row (wr_resolve wr) db2 d r x"
  have n: "is_row d n" "nr_id n \<notin> nr_id ` set (note_rows db)" "(nr_account n, nr_nullifier n) = (dn_account d, dn_nf d)"
    using r next_rowid_notin [of nr_id "note_rows db"] by (auto simp: n_def note_row_def is_row_def db2(4))
  have "list_ex (\<lambda>m. (nr_account m, nr_nullifier m) \<in> (\<lambda>n. (nr_account n, nr_nullifier n)) ` set (note_rows db2)) [n] = False"
    using assms(3) n(3) by (simp add: db2(4))
  then have one: "insert_one (\<lambda>n. (nr_account n, nr_nullifier n)) [n] (note_rows db2) = Ret (Inr (note_rows db2 @ [n]))"
    by (simp add: insert_one_def)
  have "store_note (wr_resolve wr) d ?db1 = Ret (Inr (db2\<lparr>note_rows := note_rows db2 @ [n]\<rparr>))"
    unfolding store_note_def Let_def db2_def [symmetric] txs
    using x one by (simp add: n_def)
  then have run: "handle_messages wr [MTransaction (dn_account d) h t (dn_txid d), MNote d] db = Ret (Inr (db2\<lparr>note_rows := note_rows db2 @ [n]\<rparr>))"
    by (simp add: handle_message_def)
  have "keys_ok (db2\<lparr>note_rows := note_rows db2 @ [n]\<rparr>)"
    using db2(1) n(2,3) assms(3) by (auto simp: keys_ok_def db2(4))
  then show ?thesis using run n(1,2) db2 by (intro exI [of _ "db2\<lparr>note_rows := note_rows db2 @ [n]\<rparr>"] exI [of _ n])
      (simp add: assets_ok_def scan_frame_def)
qed

section \<open>The messages of a batch\<close>

abbreviation note_nf :: "NoteRow \<Rightarrow> nat \<times> bytes" where
  "note_nf n \<equiv> (nr_account n, nr_nullifier n)"

lemma write_notes:
  assumes "keys_ok db" "assets_ok db" "distinct (map (\<lambda>(_, g). (dn_account (fn_db g), dn_nf (fn_db g))) A)"
    and "\<forall>(l, g) \<in> set A. (dn_account (fn_db g), dn_nf (fn_db g)) \<notin> note_nf ` set (note_rows db) \<and> dn_txid (fn_db g) = ct_hash (lo_tx l)"
  shows "\<exists>db' rows. handle_messages wr (concat (map (case_prod note_messages) A)) db = Ret (Inr db') \<and>
    note_rows db' = note_rows db @ rows \<and> list_all2 (\<lambda>(_, g) n. is_row (fn_db g) n) A rows \<and> keys_ok db' \<and> assets_ok db' \<and>
    scan_frame db db' \<and> spends db' = spends db"
  using assms
proof (induction A arbitrary: db)
  case (Cons a A)
  obtain l g where a: "a = (l, g)" by (cases a)
  have msgs: "note_messages l g = [MTransaction (dn_account (fn_db g)) (lo_height l) (lo_time l) (dn_txid (fn_db g)), MNote (fn_db g)]"
    using Cons.prems(4) by (simp add: a note_messages_def)
  obtain db1 n where one: "handle_messages wr (note_messages l g) db = Ret (Inr db1)" "note_rows db1 = note_rows db @ [n]" "is_row (fn_db g) n"
      "keys_ok db1" "assets_ok db1" "scan_frame db db1" "spends db1 = spends db"
    unfolding msgs using handle_note [OF Cons.prems(1,2), of "fn_db g" wr "lo_height l" "lo_time l"] Cons.prems(4) by (auto simp: a)
  have "note_nf n = (dn_account (fn_db g), dn_nf (fn_db g))" using one(3) by (simp add: is_row_def)
  then have "note_nf n \<notin> (\<lambda>(_, g). (dn_account (fn_db g), dn_nf (fn_db g))) ` set A" using Cons.prems(3) by (simp add: a)
  then have "(dn_account (fn_db g'), dn_nf (fn_db g')) \<noteq> note_nf n" if "(l', g') \<in> set A" for l' g'
    using that by (metis (mono_tags, lifting) case_prod_conv image_eqI)
  moreover have "(dn_account (fn_db g'), dn_nf (fn_db g')) \<notin> note_nf ` set (note_rows db) \<and> dn_txid (fn_db g') = ct_hash (lo_tx l')"
    if "(l', g') \<in> set A" for l' g'
    using Cons.prems(4) that by (auto dest: bspec [where x = "(l', g')"])
  ultimately have fresh: "\<forall>(l, g) \<in> set A. (dn_account (fn_db g), dn_nf (fn_db g)) \<notin> note_nf ` set (note_rows db1) \<and> dn_txid (fn_db g) = ct_hash (lo_tx l)"
    unfolding one(2) by simp blast
  obtain db2 rows where "handle_messages wr (concat (map (case_prod note_messages) A)) db1 = Ret (Inr db2)" "note_rows db2 = note_rows db1 @ rows"
      "list_all2 (\<lambda>(_, g) n. is_row (fn_db g) n) A rows" "keys_ok db2" "assets_ok db2" "scan_frame db1 db2" "spends db2 = spends db1"
    using Cons.IH [OF one(4,5) _ fresh] Cons.prems(3) by auto
  then show ?case using one handle_messages_then [OF one(1)] scan_frame_trans [OF one(6)]
    by (intro exI [of _ db2] exI [of _ "n # rows"]) (simp add: a)
qed simp

definition row_for :: "NoteRow list \<Rightarrow> Utxo \<Rightarrow> NoteRow \<Rightarrow> bool" where
  "row_for ns u n \<longleftrightarrow> filter (\<lambda>m. nr_account m = ut_account u \<and> nr_cmx m = Some (ut_cmx u)) ns = [n]"

definition witness_row :: "Writer \<Rightarrow> nat \<Rightarrow> (Utxo \<Rightarrow> NoteRow) \<Rightarrow> Utxo \<Rightarrow> WitnessRow" where
  "witness_row wr height f u = \<lparr>w_account = ut_account u, w_note = nr_id (f u), w_height = height, w_data = wr_encode wr (ut_witness u)\<rparr>"

lemma write_witnesses:
  assumes "\<forall>u \<in> set us. row_for (note_rows db) u (f u)" "distinct (map (nr_id \<circ> f) us)"
    and "\<forall>u \<in> set us. \<forall>w \<in> set (witnesses db). w_note w = nr_id (f u) \<longrightarrow> w_height w \<noteq> height"
  shows "handle_messages wr (map (witness_message height) us) db = Ret (Inr (db\<lparr>witnesses := witnesses db @ map (witness_row wr height f) us\<rparr>))"
  using assms
proof (induction us arbitrary: db)
  case (Cons u us)
  let ?db1 = "db\<lparr>witnesses := witnesses db @ [witness_row wr height f u]\<rparr>"
  have "(nr_id (f u), height) \<notin> (\<lambda>w. (w_note w, w_height w)) ` set (witnesses db)" using Cons.prems(3) by auto
  then have "handle_message wr (witness_message height u) db = Ret (Inr ?db1)"
    using Cons.prems(1) by (auto simp: handle_message_def witness_message_def store_witness_def row_for_def insert_one_def witness_row_def Let_def)
  moreover have "handle_messages wr (map (witness_message height) us) ?db1 = Ret (Inr (?db1\<lparr>witnesses := witnesses ?db1 @ map (witness_row wr height f) us\<rparr>))"
    by (rule Cons.IH) (use Cons.prems in \<open>auto simp: witness_row_def\<close>)
  ultimately show ?case by simp
qed simp

lemma handle_spend:
  assumes "keys_ok db" "row_for (note_rows db) u n" "nr_id n \<notin> sp_note ` set (spends db)"
  shows "\<exists>db' r. handle_messages wr [MTransaction (ut_account u) h t txid, MSpend (u\<lparr>ut_txid := txid\<rparr>)] db = Ret (Inr db') \<and>
    spends db' = spends db @ [r] \<and> sp_note r = nr_id n \<and> note_rows db' = note_rows db \<and> keys_ok db' \<and> assets db' = assets db \<and> scan_frame db db'"
proof -
  define db1 where "db1 = store_transaction (ut_account u) h t txid db"
  note tx = store_transaction_facts [where a = "ut_account u" and h = h and t = t and txid = txid and db = db, folded db1_def]
  have k1: "keys_ok db1" using tx(1) assms(1) .
  obtain r where r: "r \<in> set (transactions db1)" "tx_account r = ut_account u" "tx_txid r = txid" using tx(6) by blast
  have "filter (\<lambda>x. (tx_account x, tx_txid x) = (tx_account r, tx_txid r)) (transactions db1) = [r]"
    using filter_unique [of "\<lambda>x. (tx_account x, tx_txid x)" "transactions db1" r] k1 r(1) by (simp add: keys_ok_def)
  moreover have "filter (\<lambda>x. tx_txid x = txid \<and> tx_account x = ut_account u) (transactions db1) =
      filter (\<lambda>x. (tx_account x, tx_txid x) = (tx_account r, tx_txid r)) (transactions db1)"
    by (rule filter_cong) (use r in auto)
  ultimately have txs: "filter (\<lambda>x. tx_txid x = txid \<and> tx_account x = ut_account u) (transactions db1) = [r]" by simp
  let ?r = "\<lparr>sp_note = nr_id n, sp_height = tx_height r, sp_account = ut_account u, sp_pool = ut_pool u, sp_tx = tx_id r,
      sp_value = i64_neg (as_i64 (ut_value u))\<rparr>"
  let ?db' = "db1\<lparr>spends := spends db1 @ [?r]\<rparr>"
  have "store_spend (u\<lparr>ut_txid := txid\<rparr>) db1 = Ret (Inr ?db')"
    using assms(2,3) txs by (simp add: store_spend_def Let_def row_for_def insert_one_def tx(4,5))
  then have "handle_messages wr [MTransaction (ut_account u) h t txid, MSpend (u\<lparr>ut_txid := txid\<rparr>)] db = Ret (Inr ?db')"
    by (simp add: handle_message_def db1_def)
  moreover have "keys_ok ?db'" using k1 assms(3) by (simp add: keys_ok_def tx(5))
  moreover have "scan_frame db ?db'" using tx(3) by (simp add: scan_frame_def)
  ultimately show ?thesis by (intro exI [of _ ?db'] exI [of _ ?r]) (simp add: tx(2,4,5))
qed

lemma write_spend_messages:
  assumes "keys_ok db" "\<forall>u \<in> fst ` set R. row_for (note_rows db) u (f u) \<and> nr_id (f u) \<notin> sp_note ` set (spends db)"
    and "distinct (map (nr_id \<circ> f \<circ> fst) R)"
  shows "\<exists>db' rows. handle_messages wr (spend_messages R) db = Ret (Inr db') \<and> spends db' = spends db @ rows \<and>
    map sp_note rows = map (nr_id \<circ> f \<circ> fst) R \<and> note_rows db' = note_rows db \<and> keys_ok db' \<and> assets db' = assets db \<and> scan_frame db db'"
  using assms
proof (induction R arbitrary: db)
  case (Cons x R)
  obtain u h t txid where x: "x = (u, h, t, txid)" by (cases x)
  obtain db1 r where one: "handle_messages wr [MTransaction (ut_account u) h t txid, MSpend (u\<lparr>ut_txid := txid\<rparr>)] db = Ret (Inr db1)"
      "spends db1 = spends db @ [r]" "sp_note r = nr_id (f u)" "note_rows db1 = note_rows db" "keys_ok db1" "assets db1 = assets db" "scan_frame db db1"
    using handle_spend [OF Cons.prems(1), of u "f u" wr h t txid] Cons.prems(2) by (auto simp: x)
  have "nr_id (f v) \<noteq> nr_id (f u)" if "v \<in> fst ` set R" for v
  proof -
    have "nr_id (f v) \<in> (nr_id \<circ> f \<circ> fst) ` set R" using that by force
    moreover have "nr_id (f u) \<notin> (nr_id \<circ> f \<circ> fst) ` set R" using Cons.prems(3) by (simp add: x)
    ultimately show ?thesis by metis
  qed
  then have "\<forall>v \<in> fst ` set R. row_for (note_rows db1) v (f v) \<and> nr_id (f v) \<notin> sp_note ` set (spends db1)"
    using Cons.prems(2) unfolding one(2,4) using one(3) by simp
  then obtain db2 rows where "handle_messages wr (spend_messages R) db1 = Ret (Inr db2)" "spends db2 = spends db1 @ rows"
      "map sp_note rows = map (nr_id \<circ> f \<circ> fst) R" "note_rows db2 = note_rows db1" "keys_ok db2" "assets db2 = assets db1" "scan_frame db1 db2"
    using Cons.IH [OF one(5)] Cons.prems(3) by auto
  moreover have "spend_messages (x # R) = [MTransaction (ut_account u) h t txid, MSpend (u\<lparr>ut_txid := txid\<rparr>)] @ spend_messages R"
    by (simp add: spend_messages_def x)
  ultimately show ?case using one handle_messages_then [OF one(1)] scan_frame_trans [OF one(7)]
    by (intro exI [of _ db2] exI [of _ "r # rows"]) (simp add: x)
qed (simp add: spend_messages_def)

lemma checkpoint_accounts:
  assumes "pool \<in> {1, 2, 3}"
  shows "\<exists>db'. handle_messages wr [MCheckpoint accs pool height] db = Ret (Inr db') \<and> note_rows db' = note_rows db \<and> spends db' = spends db \<and>
    witnesses db' = witnesses db \<and> assets db' = assets db \<and> (keys_ok db \<longrightarrow> keys_ok db')"
proof -
  let ?Q = "\<lambda>d. note_rows d = note_rows db \<and> spends d = spends db \<and> witnesses d = witnesses db \<and> assets d = assets db \<and> (keys_ok db \<longrightarrow> keys_ok d)"
  have step: "\<exists>t. checkpoint_account pool height a d = Ret t \<and> ?Q t" if "?Q d" for a d
  proof -
    obtain has where "has_pool_row d a pool = Ret has" using assms by (auto simp: has_pool_row_def)
    then have "checkpoint_account pool height a d = Ret (if has then store_synced_height a pool height d else d)"
      by (simp add: checkpoint_account_def)
    moreover have "?Q (if has then store_synced_height a pool height d else d)"
      using that keys_ok_store_synced_height [of d a pool height] by (cases has) (simp_all add: store_synced_height_def)
    ultimately show ?thesis by blast
  qed
  have "?Q db" by blast
  then have "\<exists>t. run_fold (checkpoint_account pool height) accs db = Ret t \<and> ?Q t"
    by (rule run_fold_returns [where P = ?Q]) (rule step)
  then obtain t where "run_fold (checkpoint_account pool height) accs db = Ret t" "?Q t" by blast
  then show ?thesis by (simp add: handle_message_def)
qed

section \<open>The mirror\<close>

definition note_of :: "nat \<Rightarrow> Utxo \<Rightarrow> NoteRow \<Rightarrow> bool" where
  "note_of pool u n \<longleftrightarrow> nr_account n = ut_account u \<and> nr_pool n = pool \<and> nr_nullifier n = ut_nullifier u \<and> nr_cmx n = Some (ut_cmx u) \<and>
    nr_position n = Some (ut_position u) \<and> nr_value n = as_i64 (ut_value u) \<and> ut_value u < 2 ^ 64 \<and> ut_pool u = pool \<and> ut_txid u = []"

definition unspent_row :: "Db \<Rightarrow> NoteRow \<Rightarrow> bool" where
  "unspent_row db n \<longleftrightarrow> n \<in> set (note_rows db) \<and> nr_id n \<notin> sp_note ` set (spends db)"

definition mirrored :: "Writer \<Rightarrow> nat \<Rightarrow> nat list \<Rightarrow> nat \<Rightarrow> Utxo list \<Rightarrow> Db \<Rightarrow> bool" where
  "mirrored wr pool accs height us db \<longleftrightarrow>
    (\<forall>u \<in> set us. ut_account u \<in> set accs \<and>
      (\<exists>n \<in> set (note_rows db). note_of pool u n \<and> nr_id n \<notin> sp_note ` set (spends db) \<and> witness_row wr height (\<lambda>_. n) u \<in> set (witnesses db))) \<and>
    (\<forall>n \<in> set (note_rows db). nr_pool n = pool \<and> nr_account n \<in> set accs \<and> nr_id n \<notin> sp_note ` set (spends db) \<longrightarrow>
      (\<exists>u \<in> set us. note_of pool u n))"

text \<open>What the chain gives: no nullifier and no commitment of an account occurs twice.\<close>

definition cmx_unique :: "NoteRow list \<Rightarrow> bool" where
  "cmx_unique ns \<longleftrightarrow> distinct (map (\<lambda>n. (nr_account n, nr_cmx n)) (filter (\<lambda>n. nr_cmx n \<noteq> None) ns))"

definition fresh_notes :: "nat \<Rightarrow> Db \<Rightarrow> DbNote list \<Rightarrow> bool" where
  "fresh_notes pool db ds \<longleftrightarrow> distinct (map (\<lambda>d. (dn_account d, dn_nf d)) ds) \<and> distinct (map (\<lambda>d. (dn_account d, dn_cmx d)) ds) \<and>
    (\<forall>d \<in> set ds. (dn_account d, dn_nf d) \<notin> note_nf ` set (note_rows db) \<and>
      (dn_account d, Some (dn_cmx d)) \<notin> (\<lambda>n. (nr_account n, nr_cmx n)) ` set (note_rows db) \<and> dn_pool d = pool \<and> dn_value d < 2 ^ 64)"

text \<open>The database between two batches: keys, references of the spends, no witness from the given height on.\<close>

definition scan_ok :: "nat \<Rightarrow> Db \<Rightarrow> bool" where
  "scan_ok height db \<longleftrightarrow> keys_ok db \<and> assets_ok db \<and> cmx_unique (note_rows db) \<and> sp_note ` set (spends db) \<subseteq> nr_id ` set (note_rows db) \<and>
    (\<forall>w \<in> set (witnesses db). w_height w < height)"

lemma row_for_unique:
  assumes "cmx_unique ns" "n \<in> set ns" "nr_account n = ut_account u" "nr_cmx n = Some (ut_cmx u)"
  shows "row_for ns u n"
proof -
  let ?k = "\<lambda>n. (nr_account n, nr_cmx n)"
  have "filter (\<lambda>m. ?k m = ?k n) (filter (\<lambda>n. nr_cmx n \<noteq> None) ns) = [n]"
    using filter_unique [of ?k "filter (\<lambda>n. nr_cmx n \<noteq> None) ns" n] assms by (simp add: cmx_unique_def)
  moreover have "filter (\<lambda>m. nr_account m = ut_account u \<and> nr_cmx m = Some (ut_cmx u)) ns = filter (\<lambda>m. ?k m = ?k n) (filter (\<lambda>n. nr_cmx n \<noteq> None) ns)"
    unfolding filter_filter using assms(3,4) by (intro filter_cong) auto
  ultimately show ?thesis by (simp add: row_for_def)
qed

lemma rows_keys:
  assumes "list_all2 (\<lambda>(_, g) n. is_row (fn_db g) n) A rows"
  shows "map (\<lambda>n. (nr_account n, nr_cmx n)) rows = map (\<lambda>d. (dn_account d, Some (dn_cmx d))) (map (fn_db \<circ> snd) A)"
    "\<forall>n \<in> set rows. nr_cmx n \<noteq> None" "\<forall>n \<in> set rows. \<exists>a \<in> set A. is_row (fn_db (snd a)) n" "\<forall>a \<in> set A. \<exists>n \<in> set rows. is_row (fn_db (snd a)) n"
  using assms by (induction rule: list_all2_induct) (auto simp: is_row_def)

lemma fresh_cmx_unique:
  assumes "cmx_unique (note_rows db)" "fresh_notes pool db (map (fn_db \<circ> snd) A)" "list_all2 (\<lambda>(_, g) n. is_row (fn_db g) n) A rows"
  shows "cmx_unique (note_rows db @ rows)"
proof -
  let ?k = "\<lambda>n. (nr_account n, nr_cmx n)"
  note keys = rows_keys [OF assms(3)]
  have "filter (\<lambda>n. nr_cmx n \<noteq> None) rows = rows" using keys(2) by (simp add: filter_id_conv)
  moreover have "distinct (map ?k rows)" using assms(2) unfolding keys(1) fresh_notes_def by (auto simp: distinct_map inj_on_def)
  moreover have "?k ` set rows = set (map (\<lambda>d. (dn_account d, Some (dn_cmx d))) (map (fn_db \<circ> snd) A))"
    unfolding keys(1) [symmetric] by simp
  then have "?k ` set rows \<inter> ?k ` set (note_rows db) = {}" using assms(2) by (auto simp: fresh_notes_def)
  then have "?k ` {n \<in> set (note_rows db). nr_cmx n \<noteq> None} \<inter> ?k ` set rows = {}" by blast
  ultimately show ?thesis using assms(1) by (simp add: cmx_unique_def)
qed

lemma note_of_refreshed [simp]: "note_of pool (refreshed h n T u) m \<longleftrightarrow> note_of pool u m"
  by (simp add: note_of_def refreshed_def)

lemma refreshed_fields [simp]: "ut_account (refreshed h n T u) = ut_account u" "ut_cmx (refreshed h n T u) = ut_cmx u"
  by (simp_all add: refreshed_def)

lemma is_row_note_of: "is_row (fn_db g) n \<Longrightarrow> dn_pool (fn_db g) = pool \<Longrightarrow> dn_value (fn_db g) < 2 ^ 64 \<Longrightarrow> note_of pool (new_utxo pool g) n"
  by (simp add: is_row_def note_of_def new_utxo_def)

lemma note_of_key: "note_of pool u n \<Longrightarrow> note_nf n = ut_key u"
  by (simp add: note_of_def ut_key_def)

text \<open>The notes held before a batch and the notes it adds all have a row once the notes are written, and conversely.\<close>

lemma held_rows:
  assumes "scan_ok height db" "mirrored wr pool accs H vs db" "fresh_notes pool db (map (fn_db \<circ> snd) A)"
    and "\<forall>a \<in> set A. dn_account (fn_db (snd a)) \<in> set accs"
    and "list_all2 (\<lambda>(_, g) n. is_row (fn_db g) n) A rows" "distinct (map nr_id (note_rows db @ rows))"
    and us: "us = map (refreshed h n T) (vs @ map (new_utxo pool) (map snd A))"
  shows "\<forall>u \<in> set us. ut_account u \<in> set accs \<and> (\<exists>m \<in> set (note_rows db @ rows). note_of pool u m \<and> nr_id m \<notin> sp_note ` set (spends db))"
    and "\<forall>m \<in> set (note_rows db @ rows). nr_pool m = pool \<and> nr_account m \<in> set accs \<and> nr_id m \<notin> sp_note ` set (spends db) \<longrightarrow> (\<exists>u \<in> set us. note_of pool u m)"
proof -
  note keys = rows_keys [OF assms(5)]
  have new: "note_of pool (new_utxo pool (snd a)) m" if "a \<in> set A" "is_row (fn_db (snd a)) m" for a m
    using that assms(3) by (intro is_row_note_of) (auto simp: fresh_notes_def)
  have "sp_note ` set (spends db) \<subseteq> nr_id ` set (note_rows db)" "nr_id ` set (note_rows db) \<inter> nr_id ` set rows = {}"
    using assms(1,6) by (simp_all add: scan_ok_def)
  then have ids: "nr_id m \<notin> sp_note ` set (spends db)" if "m \<in> set rows" for m using that by blast
  show "\<forall>u \<in> set us. ut_account u \<in> set accs \<and> (\<exists>m \<in> set (note_rows db @ rows). note_of pool u m \<and> nr_id m \<notin> sp_note ` set (spends db))"
  proof
    fix u assume "u \<in> set us"
    then consider v where "v \<in> set vs" "u = refreshed h n T v" | a where "a \<in> set A" "u = refreshed h n T (new_utxo pool (snd a))"
      by (auto simp: us)
    then show "ut_account u \<in> set accs \<and> (\<exists>m \<in> set (note_rows db @ rows). note_of pool u m \<and> nr_id m \<notin> sp_note ` set (spends db))"
    proof cases
      case 1
      then have "ut_account v \<in> set accs" "\<exists>m \<in> set (note_rows db). note_of pool v m \<and> nr_id m \<notin> sp_note ` set (spends db)"
        using assms(2) unfolding mirrored_def by blast+
      then show ?thesis using 1(2) by auto
    next
      case 2
      then obtain m where m: "m \<in> set rows" "is_row (fn_db (snd a)) m" using keys(4) by blast
      then show ?thesis using new [OF 2(1) m(2)] ids [OF m(1)] assms(4) 2 by (auto simp: new_utxo_def)
    qed
  qed
  show "\<forall>m \<in> set (note_rows db @ rows). nr_pool m = pool \<and> nr_account m \<in> set accs \<and> nr_id m \<notin> sp_note ` set (spends db) \<longrightarrow> (\<exists>u \<in> set us. note_of pool u m)"
  proof (intro ballI impI)
    fix m assume m: "m \<in> set (note_rows db @ rows)" "nr_pool m = pool \<and> nr_account m \<in> set accs \<and> nr_id m \<notin> sp_note ` set (spends db)"
    then consider v where "v \<in> set vs" "note_of pool v m" | a where "a \<in> set A" "is_row (fn_db (snd a)) m"
      using assms(2) keys(3) unfolding mirrored_def set_append by blast
    then show "\<exists>u \<in> set us. note_of pool u m"
    proof cases
      case 1
      then have "refreshed h n T v \<in> set us" "note_of pool (refreshed h n T v) m" by (simp_all add: us)
      then show ?thesis by blast
    next
      case 2
      then have "refreshed h n T (new_utxo pool (snd a)) \<in> set us" by (simp add: us)
      then show ?thesis using new [OF 2] by (metis note_of_refreshed)
    qed
  qed
qed

lemma keys_ok_add_witnesses:
  assumes "keys_ok db" "distinct (map (\<lambda>w. (w_note w, w_height w)) W)"
    and "(\<lambda>w. (w_note w, w_height w)) ` set (witnesses db) \<inter> (\<lambda>w. (w_note w, w_height w)) ` set W = {}"
  shows "keys_ok (db\<lparr>witnesses := witnesses db @ W\<rparr>)"
  using assms by (simp add: keys_ok_def)

text \<open>
  Notes with rows are kept apart by their nullifiers: each has one row, and the marks left by the spends of some of
  them are not on the rows of the others.
\<close>

lemma rows_apart:
  assumes "keys_ok db" "distinct (map ut_key us)" "\<forall>u \<in> set us. f u \<in> set (note_rows db) \<and> note_of pool u (f u)"
  shows "inj_on (nr_id \<circ> f) (set us)" "u \<in> set us \<Longrightarrow> m \<in> set (note_rows db) \<Longrightarrow> note_of pool u m \<Longrightarrow> f u = m"
proof -
  have ids: "distinct (map nr_id (note_rows db))" and nfs: "distinct (map note_nf (note_rows db))" using assms(1) by (simp_all add: keys_ok_def)
  show "inj_on (nr_id \<circ> f) (set us)"
  proof (rule inj_onI)
    fix u v assume uv: "u \<in> set us" "v \<in> set us" "(nr_id \<circ> f) u = (nr_id \<circ> f) v"
    then have "f u = f v" using distinct_key_unique [OF ids] assms(3) by simp
    then have "ut_key u = ut_key v" using note_of_key assms(3) uv(1,2) by metis
    then show "u = v" using distinct_key_unique [OF assms(2) uv(1,2)] by simp
  qed
  show "f u = m" if "u \<in> set us" "m \<in> set (note_rows db)" "note_of pool u m"
  proof -
    have "note_nf (f u) = note_nf m" using note_of_key that assms(3) by metis
    then show ?thesis using distinct_key_unique [OF nfs] assms(3) that by simp
  qed
qed

lemma mirrored_after:
  assumes "\<forall>u \<in> set us. f u \<in> set ns \<and> note_of pool u (f u) \<and> nr_id (f u) \<notin> sp_note ` set (spends db)" "inj_on (nr_id \<circ> f) (set us)"
    and "\<And>u m. u \<in> set us \<Longrightarrow> m \<in> set ns \<Longrightarrow> note_of pool u m \<Longrightarrow> f u = m"
    and "\<forall>u \<in> set us. ut_account u \<in> set accs"
    and "\<forall>m \<in> set ns. nr_pool m = pool \<and> nr_account m \<in> set accs \<and> nr_id m \<notin> sp_note ` set (spends db) \<longrightarrow> (\<exists>u \<in> set us. note_of pool u m)"
    and "sp_note ` set (spends db') = sp_note ` set (spends db) \<union> (nr_id \<circ> f) ` {u \<in> set us. S u}"
    and "note_rows db' = ns" "witnesses db' = ws @ map (witness_row wr height f) us"
  shows "mirrored wr pool accs height (filter (\<lambda>u. \<not> S u) us) db'"
  unfolding mirrored_def assms(7)
proof (intro conjI ballI impI)
  fix u assume "u \<in> set (filter (\<lambda>u. \<not> S u) us)"
  then have us_u: "u \<in> set us" "\<not> S u" by simp_all
  show "ut_account u \<in> set accs" using assms(4) us_u(1) by blast
  have "(nr_id \<circ> f) u \<notin> (nr_id \<circ> f) ` {u \<in> set us. S u}" 
    using us_u inj_on_image_mem_iff [OF assms(2), of u "{u \<in> set us. S u}"] by auto
  then have "nr_id (f u) \<notin> sp_note ` set (spends db')" unfolding assms(6) using assms(1) us_u(1) by simp
  moreover have "witness_row wr height (\<lambda>_. f u) u \<in> set (witnesses db')" unfolding assms(8) using us_u(1) by (simp add: witness_row_def)
  ultimately show "\<exists>m \<in> set ns. note_of pool u m \<and> nr_id m \<notin> sp_note ` set (spends db') \<and> witness_row wr height (\<lambda>_. m) u \<in> set (witnesses db')"
    using assms(1) us_u(1) by blast
next
  fix m assume m: "m \<in> set ns" "nr_pool m = pool \<and> nr_account m \<in> set accs \<and> nr_id m \<notin> sp_note ` set (spends db')"
  then obtain u where u: "u \<in> set us" "note_of pool u m" using assms(5) unfolding assms(6) by blast
  then have "\<not> S u" using m assms(3) [OF u(1) m(1) u(2)] unfolding assms(6) by auto
  then show "\<exists>u \<in> set (filter (\<lambda>u. \<not> S u) us). note_of pool u m" using u by auto
qed

lemma write_batch:
  assumes "scan_ok height db" "mirrored wr pool accs H vs db" "pool \<in> {1, 2, 3}" "fresh_notes pool db (map (fn_db \<circ> snd) A)"
    and "\<forall>(l, g) \<in> set A. dn_txid (fn_db g) = ct_hash (lo_tx l) \<and> dn_account (fn_db g) \<in> set accs"
    and us: "us = map (refreshed h n T) (vs @ map (new_utxo pool) (map snd A))" and "distinct (map ut_key us)"
    and R: "distinct (map fst R)" "fst ` set R = {u \<in> set us. S u}"
  shows "\<exists>db'. handle_messages wr (concat (map (case_prod note_messages) A) @ map (witness_message height) us @ spend_messages R @ [MCheckpoint accs pool height]) db
      = Ret (Inr db') \<and> mirrored wr pool accs height (filter (\<lambda>u. \<not> S u) us) db' \<and> scan_ok (Suc height) db'"
proof -
  have db: "keys_ok db" "assets_ok db" "cmx_unique (note_rows db)" "sp_note ` set (spends db) \<subseteq> nr_id ` set (note_rows db)"
      "\<forall>w \<in> set (witnesses db). w_height w < height" using assms(1) by (simp_all add: scan_ok_def)
  have "distinct (map (\<lambda>(_, g). (dn_account (fn_db g), dn_nf (fn_db g))) A)"
    using assms(4) by (simp add: fresh_notes_def comp_def case_prod_unfold)
  moreover have "\<forall>(l, g) \<in> set A. (dn_account (fn_db g), dn_nf (fn_db g)) \<notin> note_nf ` set (note_rows db) \<and> dn_txid (fn_db g) = ct_hash (lo_tx l)"
    using assms(4,5) by (simp add: fresh_notes_def case_prod_unfold)
  ultimately obtain db1 rows where one: "handle_messages wr (concat (map (case_prod note_messages) A)) db = Ret (Inr db1)"
      "note_rows db1 = note_rows db @ rows" "list_all2 (\<lambda>(_, g) n. is_row (fn_db g) n) A rows" "keys_ok db1" "assets_ok db1" "scan_frame db db1" "spends db1 = spends db"
    using write_notes [OF db(1,2)] by blast
  have uniq: "cmx_unique (note_rows db1)" unfolding one(2) by (rule fresh_cmx_unique [OF db(3) assms(4) one(3)])
  have w1: "witnesses db1 = witnesses db" using one(6) by (simp add: scan_frame_def)
  have "distinct (map nr_id (note_rows db @ rows))" using one(4) unfolding keys_ok_def one(2) by blast
  note held = held_rows [OF assms(1,2,4) _ one(3) this us, folded one(2)]
  have accs: "\<forall>a \<in> set A. dn_account (fn_db (snd a)) \<in> set accs" using assms(5) by (simp add: case_prod_unfold)
  have "\<forall>u \<in> set us. \<exists>m. m \<in> set (note_rows db1) \<and> note_of pool u m \<and> nr_id m \<notin> sp_note ` set (spends db)"
    using held(1) [OF accs] by blast
  from bchoice [OF this] obtain f where f: "\<forall>u \<in> set us. f u \<in> set (note_rows db1) \<and> note_of pool u (f u) \<and> nr_id (f u) \<notin> sp_note ` set (spends db)" ..
  then have rows: "\<forall>u \<in> set us. row_for (note_rows db1) u (f u)"
    using row_for_unique [OF uniq] by (simp add: note_of_def)
  have "\<forall>u \<in> set us. f u \<in> set (note_rows db1) \<and> note_of pool u (f u)" using f by blast
  note inj = rows_apart(1) [OF one(4) assms(7) this] and fu = rows_apart(2) [OF one(4) assms(7) this]
  have dist: "distinct (map (nr_id \<circ> f) us)" unfolding distinct_map using assms(7) inj distinct_map [of ut_key us] by (intro conjI) simp_all
  let ?W = "map (witness_row wr height f) us" and ?db2 = "db1\<lparr>witnesses := witnesses db1 @ map (witness_row wr height f) us\<rparr>"
  have two: "handle_messages wr (map (witness_message height) us) db1 = Ret (Inr ?db2)"
    by (rule write_witnesses [OF rows dist]) (use db(5) in \<open>auto simp: w1\<close>)
  have "distinct (map (\<lambda>w. (w_note w, w_height w)) ?W)" using dist by (simp add: witness_row_def comp_def distinct_map inj_on_def)
  moreover have "(\<lambda>w. (w_note w, w_height w)) ` set (witnesses db) \<inter> (\<lambda>w. (w_note w, w_height w)) ` set ?W = {}"
    using db(5) by (auto simp: witness_row_def)
  ultimately have k2: "keys_ok ?db2" using one(4) by (intro keys_ok_add_witnesses) (simp_all add: w1 Int_commute del: map_map)
  have sub: "fst ` set R \<subseteq> set us" using R(2) by blast
  then have "inj_on (nr_id \<circ> f) (fst ` set R)" using inj inj_on_subset by blast
  then have "distinct (map (nr_id \<circ> f) (map fst R))" using R(1) by (simp only: distinct_map [of "nr_id \<circ> f"]) simp
  then have distR: "distinct (map (nr_id \<circ> f \<circ> fst) R)" by (simp add: comp_assoc)
  have "\<forall>u \<in> fst ` set R. row_for (note_rows ?db2) u (f u) \<and> nr_id (f u) \<notin> sp_note ` set (spends ?db2)"
    using sub f rows one(7) by auto
  from write_spend_messages [OF k2 this distR, of wr] obtain db3 sps where three: "handle_messages wr (spend_messages R) ?db2 = Ret (Inr db3)" "spends db3 = spends db @ sps"
      "map sp_note sps = map (nr_id \<circ> f \<circ> fst) R" "note_rows db3 = note_rows db1" "keys_ok db3" "assets db3 = assets db1"
      "witnesses db3 = witnesses db @ ?W"
    by (auto simp: one(7) scan_frame_def w1)
  obtain db' where four: "handle_messages wr [MCheckpoint accs pool height] db3 = Ret (Inr db')" "note_rows db' = note_rows db1"
      "spends db' = spends db @ sps" "witnesses db' = witnesses db @ ?W" "assets db' = assets db1" "keys_ok db'"
    using checkpoint_accounts [OF assms(3), of wr accs height db3] three by auto
  have spent: "sp_note ` set (spends db') = sp_note ` set (spends db) \<union> (nr_id \<circ> f) ` {u \<in> set us. S u}"
    unfolding four(3) R(2) [symmetric] set_append image_Un using arg_cong [OF three(3), of set] by (simp add: image_comp comp_assoc)
  have run: "handle_messages wr (concat (map (case_prod note_messages) A) @ map (witness_message height) us @ spend_messages R @ [MCheckpoint accs pool height]) db = Ret (Inr db')"
    unfolding handle_messages_then [OF one(1)] handle_messages_then [OF two] handle_messages_then [OF three(1)] by (rule four(1))
  have "mirrored wr pool accs height (filter (\<lambda>u. \<not> S u) us) db'"
    by (rule mirrored_after [OF f inj _ _ _ spent]) (use held [OF accs] fu four in auto)
  moreover have "sp_note ` set (spends db') \<subseteq> nr_id ` set (note_rows db')" unfolding spent four(2) using db(4) f by (auto simp: one(2))
  then have "scan_ok (Suc height) db'"
    using four(5,6) uniq one(5) db(5) unfolding scan_ok_def four(2,4) by (auto simp: assets_ok_def witness_row_def)
  ultimately show ?thesis using run by blast
qed

section \<open>A batch through the writer\<close>

definition announced_notes :: "WarpSyncMessage list \<Rightarrow> DbNote list" where
  "announced_notes msgs = concat (map (\<lambda>m. case m of MNote d \<Rightarrow> [d] | _ \<Rightarrow> []) msgs)"

lemma announced_notes_append [simp]: "announced_notes (xs @ ys) = announced_notes xs @ announced_notes ys"
  by (simp add: announced_notes_def)

lemma announced_notes_batch:
  "announced_notes (concat (map (case_prod note_messages) A)) = map (fn_db \<circ> snd) A"
  "announced_notes (map (witness_message height) us) = []" "announced_notes (spend_messages R) = []"
  "announced_notes [MCheckpoint accs pool height] = []"
proof -
  show "announced_notes (concat (map (case_prod note_messages) A)) = map (fn_db \<circ> snd) A"
    by (induction A) (auto simp: announced_notes_def note_messages_def)
  show "announced_notes (spend_messages R) = []"
    by (induction R) (auto simp: announced_notes_def spend_messages_def)
qed (auto simp: announced_notes_def witness_message_def)

lemma insert_fresh_utxos: "distinct (map ut_key (us @ new)) \<Longrightarrow> fold insert_utxo new us = us @ new"
proof (induction new arbitrary: us)
  case (Cons u new)
  then have "\<forall>v \<in> set us. ut_key v \<noteq> ut_key u" by (auto simp: image_iff)
  then have "insert_utxo u us = us @ [u]" by (simp add: insert_utxo_def filter_id_conv)
  then show ?case using Cons by simp
qed simp

lemma mirrored_keys:
  assumes "mirrored wr pool accs H us db" "u \<in> set us"
  shows "ut_key u \<in> note_nf ` set (note_rows db)"
proof -
  obtain m where m: "m \<in> set (note_rows db)" "note_of pool u m" using assms unfolding mirrored_def by blast
  show ?thesis unfolding note_of_key [OF m(2), symmetric] using m(1) by (rule imageI)
qed

lemma held_notes_fresh:
  assumes "in_step h n L s" "mirrored wr (sy_pool s) accs H (sy_utxos s) db" "fresh_notes (sy_pool s) db (map (fn_db \<circ> snd) A)"
  shows "held_notes h n T s (map snd A) = map (refreshed h n T) (sy_utxos s @ map (new_utxo (sy_pool s)) (map snd A))"
    "distinct (map ut_key (map (refreshed h n T) (sy_utxos s @ map (new_utxo (sy_pool s)) (map snd A))))"
proof -
  let ?new = "map (new_utxo (sy_pool s)) (map snd A)"
  have new: "map ut_key ?new = map (\<lambda>d. (dn_account d, dn_nf d)) (map (fn_db \<circ> snd) A)" by (simp add: ut_key_def new_utxo_def)
  have "distinct (map ut_key (sy_utxos s))" using assms(1) by (simp add: in_step_def)
  moreover have "distinct (map ut_key ?new)" unfolding new using assms(3) by (simp add: fresh_notes_def)
  moreover have "set (map ut_key ?new) \<inter> note_nf ` set (note_rows db) = {}" unfolding new using assms(3) by (auto simp: fresh_notes_def)
  then have "set (map ut_key (sy_utxos s)) \<inter> set (map ut_key ?new) = {}" using mirrored_keys [OF assms(2)] by auto
  ultimately have dist: "distinct (map ut_key (sy_utxos s @ ?new))" by (simp only: map_append distinct_append)
  moreover have "map ut_key (map (refreshed h n T) us) = map ut_key us" for us by (simp add: comp_def)
  ultimately show d: "distinct (map ut_key (map (refreshed h n T) (sy_utxos s @ ?new)))" by metis
  then show "held_notes h n T s (map snd A) = map (refreshed h n T) (sy_utxos s @ ?new)"
    unfolding held_notes_def by (subst insert_fresh_utxos) simp_all
qed

lemma batch_written:
  assumes "combines h combine_opt" and "0 < n" and "issuance_uniform P" and "in_step h n L s"
    and "blocks \<noteq> []" and "ascending blocks" and "\<forall>l \<in> set (located blocks). readable cr P (sy_keys s) l"
    and "length (L @ batch_leaves cr P (located blocks)) < 2 ^ 32" and "sy_pool s \<in> {1, 2, 3}"
    and "scan_ok (cb_height (last blocks)) db" and "mirrored wr (sy_pool s) (map sk_account (sy_keys s)) H (sy_utxos s) db"
    and "\<forall>s' msgs. add_blocks combine_opt n cr P blocks s = Ret (Inr (s', msgs)) \<longrightarrow> fresh_notes (sy_pool s) db (announced_notes msgs)"
  shows "\<exists>s' msgs db'. add_blocks combine_opt n cr P blocks s = Ret (Inr (s', msgs)) \<and> commit_warp_messages wr msgs db = (Written, db') \<and>
    in_step h n (L @ batch_leaves cr P (located blocks)) s' \<and>
    mirrored wr (sy_pool s') (map sk_account (sy_keys s')) (cb_height (last blocks)) (sy_utxos s') db' \<and> scan_ok (Suc (cb_height (last blocks))) db'"
proof -
  let ?ls = "located blocks" and ?accs = "map sk_account (sy_keys s)" and ?height = "cb_height (last blocks)"
  let ?T = "L @ batch_leaves cr P ?ls"
  have height: "?height mod 2 ^ 32 = ?height" using assms(5,6) by (simp add: ascending_def list_all_iff)
  obtain s' A us R where run: "add_blocks combine_opt n cr P blocks s = Ret (Inr (s',
        concat (map (case_prod note_messages) A) @ map (witness_message ?height) us @ spend_messages R @ [MCheckpoint ?accs (sy_pool s) ?height]))"
      and us: "us = held_notes h n ?T s (map snd A)" and A: "placed_notes cr P L (sy_keys s) ?ls A"
      and s': "in_step h n ?T s'" "sy_keys s' = sy_keys s" "sy_pool s' = sy_pool s" "sy_utxos s' = filter (\<lambda>u. \<not> revealed P ?accs ?ls u) us"
      and R: "distinct (map fst R)" "fst ` set R = {u \<in> set us. revealed P ?accs ?ls u}"
    using add_blocks_exact [OF assms(1-6) refl assms(7) refl assms(8) height [symmetric] refl] by blast
  have fresh: "fresh_notes (sy_pool s) db (map (fn_db \<circ> snd) A)" using assms(12) run by (simp add: announced_notes_batch)
  have own: "\<forall>(l, g) \<in> set A. dn_txid (fn_db g) = ct_hash (lo_tx l) \<and> dn_account (fn_db g) \<in> set ?accs"
    using A unfolding placed_notes_def owned_def by auto
  note held = held_notes_fresh [OF assms(4,11) fresh, of ?T]
  obtain db' where "handle_messages wr (concat (map (case_prod note_messages) A) @ map (witness_message ?height) us @ spend_messages R @
        [MCheckpoint ?accs (sy_pool s) ?height]) db = Ret (Inr db')"
      "mirrored wr (sy_pool s) ?accs ?height (filter (\<lambda>u. \<not> revealed P ?accs ?ls u) us) db'" "scan_ok (Suc ?height) db'"
    using write_batch [OF assms(10,11,9) fresh own us [unfolded held(1)] held(2) [folded held(1), folded us] R] by blast
  then show ?thesis using run s' by (auto simp: commit_warp_messages_def)
qed

text \<open>
  C17. The database follows the scanner. When the database mirrors a scanner that is in step with the commitments so far,
  and the notes that a readable batch announces are new to the database (no nullifier and no commitment of an account
  occurs twice), the messages of the batch are written in one transaction without an error or a panic, the
  database then mirrors the scanner after the batch at the height of its last block, and it is ready for the next batch.
\<close>

theorem scan_batch_mirrored:
  assumes "combines h combine_opt" and "0 < n" and "issuance_uniform P" and "in_step h n L s"
    and "blocks \<noteq> []" and "ascending blocks" and "\<forall>l \<in> set (located blocks). readable cr P (sy_keys s) l"
    and "length (L @ batch_leaves cr P (located blocks)) < 2 ^ 32" and "sy_pool s \<in> {1, 2, 3}"
    and "scan_ok (cb_height (last blocks)) db" and "mirrored wr (sy_pool s) (map sk_account (sy_keys s)) H (sy_utxos s) db"
    and "\<forall>s' msgs. add_blocks combine_opt n cr P blocks s = Ret (Inr (s', msgs)) \<longrightarrow> fresh_notes (sy_pool s) db (announced_notes msgs)"
  shows "\<exists>s' msgs db'. add_blocks combine_opt n cr P blocks s = Ret (Inr (s', msgs)) \<and> commit_warp_messages wr msgs db = (Written, db') \<and>
    in_step h n (L @ batch_leaves cr P (located blocks)) s' \<and>
    mirrored wr (sy_pool s') (map sk_account (sy_keys s')) (cb_height (last blocks)) (sy_utxos s') db' \<and> scan_ok (Suc (cb_height (last blocks))) db'"
  using assms by (rule batch_written)

section \<open>Restarting\<close>

lemma run_fold_concat: "run_fold (\<lambda>x. run_fold f (g x)) xs s = run_fold f (concat (map g xs)) s"
proof (induction xs arbitrary: s)
  case (Cons x xs)
  have "run_fold f (ys @ zs) t = run_bind (run_fold f ys t) (run_fold f zs)" for ys zs t
  proof (induction ys arbitrary: t)
    case (Cons y ys)
    then show ?case by (cases "f y t") simp_all
  qed simp
  then show ?case using Cons by (cases "run_fold f (g x) s") simp_all
qed simp

lemma load_rows:
  "\<forall>row \<in> set rows. load_utxo decode pool row = Ret (g row) \<Longrightarrow>
    run_fold (\<lambda>row us. run_bind (load_utxo decode pool row) (\<lambda>u. Ret (insert_utxo u us))) rows us = Ret (fold insert_utxo (map g rows) us)"
  by (induction rows arbitrary: us) simp_all

lemma load_mirrored:
  assumes "keys_ok db" "mirrored wr pool accs H us db" "\<forall>u \<in> set us. decode (wr_encode wr (ut_witness u)) = Some (ut_witness u)"
    and "\<forall>u \<in> set us. ut_position u < 2 ^ 32"
  shows "a \<in> set accs \<Longrightarrow> row \<in> set (stored_notes pool H db a) \<Longrightarrow> \<exists>u \<in> set us. load_utxo decode pool row = Ret u"
    and "u \<in> set us \<Longrightarrow> \<exists>row \<in> set (stored_notes pool H db (ut_account u)). load_utxo decode pool row = Ret u"
proof -
  have loads: "load_utxo decode pool (n, witness_row wr H (\<lambda>_. n) u) = Ret u" if "u \<in> set us" "note_of pool u n" for u n
    using that assms(3,4) by (auto simp: load_utxo_def note_of_def witness_row_def as_u64_as_i64 not_le)
  show "\<exists>u \<in> set us. load_utxo decode pool row = Ret u" if a: "a \<in> set accs" and row: "row \<in> set (stored_notes pool H db a)"
  proof -
    obtain n w where nw: "row = (n, w)" "n \<in> set (note_rows db)" "nr_id n \<notin> sp_note ` set (spends db)" "nr_pool n = pool" "nr_account n = a"
        "w \<in> set (witnesses db)" "w_note w = nr_id n" "w_height w = H" using row by (auto simp: stored_notes_def)
    then obtain u where u: "u \<in> set us" "note_of pool u n" using assms(2) a unfolding mirrored_def by blast
    then obtain m where m: "m \<in> set (note_rows db)" "note_of pool u m" "witness_row wr H (\<lambda>_. m) u \<in> set (witnesses db)"
      using assms(2) unfolding mirrored_def by blast
    have "note_nf m = note_nf n" using note_of_key u(2) m(2) by metis
    then have "m = n" using distinct_key_unique [of note_nf "note_rows db"] assms(1) m(1) nw(2) by (simp add: keys_ok_def)
    then have "witness_row wr H (\<lambda>_. n) u = w"
      using distinct_key_unique [of "\<lambda>w. (w_note w, w_height w)" "witnesses db" "witness_row wr H (\<lambda>_. n) u" w] assms(1) m(3) nw(6-8)
      by (simp add: keys_ok_def witness_row_def)
    then show ?thesis using loads [OF u] u(1) nw(1) by blast
  qed
  show "\<exists>row \<in> set (stored_notes pool H db (ut_account u)). load_utxo decode pool row = Ret u" if u: "u \<in> set us"
  proof -
    obtain m where m: "m \<in> set (note_rows db)" "note_of pool u m" "nr_id m \<notin> sp_note ` set (spends db)" "witness_row wr H (\<lambda>_. m) u \<in> set (witnesses db)"
      using assms(2) u unfolding mirrored_def by blast
    then have "(m, witness_row wr H (\<lambda>_. m) u) \<in> set (stored_notes pool H db (ut_account u))"
      by (auto simp: stored_notes_def note_of_def witness_row_def)
    then show ?thesis using loads [OF u m(2)] by blast
  qed
qed

lemma restart_loads:
  assumes "in_step h n T s" and "length T < 2 ^ 32" and "scan_ok (Suc H) db" and "Suc H < 2 ^ 32"
    and "mirrored wr (sy_pool s) (map sk_account (sy_keys s)) H (sy_utxos s) db"
    and "run_concat (account_keys derive (sy_pool s) db) accs = Ret (sy_keys s)"
    and "\<forall>u \<in> set (sy_utxos s). decode (wr_encode wr (ut_witness u)) = Some (ut_witness u)"
  shows "\<exists>s'. Synchronizer_new derive decode db (sy_pool s) (Suc H) accs (length T) (edge_of h n T) = Ret s' \<and> sy_pool s' = sy_pool s \<and>
    sy_keys s' = sy_keys s \<and> set (sy_utxos s') = set (sy_utxos s) \<and> in_step h n T s'"
proof -
  let ?us = "sy_utxos s" and ?accs = "map sk_account (sy_keys s)"
  have step: "list_all (tracks h n T) ?us" "distinct (map ut_key ?us)" using assms(1) by (simp_all add: in_step_def)
  have k: "keys_ok db" using assms(3) by (simp add: scan_ok_def)
  have pos: "\<forall>u \<in> set ?us. ut_position u < 2 ^ 32" using step(1) assms(2) by (auto simp: list_all_iff tracks_def)
  note load = load_mirrored [OF k assms(5,7) pos]
  let ?rows = "concat (map (stored_notes (sy_pool s) H db) ?accs)"
  define g where "g row = (case load_utxo decode (sy_pool s) row of Ret u \<Rightarrow> u)" for row
  have g: "load_utxo decode (sy_pool s) row = Ret (g row) \<and> g row \<in> set ?us" if row: "row \<in> set ?rows" for row
  proof -
    obtain a where "a \<in> set ?accs" "row \<in> set (stored_notes (sy_pool s) H db a)" using row by auto
    from load(1) [OF this] show ?thesis by (auto simp: g_def)
  qed
  let ?loaded = "fold insert_utxo (map g ?rows) []"
  have "run_fold (load_account decode (sy_pool s) H db) ?accs [] = Ret ?loaded"
    unfolding load_account_def [abs_def] run_fold_concat by (rule load_rows) (use g in blast)
  moreover have "(Suc H + 2 ^ 32 - 1) mod 2 ^ 32 = H" using assms(4) by simp
  ultimately have run: "Synchronizer_new derive decode db (sy_pool s) (Suc H) accs (length T) (edge_of h n T) =
      Ret \<lparr>sy_pool = sy_pool s, sy_keys = sy_keys s, sy_position = length T, sy_utxos = ?loaded, sy_edge = edge_of h n T\<rparr>"
    unfolding Synchronizer_new_def assms(6) run_bind.simps by simp
  have sub: "set ?loaded \<subseteq> set ?us" using insert_utxos(2) [of "map g ?rows" "[]"] g by fastforce
  have "u \<in> set ?loaded" if u: "u \<in> set ?us" for u
  proof -
    obtain row where row: "row \<in> set (stored_notes (sy_pool s) H db (ut_account u))" "load_utxo decode (sy_pool s) row = Ret u" using load(2) [OF u] by blast
    have "ut_account u \<in> set ?accs" using assms(5) u unfolding mirrored_def by blast
    then have "row \<in> set ?rows" using row(1) by auto
    moreover have "g row = u" using row(2) by (simp add: g_def)
    ultimately have "ut_key u \<in> ut_key ` set (map g ?rows)" by force
    then have "ut_key u \<in> ut_key ` set ?loaded" unfolding insert_utxos(3) by blast
    then obtain v where v: "v \<in> set ?loaded" "ut_key u = ut_key v" by blast
    then have "u = v" using distinct_key_unique [OF step(2) u] sub by blast
    then show ?thesis using v(1) by simp
  qed
  then have same: "set ?loaded = set ?us" using sub by blast
  have "distinct (map ut_key ?loaded)" by (rule insert_utxos(1)) simp
  then show ?thesis using run same step(1) by (auto simp: in_step_def list_all_iff)
qed

text \<open>
  C18. A restart loses nothing. When the database mirrors a scanner in step with the chain up to a height, the scanner that
  is built from the database for the next height, with the same keys, the position and the edge of the tree, holds
  exactly the notes of the one that wrote it, with their witnesses: it is in step with the same commitments.
\<close>

theorem Synchronizer_new_restores:
  assumes "in_step h n T s" and "length T < 2 ^ 32" and "scan_ok (Suc H) db" and "Suc H < 2 ^ 32"
    and "mirrored wr (sy_pool s) (map sk_account (sy_keys s)) H (sy_utxos s) db"
    and "run_concat (account_keys derive (sy_pool s) db) accs = Ret (sy_keys s)"
    and "\<forall>u \<in> set (sy_utxos s). decode (wr_encode wr (ut_witness u)) = Some (ut_witness u)"
  shows "\<exists>s'. Synchronizer_new derive decode db (sy_pool s) (Suc H) accs (length T) (edge_of h n T) = Ret s' \<and> sy_pool s' = sy_pool s \<and>
    sy_keys s' = sy_keys s \<and> set (sy_utxos s') = set (sy_utxos s) \<and> in_step h n T s'"
  using assms by (rule restart_loads)

section \<open>A concrete scan\<close>

definition toy_db :: Db where
  "toy_db = ex_db\<lparr>note_rows := [], spends := [], transactions := [], witnesses := []\<rparr>"

lemma toy_db_ok: "scan_ok 10 toy_db" "mirrored toy_writer 2 [1] 9 [] toy_db"
  by (simp_all add: scan_ok_def mirrored_def toy_db_def ex_db_def keys_ok_def assets_ok_def cmx_unique_def)

definition toy_found :: FoundNote where
  "toy_found =
    \<lparr>fn_note = [1],
     fn_db = \<lparr>dn_account = 1, dn_scope = 0, dn_height = 10, dn_pool = 2, dn_value = 5000, dn_rcm = [2], dn_rho = replicate 32 1,
       dn_vout = 0, dn_ivtx = 0, dn_diversifier = [6], dn_cmx = replicate 32 7, dn_asset_base = [], dn_position = 0, dn_nf = [], dn_txid = []\<rparr>,
     fn_nk = [4]\<rparr>"

definition toy_placed :: FoundNote where
  "toy_placed = toy_found\<lparr>fn_db := (fn_db toy_found)\<lparr>dn_nf := [4, 1], dn_txid := [5]\<rparr>\<rparr>"

lemma toy_stages:
  "run_concat (decrypt_tx (OrchardProtocol toy_crypto) [toy_key]) [toy_located] = Ret [toy_found]"
  "res_fold (issue_step toy_crypto (OrchardProtocol toy_crypto) [toy_key]) [toy_located] ([], [toy_found]) = Inr ([], [toy_found])"
  "place_notes (OrchardProtocol toy_crypto) [] [toy_located] 0 [toy_found] = ([toy_placed], note_messages toy_located toy_placed)"
  "issue_table toy_crypto (OrchardProtocol toy_crypto) [toy_located] = []"
  by (simp_all add: run_concat_def decrypt_tx_def try_decrypt_def toy_located_def toy_block_def toy_key_def OrchardProtocol_def toy_crypto_def
      found_note_def toy_found_def issue_step_def issue_tx_def place_notes_def place_tx_def issued_def place_note_def toy_placed_def u32_add_def
      issue_table_def issue_cmxs_def note_messages_def Let_def)

lemma toy_run:
  "\<exists>s' msgs. add_blocks pair_hash_opt 3 toy_crypto (OrchardProtocol toy_crypto) [toy_block] toy_sync = Ret (Inr (s', msgs)) \<and>
    announced_notes msgs = [fn_db toy_placed]"
proof -
  let ?P = "OrchardProtocol toy_crypto" and ?C = "batch_leaves toy_crypto (OrchardProtocol toy_crypto) [toy_located]"
  have keys: "sy_keys toy_sync = [toy_key]" "sy_position toy_sync = 0" by (simp_all add: toy_sync_def)
  have ok: "\<forall>l \<in> set [toy_located]. readable toy_crypto ?P (sy_keys toy_sync) l" using toy_batch(4) by (simp add: keys)
  have at: "\<forall>g \<in> set [toy_placed]. length ([] :: Hash list) \<le> dn_position (fn_db g) \<and> dn_position (fn_db g) < length ?C \<and> dn_cmx (fn_db g) = ?C ! dn_position (fn_db g)"
    by (simp add: toy_batch(5) toy_placed_def toy_found_def)
  obtain s' R where "add_placed pair_hash_opt 3 ?P 10 [toy_located] [] [toy_placed] (note_messages toy_located toy_placed) toy_sync =
      Ret (s', note_messages toy_located toy_placed @ map (witness_message 10) (held_notes pair_hash 3 ?C toy_sync [toy_placed]) @
        spend_messages R @ [MCheckpoint (map sk_account (sy_keys toy_sync)) (sy_pool toy_sync) 10])"
    using add_placed_exact [OF pair_hash_combines _ toy_batch(3) _ ok _ _ at refl refl, of 10 "note_messages toy_located toy_placed"]
    by (auto simp: toy_stages(4) toy_batch(5))
  moreover have "announced_notes (note_messages toy_located toy_placed) = [fn_db toy_placed]" by (simp add: announced_notes_def note_messages_def)
  ultimately show ?thesis
    using toy_stages(1-3) toy_batch(1) by (simp add: add_blocks_def Let_def keys announced_notes_batch toy_block_def [THEN arg_cong [where f = cb_height]])
qed

theorem scan_batch_mirrored_witness:
  "\<exists>s' msgs db'. add_blocks pair_hash_opt 3 toy_crypto (OrchardProtocol toy_crypto) [toy_block] toy_sync = Ret (Inr (s', msgs)) \<and>
    commit_warp_messages toy_writer msgs toy_db = (Written, db') \<and> mirrored toy_writer (sy_pool s') (map sk_account (sy_keys s')) 10 (sy_utxos s') db'"
proof -
  let ?P = "OrchardProtocol toy_crypto"
  have sync: "sy_keys toy_sync = [toy_key]" "sy_pool toy_sync = 2" "sy_utxos toy_sync = []" "sk_account toy_key = 1" "cb_height toy_block = 10"
    by (simp_all add: toy_sync_def toy_key_def toy_block_def)
  have "fresh_notes 2 toy_db [fn_db toy_placed]" by (simp add: fresh_notes_def toy_db_def toy_placed_def toy_found_def)
  then have "\<forall>s' msgs. add_blocks pair_hash_opt 3 toy_crypto ?P [toy_block] toy_sync = Ret (Inr (s', msgs)) \<longrightarrow>
      fresh_notes (sy_pool toy_sync) toy_db (announced_notes msgs)"
    using toy_run by (auto simp: sync)
  from scan_batch_mirrored [OF pair_hash_combines _ protocols_uniform(2) toy_batch(3) _ toy_batch(2) _ _ _ _ _ this, of toy_writer 9]
  show ?thesis using toy_batch(4) toy_db_ok by (auto simp: sync toy_batch(1,5))
qed

definition toy_utxo :: Utxo where
  "toy_utxo = (new_utxo 2 toy_placed)\<lparr>ut_witness := witness_of pair_hash 3 [replicate 32 7] 0\<rparr>"

definition toy_after :: Db where
  "toy_after = toy_db\<lparr>note_rows := [ex_note_1\<lparr>nr_nullifier := [4, 1], nr_value := 5000, nr_position := Some 0, nr_cmx := Some (replicate 32 7)\<rparr>],
     witnesses := [\<lparr>w_account = 1, w_note = 1, w_height = 10, w_data = [9]\<rparr>]\<rparr>"

theorem Synchronizer_new_restores_witness:
  "\<exists>s'. Synchronizer_new (\<lambda>_ _ _. Ret ([3], [4])) (\<lambda>_. Some (ut_witness toy_utxo)) toy_after 2 11 [(1, False)] 1 (edge_of pair_hash 3 [replicate 32 7]) = Ret s' \<and>
    set (sy_utxos s') = {toy_utxo} \<and> in_step pair_hash 3 [replicate 32 7] s'"
proof -
  let ?s = "toy_sync\<lparr>sy_position := 1, sy_utxos := [toy_utxo], sy_edge := edge_of pair_hash 3 [replicate 32 7]\<rparr>"
  have s: "sy_keys toy_sync = [toy_key]" "sy_pool toy_sync = 2" "sk_account toy_key = 1" by (simp_all add: toy_sync_def toy_key_def)
  have u: "ut_position toy_utxo = 0" "ut_cmx toy_utxo = replicate 32 7" "ut_account toy_utxo = 1"
      "ut_witness toy_utxo = witness_of pair_hash 3 [replicate 32 7] 0"
    by (simp_all add: toy_utxo_def new_utxo_def toy_placed_def toy_found_def)
  have row: "note_of 2 toy_utxo (hd (note_rows toy_after))"
    by (simp add: note_of_def toy_utxo_def new_utxo_def toy_placed_def toy_found_def toy_after_def ex_note_1_def as_i64_exact)
  have "in_step pair_hash 3 [replicate 32 7] ?s" by (simp add: in_step_def tracks_def u)
  moreover have "scan_ok (Suc 10) toy_after"
    by (simp add: scan_ok_def toy_after_def toy_db_def ex_db_def keys_ok_def assets_ok_def cmx_unique_def)
  moreover have "mirrored toy_writer (sy_pool ?s) (map sk_account (sy_keys ?s)) 10 (sy_utxos ?s) toy_after"
    using row by (simp add: s u mirrored_def witness_row_def toy_after_def toy_db_def toy_writer_def ex_note_1_def)
  moreover have "run_concat (account_keys (\<lambda>_ _ _. Ret ([3], [4])) (sy_pool ?s) toy_after) [(1, False)] = Ret (sy_keys ?s)"
    by (simp add: s run_concat_def account_keys_def scan_key_def extract_ivk_def toy_after_def toy_db_def ex_db_def toy_key_def)
  ultimately show ?thesis
    using Synchronizer_new_restores [of pair_hash 3 "[replicate 32 7]" ?s 10 toy_after toy_writer "\<lambda>_ _ _. Ret ([3], [4])" "[(1, False)]"
        "\<lambda>_. Some (ut_witness toy_utxo)"] by (simp add: s) blast
qed

end
