(* ===== verification/ScanSession.thy ===== *)
theory ScanSession
  imports ShieldedSync
begin

text \<open>
  A scan of one pool over its lifetime, as a state machine: batches of blocks are scanned and written, and at any moment
  between two commits the process may stop, for instance after a batch that fails to be written, and a scanner is
  built anew from the database (\<open>Synchronizer::new\<close> of \<open>src/rust/rlz/src/warp/sync/shielded.rs\<close>). A state is the
  list of commitments so far, the scanner, the database and the height of the last batch.
\<close>

inductive session ::
    "(nat \<Rightarrow> Hash \<Rightarrow> Hash \<Rightarrow> Hash) \<Rightarrow> (nat \<Rightarrow> Hash option list \<Rightarrow> nat \<Rightarrow> Hash option list) \<Rightarrow> nat \<Rightarrow> Crypto \<Rightarrow> ('i, 'o) Protocol \<Rightarrow> Writer
      \<Rightarrow> (nat \<Rightarrow> nat \<Rightarrow> nat \<Rightarrow> (bytes \<times> bytes) run) \<Rightarrow> (bytes \<Rightarrow> Witness option) \<Rightarrow> Hash list \<Rightarrow> Sync \<Rightarrow> Db \<Rightarrow> nat \<Rightarrow> bool"
  for h combine_opt n cr P wr derive decode where
  start: "session h combine_opt n cr P wr derive decode L s db H"
    if "sy_pool s \<in> {1, 2, 3}" "sy_position s = length L" "sy_edge s = edge_of h n L" "sy_utxos s = []" "scan_ok (Suc H) db"
      "\<forall>m \<in> set (note_rows db). \<not> (nr_pool m = sy_pool s \<and> nr_account m \<in> sk_account ` set (sy_keys s))"
| batch: "session h combine_opt n cr P wr derive decode (L @ batch_leaves cr P (located blocks)) s' db' (cb_height (last blocks))"
    if "session h combine_opt n cr P wr derive decode L s db H" "blocks \<noteq> []" "ascending blocks" "H < cb_height (last blocks)"
      "\<forall>l \<in> set (located blocks). readable cr P (sy_keys s) l" "length (L @ batch_leaves cr P (located blocks)) < 2 ^ 32"
      "add_blocks combine_opt n cr P blocks s = Ret (Inr (s', msgs))" "fresh_notes (sy_pool s) db (announced_notes msgs)"
      "commit_warp_messages wr msgs db = (Written, db')"
| restart: "session h combine_opt n cr P wr derive decode L s' db H"
    if "session h combine_opt n cr P wr derive decode L s db H" "length L < 2 ^ 32" "Suc H < 2 ^ 32"
      "run_concat (account_keys derive (sy_pool s) db) accs = Ret (sy_keys s)"
      "\<forall>u \<in> set (sy_utxos s). decode (wr_encode wr (ut_witness u)) = Some (ut_witness u)"
      "Synchronizer_new derive decode db (sy_pool s) (Suc H) accs (length L) (edge_of h n L) = Ret s'"

definition session_ok :: "(nat \<Rightarrow> Hash \<Rightarrow> Hash \<Rightarrow> Hash) \<Rightarrow> nat \<Rightarrow> Writer \<Rightarrow> Hash list \<Rightarrow> Sync \<Rightarrow> Db \<Rightarrow> nat \<Rightarrow> bool" where
  "session_ok h n wr L s db H \<longleftrightarrow> sy_pool s \<in> {1, 2, 3} \<and> in_step h n L s \<and> scan_ok (Suc H) db \<and>
    mirrored wr (sy_pool s) (map sk_account (sy_keys s)) H (sy_utxos s) db"

lemma scan_ok_later: "scan_ok k db \<Longrightarrow> k \<le> m \<Longrightarrow> scan_ok m db"
  by (auto simp: scan_ok_def)

lemma session_ok_batch:
  assumes "combines h combine_opt" "0 < n" "issuance_uniform P" "session_ok h n wr L s db H"
    and "blocks \<noteq> []" "ascending blocks" "H < cb_height (last blocks)" "\<forall>l \<in> set (located blocks). readable cr P (sy_keys s) l"
      "length (L @ batch_leaves cr P (located blocks)) < 2 ^ 32" "add_blocks combine_opt n cr P blocks s = Ret (Inr (s', msgs))"
      "fresh_notes (sy_pool s) db (announced_notes msgs)"
  shows "\<exists>db'. commit_warp_messages wr msgs db = (Written, db') \<and>
    session_ok h n wr (L @ batch_leaves cr P (located blocks)) s' db' (cb_height (last blocks))"
proof -
  have s: "sy_pool s \<in> {1, 2, 3}" "in_step h n L s" "mirrored wr (sy_pool s) (map sk_account (sy_keys s)) H (sy_utxos s) db"
      "scan_ok (cb_height (last blocks)) db"
    using assms(4,7) by (auto simp: session_ok_def intro: scan_ok_later)
  have fresh: "\<forall>s' msgs. add_blocks combine_opt n cr P blocks s = Ret (Inr (s', msgs)) \<longrightarrow> fresh_notes (sy_pool s) db (announced_notes msgs)"
    using assms(10,11) by simp
  obtain db' where "commit_warp_messages wr msgs db = (Written, db')" "in_step h n (L @ batch_leaves cr P (located blocks)) s'"
      "mirrored wr (sy_pool s') (map sk_account (sy_keys s')) (cb_height (last blocks)) (sy_utxos s') db'" "scan_ok (Suc (cb_height (last blocks))) db'"
    using batch_written [OF assms(1-3) s(2) assms(5,6,8,9) s(1,4,3) fresh] assms(10) by auto
  moreover have "sy_pool s' = sy_pool s"
    using add_blocks_exact [OF assms(1-3) s(2) assms(5,6) refl assms(8) refl assms(9) refl refl] assms(10) by auto
  ultimately show ?thesis using s(1) by (simp add: session_ok_def)
qed

lemma session_ok_restart:
  assumes "session_ok h n wr L s db H" "length L < 2 ^ 32" "Suc H < 2 ^ 32"
    "run_concat (account_keys derive (sy_pool s) db) accs = Ret (sy_keys s)"
    "\<forall>u \<in> set (sy_utxos s). decode (wr_encode wr (ut_witness u)) = Some (ut_witness u)"
  shows "\<exists>s'. Synchronizer_new derive decode db (sy_pool s) (Suc H) accs (length L) (edge_of h n L) = Ret s' \<and> session_ok h n wr L s' db H"
proof -
  have s: "sy_pool s \<in> {1, 2, 3}" "in_step h n L s" "mirrored wr (sy_pool s) (map sk_account (sy_keys s)) H (sy_utxos s) db" "scan_ok (Suc H) db"
    using assms(1) by (simp_all add: session_ok_def)
  obtain s' where "Synchronizer_new derive decode db (sy_pool s) (Suc H) accs (length L) (edge_of h n L) = Ret s'" "sy_pool s' = sy_pool s"
      "sy_keys s' = sy_keys s" "set (sy_utxos s') = set (sy_utxos s)" "in_step h n L s'"
    using restart_loads [OF s(2) assms(2) s(4) assms(3) s(3) assms(4,5)] by blast
  then show ?thesis using s by (auto simp: session_ok_def mirrored_def)
qed

text \<open>
  C16. Whatever the order of batches and restarts, the scanner stays in step with the chain and the database stays its
  mirror: in every reachable state each note held has its commitment at its position and the witness of that leaf,
  the unspent notes of the pool and the accounts in the database are exactly the notes held, and each has its witness stored
  at the height of the last batch.
\<close>

theorem session_invariant:
  assumes "combines h combine_opt" and "0 < n" and "issuance_uniform P"
    and "session h combine_opt n cr P wr derive decode L s db H"
  shows "in_step h n L s \<and> mirrored wr (sy_pool s) (map sk_account (sy_keys s)) H (sy_utxos s) db \<and> scan_ok (Suc H) db"
proof -
  have "session_ok h n wr L s db H"
    using assms(4)
  proof (induction rule: session.induct)
    case (start s L H db)
    then show ?case by (auto simp: session_ok_def in_step_def mirrored_def)
  next
    case (batch L s db H blocks s' msgs db')
    then show ?case using session_ok_batch [OF assms(1-3) batch.IH batch.hyps(2-8)] by auto
  next
    case (restart L s db H accs s')
    then show ?case using session_ok_restart [OF restart.IH restart.hyps(2-5)] by auto
  qed
  then show ?thesis by (simp add: session_ok_def)
qed

theorem session_invariant_witness:
  "\<exists>s' db'. session pair_hash pair_hash_opt 3 toy_crypto (OrchardProtocol toy_crypto) toy_writer (\<lambda>_ _ _. Ret ([3], [4])) (\<lambda>_. None)
      [replicate 32 7] s' db' 10 \<and>
    in_step pair_hash 3 [replicate 32 7] s' \<and> mirrored toy_writer (sy_pool s') (map sk_account (sy_keys s')) 10 (sy_utxos s') db'"
proof -
  let ?P = "OrchardProtocol toy_crypto"
  let ?session = "session pair_hash pair_hash_opt 3 toy_crypto ?P toy_writer (\<lambda>_ _ _. Ret ([3], [4])) (\<lambda>_. None)"
  have sync: "sy_keys toy_sync = [toy_key]" "sy_pool toy_sync = 2" "cb_height toy_block = 10" by (simp_all add: toy_sync_def toy_block_def)
  have first: "?session [] toy_sync toy_db 9"
    using toy_db_ok(1) by (intro session.start) (simp_all add: toy_sync_def toy_db_def)
  have ok: "session_ok pair_hash 3 toy_writer [] toy_sync toy_db 9"
    using session_invariant [OF pair_hash_combines _ protocols_uniform(2) first] by (simp add: session_ok_def sync)
  obtain s' msgs where run: "add_blocks pair_hash_opt 3 toy_crypto ?P [toy_block] toy_sync = Ret (Inr (s', msgs))"
      "announced_notes msgs = [fn_db toy_placed]" using toy_run by blast
  have fresh: "fresh_notes (sy_pool toy_sync) toy_db (announced_notes msgs)"
    by (simp add: run(2) sync fresh_notes_def toy_db_def toy_placed_def toy_found_def)
  have read: "\<forall>l \<in> set (located [toy_block]). readable toy_crypto ?P (sy_keys toy_sync) l" using toy_batch(4) by (simp add: toy_batch(1) sync)
  have size: "length ([] @ batch_leaves toy_crypto ?P (located [toy_block])) < 2 ^ 32" by (simp add: toy_batch(1,5))
  have later: "9 < cb_height (last [toy_block])" by (simp add: sync)
  obtain db' where "commit_warp_messages toy_writer msgs toy_db = (Written, db')"
    using session_ok_batch [OF pair_hash_combines _ protocols_uniform(2) ok _ toy_batch(2) later read size run(1) fresh] by auto
  from session.batch [OF first _ toy_batch(2) later read size run(1) fresh this]
  have second: "?session [replicate 32 7] s' db' 10" by (simp add: toy_batch(1,5) sync)
  then show ?thesis using session_invariant [OF pair_hash_combines _ protocols_uniform(2) second] by auto
qed

end
