(* ===== verification/Discovery.thy ===== *)
theory Discovery
  imports TransparentSync
begin

text \<open>
  The discovery of transparent addresses (\<open>discover_transparent_addresses\<close> of \<open>src/rust/rlz/src/sync.rs\<close>): the indexes
  of each scope are walked in batches, the first window of every candidate of a batch is requested at once, and the
  answers are ingested in the order of the indexes. The database is read and written in critical sections under the
  lock \<open>SYNCING\<close>; between two of them a synchronization, an address request or the deletion of the account may run.

  The record \<open>World\<close> is what surrounds the walk: the server, what others do to the database before a critical section, whether
  the cancellation token is set, whether a stream stalls or is cancelled while it is drained, and the addresses the
  account's key derives. All of them may depend on the number of interactions so far, the second component of the
  state. The loop over the indexes of a scope runs as long as the server reports addresses in use, so it takes fuel and
  returns \<open>None\<close> when it runs out.
\<close>

section \<open>Definitions\<close>

datatype Drain = Drains | DrainStalls | DrainCancelled

record World =
  wd_backend :: Backend
  wd_between :: "nat \<Rightarrow> Db \<Rightarrow> Db"
  wd_cancelled :: "nat \<Rightarrow> bool"
  wd_drain :: "nat \<Rightarrow> Drain"
  wd_address :: "nat \<Rightarrow> nat \<Rightarrow> string option"

definition MAX_DISCOVERY_CONCURRENCY :: nat where "MAX_DISCOVERY_CONCURRENCY = 32"

definition enter :: "World \<Rightarrow> Db \<times> nat \<Rightarrow> Db \<times> nat" where
  "enter w = (\<lambda>(db, k). (wd_between w k db, Suc k))"

subsection \<open>One window\<close>

text \<open>An accepted answer: the seam it was requested under and the items of its stream, the first of them already read.\<close>

record Fetched =
  fe_seam :: nat
  fe_items :: "Item list"

definition fetch_window :: "Backend \<Rightarrow> string \<Rightarrow> nat \<Rightarrow> nat \<Rightarrow> nat \<Rightarrow> nat \<Rightarrow> BackfillError + Fetched" where
  "fetch_window be taddr lo hi seam k =
    (case be_txs be k taddr lo hi of
       Refused \<Rightarrow> Inl Fetch
     | Stalled \<Rightarrow> Inl (Timeout lo hi)
     | Interrupted \<Rightarrow> Inl Cancelled
     | Answer (ItemError # _) \<Rightarrow> Inl Fetch
     | Answer items \<Rightarrow> Inr \<lparr>fe_seam = seam, fe_items = items\<rparr>)"

definition ingest_backfill_window ::
    "World \<Rightarrow> nat \<Rightarrow> nat \<Rightarrow> nat \<times> string \<Rightarrow> string \<Rightarrow> nat \<Rightarrow> nat \<Rightarrow> nat \<Rightarrow> nat \<Rightarrow> nat \<Rightarrow> nat \<Rightarrow> Item list \<Rightarrow> bool
      \<Rightarrow> Db \<times> nat \<Rightarrow> (BackfillError + bool) \<times> Db \<times> nat" where
  "ingest_backfill_window w account birth address_row my_address scope dindex marker_lo lo hi seam items intact = (\<lambda>(db, k).
    case wd_drain w k of
      DrainCancelled \<Rightarrow> (Inl Cancelled, db, Suc k)
    | DrainStalls \<Rightarrow> (Inl (Timeout lo hi), db, Suc k)
    | Drains \<Rightarrow>
        (case drain_transparent_window my_address items lo hi of
           Inl e \<Rightarrow> (Inl e, db, Suc k)
         | Inr rows \<Rightarrow>
             (let used = wr_transactions rows \<noteq> [];
                  owed_through = sql_max (filter (\<lambda>h. seam < h) (map snd (wr_transactions rows)));
                  db = write_transparent_window account (fst address_row) (at_or_below seam rows) used db;
                  db = (case owed_through of None \<Rightarrow> db | Some through \<Rightarrow> raise_catch_up_debt (fst address_row) through db);
                  through = min hi seam
              in case fill_missing_block_times (wd_backend w) (lo, hi)
                     (heights_of_transactions_without_time db (Some account) lo through) (db, Suc k) of
                   (Some e, st) \<Rightarrow> (Inl e, st)
                 | (None, db, k) \<Rightarrow>
                     (Inr intact,
                      if intact \<and> marker_lo \<le> through
                      then advance_backfilled_height account birth scope dindex marker_lo through db else db, k))))"

subsection \<open>The account\<close>

record AccountIdentity =
  ai_fingerprint :: "bytes option"
  ai_aindex :: nat
  ai_birth :: nat
  ai_xvk :: "bytes option"
  ai_incarnation :: nat

definition account_identity :: "Db \<Rightarrow> nat \<Rightarrow> AccountIdentity option" where
  "account_identity db account =
    map_option (\<lambda>a. \<lparr>ai_fingerprint = ac_fingerprint a, ai_aindex = ac_aindex a, ai_birth = ac_birth a,
        ai_xvk = (case map_of (transparent_accounts db) account of None \<Rightarrow> None | Some xvk \<Rightarrow> xvk),
        ai_incarnation = transparent_incarnation db account\<rparr>)
      (find (\<lambda>a. ac_id a = account) (accounts db))"

definition ensure_same_account :: "Db \<Rightarrow> nat \<Rightarrow> AccountIdentity \<Rightarrow> DbError + unit" where
  "ensure_same_account db account identity = (if account_identity db account \<noteq> Some identity then Inl WalkRetired else Inr ())"

definition transparent_address_is_used :: "Db \<Rightarrow> nat \<Rightarrow> string \<Rightarrow> bool" where
  "transparent_address_is_used db account address =
    (let received = map (\<lambda>n. (nr_account n, nr_taddress n)) (filter (\<lambda>n. nr_pool n = 0) (note_rows db));
         spent = concat (map (\<lambda>s. map (\<lambda>n. (nr_account n, nr_taddress n))
           (filter (\<lambda>n. nr_id n = sp_note s \<and> nr_account n = sp_account s) (note_rows db))) (filter (\<lambda>s. sp_pool s = 0) (spends db)))
     in list_ex (\<lambda>a. ta_account a = account \<and> ta_address a = address
          \<and> (ta_seen_used a \<or> (ta_account a, Some (ta_id a)) \<in> set (received @ spent))) (taddrs db))"

subsection \<open>One candidate\<close>

definition candidate_start ::
    "World \<Rightarrow> nat \<Rightarrow> AccountIdentity \<Rightarrow> nat \<Rightarrow> nat \<Rightarrow> string \<Rightarrow> nat \<Rightarrow> Db \<times> nat
      \<Rightarrow> (DbError + ((nat \<times> string) option \<times> nat) option) \<times> Db \<times> nat" where
  "candidate_start w account identity scope dindex taddr birth st =
    (let (db, k) = enter w st in
     (res_bind (ensure_same_account db account identity) (\<lambda>_.
      res_bind (account_seam db account) (\<lambda>seam.
        case transparent_address_row db account scope dindex of
          None \<Rightarrow> Inr (Some (None, birth))
        | Some row \<Rightarrow>
            res_bind (transparent_backfilled_height db (fst row)) (\<lambda>backfilled.
              if (case backfilled of None \<Rightarrow> False | Some h \<Rightarrow> seam \<le> h) \<and> transparent_address_is_used db account taddr
              then Inr None
              else Inr (Some (Some row, max (case backfilled of None \<Rightarrow> 0 | Some h \<Rightarrow> u32_add h 1) birth))))), db, k))"

text \<open>The state of the walk of one candidate; \<open>wk_first\<close> is the answer that was requested ahead.\<close>

record Walk =
  wk_row :: "(nat \<times> string) option"
  wk_used :: bool
  wk_trim :: "int option"
  wk_first :: "Fetched option"

record Target =
  tg_account :: nat
  tg_identity :: AccountIdentity
  tg_birth :: nat
  tg_scope :: nat
  tg_dindex :: nat
  tg_taddr :: string

definition open_answer :: "World \<Rightarrow> Target \<Rightarrow> nat \<Rightarrow> nat \<Rightarrow> nat \<Rightarrow> Fetched option \<Rightarrow> nat \<Rightarrow> (BackfillError + Fetched) \<times> nat" where
  "open_answer w t lo hi seam first k =
    (case first of
       Some fetched \<Rightarrow> (if fe_seam fetched = seam then (Inr fetched, k) else (fetch_window (wd_backend w) (tg_taddr t) lo hi seam k, Suc k))
     | None \<Rightarrow> (fetch_window (wd_backend w) (tg_taddr t) lo hi seam k, Suc k))"

definition stored_row :: "Target \<Rightarrow> Db \<Rightarrow> (nat \<times> string) option \<times> Db" where
  "stored_row t db =
    (case transparent_address_row db (tg_account t) (tg_scope t) (tg_dindex t) of
       Some row \<Rightarrow> (Some row, db)
     | None \<Rightarrow>
         (let db = snd (store_account_transparent_addr (tg_account t) (tg_scope t) (tg_dindex t) (tg_taddr t) db)
          in (transparent_address_row db (tg_account t) (tg_scope t) (tg_dindex t), db)))"

definition window_section ::
    "World \<Rightarrow> Target \<Rightarrow> nat \<Rightarrow> nat \<Rightarrow> nat \<Rightarrow> Walk \<Rightarrow> Db \<times> nat \<Rightarrow> (BackfillError + bool option) \<times> Walk \<times> Db \<times> nat" where
  "window_section w t marker_lo lo hi wk st =
    (let (db, k) = enter w st in
     case res_bind (ensure_same_account db (tg_account t) (tg_identity t)) (\<lambda>_. account_seam db (tg_account t)) of
       Inl e \<Rightarrow> (Inl (DbFailure e), wk, db, k)
     | Inr seam \<Rightarrow>
         (let seen = transparent_trim_counter db (tg_account t);
              trim = (case wk_trim wk of None \<Rightarrow> seen | Some trim \<Rightarrow> trim);
              row = transparent_address_row db (tg_account t) (tg_scope t) (tg_dindex t);
              wk1 = wk\<lparr>wk_trim := Some trim, wk_row := row, wk_first := None\<rparr>
          in case open_answer w t lo hi seam (wk_first wk) k of
               (Inl e, k) \<Rightarrow> (Inl e, wk1, db, k)
             | (Inr fetched, k) \<Rightarrow>
                 (let found = fe_items fetched \<noteq> [];
                      wk2 = wk1\<lparr>wk_used := (wk_used wk \<or> found)\<rparr>
                  in if row = None \<and> \<not> found then (Inr None, wk2, db, k)
                     else
                       (case stored_row t db of
                          (None, db) \<Rightarrow> (Inl (DbFailure RowNotFound), wk2, db, k)
                        | (Some row, db) \<Rightarrow>
                            (case ingest_backfill_window w (tg_account t) (tg_birth t) row (tg_taddr t) (tg_scope t) (tg_dindex t)
                                marker_lo lo hi seam (fe_items fetched) (trim = seen) (db, k) of
                               (Inl e, st) \<Rightarrow> (Inl e, wk2\<lparr>wk_row := Some row\<rparr>, st)
                             | (Inr cert, st) \<Rightarrow> (Inr (Some cert), wk2\<lparr>wk_row := Some row\<rparr>, st))))))"

function walk_candidate_loop ::
    "World \<Rightarrow> Target \<Rightarrow> nat \<Rightarrow> nat \<Rightarrow> nat \<Rightarrow> nat \<Rightarrow> Walk \<Rightarrow> Db \<times> nat
      \<Rightarrow> (BackfillError + (nat \<times> string) option \<times> bool) \<times> Db \<times> nat" where
  "walk_candidate_loop w t backfill_end window marker_lo lo wk st =
    (if backfill_end < lo then (Inr (wk_row wk, wk_used wk), st)
     else
       (let hi = min (lo + (window - 1)) backfill_end
        in case window_section w t marker_lo lo hi wk st of
             (Inr None, wk, st) \<Rightarrow> walk_candidate_loop w t backfill_end window marker_lo (hi + 1) wk st
           | (Inr (Some cert), wk, st) \<Rightarrow>
               walk_candidate_loop w t backfill_end window (if cert then hi + 1 else marker_lo) (hi + 1) wk st
           | (Inl e, wk, st) \<Rightarrow>
               (if narrows e \<and> MIN_BACKFILL_WINDOW < window
                then walk_candidate_loop w t backfill_end (max (window div 2) MIN_BACKFILL_WINDOW) marker_lo lo wk st
                else (Inl e, st))))"
  by pat_completeness auto
termination
  by (relation "measures [\<lambda>(_, _, e, _, _, lo, _, _). Suc e - lo, \<lambda>(_, _, _, w, _, _, _, _). w]")
    (auto simp: MIN_BACKFILL_WINDOW_def)

declare walk_candidate_loop.simps [simp del]

definition walk_candidate ::
    "World \<Rightarrow> Target \<Rightarrow> (nat \<times> string) option \<Rightarrow> nat \<Rightarrow> nat \<Rightarrow> Fetched option \<Rightarrow> Db \<times> nat
      \<Rightarrow> (BackfillError + (nat \<times> string) option \<times> bool) \<times> Db \<times> nat" where
  "walk_candidate w t row lo backfill_end first st =
    walk_candidate_loop w t backfill_end (backfill_end - lo + 1) lo lo
      \<lparr>wk_row = row, wk_used = False, wk_trim = None, wk_first = first\<rparr> st"

subsection \<open>A batch of indexes\<close>

record Candidate =
  ca_existing :: "(nat \<times> string) option"
  ca_lo :: nat
  ca_taddr :: string

datatype DiscoveryError =
    NoAddress
  | DiscoveryCancelled
  | DiscoveryDb DbError
  | DiscoveryWalk BackfillError
  | CoverageIncomplete nat nat
  | CoverageTrimmed

text \<open>What stays the same over a discovery: the account, what was read of it at the start, and the bounds.\<close>

record Discovery =
  di_account :: nat
  di_identity :: AccountIdentity
  di_birth :: nat
  di_stored_through :: "nat \<Rightarrow> nat option"
  di_end :: nat
  di_gap_limit :: nat

definition target :: "Discovery \<Rightarrow> nat \<Rightarrow> nat \<Rightarrow> string \<Rightarrow> Target" where
  "target d scope dindex taddr =
    \<lparr>tg_account = di_account d, tg_identity = di_identity d, tg_birth = di_birth d, tg_scope = scope, tg_dindex = dindex, tg_taddr = taddr\<rparr>"

text \<open>Up to \<open>n\<close> indexes from \<open>dindex\<close>, fewer once \<open>width\<close> of them need a request.\<close>

fun plan_batch ::
    "World \<Rightarrow> Discovery \<Rightarrow> nat \<Rightarrow> nat \<Rightarrow> nat \<Rightarrow> nat \<Rightarrow> Db \<times> nat
      \<Rightarrow> (DiscoveryError + (nat \<times> Candidate option) list) \<times> Db \<times> nat" where
  "plan_batch w d scope 0 width dindex st = (Inr [], st)"
| "plan_batch w d scope (Suc n) width dindex st =
    (if width = 0 then (Inr [], st)
     else
       (case wd_address w scope dindex of
          None \<Rightarrow> (Inl NoAddress, st)
        | Some taddr \<Rightarrow>
            (case candidate_start w (di_account d) (di_identity d) scope dindex taddr (di_birth d) st of
               (Inl e, st) \<Rightarrow> (Inl (DiscoveryDb e), st)
             | (Inr start, st) \<Rightarrow>
                 (let width' = (case start of None \<Rightarrow> width | Some (_, lo) \<Rightarrow> if lo \<le> di_end d then width - 1 else width);
                      entry = (dindex, map_option (\<lambda>(existing, lo). \<lparr>ca_existing = existing, ca_lo = lo, ca_taddr = taddr\<rparr>) start)
                  in case plan_batch w d scope n width' (dindex + 1) st of
                       (Inl e, st) \<Rightarrow> (Inl e, st)
                     | (Inr batch, st) \<Rightarrow> (Inr (entry # batch), st)))))"

definition needs_request :: "Discovery \<Rightarrow> nat \<times> Candidate option \<Rightarrow> bool" where
  "needs_request d entry \<longleftrightarrow> (case snd entry of None \<Rightarrow> False | Some c \<Rightarrow> ca_lo c \<le> di_end d)"

fun prefetch_all ::
    "World \<Rightarrow> Discovery \<Rightarrow> nat \<Rightarrow> (nat \<times> Candidate option) list \<Rightarrow> nat \<Rightarrow> (BackfillError + Fetched) option list \<times> nat" where
  "prefetch_all w d seam [] k = ([], k)"
| "prefetch_all w d seam ((i, c) # batch) k =
    (if needs_request d (i, c)
     then (let (rest, k') = prefetch_all w d seam batch (Suc k)
           in (Some (fetch_window (wd_backend w) (ca_taddr (the c)) (ca_lo (the c)) (di_end d) seam k) # rest, k'))
     else (let (rest, k') = prefetch_all w d seam batch k in (None # rest, k')))"

definition prefetch ::
    "World \<Rightarrow> Discovery \<Rightarrow> (nat \<times> Candidate option) list \<Rightarrow> Db \<times> nat
      \<Rightarrow> (DiscoveryError + (BackfillError + Fetched) option list) \<times> Db \<times> nat" where
  "prefetch w d batch st =
    (if length (filter (needs_request d) batch) < 2 then (Inr (map (\<lambda>_. None) batch), st)
     else
       (let (db, k) = enter w st in
        case account_seam db (di_account d) of
          Inl e \<Rightarrow> (Inl (DiscoveryDb e), db, k)
        | Inr seam \<Rightarrow>
            (let (prefetched, k) = prefetch_all w d seam batch k
             in if list_ex (\<lambda>r. r = Some (Inl Cancelled)) prefetched then (Inl DiscoveryCancelled, db, k)
                else (Inr prefetched, db, k))))"

definition ready :: "(BackfillError + Fetched) option \<Rightarrow> Fetched option" where
  "ready r = (case r of Some (Inr fetched) \<Rightarrow> Some fetched | _ \<Rightarrow> None)"

text \<open>The progress of a discovery: addresses added, indexes covered, width of the batches, and the gap of the scope.\<close>

record Progress =
  pr_added :: nat
  pr_covered :: "(nat \<times> nat) list"
  pr_width :: nat
  pr_gap :: nat

fun ingest_batch ::
    "World \<Rightarrow> Discovery \<Rightarrow> nat \<Rightarrow> (nat \<times> Candidate option) list \<Rightarrow> (BackfillError + Fetched) option list \<Rightarrow> Progress
      \<Rightarrow> Db \<times> nat \<Rightarrow> (DiscoveryError + Progress) \<times> Db \<times> nat" where
  "ingest_batch w d scope [] prefetched p st = (Inr p, st)"
| "ingest_batch w d scope ((dindex, cand) # batch) prefetched p (db, k) =
    (if wd_cancelled w k then (Inl DiscoveryCancelled, db, Suc k)
     else
       (case cand of
          None \<Rightarrow>
            ingest_batch w d scope batch (tl prefetched) (p\<lparr>pr_gap := 0, pr_covered := pr_covered p @ [(scope, dindex)]\<rparr>) (db, Suc k)
        | Some c \<Rightarrow>
            (let failed = (case hd prefetched of Some (Inl _) \<Rightarrow> True | _ \<Rightarrow> False);
                 first = ready (hd prefetched);
                 p1 = (if failed then p\<lparr>pr_width := max (pr_width p div 2) 1\<rparr> else p);
                 rest = (if failed then map (\<lambda>_. None) (tl prefetched) else tl prefetched)
             in case walk_candidate w (target d scope dindex (ca_taddr c)) (ca_existing c) (ca_lo c) (di_end d) first (db, Suc k) of
                  (Inl e, st) \<Rightarrow> (Inl (DiscoveryWalk e), st)
                | (Inr (row, used), st) \<Rightarrow>
                    ingest_batch w d scope batch rest
                      (p1\<lparr>pr_added := pr_added p1 + (if row \<noteq> None \<and> ca_existing c = None then 1 else 0),
                          pr_covered := pr_covered p1 @ (if row \<noteq> None then [(scope, dindex)] else []),
                          pr_gap := (if row \<noteq> None \<or> used then 0 else pr_gap p1 + 1)\<rparr>) st)))"

subsection \<open>The discovery\<close>

definition reaches :: "Discovery \<Rightarrow> nat \<Rightarrow> nat \<Rightarrow> nat \<Rightarrow> bool" where
  "reaches d scope gap dindex \<longleftrightarrow> gap \<le> di_gap_limit d \<or> (case di_stored_through d scope of None \<Rightarrow> False | Some l \<Rightarrow> dindex \<le> l)"

text \<open>How many indexes from here the sequential walk is certain to reach.\<close>

definition certain :: "Discovery \<Rightarrow> nat \<Rightarrow> nat \<Rightarrow> nat \<Rightarrow> nat" where
  "certain d scope gap dindex =
    max (u32_sat_add (di_gap_limit d) 1 - gap) (case di_stored_through d scope of None \<Rightarrow> 0 | Some l \<Rightarrow> u32_sat_add l 1 - dindex)"

fun discover_scope ::
    "nat \<Rightarrow> World \<Rightarrow> Discovery \<Rightarrow> nat \<Rightarrow> nat \<Rightarrow> Progress \<Rightarrow> Db \<times> nat \<Rightarrow> ((DiscoveryError + Progress) \<times> Db \<times> nat) option" where
  "discover_scope 0 w d scope dindex p st = None"
| "discover_scope (Suc fuel) w d scope dindex p (db, k) =
    (if \<not> reaches d scope (pr_gap p) dindex then Some (Inr p, db, k)
     else if wd_cancelled w k then Some (Inl DiscoveryCancelled, db, Suc k)
     else
       (case plan_batch w d scope (certain d scope (pr_gap p) dindex) (pr_width p) dindex (db, Suc k) of
          (Inl e, st) \<Rightarrow> Some (Inl e, st)
        | (Inr batch, st) \<Rightarrow>
            (case prefetch w d batch st of
               (Inl e, st) \<Rightarrow> Some (Inl e, st)
             | (Inr prefetched, st) \<Rightarrow>
                 (case ingest_batch w d scope batch prefetched p st of
                    (Inl e, st) \<Rightarrow> Some (Inl e, st)
                  | (Inr p, st) \<Rightarrow> discover_scope fuel w d scope (dindex + length batch) p st))))"

definition address_complete :: "Db \<Rightarrow> nat \<Rightarrow> nat \<Rightarrow> nat \<times> nat \<Rightarrow> DbError + bool" where
  "address_complete db account seam = (\<lambda>(scope, dindex).
    case transparent_address_row db account scope dindex of
      None \<Rightarrow> Inl RowNotFound
    | Some row \<Rightarrow> res_bind (transparent_backfilled_height db (fst row)) (\<lambda>backfilled.
        Inr (case backfilled of None \<Rightarrow> False | Some h \<Rightarrow> seam \<le> h)))"

definition count_incomplete :: "Db \<Rightarrow> nat \<Rightarrow> nat \<Rightarrow> (nat \<times> nat) list \<Rightarrow> DbError + nat" where
  "count_incomplete db account seam covered =
    res_fold (\<lambda>x n. res_bind (address_complete db account seam x) (\<lambda>ok. Inr (if ok then n else n + 1))) covered 0"

definition certify :: "World \<Rightarrow> Discovery \<Rightarrow> int \<Rightarrow> Progress \<Rightarrow> Db \<times> nat \<Rightarrow> (DiscoveryError + nat) \<times> Db \<times> nat" where
  "certify w d trim_at_start p st =
    (let (db, k) = enter w st in
     case res_bind (ensure_same_account db (di_account d) (di_identity d)) (\<lambda>_.
         res_bind (account_seam db (di_account d)) (\<lambda>seam. count_incomplete db (di_account d) seam (pr_covered p))) of
       Inl e \<Rightarrow> (Inl (DiscoveryDb e), db, k)
     | Inr incomplete \<Rightarrow>
         (if 0 < incomplete then (Inl (CoverageIncomplete incomplete (length (pr_covered p))), db, k)
          else if transparent_trim_counter db (di_account d) \<noteq> trim_at_start then (Inl CoverageTrimmed, db, k)
          else (Inr (pr_added p), write_transparent_coverage (di_account d) (di_gap_limit d) db, k)))"

definition discover_transparent_addresses ::
    "nat \<Rightarrow> World \<Rightarrow> nat \<Rightarrow> nat \<Rightarrow> nat \<Rightarrow> nat \<Rightarrow> Db \<times> nat \<Rightarrow> ((DiscoveryError + nat) \<times> Db \<times> nat) option" where
  "discover_transparent_addresses fuel w account end_height gap_limit concurrency st =
    (let (db, k) = enter w st in
     case account_identity db account of
       None \<Rightarrow> Some (Inl (DiscoveryDb RowNotFound), db, k)
     | Some identity \<Rightarrow>
         (let d = \<lparr>di_account = account, di_identity = identity, di_birth = ai_birth identity,
                di_stored_through = highest_stored_dindex db account, di_end = end_height, di_gap_limit = gap_limit\<rparr>;
              p = \<lparr>pr_added = 0, pr_covered = [], pr_width = min (max concurrency 1) MAX_DISCOVERY_CONCURRENCY, pr_gap = 0\<rparr>
          in case discover_scope fuel w d 0 0 p (db, k) of
               None \<Rightarrow> None
             | Some (Inl e, st) \<Rightarrow> Some (Inl e, st)
             | Some (Inr p, st) \<Rightarrow>
                 (case discover_scope fuel w d 1 0 (p\<lparr>pr_gap := 0\<rparr>) st of
                    None \<Rightarrow> None
                  | Some (Inl e, st) \<Rightarrow> Some (Inl e, st)
                  | Some (Inr p, st) \<Rightarrow> Some (certify w d (transparent_trim_counter db account) p st))))"

section \<open>Address rows are never lost\<close>

definition taddr_keys :: "Db \<Rightarrow> (nat \<times> nat \<times> nat) set" where
  "taddr_keys db = set (map (\<lambda>a. (ta_account a, ta_scope a, ta_dindex a)) (taddrs db))"

lemma row_iff: "transparent_address_row db a s i \<noteq> None \<longleftrightarrow> (a, s, i) \<in> taddr_keys db"
  by (force simp: transparent_address_row_def taddr_keys_def find_None_iff)

text \<open>The contract of everything that writes to the database while an account lives: the address rows stay.\<close>

locale keeps_addresses =
  fixes op :: "Db \<Rightarrow> Db"
  assumes keeps: "taddr_keys db \<subseteq> taddr_keys (op db)"
begin

lemma row_kept: "transparent_address_row db a s i \<noteq> None \<Longrightarrow> transparent_address_row (op db) a s i \<noteq> None"
  unfolding row_iff using keeps by (rule subsetD)

lemma through_kept: "highest_stored_dindex db a s = Some i \<Longrightarrow> (a, s, i) \<in> taddr_keys (op db)"
  using keeps [of db] sql_max_in [of "map ta_dindex (filter (\<lambda>r. ta_account r = a \<and> ta_scope r = s) (taddrs db))" i]
  by (force simp: highest_stored_dindex_def taddr_keys_def)

end

lemma fold_taddrs: "(\<And>x d. taddrs (f x d) = taddrs d) \<Longrightarrow> taddrs (fold f xs db) = taddrs db"
  by (induction xs arbitrary: db) auto

lemma taddr_keys_write [simp]: "taddr_keys (write_transparent_window a i rows u db) = taddr_keys db"
proof -
  have "taddrs (insert_tspend a x d) = taddrs d" "taddrs (insert_tnote a i y d) = taddrs d" "taddrs (insert_tx a z d) = taddrs d" for x y z d
    by (auto simp: insert_tspend_def insert_tnote_def insert_tx_def split: prod.split option.split)
  then have "taddrs (write_transparent_window a i rows u db) = taddrs (mark_used i u db)"
    unfolding write_transparent_window_def by (simp add: fold_taddrs)
  then show ?thesis by (simp add: taddr_keys_def mark_used_def map_update_where del: set_map)
qed

lemma taddr_keys_fill: "taddr_keys (fst (snd (fill_missing_block_times be win hs st))) = taddr_keys (fst st)"
  by (induction be win hs st rule: fill_missing_block_times.induct)
    (auto simp: taddr_keys_def fill_block_time_def store_block_header_def split: BlockReply.split)

lemma taddr_keys_store: "taddr_keys (snd (store_account_transparent_addr a s i addr db)) = insert (a, s, i) (taddr_keys db)"
  by (auto simp: store_account_transparent_addr_def taddr_keys_def list_ex_iff image_iff)

interpretation window_write: keeps_addresses "write_transparent_window account id_taddress rows used" for account id_taddress rows used
  by unfold_locales simp

interpretation debt: keeps_addresses "raise_catch_up_debt id_taddress through" for id_taddress through
  by unfold_locales (simp add: raise_catch_up_debt_def taddr_keys_def map_update_where del: set_map)

interpretation marker: keeps_addresses "advance_backfilled_height account birth scope dindex lo through" for account birth scope dindex lo through
  by unfold_locales (simp add: advance_backfilled_height_def taddr_keys_def map_update_where del: set_map)

interpretation new_address: keeps_addresses "\<lambda>db. snd (store_account_transparent_addr account scope dindex addr db)" for account scope dindex addr
  by unfold_locales (auto simp: taddr_keys_store)

interpretation trim: keeps_addresses "trim_sync_data account height" for account height
  by unfold_locales (simp add: taddr_keys_def trim_taddr_keys(2) del: set_map)

lemma taddr_keys_same: "map ta_key (taddrs db') = map ta_key (taddrs db) \<Longrightarrow> taddr_keys db' = taddr_keys db"
proof -
  have keys: "map (\<lambda>a. (ta_account a, ta_scope a, ta_dindex a)) t = map (\<lambda>(_, a, s, i, _, _). (a, s, i)) (map ta_key t)" for t
    by (simp add: ta_key_def comp_def)
  show "map ta_key (taddrs db') = map ta_key (taddrs db) \<Longrightarrow> taddr_keys db' = taddr_keys db" unfolding taddr_keys_def keys by simp
qed

lemma taddr_keys_settle: "taddr_keys (fold (settle_account e) accs db) = taddr_keys db"
proof (induction accs arbitrary: db)
  case (Cons a accs)
  have "taddr_keys (settle_account e a db) = taddr_keys db"
    by (simp add: settle_account_def taddr_keys_def map_update_where del: set_map)
  then show ?case using Cons by simp
qed simp

lemma taddr_keys_walk: "walk_windows be a b row lo e (db, k) = (r, db', k') \<Longrightarrow> taddr_keys db' = taddr_keys db"
  using walk_windows_frame [of a lo e "(db, k)" be b row] by (intro taddr_keys_same) (simp add: window_frame_def)

lemma taddr_keys_range: "sync_address_range be a row marker start e anchor (db, k) = (r, db', k') \<Longrightarrow> taddr_keys db' = taddr_keys db"
  by (erule sync_address_range_cases) (auto dest: taddr_keys_walk)

lemma taddr_keys_addresses:
  assumes "sync_addresses be start e anchor rows (db, k) = (r, db', k')"
  shows "taddr_keys db' = taddr_keys db"
  by (rule sync_addresses_invariant [OF assms, where I = "\<lambda>d. taddr_keys d = taddr_keys db"]) (auto dest: taddr_keys_range)

lemma taddr_keys_pass: "taddr_keys (fst (snd (transparent_sync be accs start_height end_height limit (db, k)))) = taddr_keys db"
proof -
  obtain r db' k' where run: "transparent_sync be accs start_height end_height limit (db, k) = (r, db', k')" by (metis prod_cases3)
  then show ?thesis
  proof (cases rule: transparent_sync_cases)
    case (walked anchor q d1 k1)
    show ?thesis using taddr_keys_addresses [OF walked(1)] run walked(2) by (simp add: taddr_keys_settle)
  qed (use run in simp)
qed

interpretation pass: keeps_addresses "\<lambda>db. fst (snd (transparent_sync be accs start_height end_height limit (db, k)))" for be accs start_height end_height limit k
  by unfold_locales (simp add: taddr_keys_pass)

section \<open>The walk of a candidate\<close>

lemma taddr_keys_ingest:
  "taddr_keys (fst (snd (ingest_backfill_window w a b row addr s i m lo hi seam items intact st))) = taddr_keys (fst st)"
proof -
  obtain db k where st: "st = (db, k)" by (cases st)
  have debt: "taddr_keys (case owed of None \<Rightarrow> d | Some t \<Rightarrow> raise_catch_up_debt j t d) = taddr_keys d" for owed d j
    by (simp add: raise_catch_up_debt_def taddr_keys_def map_update_where del: set_map split: option.split)
  have mark: "taddr_keys (advance_backfilled_height a b s i m t d) = taddr_keys d" for t d
    by (simp add: advance_backfilled_height_def taddr_keys_def map_update_where del: set_map)
  have tail: "taddr_keys (fst (snd (case fill_missing_block_times (wd_backend w) (lo, hi) hs (d, n) of
      (Some e, st) \<Rightarrow> (Inl e, st)
    | (None, db, k) \<Rightarrow> (Inr intact, if intact \<and> m \<le> t then advance_backfilled_height a b s i m t db else db, k)))) = taddr_keys d" for hs d n t
  proof -
    obtain x d' n' where f: "fill_missing_block_times (wd_backend w) (lo, hi) hs (d, n) = (x, d', n')" by (metis prod_cases3)
    then have "taddr_keys d' = taddr_keys d" using taddr_keys_fill [of "wd_backend w" "(lo, hi)" hs "(d, n)"] by simp
    then show ?thesis by (simp add: f mark split: option.split)
  qed
  show ?thesis
    by (simp add: st ingest_backfill_window_def Let_def tail debt split: Drain.split sum.split)
qed

definition tg_key :: "Target \<Rightarrow> nat \<times> nat \<times> nat" where
  "tg_key t = (tg_account t, tg_scope t, tg_dindex t)"

lemma stored_row_facts:
  assumes "stored_row t db = (r, db')"
  shows "r \<noteq> None \<and> taddr_keys db' = insert (tg_key t) (taddr_keys db)"
proof (cases "transparent_address_row db (tg_account t) (tg_scope t) (tg_dindex t)")
  case None
  let ?d = "snd (store_account_transparent_addr (tg_account t) (tg_scope t) (tg_dindex t) (tg_taddr t) db)"
  have "(tg_account t, tg_scope t, tg_dindex t) \<in> taddr_keys ?d" by (simp add: taddr_keys_store)
  then have "transparent_address_row ?d (tg_account t) (tg_scope t) (tg_dindex t) \<noteq> None" by (simp only: row_iff)
  then show ?thesis using assms None by (auto simp: stored_row_def Let_def tg_key_def taddr_keys_store)
next
  case (Some row)
  then have "(tg_account t, tg_scope t, tg_dindex t) \<in> taddr_keys db" using row_iff by (metis option.distinct(1))
  moreover have "stored_row t db = (Some row, db)" by (simp add: stored_row_def Some)
  then have "r = Some row" "db' = db" using assms by simp_all
  ultimately show ?thesis by (auto simp: tg_key_def)
qed

text \<open>Others keep the rows of the account while the walk is between two critical sections.\<close>

definition others_keep :: "World \<Rightarrow> bool" where
  "others_keep w \<longleftrightarrow> (\<forall>k. keeps_addresses (wd_between w k))"

lemma enter_keeps: "others_keep w \<Longrightarrow> enter w (db, k) = (db', k') \<Longrightarrow> taddr_keys db \<subseteq> taddr_keys db'"
  using keeps_addresses.keeps by (auto simp: others_keep_def enter_def)

lemma window_section_facts:
  assumes "others_keep w" "window_section w t m lo hi wk (db, k) = (r, wk', db', k')"
  shows "taddr_keys db \<subseteq> taddr_keys db'"
    and "wk_used wk' \<longrightarrow> wk_used wk \<or> tg_key t \<in> taddr_keys db'"
    and "(\<exists>e. r = Inl (DbFailure e)) \<or> (wk_row wk' \<noteq> None \<longleftrightarrow> tg_key t \<in> taddr_keys db')"
proof -
  obtain d n where e: "enter w (db, k) = (d, n)" by (cases "enter w (db, k)")
  note keep = enter_keeps [OF assms(1) e]
  have "taddr_keys db \<subseteq> taddr_keys db' \<and> (wk_used wk' \<longrightarrow> wk_used wk \<or> tg_key t \<in> taddr_keys db') \<and>
    ((\<exists>e. r = Inl (DbFailure e)) \<or> (wk_row wk' \<noteq> None \<longleftrightarrow> tg_key t \<in> taddr_keys db'))"
  proof (cases "res_bind (ensure_same_account d (tg_account t) (tg_identity t)) (\<lambda>_. account_seam d (tg_account t))")
    case (Inl x)
    then show ?thesis using assms(2) keep by (auto simp: window_section_def e)
  next
    case (Inr seam)
    obtain a n1 where ans: "open_answer w t lo hi seam (wk_first wk) n = (a, n1)" by (cases "open_answer w t lo hi seam (wk_first wk) n")
    note run = assms(2) [unfolded window_section_def e Let_def prod.case Inr sum.case ans]
    note row = row_iff [of d "tg_account t" "tg_scope t" "tg_dindex t", folded tg_key_def]
    show ?thesis
    proof (cases a)
      case (Inl x)
      then show ?thesis using run keep row by auto
    next
      case (Inr fetched)
      obtain q d1 where st: "stored_row t d = (q, d1)" by (cases "stored_row t d")
      note str = stored_row_facts [OF st]
      show ?thesis
      proof (cases "transparent_address_row d (tg_account t) (tg_scope t) (tg_dindex t) = None \<and> fe_items fetched = []")
        case True
        then show ?thesis using run keep row Inr by auto
      next
        case False
        then obtain x where x: "q = Some x" using str by auto
        obtain y d2 n2 where ing: "ingest_backfill_window w (tg_account t) (tg_birth t) x (tg_taddr t) (tg_scope t) (tg_dindex t) m lo hi seam (fe_items fetched)
            ((case wk_trim wk of None \<Rightarrow> transparent_trim_counter d (tg_account t) | Some trim \<Rightarrow> trim) = transparent_trim_counter d (tg_account t)) (d1, n1) = (y, d2, n2)"
          by (metis prod_cases3)
        then have "taddr_keys d2 = insert (tg_key t) (taddr_keys d)" using taddr_keys_ingest str by (metis fst_conv snd_conv)
        then show ?thesis using run keep Inr False st x ing by (cases y) auto
      qed
    qed
  qed
  then show "taddr_keys db \<subseteq> taddr_keys db'" "wk_used wk' \<longrightarrow> wk_used wk \<or> tg_key t \<in> taddr_keys db'"
    "(\<exists>e. r = Inl (DbFailure e)) \<or> (wk_row wk' \<noteq> None \<longleftrightarrow> tg_key t \<in> taddr_keys db')" by blast+
qed

lemma window_section_stored:
  assumes "others_keep w" "window_section w t m lo hi wk (db, k) = (Inr (Some cert), wk', db', k')"
  shows "tg_key t \<in> taddr_keys db'"
  using assms window_section_facts [OF assms] by (auto simp: window_section_def Let_def split: prod.splits sum.splits if_splits option.splits)

lemma walk_candidate_step:
  assumes "\<not> e < lo" "hi = min (lo + (window - 1)) e" "window_section w t m lo hi wk st = (r, wk1, st1)"
  shows "walk_candidate_loop w t e window m lo wk st =
    (case r of
       Inr None \<Rightarrow> walk_candidate_loop w t e window m (hi + 1) wk1 st1
     | Inr (Some cert) \<Rightarrow> walk_candidate_loop w t e window (if cert then hi + 1 else m) (hi + 1) wk1 st1
     | Inl x \<Rightarrow> (if narrows x \<and> MIN_BACKFILL_WINDOW < window
         then walk_candidate_loop w t e (max (window div 2) MIN_BACKFILL_WINDOW) m lo wk1 st1 else (Inl x, st1)))"
  unfolding walk_candidate_loop.simps [of w t e window m lo wk st] Let_def assms(2) [symmetric] assms(3)
  using assms(1) by (simp split: sum.split option.split)

lemma walk_loop_facts:
  assumes "walk_candidate_loop w t e window m lo wk (db, k) = (Inr (row, used), db', k')" "others_keep w"
    and "wk_used wk \<Longrightarrow> wk_row wk \<noteq> None" "wk_row wk \<noteq> None \<Longrightarrow> tg_key t \<in> taddr_keys db"
  shows "taddr_keys db \<subseteq> taddr_keys db' \<and> (used \<longrightarrow> row \<noteq> None) \<and> (row \<noteq> None \<longrightarrow> tg_key t \<in> taddr_keys db') \<and>
    (wk_row wk \<noteq> None \<longrightarrow> row \<noteq> None)"
  using assms
proof (induction w t e window m lo wk "(db, k)" arbitrary: db k rule: walk_candidate_loop.induct)
  case (1 w t e window m lo wk db k)
  show ?case
  proof (cases "e < lo")
    case True
    then show ?thesis using "1.prems" by (simp add: walk_candidate_loop.simps)
  next
    case False
    define hi where "hi = min (lo + (window - 1)) e"
    obtain r wk1 d1 k1 where sec: "window_section w t m lo hi wk (db, k) = (r, wk1, d1, k1)" by (metis prod_cases4)
    note fs = window_section_facts [OF "1.prems"(2) sec]
    note run = "1.prems"(1) [unfolded walk_candidate_step [OF False hi_def sec]]
    have no_db: "\<not> (\<exists>x. r = Inl (DbFailure x))" using run by (auto split: if_splits)
    then have row: "wk_row wk1 \<noteq> None \<longleftrightarrow> tg_key t \<in> taddr_keys d1" using fs(3) by blast
    have used: "wk_used wk1 \<Longrightarrow> wk_row wk1 \<noteq> None" using fs(1,2) row "1.prems"(3,4) by blast
    have "taddr_keys d1 \<subseteq> taddr_keys db' \<and> (used \<longrightarrow> row \<noteq> None) \<and> (row \<noteq> None \<longrightarrow> tg_key t \<in> taddr_keys db') \<and>
        (wk_row wk1 \<noteq> None \<longrightarrow> row \<noteq> None)"
    proof (cases r)
      case (Inl x)
      then have x: "narrows x" "MIN_BACKFILL_WINDOW < window"
        "walk_candidate_loop w t e (max (window div 2) MIN_BACKFILL_WINDOW) m lo wk1 (d1, k1) = (Inr (row, used), db', k')"
        using run by (auto split: if_splits)
      show ?thesis using "1.hyps"(1) [OF False hi_def sec [symmetric] Inl refl _ x(3) "1.prems"(2)] x(1,2) row used by blast
    next
      case (Inr c)
      show ?thesis
      proof (cases c)
        case None
        then show ?thesis using "1.hyps"(2) [OF False hi_def sec [symmetric] Inr None refl _ "1.prems"(2)] run Inr row used by simp
      next
        case (Some cert)
        then show ?thesis using "1.hyps"(3) [OF False hi_def sec [symmetric] Inr Some refl _ "1.prems"(2)] run Inr row used by simp
      qed
    qed
    then show ?thesis using fs(1) row "1.prems"(3,4) by blast
  qed
qed

lemma walk_candidate_facts:
  assumes "walk_candidate w t existing lo e first (db, k) = (Inr (row, used), db', k')" "others_keep w"
    and "existing \<noteq> None \<Longrightarrow> tg_key t \<in> taddr_keys db"
  shows "taddr_keys db \<subseteq> taddr_keys db'" "used \<Longrightarrow> row \<noteq> None" "row \<noteq> None \<Longrightarrow> tg_key t \<in> taddr_keys db'" "existing \<noteq> None \<Longrightarrow> row \<noteq> None"
  using walk_loop_facts [OF assms(1) [unfolded walk_candidate_def] assms(2)] assms(3) by auto

section \<open>What an unused address was asked for\<close>

text \<open>
  An address is clear over a range when, on every chain the server answers honestly for, no transaction of the range
  pays it or spends from it.
\<close>

definition clear_range :: "World \<Rightarrow> string \<Rightarrow> nat \<Rightarrow> nat \<Rightarrow> bool" where
  "clear_range w addr lo hi \<longleftrightarrow>
    (\<forall>chain h t. honest (wd_backend w) chain \<longrightarrow> (h, t) \<in> set chain \<longrightarrow> lo \<le> h \<longrightarrow> h \<le> hi \<longrightarrow> \<not> touches chain addr t)"

definition truthful :: "World \<Rightarrow> string \<Rightarrow> nat \<Rightarrow> nat \<Rightarrow> Fetched \<Rightarrow> bool" where
  "truthful w addr lo hi f \<longleftrightarrow>
    (\<forall>chain h t. honest (wd_backend w) chain \<longrightarrow> (h, t) \<in> set chain \<longrightarrow> lo \<le> h \<longrightarrow> h \<le> hi \<longrightarrow> touches chain addr t \<longrightarrow> Item h t \<in> set (fe_items f))"

lemma clear_range_join: "clear_range w addr lo m \<Longrightarrow> clear_range w addr (m + 1) hi \<Longrightarrow> clear_range w addr lo hi"
  unfolding clear_range_def by (metis Suc_eq_plus1 not_less_eq_eq)

lemma clear_range_empty: "hi < lo \<Longrightarrow> clear_range w addr lo hi"
  by (simp add: clear_range_def)

lemma truthful_narrow: "truthful w addr lo hi f \<Longrightarrow> hi' \<le> hi \<Longrightarrow> truthful w addr lo hi' f"
  unfolding truthful_def by (meson order.trans)

lemma truthful_silent: "truthful w addr lo hi f \<Longrightarrow> fe_items f = [] \<Longrightarrow> clear_range w addr lo hi"
  unfolding truthful_def clear_range_def by fastforce

lemma fetch_window_truthful: "fetch_window (wd_backend w) addr lo hi seam k = Inr f \<Longrightarrow> truthful w addr lo hi f"
proof -
  assume "fetch_window (wd_backend w) addr lo hi seam k = Inr f"
  then have "be_txs (wd_backend w) k addr lo hi = Answer (fe_items f)"
    by (auto simp: fetch_window_def split: Reply.splits list.splits Item.splits)
  then show ?thesis unfolding truthful_def honest_def by blast
qed

lemma window_section_clear:
  assumes "window_section w t m lo hi wk (db, k) = (r, wk', db', k')" "\<And>f. wk_first wk = Some f \<Longrightarrow> truthful w (tg_taddr t) lo hi f"
  shows "r = Inr None \<Longrightarrow> clear_range w (tg_taddr t) lo hi" "(\<exists>e. r = Inl (DbFailure e)) \<or> wk_first wk' = None"
proof -
  obtain d n where e: "enter w (db, k) = (d, n)" by (cases "enter w (db, k)")
  have "(r = Inr None \<longrightarrow> clear_range w (tg_taddr t) lo hi) \<and> ((\<exists>e. r = Inl (DbFailure e)) \<or> wk_first wk' = None)"
  proof (cases "res_bind (ensure_same_account d (tg_account t) (tg_identity t)) (\<lambda>_. account_seam d (tg_account t))")
    case (Inl x)
    then show ?thesis using assms(1) by (auto simp: window_section_def e)
  next
    case (Inr seam)
    obtain a n1 where ans: "open_answer w t lo hi seam (wk_first wk) n = (a, n1)" by (cases "open_answer w t lo hi seam (wk_first wk) n")
    note run = assms(1) [unfolded window_section_def e Let_def prod.case Inr sum.case ans]
    show ?thesis
    proof (cases a)
      case (Inl x)
      then show ?thesis using run by auto
    next
      case (Inr fetched)
      have "truthful w (tg_taddr t) lo hi fetched"
        using ans Inr assms(2) fetch_window_truthful by (auto simp: open_answer_def split: option.splits if_splits)
      then show ?thesis using run Inr truthful_silent by (auto split: if_splits prod.splits option.splits sum.splits)
    qed
  qed
  then show "r = Inr None \<Longrightarrow> clear_range w (tg_taddr t) lo hi" "(\<exists>e. r = Inl (DbFailure e)) \<or> wk_first wk' = None" by simp_all
qed

lemma walk_loop_clear:
  assumes "walk_candidate_loop w t e window m lo wk (db, k) = (Inr (None, used), db', k')" "others_keep w"
    and "wk_used wk \<Longrightarrow> wk_row wk \<noteq> None" "wk_row wk \<noteq> None \<Longrightarrow> tg_key t \<in> taddr_keys db"
    and "\<And>f. wk_first wk = Some f \<Longrightarrow> truthful w (tg_taddr t) lo e f"
  shows "clear_range w (tg_taddr t) lo e"
  using assms
proof (induction w t e window m lo wk "(db, k)" arbitrary: db k rule: walk_candidate_loop.induct)
  case (1 w t e window m lo wk db k)
  show ?case
  proof (cases "e < lo")
    case False
    define hi where "hi = min (lo + (window - 1)) e"
    obtain r wk1 d1 k1 where sec: "window_section w t m lo hi wk (db, k) = (r, wk1, d1, k1)" by (metis prod_cases4)
    note fs = window_section_facts [OF "1.prems"(2) sec]
    have le: "hi \<le> e" by (simp add: hi_def)
    note cl = window_section_clear [OF sec truthful_narrow [OF "1.prems"(5) le]]
    note run = "1.prems"(1) [unfolded walk_candidate_step [OF False hi_def sec]]
    have no_db: "\<not> (\<exists>x. r = Inl (DbFailure x))" using run by (auto split: if_splits)
    then have row: "wk_row wk1 \<noteq> None \<longleftrightarrow> tg_key t \<in> taddr_keys d1" and first: "wk_first wk1 = None" using fs(3) cl(2) by blast+
    have used: "wk_used wk1 \<Longrightarrow> wk_row wk1 \<noteq> None" using fs(1,2) row "1.prems"(3,4) by blast
    show ?thesis
    proof (cases r)
      case (Inl x)
      then have x: "narrows x" "MIN_BACKFILL_WINDOW < window"
        "walk_candidate_loop w t e (max (window div 2) MIN_BACKFILL_WINDOW) m lo wk1 (d1, k1) = (Inr (None, used), db', k')"
        using run by (auto split: if_splits)
      show ?thesis using "1.hyps"(1) [OF False hi_def sec [symmetric] Inl refl _ x(3) "1.prems"(2) used] x(1,2) row first by simp
    next
      case (Inr c)
      show ?thesis
      proof (cases c)
        case None
        then have "clear_range w (tg_taddr t) (hi + 1) e"
          using "1.hyps"(2) [OF False hi_def sec [symmetric] Inr None refl _ "1.prems"(2) used] run Inr row first by simp
        then show ?thesis using clear_range_join cl(1) None Inr by blast
      next
        case (Some cert)
        then have "walk_candidate_loop w t e window (if cert then hi + 1 else m) (hi + 1) wk1 (d1, k1) = (Inr (None, used), db', k')"
          using run Inr by simp
        from walk_loop_facts [OF this "1.prems"(2) used] row have "\<not> wk_row wk1 \<noteq> None" by blast
        moreover have "tg_key t \<in> taddr_keys d1" using window_section_stored sec Inr Some "1.prems"(2) by blast
        ultimately show ?thesis using row by blast
      qed
    qed
  qed (simp add: clear_range_empty)
qed

lemma walk_candidate_clear:
  assumes "walk_candidate w t None lo e first st = (Inr (None, used), st')" "others_keep w" "\<And>f. first = Some f \<Longrightarrow> truthful w (tg_taddr t) lo e f"
  shows "clear_range w (tg_taddr t) lo e"
proof -
  obtain db k db' k' where st: "st = (db, k)" "st' = (db', k')" by (cases st; cases st')
  show ?thesis
    by (rule walk_loop_clear [OF assms(1) [unfolded walk_candidate_def st] assms(2)]) (use assms(3) in auto)
qed

section \<open>A batch and a scope\<close>

definition gap_after :: "nat \<Rightarrow> bool list \<Rightarrow> nat" where
  "gap_after g seen = fold (\<lambda>b g. if b then 0 else g + 1) seen g"

fun marks :: "nat \<Rightarrow> nat \<Rightarrow> bool list \<Rightarrow> (nat \<times> nat) list" where
  "marks s i [] = []"
| "marks s i (b # bs) = (if b then [(s, i)] else []) @ marks s (Suc i) bs"

lemma gap_after_append [simp]: "gap_after g (xs @ ys) = gap_after (gap_after g xs) ys"
  by (simp add: gap_after_def)

lemma gap_after_simps [simp]: "gap_after g [] = g" "gap_after g (b # bs) = gap_after (if b then 0 else g + 1) bs"
  by (simp_all add: gap_after_def)

lemma gap_after_le: "gap_after g xs \<le> g + length xs"
proof (induction xs arbitrary: g)
  case (Cons b xs)
  have "gap_after (if b then 0 else g + 1) xs \<le> (if b then 0 else g + 1) + length xs" by (rule Cons)
  then show ?case by (simp split: if_splits)
qed simp

lemma marks_append: "marks s i (xs @ ys) = marks s i xs @ marks s (i + length xs) ys"
  by (induction xs arbitrary: i) simp_all

lemma set_marks: "set (marks s i seen) = {(s, i + j) | j. j < length seen \<and> seen ! j}"
proof (induction seen arbitrary: i)
  case (Cons b bs)
  have "{(s, i + j) | j. j < length (b # bs) \<and> (b # bs) ! j} = (if b then {(s, i)} else {}) \<union> {(s, Suc i + j) | j. j < length bs \<and> bs ! j}"
    by (auto simp: less_Suc_eq_0_disj)
  then show ?case using Cons by simp
qed simp

lemma certain_reaches: "j < certain d s g i \<Longrightarrow> length xs = j \<Longrightarrow> reaches d s (gap_after g xs) (i + j)"
  using gap_after_le [of g xs] by (auto simp: certain_def reaches_def u32_sat_add_def less_max_iff_disj split: option.splits)

text \<open>What a planned entry knows of the rows: a skipped index has one, and an index that had one is not taken for new.\<close>

definition planned :: "Discovery \<Rightarrow> nat \<Rightarrow> Db \<Rightarrow> Db \<Rightarrow> nat \<times> Candidate option \<Rightarrow> bool" where
  "planned d s db db' x \<longleftrightarrow>
    ((case snd x of None \<Rightarrow> True | Some c \<Rightarrow> ca_existing c \<noteq> None) \<longrightarrow> (di_account d, s, fst x) \<in> taddr_keys db') \<and>
    ((di_account d, s, fst x) \<in> taddr_keys db \<longrightarrow> (case snd x of None \<Rightarrow> True | Some c \<Rightarrow> ca_existing c \<noteq> None))"

lemma planned_mono: "planned d s db1 db2 x \<Longrightarrow> taddr_keys db \<subseteq> taddr_keys db1 \<Longrightarrow> taddr_keys db2 \<subseteq> taddr_keys db3 \<Longrightarrow> planned d s db db3 x"
  by (auto simp: planned_def)

lemma candidate_start_facts:
  assumes "candidate_start w a who s i addr b (db, k) = (Inr r, db', k')" "others_keep w"
  shows "taddr_keys db \<subseteq> taddr_keys db'" "(case r of None \<Rightarrow> True | Some (existing, _) \<Rightarrow> existing \<noteq> None) \<longleftrightarrow> (a, s, i) \<in> taddr_keys db'"
proof -
  obtain d n where e: "enter w (db, k) = (d, n)" by (cases "enter w (db, k)")
  have d: "db' = d" using assms(1) by (simp add: candidate_start_def e)
  show "taddr_keys db \<subseteq> taddr_keys db'" using enter_keeps [OF assms(2) e] d by simp
  obtain seam where run: "ensure_same_account d a who = Inr ()" "account_seam d a = Inr seam"
    using assms(1) by (auto simp: candidate_start_def e)
  show "(case r of None \<Rightarrow> True | Some (existing, _) \<Rightarrow> existing \<noteq> None) \<longleftrightarrow> (a, s, i) \<in> taddr_keys db'"
  proof (cases "transparent_address_row d a s i")
    case None
    then show ?thesis using assms(1) d row_iff [of d a s i] by (auto simp: candidate_start_def e run)
  next
    case (Some row)
    obtain m where m: "transparent_backfilled_height d (fst row) = Inr m" using assms(1) by (auto simp: candidate_start_def e run Some)
    have "case r of None \<Rightarrow> True | Some (existing, _) \<Rightarrow> existing \<noteq> None"
      using assms(1) by (auto simp: candidate_start_def e run Some m split: if_splits)
    then show ?thesis using d Some row_iff [of d a s i] by simp
  qed
qed

lemma plan_batch_facts:
  assumes "plan_batch w d s n width i (db, k) = (Inr batch, db', k')" "others_keep w"
  shows "taddr_keys db \<subseteq> taddr_keys db' \<and> map fst batch = [i..<i + length batch] \<and> length batch \<le> n \<and>
    (0 < n \<and> 0 < width \<longrightarrow> batch \<noteq> []) \<and> (\<forall>x \<in> set batch. planned d s db db' x)"
  using assms(1)
proof (induction n arbitrary: width i db k batch)
  case (Suc n)
  show ?case
  proof (cases "width = 0")
    case False
    then obtain addr where addr: "wd_address w s i = Some addr" using Suc.prems by (auto split: option.splits)
    obtain r d1 k1 where st: "candidate_start w (di_account d) (di_identity d) s i addr (di_birth d) (db, k) = (Inr r, d1, k1)"
      using Suc.prems False addr by (auto split: prod.splits sum.splits)
    note cs = candidate_start_facts [OF st assms(2)]
    define width' where "width' = (case r of None \<Rightarrow> width | Some (_, lo) \<Rightarrow> if lo \<le> di_end d then width - 1 else width)"
    define x where "x = (i, map_option (\<lambda>(existing, lo). \<lparr>ca_existing = existing, ca_lo = lo, ca_taddr = addr\<rparr>) r)"
    obtain rest where rest: "plan_batch w d s n width' (i + 1) (d1, k1) = (Inr rest, db', k')" "batch = x # rest"
      using Suc.prems False addr st by (auto simp: Let_def width'_def x_def split: prod.splits sum.splits)
    note IH = Suc.IH [OF rest(1)]
    have "(case snd x of None \<Rightarrow> True | Some c \<Rightarrow> ca_existing c \<noteq> None) \<longleftrightarrow> (di_account d, s, i) \<in> taddr_keys d1"
      using cs(2) by (auto simp: x_def split: option.splits)
    then have "planned d s db db' x" using cs(1) IH by (auto simp: planned_def x_def)
    moreover have "\<forall>y \<in> set rest. planned d s db db' y" using IH planned_mono [OF _ cs(1) subset_refl] by blast
    moreover have "map fst batch = [i..<i + length batch]" using IH rest(2) by (simp add: x_def upt_conv_Cons del: upt_Suc)
    ultimately show ?thesis using IH cs(1) rest(2) by auto
  qed (use Suc.prems in simp)
qed simp

text \<open>A candidate carries the address of its index, and starts at the birth of the account when it has no row.\<close>

definition addressed :: "World \<Rightarrow> Discovery \<Rightarrow> nat \<Rightarrow> nat \<times> Candidate option \<Rightarrow> bool" where
  "addressed w d s x \<longleftrightarrow> (case snd x of None \<Rightarrow> True
    | Some c \<Rightarrow> wd_address w s (fst x) = Some (ca_taddr c) \<and> (ca_existing c = None \<longrightarrow> ca_lo c = di_birth d))"

lemma candidate_start_new:
  assumes "candidate_start w a who s i addr b st = (Inr (Some (None, lo)), st')"
  shows "lo = b"
proof -
  obtain d n where e: "enter w st = (d, n)" by (cases "enter w st")
  obtain seam where run: "ensure_same_account d a who = Inr ()" "account_seam d a = Inr seam"
    using assms by (auto simp: candidate_start_def e)
  show ?thesis
  proof (cases "transparent_address_row d a s i")
    case None
    then show ?thesis using assms by (simp add: candidate_start_def e run)
  next
    case (Some row)
    obtain m where m: "transparent_backfilled_height d (fst row) = Inr m" using assms by (auto simp: candidate_start_def e run Some)
    then show ?thesis using assms by (auto simp: candidate_start_def e run Some split: if_splits)
  qed
qed

lemma plan_batch_addressed: "plan_batch w d s n width i st = (Inr batch, st') \<Longrightarrow> \<forall>x \<in> set batch. addressed w d s x"
proof (induction n arbitrary: width i st batch)
  case (Suc n)
  show ?case
  proof (cases "width = 0")
    case False
    then obtain addr where addr: "wd_address w s i = Some addr" using Suc.prems by (auto split: option.splits)
    obtain r st1 where st: "candidate_start w (di_account d) (di_identity d) s i addr (di_birth d) st = (Inr r, st1)"
      using Suc.prems False addr by (auto split: prod.splits sum.splits)
    define width' where "width' = (case r of None \<Rightarrow> width | Some (_, lo) \<Rightarrow> if lo \<le> di_end d then width - 1 else width)"
    define x where "x = (i, map_option (\<lambda>(existing, lo). \<lparr>ca_existing = existing, ca_lo = lo, ca_taddr = addr\<rparr>) r)"
    obtain rest where rest: "plan_batch w d s n width' (i + 1) st1 = (Inr rest, st')" "batch = x # rest"
      using Suc.prems False addr st by (auto simp: Let_def width'_def x_def split: prod.splits sum.splits)
    have "r = Some (None, lo) \<Longrightarrow> lo = di_birth d" for lo
      using st candidate_start_new by blast
    then have "addressed w d s x" using addr by (auto simp: addressed_def x_def split: option.splits)
    then show ?thesis using Suc.IH [OF rest(1)] rest(2) by simp
  qed (use Suc.prems in simp)
qed simp

definition sound_first :: "World \<Rightarrow> Discovery \<Rightarrow> nat \<times> Candidate option \<Rightarrow> Fetched option \<Rightarrow> bool" where
  "sound_first w d x first \<longleftrightarrow> (\<forall>c f. snd x = Some c \<longrightarrow> first = Some f \<longrightarrow> truthful w (ca_taddr c) (ca_lo c) (di_end d) f)"

lemma prefetch_all_sound: "prefetch_all w d seam batch k = (pf, k') \<Longrightarrow> list_all2 (\<lambda>x r. sound_first w d x (ready r)) batch pf"
proof (induction w d seam batch k arbitrary: pf k' rule: prefetch_all.induct)
  case (2 w d seam i c batch k)
  have "sound_first w d (i, c) (ready (Some (fetch_window (wd_backend w) (ca_taddr (the c)) (ca_lo (the c)) (di_end d) seam k)))"
    by (auto simp: sound_first_def ready_def intro: fetch_window_truthful split: sum.splits)
  then show ?case using 2 by (auto simp: Let_def sound_first_def ready_def split: if_splits prod.splits)
qed simp

lemma prefetch_sound: "prefetch w d batch st = (Inr pf, st') \<Longrightarrow> list_all2 (\<lambda>x r. sound_first w d x (ready r)) batch pf"
  by (auto simp: prefetch_def Let_def list_all2_conv_all_nth sound_first_def ready_def split: if_splits prod.splits sum.splits
      dest: prefetch_all_sound)

lemma prefetch_facts:
  assumes "prefetch w d batch (db, k) = (Inr pf, db', k')" "others_keep w"
  shows "taddr_keys db \<subseteq> taddr_keys db'"
proof -
  obtain e n where e: "enter w (db, k) = (e, n)" by (cases "enter w (db, k)")
  have "db' = db \<or> db' = e" using assms(1) by (auto simp: prefetch_def e Let_def split: if_splits sum.splits prod.splits)
  then show ?thesis using enter_keeps [OF assms(2) e] by blast
qed

lemma ingest_batch_facts:
  assumes "ingest_batch w d s batch pf p (db, k) = (Inr p', db', k')" "others_keep w" "0 < pr_width p"
    and "map fst batch = [i..<i + length batch]" "\<forall>x \<in> set batch. planned d s db0 db x"
    and "list_all2 (\<lambda>x r. good_first x (ready r)) batch pf" "\<And>x. x \<in> set batch \<Longrightarrow> good_first x None"
    and clear: "\<And>x c first st used st'. x \<in> set batch \<Longrightarrow> snd x = Some c \<Longrightarrow> good_first x first \<Longrightarrow> (ca_existing c \<noteq> None \<longrightarrow> (di_account d, s, fst x) \<in> taddr_keys (fst st)) \<Longrightarrow>
      walk_candidate w (target d s (fst x) (ca_taddr c)) (ca_existing c) (ca_lo c) (di_end d) first st = (Inr (None, used), st') \<Longrightarrow> unused (fst x)"
  shows "\<exists>seen. length seen = length batch \<and> pr_gap p' = gap_after (pr_gap p) seen \<and> pr_covered p' = pr_covered p @ marks s i seen \<and>
    0 < pr_width p' \<and> taddr_keys db \<subseteq> taddr_keys db' \<and>
    (\<forall>j < length batch. ((di_account d, s, i + j) \<in> taddr_keys db0 \<longrightarrow> seen ! j) \<and> (seen ! j \<or> unused (i + j)))"
  using assms(1,3-8)
proof (induction batch arbitrary: i pf p db k)
  case Nil
  then show ?case by (intro exI [of _ "[]"]) simp
next
  case (Cons x batch)
  obtain c where x: "x = (i, c)" using Cons.prems(3) by (cases x) (simp add: upt_conv_Cons del: upt_Suc)
  have fsts: "map fst batch = [Suc i..<Suc i + length batch]" using Cons.prems(3) by (simp add: x upt_conv_Cons del: upt_Suc)
  have pl: "planned d s db0 db (i, c)" using Cons.prems(4) by (simp add: x)
  have pf: "good_first x (ready (hd pf))" "list_all2 (\<lambda>x r. good_first x (ready r)) batch (tl pf)"
    using Cons.prems(5) by (cases pf; simp)+
  obtain b p1 pf1 d1 k1 where one: "ingest_batch w d s batch pf1 p1 (d1, k1) = (Inr p', db', k')" "0 < pr_width p1" "taddr_keys db \<subseteq> taddr_keys d1"
      "pr_gap p1 = (if b then 0 else pr_gap p + 1)" "pr_covered p1 = pr_covered p @ (if b then [(s, i)] else [])"
      "(di_account d, s, i) \<in> taddr_keys db0 \<longrightarrow> b" "b \<or> unused i" "list_all2 (\<lambda>x r. good_first x (ready r)) batch pf1"
  proof (cases c)
    case None
    then show thesis using Cons.prems(1,2) pf that [of "tl pf" "p\<lparr>pr_gap := 0, pr_covered := pr_covered p @ [(s, i)]\<rparr>" db "Suc k" True]
      by (auto simp: x split: if_splits)
  next
    case (Some ca)
    let ?failed = "case hd pf of Some (Inl _) \<Rightarrow> True | _ \<Rightarrow> False" and ?first = "ready (hd pf)"
    let ?t = "target d s i (ca_taddr ca)"
    obtain q d1 k1 where walk: "walk_candidate w ?t (ca_existing ca) (ca_lo ca) (di_end d) ?first (db, Suc k) = (q, d1, k1)" by (metis prod_cases3)
    have nc: "\<not> wd_cancelled w k" using Cons.prems(1) by (auto simp: x split: if_splits)
    have "\<exists>row used. q = Inr (row, used)"
      using Cons.prems(1) walk by (cases q) (auto simp: x Some Let_def split: if_splits)
    then obtain row used where q: "q = Inr (row, used)" by blast
    have key: "tg_key ?t = (di_account d, s, i)" by (simp add: tg_key_def target_def)
    have ex: "ca_existing ca \<noteq> None \<Longrightarrow> tg_key ?t \<in> taddr_keys db" using pl by (simp add: planned_def Some key)
    note fs = walk_candidate_facts [OF walk [unfolded q] assms(2) ex]
    let ?p = "if ?failed then p\<lparr>pr_width := max (pr_width p div 2) 1\<rparr> else p"
    let ?p1 = "?p\<lparr>pr_added := pr_added ?p + (if row \<noteq> None \<and> ca_existing ca = None then 1 else 0),
        pr_covered := pr_covered ?p @ (if row \<noteq> None then [(s, i)] else []), pr_gap := (if row \<noteq> None \<or> used then 0 else pr_gap ?p + 1)\<rparr>"
    have cl: "row \<noteq> None \<or> unused i"
      using Cons.prems(7) [of x ca "ready (hd pf)" "(db, Suc k)" used "(d1, k1)"] pf(1) walk q ex key by (cases row) (auto simp: x Some)
    have none: "list_all2 (\<lambda>x r. good_first x (ready r)) batch (map (\<lambda>_. None) (tl pf))"
      using Cons.prems(6) list_all2_lengthD [OF pf(2)] by (auto simp: list_all2_conv_all_nth ready_def)
    show thesis
    proof (rule that [of "if ?failed then map (\<lambda>_. None) (tl pf) else tl pf" ?p1 d1 k1 "row \<noteq> None"])
      show "ingest_batch w d s batch (if ?failed then map (\<lambda>_. None) (tl pf) else tl pf) ?p1 (d1, k1) = (Inr p', db', k')"
        using Cons.prems(1) unfolding x Some ingest_batch.simps option.case Let_def if_not_P [OF nc] walk q prod.case sum.case .
      show "row \<noteq> None \<or> unused i" by (rule cl)
      show "list_all2 (\<lambda>x r. good_first x (ready r)) batch (if ?failed then map (\<lambda>_. None) (tl pf) else tl pf)" using none pf(2) by simp
      show "0 < pr_width ?p1" using Cons.prems(2) by (simp add: less_max_iff_disj)
      show "taddr_keys db \<subseteq> taddr_keys d1" by (rule fs(1))
      show "pr_gap ?p1 = (if row \<noteq> None then 0 else pr_gap p + 1)" using fs(2) by auto
      show "pr_covered ?p1 = pr_covered p @ (if row \<noteq> None then [(s, i)] else [])" by simp
      show "(di_account d, s, i) \<in> taddr_keys db0 \<longrightarrow> row \<noteq> None" using fs(4) pl by (simp add: planned_def Some)
    qed
  qed
  have "\<forall>y \<in> set batch. planned d s db0 d1 y" using Cons.prems(4) planned_mono [OF _ subset_refl one(3)] by simp
  from Cons.IH [OF one(1,2) fsts this one(8)] Cons.prems(6,7) obtain seen where seen: "length seen = length batch" "pr_gap p' = gap_after (pr_gap p1) seen"
      "pr_covered p' = pr_covered p1 @ marks s (Suc i) seen" "0 < pr_width p'" "taddr_keys d1 \<subseteq> taddr_keys db'"
      "\<forall>j < length batch. ((di_account d, s, Suc i + j) \<in> taddr_keys db0 \<longrightarrow> seen ! j) \<and> (seen ! j \<or> unused (Suc i + j))" by auto
  have "\<forall>j < length (x # batch). ((di_account d, s, i + j) \<in> taddr_keys db0 \<longrightarrow> (b # seen) ! j) \<and> ((b # seen) ! j \<or> unused (i + j))"
    using seen(6) one(6,7) by (auto simp: less_Suc_eq_0_disj)
  then show ?case using seen one(3-5) by (intro exI [of _ "b # seen"]) auto
qed

definition silent :: "World \<Rightarrow> Discovery \<Rightarrow> nat \<Rightarrow> nat \<Rightarrow> bool" where
  "silent w d s i \<longleftrightarrow> (\<exists>addr. wd_address w s i = Some addr \<and> clear_range w addr (di_birth d) (di_end d))"

lemma unseen_silent:
  assumes "addressed w d s x" "snd x = Some c" "sound_first w d x first" "others_keep w" "ca_existing c = None"
    and "walk_candidate w (target d s (fst x) (ca_taddr c)) (ca_existing c) (ca_lo c) (di_end d) first st = (Inr (None, used), st')"
  shows "silent w d s (fst x)"
proof -
  have "clear_range w (tg_taddr (target d s (fst x) (ca_taddr c))) (ca_lo c) (di_end d)"
    by (rule walk_candidate_clear [OF assms(6) [unfolded assms(5)] assms(4)]) (use assms(2,3) in \<open>simp add: sound_first_def target_def\<close>)
  then show ?thesis using assms(1,2,5) by (auto simp: silent_def addressed_def target_def)
qed

lemma discover_scope_facts:
  assumes "discover_scope fuel w d s i p (db, k) = Some (Inr p', db', k')" "others_keep w" "0 < pr_width p"
  shows "\<exists>seen. (\<forall>j < length seen. reaches d s (gap_after (pr_gap p) (take j seen)) (i + j)) \<and>
    \<not> reaches d s (gap_after (pr_gap p) seen) (i + length seen) \<and> pr_covered p' = pr_covered p @ marks s i seen \<and>
    0 < pr_width p' \<and> taddr_keys db \<subseteq> taddr_keys db' \<and> (\<forall>j < length seen. ((di_account d, s, i + j) \<in> taddr_keys db \<longrightarrow> seen ! j) \<and> (seen ! j \<or> silent w d s (i + j)))"
  using assms
proof (induction fuel arbitrary: i p db k)
  case (Suc fuel)
  show ?case
  proof (cases "reaches d s (pr_gap p) i")
    case False
    then show ?thesis using Suc.prems by (intro exI [of _ "[]"]) simp
  next
    case True
    let ?n = "certain d s (pr_gap p) i"
    obtain batch d1 k1 where plan: "plan_batch w d s ?n (pr_width p) i (db, Suc k) = (Inr batch, d1, k1)"
      using Suc.prems(1) True by (auto split: if_splits prod.splits sum.splits)
    obtain pf d2 k2 where pre: "prefetch w d batch (d1, k1) = (Inr pf, d2, k2)"
      using Suc.prems(1) True plan by (auto split: if_splits prod.splits sum.splits)
    obtain p1 d3 k3 where ing: "ingest_batch w d s batch pf p (d2, k2) = (Inr p1, d3, k3)"
      using Suc.prems(1) True plan pre by (auto split: if_splits prod.splits sum.splits)
    have rec: "discover_scope fuel w d s (i + length batch) p1 (d3, k3) = Some (Inr p', db', k')"
      using Suc.prems(1) True plan pre ing by (auto split: if_splits)
    note pf = plan_batch_facts [OF plan Suc.prems(2)]
    note keep = prefetch_facts [OF pre Suc.prems(2)]
    have pl: "\<forall>x \<in> set batch. planned d s db d2 x" using pf planned_mono [OF _ subset_refl keep] by blast
    have fsts: "map fst batch = [i..<i + length batch]" using pf by blast
    obtain seen1 where s1: "length seen1 = length batch" "pr_gap p1 = gap_after (pr_gap p) seen1" "pr_covered p1 = pr_covered p @ marks s i seen1"
        "0 < pr_width p1" "taddr_keys d2 \<subseteq> taddr_keys d3"
        "\<forall>j < length batch. ((di_account d, s, i + j) \<in> taddr_keys db \<longrightarrow> seen1 ! j) \<and> (seen1 ! j \<or> silent w d s (i + j))"
    proof -
      have walks: "silent w d s (fst x)" if "x \<in> set batch" "snd x = Some c" "sound_first w d x first"
          "ca_existing c \<noteq> None \<longrightarrow> (di_account d, s, fst x) \<in> taddr_keys (fst st)"
          "walk_candidate w (target d s (fst x) (ca_taddr c)) (ca_existing c) (ca_lo c) (di_end d) first st = (Inr (None, used), st')" for x c first st used st'
      proof -
        obtain da ka db' kb where st: "st = (da, ka)" "st' = (db', kb)" by (cases st; cases st')
        have "tg_key (target d s (fst x) (ca_taddr c)) = (di_account d, s, fst x)" by (simp add: tg_key_def target_def)
        then have "\<not> ca_existing c \<noteq> None" using walk_candidate_facts(4) [OF that(5) [unfolded st] Suc.prems(2)] that(4) unfolding st fst_conv by metis
        then show ?thesis using unseen_silent that plan_batch_addressed [OF plan] Suc.prems(2) by blast
      qed
      have none: "sound_first w d x None" for x by (simp add: sound_first_def)
      show thesis
        using ingest_batch_facts [OF ing Suc.prems(2,3) fsts pl prefetch_sound [OF pre] none, where unused = "silent w d s"] walks that by blast
    qed
    have kept: "taddr_keys db \<subseteq> taddr_keys d3" using pf keep s1(5) by blast
    from Suc.IH [OF rec Suc.prems(2) s1(4)] obtain seen2 where s2: "\<forall>j < length seen2. reaches d s (gap_after (pr_gap p1) (take j seen2)) (i + length batch + j)"
        "\<not> reaches d s (gap_after (pr_gap p1) seen2) (i + length batch + length seen2)" "pr_covered p' = pr_covered p1 @ marks s (i + length batch) seen2"
        "0 < pr_width p'" "taddr_keys d3 \<subseteq> taddr_keys db'" 
        "\<forall>j < length seen2. ((di_account d, s, i + length batch + j) \<in> taddr_keys d3 \<longrightarrow> seen2 ! j) \<and> (seen2 ! j \<or> silent w d s (i + length batch + j))" by blast
    have r1: "reaches d s (gap_after (pr_gap p) (take j (seen1 @ seen2))) (i + j)" if j: "j < length (seen1 @ seen2)" for j
    proof (cases "j < length seen1")
      case True
      then have "j < ?n" using pf s1(1) by linarith
      then show ?thesis using certain_reaches [of j d s "pr_gap p" i "take j seen1"] True by simp
    next
      case False
      then have "j - length seen1 < length seen2" using j by simp
      then show ?thesis using s2(1) [rule_format, of "j - length seen1"] False s1(1,2) by simp
    qed
    have r2: "((di_account d, s, i + j) \<in> taddr_keys db \<longrightarrow> (seen1 @ seen2) ! j) \<and> ((seen1 @ seen2) ! j \<or> silent w d s (i + j))"
      if j: "j < length (seen1 @ seen2)" for j
    proof (cases "j < length seen1")
      case True
      then show ?thesis using s1(1,6) by (simp add: nth_append)
    next
      case False
      then have "j - length seen1 < length seen2" "i + length batch + (j - length seen1) = i + j" using j s1(1) by auto
      then show ?thesis using s2(6) [rule_format, of "j - length seen1"] False kept by (auto simp: nth_append)
    qed
    show ?thesis using r1 r2 s1 s2(2-5) kept by (intro exI [of _ "seen1 @ seen2"]) (auto simp: marks_append add.assoc)
  qed
qed simp

section \<open>The certificate\<close>

lemma count_incomplete_zero:
  assumes "count_incomplete db a seam covered = Inr 0" "x \<in> set covered"
  shows "address_complete db a seam x = Inr True"
proof -
  let ?f = "\<lambda>x n. res_bind (address_complete db a seam x) (\<lambda>ok. Inr (if ok then n else n + 1))"
  have "n \<le> m \<and> (m = n \<longrightarrow> (\<forall>x \<in> set xs. address_complete db a seam x = Inr True))" if "res_fold ?f xs n = Inr m" for xs and n m :: nat
    using that
  proof (induction xs arbitrary: n)
    case (Cons y ys)
    then obtain ok where ok: "address_complete db a seam y = Inr ok" "res_fold ?f ys (if ok then n else n + 1) = Inr m" by auto
    then show ?case using Cons.IH [OF ok(2)] by (cases ok) auto
  qed simp
  then show ?thesis using assms unfolding count_incomplete_def by blast
qed

lemma certify_facts:
  assumes "certify w d t p st = (Inr n, db', k')" "di_gap_limit d \<le> u32_max"
  shows "\<exists>seam. account_seam db' (di_account d) = Inr seam \<and> (\<forall>x \<in> set (pr_covered p). address_complete db' (di_account d) seam x = Inr True) \<and>
    account_identity db' (di_account d) = Some (di_identity d) \<and> transparent_trim_counter db' (di_account d) = t \<and>
    certified (read_transparent_coverage db' (di_account d)) \<and> di_gap_limit d \<le> tc_gap (read_transparent_coverage db' (di_account d))"
proof -
  obtain db k where e: "enter w st = (db, k)" by (cases "enter w st")
  obtain seam where run: "account_identity db (di_account d) = Some (di_identity d)" "account_seam db (di_account d) = Inr seam"
      "count_incomplete db (di_account d) seam (pr_covered p) = Inr 0" "transparent_trim_counter db (di_account d) = t"
      "db' = write_transparent_coverage (di_account d) (di_gap_limit d) db"
    using assms(1) by (auto simp: certify_def e ensure_same_account_def Let_def split: sum.splits if_splits)
  obtain v where put: "db' = put_prop (certified_key (di_account d)) v db"
    unfolding run(5) by (auto simp: write_transparent_coverage_def Let_def)
  have same: "taddrs db' = taddrs db" "sync_heights db' = sync_heights db" "accounts db' = accounts db" "transparent_accounts db' = transparent_accounts db"
    by (simp_all add: put put_prop_def)
  have rows: "transparent_address_row db' = transparent_address_row db" "transparent_backfilled_height db' = transparent_backfilled_height db"
    by (simp_all add: fun_eq_iff transparent_address_row_def transparent_backfilled_height_def same)
  have "address_complete db' a s x = address_complete db a s x" for a s x unfolding address_complete_def rows by (rule refl)
  moreover have "account_seam db' a = account_seam db a" for a by (simp add: account_seam_def get_sync_height_def same)
  moreover have "transparent_trim_counter db' (di_account d) = t" unfolding put using run(4) by simp
  moreover have "account_identity db' (di_account d) = Some (di_identity d)"
    using run(1) by (simp add: account_identity_def same) (simp add: put transparent_incarnation_def)
  moreover have "certified (read_transparent_coverage db' (di_account d))" "di_gap_limit d \<le> tc_gap (read_transparent_coverage db' (di_account d))"
    unfolding run(5) using write_coverage_ledger [OF assms(2), of "di_account d" db] by simp_all
  ultimately show ?thesis using run(2,3) count_incomplete_zero by auto
qed

definition backfilled :: "Db \<Rightarrow> nat \<Rightarrow> nat \<Rightarrow> nat \<Rightarrow> bool" where
  "backfilled db account s i \<longleftrightarrow> (\<exists>seam. account_seam db account = Inr seam \<and> address_complete db account seam (s, i) = Inr True)"

lemma highest_stored_bound:
  assumes "(a, s, i) \<in> taddr_keys db"
  shows "\<exists>l. highest_stored_dindex db a s = Some l \<and> i \<le> l"
proof -
  let ?is = "map ta_dindex (filter (\<lambda>r. ta_account r = a \<and> ta_scope r = s) (taddrs db))"
  have mem: "i \<in> set ?is" using assms by (auto simp: taddr_keys_def)
  then have "?is \<noteq> []" by (metis empty_iff empty_set)
  moreover have "xs \<noteq> [] \<Longrightarrow> \<exists>l. sql_max xs = Some l" for xs by (cases xs) (simp_all add: sql_max_def)
  ultimately obtain l where "sql_max ?is = Some l" by blast
  then show ?thesis using sql_max_ge mem by (auto simp: highest_stored_dindex_def)
qed

lemma scope_earned:
  assumes "\<forall>j < length seen. reaches d s (gap_after 0 (take j seen)) j" "\<not> reaches d s (gap_after 0 seen) (length seen)"
    and "account_seam db' (di_account d) = Inr seam" "\<forall>x \<in> set (marks s 0 seen). address_complete db' (di_account d) seam x = Inr True"
    and "\<forall>j < length seen. ((di_account d, s, j) \<in> taddr_keys db0 \<longrightarrow> seen ! j) \<and> (seen ! j \<or> silent w d s j)"
    and "di_stored_through d = highest_stored_dindex db0 (di_account d)" "taddr_keys db \<subseteq> taddr_keys db0"
  shows "\<exists>seen. (\<forall>j < length seen. gap_after 0 (take j seen) \<le> di_gap_limit d \<or> (\<exists>l. highest_stored_dindex db0 (di_account d) s = Some l \<and> j \<le> l)) \<and>
    di_gap_limit d < gap_after 0 seen \<and> (\<forall>i. (di_account d, s, i) \<in> taddr_keys db \<longrightarrow> i < length seen \<and> seen ! i) \<and>
    (\<forall>j < length seen. if seen ! j then backfilled db' (di_account d) s j else \<exists>addr. wd_address w s j = Some addr \<and> clear_range w addr (di_birth d) (di_end d))"
proof (intro exI [of _ seen] conjI allI impI)
  show "gap_after 0 (take j seen) \<le> di_gap_limit d \<or> (\<exists>l. highest_stored_dindex db0 (di_account d) s = Some l \<and> j \<le> l)" if "j < length seen" for j
    using assms(1,6) that by (auto simp: reaches_def split: option.splits)
  show "di_gap_limit d < gap_after 0 seen" using assms(2) by (simp add: reaches_def)
  fix i assume "(di_account d, s, i) \<in> taddr_keys db"
  then have i: "(di_account d, s, i) \<in> taddr_keys db0" using assms(7) by blast
  then show "i < length seen" using assms(2,6) highest_stored_bound [OF i] by (auto simp: reaches_def)
  then show "seen ! i" using assms(5) i by blast
next
  fix j assume j: "j < length seen"
  have "backfilled db' (di_account d) s j" if "seen ! j"
  proof -
    have "(s, j) \<in> set (marks s 0 seen)" using that j by (auto simp: set_marks)
    then show ?thesis using assms(3,4) by (auto simp: backfilled_def)
  qed
  then show "if seen ! j then backfilled db' (di_account d) s j else \<exists>addr. wd_address w s j = Some addr \<and> clear_range w addr (di_birth d) (di_end d)"
    using assms(5) j by (auto simp: silent_def)
qed


section \<open>A concrete discovery\<close>

text \<open>One stored address that is in use and backfilled to the seam, and a server that knows of no other.\<close>

definition disc_db :: Db where
  "disc_db = ex_db\<lparr>taddrs := [\<lparr>ta_id = 1, ta_account = 1, ta_scope = 0, ta_dindex = 0, ta_address = ''a'', ta_backfilled = Some 125,
     ta_owed = None, ta_seen_used = True\<rparr>]\<rparr>"

definition disc_world :: World where
  "disc_world = \<lparr>wd_backend = \<lparr>be_txs = (\<lambda>_ _ _ _. Answer []), be_block = (\<lambda>_ _. BlockRefused), be_anchor = (\<lambda>_ _. None), be_decodes = (\<lambda>_. True)\<rparr>,
     wd_between = (\<lambda>_ db. db), wd_cancelled = (\<lambda>_. False), wd_drain = (\<lambda>_. Drains), wd_address = (\<lambda>_ i. Some (replicate (Suc i) (CHR ''a'')))\<rparr>"

definition disc_who :: AccountIdentity where
  "disc_who = \<lparr>ai_fingerprint = None, ai_aindex = 0, ai_birth = 90, ai_xvk = None, ai_incarnation = 0\<rparr>"

lemma disc_facts:
  "enter disc_world (db, k) = (db, Suc k)" "account_identity disc_db 1 = Some disc_who" "account_seam disc_db 1 = Inr 125"
  "transparent_trim_counter disc_db 1 = 0" "wd_cancelled disc_world k = False" "wd_address disc_world s i = Some (replicate (Suc i) (CHR ''a''))"
  "transparent_address_row disc_db 1 0 0 = Some (1, ''a'')" "transparent_backfilled_height disc_db 1 = Inr (Some 125)"
  "transparent_address_is_used disc_db 1 ''a''" "transparent_address_row disc_db 1 0 1 = None" "transparent_address_row disc_db 1 1 0 = None"
  "highest_stored_dindex disc_db 1 0 = Some 0" "highest_stored_dindex disc_db 1 1 = None"
  by (simp_all add: enter_def disc_world_def disc_db_def ex_db_def account_identity_def disc_who_def transparent_incarnation_def get_prop_def
      account_seam_def get_sync_height_def sql_min_def sql_max_def transparent_trim_counter_def transparent_address_row_def
      transparent_backfilled_height_def transparent_address_is_used_def highest_stored_dindex_def coverage_keys_def)

lemmas disc_steps = disc_facts [unfolded One_nat_def]

lemma disc_walk:
  assumes "transparent_address_row disc_db 1 s i = None" "tg_account t = 1" "tg_identity t = disc_who" "tg_scope t = s" "tg_dindex t = i"
  shows "walk_candidate disc_world t None 90 130 None (disc_db, k) = (Inr (None, False), disc_db, Suc (Suc k))"
proof -
  let ?wk = "\<lparr>wk_row = None, wk_used = False, wk_trim = None, wk_first = None\<rparr>"
  have "window_section disc_world t 90 90 130 ?wk (disc_db, k) = (Inr None, ?wk\<lparr>wk_trim := Some 0\<rparr>, disc_db, Suc (Suc k))"
    by (simp add: window_section_def disc_steps assms [unfolded One_nat_def] ensure_same_account_def open_answer_def fetch_window_def disc_world_def [THEN arg_cong [where f = wd_backend]])
  then have "walk_candidate_loop disc_world t 130 41 90 90 ?wk (disc_db, k) = walk_candidate_loop disc_world t 130 41 90 131 (?wk\<lparr>wk_trim := Some 0\<rparr>) (disc_db, Suc (Suc k))"
    using walk_candidate_step [of 130 90 130 41 disc_world t 90 ?wk "(disc_db, k)"] by simp
  then show ?thesis by (simp add: walk_candidate_def walk_candidate_loop.simps [of disc_world t 130 41 90 131])
qed

lemma disc_run:
  "\<exists>k. discover_transparent_addresses 3 disc_world 1 130 0 4 (disc_db, 0) = Some (Inr 0, write_transparent_coverage 1 0 disc_db, k)"
proof -
  let ?d = "\<lparr>di_account = 1, di_identity = disc_who, di_birth = 90, di_stored_through = highest_stored_dindex disc_db 1, di_end = 130, di_gap_limit = 0\<rparr>"
  have start: "candidate_start disc_world 1 disc_who 0 0 ''a'' 90 (disc_db, k) = (Inr None, disc_db, Suc k)" for k
    by (simp add: candidate_start_def disc_steps ensure_same_account_def)
  have fresh: "candidate_start disc_world 1 disc_who 0 1 addr 90 (disc_db, k) = (Inr (Some (None, 90)), disc_db, Suc k)"
    "candidate_start disc_world 1 disc_who 1 0 addr 90 (disc_db, k) = (Inr (Some (None, 90)), disc_db, Suc k)" for addr k
    by (simp_all add: candidate_start_def disc_steps ensure_same_account_def)
  have walk: "walk_candidate disc_world (target ?d 0 1 addr) None 90 130 None (disc_db, k) = (Inr (None, False), disc_db, Suc (Suc k))"
    "walk_candidate disc_world (target ?d 1 0 addr) None 90 130 None (disc_db, k) = (Inr (None, False), disc_db, Suc (Suc k))" for addr k
    by (rule disc_walk [OF disc_facts(10)]; simp add: target_def) (rule disc_walk [OF disc_facts(11)]; simp add: target_def)
  have zero: "discover_scope 3 disc_world ?d 0 0 \<lparr>pr_added = 0, pr_covered = [], pr_width = 4, pr_gap = 0\<rparr> (disc_db, k) =
      Some (Inr \<lparr>pr_added = 0, pr_covered = [(0, 0)], pr_width = 4, pr_gap = 1\<rparr>, disc_db, k + 8)" for k
    by (simp add: numeral_3_eq_3 reaches_def certain_def u32_sat_add_def u32_max_def disc_steps start [unfolded One_nat_def] fresh [unfolded One_nat_def] walk [unfolded One_nat_def] prefetch_def needs_request_def ready_def)
  have one: "discover_scope 3 disc_world ?d 1 0 \<lparr>pr_added = 0, pr_covered = [(0, 0)], pr_width = 4, pr_gap = 0\<rparr> (disc_db, k) =
      Some (Inr \<lparr>pr_added = 0, pr_covered = [(0, 0)], pr_width = 4, pr_gap = 1\<rparr>, disc_db, k + 5)" for k
    by (simp add: numeral_3_eq_3 reaches_def certain_def u32_sat_add_def u32_max_def disc_steps start [unfolded One_nat_def] fresh [unfolded One_nat_def] walk [unfolded One_nat_def] prefetch_def needs_request_def ready_def)
  show ?thesis
    by (simp add: discover_transparent_addresses_def disc_steps MAX_DISCOVERY_CONCURRENCY_def zero [unfolded One_nat_def] one [unfolded One_nat_def] certify_def ensure_same_account_def
        count_incomplete_def address_complete_def disc_who_def [THEN arg_cong [where f = ai_birth]])
qed


end
