(* ===== verification/DiscoveryEnds.thy ===== *)
theory DiscoveryEnds
  imports Discovery
begin

text \<open>
  A discovery ends when the addresses in use are bounded: from some index on no address row exists, others add none, and
  the server has nothing for the addresses there. The fuel that the loop over the indexes needs is then that index and
  the gap limit together.
\<close>

section \<open>Rows below a bound\<close>

definition rows_below :: "nat \<Rightarrow> nat \<Rightarrow> Db \<Rightarrow> bool" where
  "rows_below a N db \<longleftrightarrow> (\<forall>s i. (a, s, i) \<in> taddr_keys db \<longrightarrow> i < N)"

definition quiet :: "World \<Rightarrow> string \<Rightarrow> bool" where
  "quiet w addr \<longleftrightarrow> (\<forall>k lo hi items. be_txs (wd_backend w) k addr lo hi = Answer items \<longrightarrow> items = [])"

definition bounded_use :: "World \<Rightarrow> nat \<Rightarrow> nat \<Rightarrow> bool" where
  "bounded_use w a N \<longleftrightarrow> (\<forall>k db. rows_below a N db \<longrightarrow> rows_below a N (wd_between w k db)) \<and>
    (\<forall>s i addr. N \<le> i \<longrightarrow> wd_address w s i = Some addr \<longrightarrow> quiet w addr)"

lemma rows_below_enter: "bounded_use w a N \<Longrightarrow> rows_below a N db \<Longrightarrow> enter w (db, k) = (db', k') \<Longrightarrow> rows_below a N db'"
  by (auto simp: bounded_use_def enter_def)

lemma fetch_quiet: "quiet w addr \<Longrightarrow> fetch_window (wd_backend w) addr lo hi seam k = Inr f \<Longrightarrow> fe_items f = []"
  by (auto simp: fetch_window_def quiet_def split: Reply.splits list.splits Item.splits)

text \<open>A target below the bound may get its row; one beyond it is quiet, and gets none.\<close>

definition kept_below :: "World \<Rightarrow> nat \<Rightarrow> Target \<Rightarrow> Walk \<Rightarrow> bool" where
  "kept_below w N t wk \<longleftrightarrow> tg_dindex t < N \<or>
    (quiet w (tg_taddr t) \<and> wk_row wk = None \<and> \<not> wk_used wk \<and> (\<forall>f. wk_first wk = Some f \<longrightarrow> fe_items f = []))"

lemma window_section_below:
  assumes "window_section w t m lo hi wk (db, k) = (r, wk', db', k')" "bounded_use w (tg_account t) N" "rows_below (tg_account t) N db" "kept_below w N t wk"
  shows "rows_below (tg_account t) N db' \<and> kept_below w N t wk'"
proof -
  obtain d n where e: "enter w (db, k) = (d, n)" by (cases "enter w (db, k)")
  have d: "rows_below (tg_account t) N d" using rows_below_enter [OF assms(2,3) e] .
  show ?thesis
  proof (cases "res_bind (ensure_same_account d (tg_account t) (tg_identity t)) (\<lambda>_. account_seam d (tg_account t))")
    case (Inl x)
    then show ?thesis using assms(1,4) d by (auto simp: window_section_def e)
  next
    case (Inr seam)
    obtain a n1 where ans: "open_answer w t lo hi seam (wk_first wk) n = (a, n1)" by (cases "open_answer w t lo hi seam (wk_first wk) n")
    note run = assms(1) [unfolded window_section_def e Let_def prod.case Inr sum.case ans]
    have row: "\<not> tg_dindex t < N \<Longrightarrow> transparent_address_row d (tg_account t) (tg_scope t) (tg_dindex t) = None"
      using d row_iff [of d "tg_account t" "tg_scope t" "tg_dindex t"] unfolding rows_below_def by blast
    show ?thesis
    proof (cases a)
      case (Inl x)
      then show ?thesis using run d assms(4) row by (auto simp: kept_below_def)
    next
      case (Inr fetched)
      show ?thesis
      proof (cases "tg_dindex t < N")
        case True
        obtain q d1 where st: "stored_row t d = (q, d1)" by (cases "stored_row t d")
        have d1: "rows_below (tg_account t) N d1" using stored_row_facts [OF st] True d by (auto simp: rows_below_def tg_key_def)
        have "rows_below (tg_account t) N db'"
        proof (cases "transparent_address_row d (tg_account t) (tg_scope t) (tg_dindex t) = None \<and> fe_items fetched = []")
          case False
          then obtain x where x: "q = Some x" using stored_row_facts [OF st] by auto
          obtain y d2 n2 where ing: "ingest_backfill_window w (tg_account t) (tg_birth t) x (tg_taddr t) (tg_scope t) (tg_dindex t) m lo hi seam (fe_items fetched)
              ((case wk_trim wk of None \<Rightarrow> transparent_trim_counter d (tg_account t) | Some trim \<Rightarrow> trim) = transparent_trim_counter d (tg_account t)) (d1, n1) = (y, d2, n2)"
            by (metis prod_cases3)
          then have "taddr_keys d2 = taddr_keys d1" using taddr_keys_ingest by (metis fst_conv snd_conv)
          then show ?thesis using run Inr False st x ing d1 by (cases y) (auto simp: rows_below_def)
        qed (use run Inr d in auto)
        then show ?thesis using True by (simp add: kept_below_def)
      next
        case False
        then have q: "quiet w (tg_taddr t)" "\<forall>f. wk_first wk = Some f \<longrightarrow> fe_items f = []" "\<not> wk_used wk" using assms(4) by (auto simp: kept_below_def)
        then have "fe_items fetched = []" using ans Inr fetch_quiet [OF q(1)] by (auto simp: open_answer_def split: option.splits if_splits)
        then show ?thesis using run Inr row [OF False] d q by (auto simp: kept_below_def)
      qed
    qed
  qed
qed

lemma walk_loop_below:
  assumes "walk_candidate_loop w t e window m lo wk (db, k) = (r, db', k')"
    and "bounded_use w (tg_account t) N" "rows_below (tg_account t) N db" "kept_below w N t wk"
  shows "rows_below (tg_account t) N db' \<and> (\<forall>row used. r = Inr (row, used) \<longrightarrow> tg_dindex t < N \<or> row = None \<and> \<not> used)"
  using assms
proof (induction w t e window m lo wk "(db, k)" arbitrary: db k rule: walk_candidate_loop.induct)
  case (1 w t e window m lo wk db k)
  show ?case
  proof (cases "e < lo")
    case True
    then show ?thesis using "1.prems" by (auto simp: walk_candidate_loop.simps [of w t e window m lo wk] kept_below_def)
  next
    case False
    define hi where "hi = min (lo + (window - 1)) e"
    obtain q wk1 d1 k1 where sec: "window_section w t m lo hi wk (db, k) = (q, wk1, d1, k1)" by (metis prod_cases4)
    have d1: "rows_below (tg_account t) N d1" "kept_below w N t wk1" using window_section_below [OF sec "1.prems"(2-4)] by blast+
    note run = "1.prems"(1) [unfolded walk_candidate_step [OF False hi_def sec]]
    show ?thesis
    proof (cases q)
      case (Inl x)
      show ?thesis
      proof (cases "narrows x \<and> MIN_BACKFILL_WINDOW < window")
        case True
        then show ?thesis using "1.hyps"(1) [OF False hi_def sec [symmetric] Inl refl True _ "1.prems"(2) d1] run Inl by simp
      next
        case c: False
        then show ?thesis using run Inl d1(1) by auto
      qed
    next
      case (Inr c)
      show ?thesis
      proof (cases c)
        case None
        then show ?thesis using "1.hyps"(2) [OF False hi_def sec [symmetric] Inr None refl _ "1.prems"(2) d1] run Inr by simp
      next
        case (Some cert)
        then show ?thesis using "1.hyps"(3) [OF False hi_def sec [symmetric] Inr Some refl _ "1.prems"(2) d1] run Inr by simp
      qed
    qed
  qed
qed

section \<open>Batches\<close>

lemma candidate_start_below:
  assumes "candidate_start w a who s i addr b (db, k) = (r, db', k')" "bounded_use w a N" "rows_below a N db"
  shows "rows_below a N db'" "N \<le> i \<Longrightarrow> r = Inr start \<Longrightarrow> \<exists>lo. start = Some (None, lo)"
proof -
  obtain d n where e: "enter w (db, k) = (d, n)" by (cases "enter w (db, k)")
  have d: "rows_below a N d" using rows_below_enter [OF assms(2,3) e] .
  show "rows_below a N db'" using assms(1) d by (simp add: candidate_start_def e)
  assume N: "N \<le> i" "r = Inr start"
  have "transparent_address_row d a s i = None" using d N(1) row_iff [of d a s i] unfolding rows_below_def by (meson not_le)
  then show "\<exists>lo. start = Some (None, lo)" using assms(1) N(2) by (auto simp: candidate_start_def e)
qed

definition entry_below :: "World \<Rightarrow> nat \<Rightarrow> nat \<times> Candidate option \<Rightarrow> bool" where
  "entry_below w N x \<longleftrightarrow> fst x < N \<or> (\<exists>c. snd x = Some c \<and> ca_existing c = None \<and> quiet w (ca_taddr c))"

lemma plan_batch_below:
  assumes "plan_batch w d s n width i (db, k) = (r, db', k')" "bounded_use w (di_account d) N" "rows_below (di_account d) N db"
  shows "rows_below (di_account d) N db' \<and> (\<forall>batch. r = Inr batch \<longrightarrow> (\<forall>x \<in> set batch. entry_below w N x))"
  using assms(1,3)
proof (induction n arbitrary: width i db k r db' k')
  case (Suc n)
  show ?case
  proof (cases "width = 0 \<or> wd_address w s i = None")
    case True
    then show ?thesis using Suc.prems by (auto split: if_splits)
  next
    case False
    then obtain addr where addr: "wd_address w s i = Some addr" by auto
    obtain q d1 k1 where st: "candidate_start w (di_account d) (di_identity d) s i addr (di_birth d) (db, k) = (q, d1, k1)" by (metis prod_cases3)
    note cs = candidate_start_below [OF st assms(2) Suc.prems(2)]
    show ?thesis
    proof (cases q)
      case (Inl x)
      then show ?thesis using Suc.prems(1) False addr st cs(1) by auto
    next
      case (Inr start)
      define width' where "width' = (case start of None \<Rightarrow> width | Some (_, lo) \<Rightarrow> if lo \<le> di_end d then width - 1 else width)"
      define x where "x = (i, map_option (\<lambda>(existing, lo). \<lparr>ca_existing = existing, ca_lo = lo, ca_taddr = addr\<rparr>) start)"
      obtain r1 d2 k2 where rest: "plan_batch w d s n width' (i + 1) (d1, k1) = (r1, d2, k2)" by (metis prod_cases3)
      note IH = Suc.IH [OF rest cs(1)]
      have "entry_below w N x"
        using cs(2) [OF _ Inr] assms(2) addr by (cases "N \<le> i") (auto simp: entry_below_def x_def bounded_use_def)
      then show ?thesis using Suc.prems(1) False addr st Inr rest IH by (auto simp: Let_def x_def width'_def split: sum.splits)
    qed
  qed
qed simp

lemma prefetch_all_quiet:
  assumes "prefetch_all w d seam batch k = (pf, k')" "\<forall>x \<in> set batch. entry_below w N x"
  shows "list_all2 (\<lambda>x r. fst x < N \<or> (\<forall>f. ready r = Some f \<longrightarrow> fe_items f = [])) batch pf"
  using assms
proof (induction w d seam batch k arbitrary: pf k' rule: prefetch_all.induct)
  case (2 w d seam i c batch k)
  have "i < N \<or> (\<forall>f. ready (Some (fetch_window (wd_backend w) (ca_taddr (the c)) (ca_lo (the c)) (di_end d) seam k)) = Some f \<longrightarrow> fe_items f = [])"
    using "2.prems"(2) fetch_quiet by (fastforce simp: entry_below_def ready_def split: sum.splits)
  then show ?case using 2 by (auto simp: Let_def ready_def split: if_splits prod.splits)
qed simp

lemma prefetch_below:
  assumes "prefetch w d batch (db, k) = (r, db', k')" "bounded_use w (di_account d) N" "rows_below (di_account d) N db" "\<forall>x \<in> set batch. entry_below w N x"
  shows "rows_below (di_account d) N db' \<and>
    (\<forall>pf. r = Inr pf \<longrightarrow> list_all2 (\<lambda>x r. fst x < N \<or> (\<forall>f. ready r = Some f \<longrightarrow> fe_items f = [])) batch pf)"
proof (cases "length (filter (needs_request d) batch) < 2")
  case True
  then show ?thesis using assms(1,3) by (auto simp: prefetch_def list_all2_conv_all_nth ready_def)
next
  case False
  obtain d1 n where e: "enter w (db, k) = (d1, n)" by (cases "enter w (db, k)")
  have d1: "rows_below (di_account d) N d1" using rows_below_enter [OF assms(2,3) e] .
  show ?thesis
    using assms(1) False d1 prefetch_all_quiet [OF _ assms(4), of d]
    by (auto simp: prefetch_def e Let_def split: sum.splits prod.splits if_splits)
qed

lemma ingest_batch_below:
  assumes "ingest_batch w d s batch pf p (db, k) = (r, db', k')" "bounded_use w (di_account d) N" "rows_below (di_account d) N db"
    and "\<forall>x \<in> set batch. entry_below w N x" "list_all2 (\<lambda>x r. fst x < N \<or> (\<forall>f. ready r = Some f \<longrightarrow> fe_items f = [])) batch pf"
  shows "rows_below (di_account d) N db' \<and> (\<forall>p'. r = Inr p' \<longrightarrow> (\<forall>x \<in> set batch. N \<le> fst x) \<longrightarrow> pr_gap p' = pr_gap p + length batch)"
  using assms(1,3-5)
proof (induction batch arbitrary: pf p db k)
  case (Cons x batch)
  obtain i c where x: "x = (i, c)" by (cases x)
  have pf: "i < N \<or> (\<forall>f. ready (hd pf) = Some f \<longrightarrow> fe_items f = [])" "list_all2 (\<lambda>x r. fst x < N \<or> (\<forall>f. ready r = Some f \<longrightarrow> fe_items f = [])) batch (tl pf)"
    using Cons.prems(4) by (cases pf; simp add: x)+
  have none: "list_all2 (\<lambda>x r. fst x < N \<or> (\<forall>f. ready r = Some f \<longrightarrow> fe_items f = [])) batch (map (\<lambda>_. None) (tl pf))"
    using list_all2_lengthD [OF pf(2)] by (auto simp: list_all2_conv_all_nth ready_def)
  have rest: "\<forall>x \<in> set batch. entry_below w N x" using Cons.prems(3) by simp
  show ?case
  proof (cases "wd_cancelled w k")
    case True
    then show ?thesis using Cons.prems(1,2) by (auto simp: x)
  next
    case nc: False
    show ?thesis
    proof (cases c)
      case None
      then have "i < N" using Cons.prems(3) by (simp add: x entry_below_def)
      moreover have "ingest_batch w d s batch (tl pf) (p\<lparr>pr_gap := 0, pr_covered := pr_covered p @ [(s, i)]\<rparr>) (db, Suc k) = (r, db', k')"
        using Cons.prems(1) nc None by (simp add: x)
      ultimately show ?thesis using Cons.IH [OF _ Cons.prems(2) rest pf(2)] by (auto simp: x)
    next
      case (Some ca)
      let ?t = "target d s i (ca_taddr ca)" and ?failed = "case hd pf of Some (Inl _) \<Rightarrow> True | _ \<Rightarrow> False"
      obtain q d1 k1 where walk: "walk_candidate w ?t (ca_existing ca) (ca_lo ca) (di_end d) (ready (hd pf)) (db, Suc k) = (q, d1, k1)" by (metis prod_cases3)
      have "kept_below w N ?t \<lparr>wk_row = ca_existing ca, wk_used = False, wk_trim = None, wk_first = ready (hd pf)\<rparr>"
        using Cons.prems(3) pf(1) by (auto simp: x Some kept_below_def entry_below_def target_def)
      then have wf: "rows_below (di_account d) N d1" "\<forall>row used. q = Inr (row, used) \<longrightarrow> i < N \<or> row = None \<and> \<not> used"
        using walk_loop_below [OF walk [unfolded walk_candidate_def], of N] assms(2) Cons.prems(2) by (simp_all add: target_def)
      note run = Cons.prems(1) [unfolded x Some ingest_batch.simps option.case Let_def if_not_P [OF nc] walk prod.case]
      show ?thesis
      proof (cases q)
        case (Inl e)
        then show ?thesis using run wf(1) by auto
      next
        case (Inr ru)
        obtain row used where ru: "ru = (row, used)" by (cases ru)
        note run1 = run [unfolded Inr ru sum.case prod.case]
        have "list_all2 (\<lambda>x r. fst x < N \<or> (\<forall>f. ready r = Some f \<longrightarrow> fe_items f = [])) batch (if ?failed then map (\<lambda>_. None) (tl pf) else tl pf)"
          using none pf(2) by simp
        from Cons.IH [OF run1 wf(1) rest this] show ?thesis using wf(2) Inr ru by (auto simp: x)
      qed
    qed
  qed
qed auto

section \<open>The fuel\<close>

definition rounds :: "Discovery \<Rightarrow> nat \<Rightarrow> nat \<Rightarrow> nat \<Rightarrow> nat" where
  "rounds d N i gap = (N - i) + Suc (di_gap_limit d + 1 - (if N \<le> i then gap else 0))"

lemma highest_below:
  assumes "rows_below a N db" "highest_stored_dindex db a s = Some l"
  shows "l < N"
  using assms sql_max_in [of "map ta_dindex (filter (\<lambda>r. ta_account r = a \<and> ta_scope r = s) (taddrs db))" l]
  by (force simp: rows_below_def taddr_keys_def highest_stored_dindex_def)

lemma reaches_beyond:
  assumes "rows_below (di_account d) N db" "di_stored_through d = highest_stored_dindex db (di_account d)" "N \<le> i" "di_gap_limit d < u32_max"
  shows "reaches d s gap i \<longleftrightarrow> gap \<le> di_gap_limit d" "certain d s gap i = di_gap_limit d + 1 - gap"
proof -
  have "l < N" if "highest_stored_dindex db (di_account d) s = Some l" for l by (rule highest_below [OF assms(1) that])
  then show "reaches d s gap i \<longleftrightarrow> gap \<le> di_gap_limit d" "certain d s gap i = di_gap_limit d + 1 - gap"
    using assms(2-4) by (fastforce simp: reaches_def certain_def u32_sat_add_def split: option.splits)+
qed

lemma certain_pos:
  assumes "rows_below (di_account d) N db" "di_stored_through d = highest_stored_dindex db (di_account d)" "N \<le> u32_max"
    "di_gap_limit d < u32_max" "reaches d s gap i"
  shows "0 < certain d s gap i"
proof -
  have "l < N" if "highest_stored_dindex db (di_account d) s = Some l" for l by (rule highest_below [OF assms(1) that])
  then show ?thesis using assms(2-5) by (fastforce simp: reaches_def certain_def u32_sat_add_def less_max_iff_disj split: option.splits)
qed

lemma discover_scope_ends:
  assumes "rounds d N i (pr_gap p) \<le> fuel" "bounded_use w (di_account d) N" "rows_below (di_account d) N db" "0 < pr_width p"
    and "rows_below (di_account d) N db0" "di_stored_through d = highest_stored_dindex db0 (di_account d)" "others_keep w"
    and "N \<le> u32_max" "di_gap_limit d < u32_max"
  shows "\<exists>r db' k'. discover_scope fuel w d s i p (db, k) = Some (r, db', k') \<and> rows_below (di_account d) N db' \<and> (\<forall>p'. r = Inr p' \<longrightarrow> 0 < pr_width p')"
  using assms(1-4)
proof (induction fuel arbitrary: i p db k)
  case 0
  then show ?case by (simp add: rounds_def)
next
  case (Suc fuel)
  show ?case
  proof (cases "reaches d s (pr_gap p) i \<and> \<not> wd_cancelled w k")
    case False
    then show ?thesis using Suc.prems by auto
  next
    case True
    let ?n = "certain d s (pr_gap p) i"
    obtain q d1 k1 where plan: "plan_batch w d s ?n (pr_width p) i (db, Suc k) = (q, d1, k1)" by (metis prod_cases3)
    note b1 = plan_batch_below [OF plan Suc.prems(2,3)]
    show ?thesis
    proof (cases q)
      case (Inl e)
      then show ?thesis using True plan b1 by auto
    next
      case batch: (Inr batch)
      note pf = plan_batch_facts [OF plan [unfolded batch] assms(7)]
      have ne: "batch \<noteq> []" using pf certain_pos [OF assms(5,6,8,9)] True Suc.prems(4) by blast
      obtain q2 d2 k2 where pre: "prefetch w d batch (d1, k1) = (q2, d2, k2)" by (metis prod_cases3)
      have below: "rows_below (di_account d) N d1" "\<forall>x \<in> set batch. entry_below w N x" using b1 batch by auto
      note b2 = prefetch_below [OF pre Suc.prems(2) below]
      show ?thesis
      proof (cases q2)
        case (Inl e)
        then show ?thesis using True plan batch pre b2 by auto
      next
        case pre2: (Inr pf2)
        obtain q3 d3 k3 where ing: "ingest_batch w d s batch pf2 p (d2, k2) = (q3, d3, k3)" by (metis prod_cases3)
        have all: "list_all2 (\<lambda>x r. fst x < N \<or> (\<forall>f. ready r = Some f \<longrightarrow> fe_items f = [])) batch pf2" using b2 pre2 by blast
        have d2: "rows_below (di_account d) N d2" using b2 by blast
        note b3 = ingest_batch_below [OF ing Suc.prems(2) d2 below(2) all]
        show ?thesis
        proof (cases q3)
          case (Inl e)
          then show ?thesis using True plan batch pre pre2 ing b3 by auto
        next
          case q3: (Inr p1)
          have fsts: "map fst batch = [i..<i + length batch]" using pf by blast
          have "\<forall>x \<in> set batch. planned d s db d2 x"
            using pf planned_mono [OF _ subset_refl prefetch_facts [OF pre [unfolded pre2] assms(7)]] by blast
          then have w1: "0 < pr_width p1"
            using ingest_batch_facts [OF ing [unfolded q3] assms(7) Suc.prems(4) fsts, of db "\<lambda>_ _. True" "\<lambda>_. True"] list_all2_lengthD [OF all]
            by (auto simp: list_all2_conv_all_nth)
          obtain l where len: "length batch = Suc l" using ne by (cases batch) auto
          have "rounds d N (i + length batch) (pr_gap p1) \<le> fuel"
          proof (cases "N \<le> i")
            case N: True
            have "\<forall>x \<in> set batch. N \<le> fst x"
            proof
              fix x assume "x \<in> set batch"
              then have "fst x \<in> set [i..<i + length batch]" unfolding fsts [symmetric] by simp
              then show "N \<le> fst x" using N by simp
            qed
            then have "pr_gap p1 = pr_gap p + length batch" using b3 q3 by blast
            moreover have "pr_gap p \<le> di_gap_limit d" using reaches_beyond(1) [OF assms(5,6) N assms(9)] True by blast
            ultimately show ?thesis using Suc.prems(1) len N by (simp add: rounds_def)
          next
            case False
            then show ?thesis using Suc.prems(1) len by (auto simp: rounds_def)
          qed
          from Suc.IH [OF this Suc.prems(2) _ w1, of d3 k3] b3 show ?thesis using True plan batch pre pre2 ing q3 by simp
        qed
      qed
    qed
  qed
qed

text \<open>
  C30. A discovery ends. When from some 32-bit index on no address is stored, the gap limit is not the largest 32-bit number, others store none and the server has nothing for the
  addresses there, a number of rounds of that index, the gap limit and two is enough for each scope: the
  discovery returns, with a result or an error.
\<close>

theorem discovery_ends:
  assumes "bounded_use w account N" and "rows_below account N db" and "others_keep w" and "N \<le> u32_max" "gap_limit < u32_max" and "N + gap_limit + 2 \<le> fuel"
  shows "discover_transparent_addresses fuel w account end_height gap_limit concurrency (db, k) \<noteq> None"
proof -
  obtain db0 n where e: "enter w (db, k) = (db0, n)" by (cases "enter w (db, k)")
  have db0: "rows_below account N db0" using rows_below_enter [OF assms(1,2) e] .
  show ?thesis
  proof (cases "account_identity db0 account")
    case None
    then show ?thesis by (simp add: discover_transparent_addresses_def e)
  next
    case (Some who)
    define d where "d = \<lparr>di_account = account, di_identity = who, di_birth = ai_birth who,
      di_stored_through = highest_stored_dindex db0 account, di_end = end_height, di_gap_limit = gap_limit\<rparr>"
    have ds: "di_account d = account" "di_stored_through d = highest_stored_dindex db0 account" "di_gap_limit d = gap_limit" by (simp_all add: d_def)
    have fuel: "rounds d N 0 0 \<le> fuel" using assms(6) by (simp add: rounds_def ds)
    note ends = discover_scope_ends [where d = d, unfolded ds, OF _ assms(1) _ _ db0 refl assms(3,4,5)]
    let ?p = "\<lparr>pr_added = 0, pr_covered = [], pr_width = min (max concurrency 1) MAX_DISCOVERY_CONCURRENCY, pr_gap = 0\<rparr>"
    obtain r d1 k1 where one: "discover_scope fuel w d 0 0 ?p (db0, n) = Some (r, d1, k1)" "rows_below account N d1" "\<forall>p'. r = Inr p' \<longrightarrow> 0 < pr_width p'"
      using ends [of 0 ?p fuel db0 0 n] fuel db0 by (auto simp: MAX_DISCOVERY_CONCURRENCY_def less_max_iff_disj)
    show ?thesis
    proof (cases r)
      case (Inl x)
      then show ?thesis using one(1) by (simp add: discover_transparent_addresses_def e Let_def Some flip: d_def)
    next
      case (Inr p1)
      obtain r2 d2 k2 where two: "discover_scope fuel w d 1 0 (p1\<lparr>pr_gap := 0\<rparr>) (d1, k1) = Some (r2, d2, k2)"
        using ends [of 0 "p1\<lparr>pr_gap := 0\<rparr>" fuel d1 1 k1] fuel one(2,3) Inr by auto
      then show ?thesis using one(1) Inr by (cases r2) (simp_all add: discover_transparent_addresses_def e Let_def Some flip: d_def)
    qed
  qed
qed

theorem discovery_ends_witness: "discover_transparent_addresses 3 disc_world 1 130 0 4 (disc_db, 0) \<noteq> None"
proof -
  have "bounded_use disc_world 1 1" by (auto simp: bounded_use_def disc_world_def quiet_def)
  moreover have "rows_below 1 1 disc_db" by (simp add: rows_below_def taddr_keys_def disc_db_def)
  moreover have "others_keep disc_world" by (simp add: others_keep_def disc_world_def keeps_addresses_def)
  ultimately show ?thesis by (rule discovery_ends) (simp_all add: u32_max_def)
qed

end
