(* ===== verification/Addresses.thy ===== *)
theory Addresses
  imports Discovery
begin

text \<open>
  Handing out transparent addresses (\<open>src/rust/rlz/src/account.rs\<close>): the next index of a scope, with retries against
  concurrent allocations, the lowest receive address that is neither used nor excluded, and the next default address.
  Deriving an address from the key of the account belongs to the Zcash crates and is the argument \<open>derive\<close>; for the
  default address, \<open>find_address\<close> is the search for the next valid Sapling diversifier.
\<close>

section \<open>Definitions\<close>

datatype AddressError =
    Underivable
  | DiversifierPanic
  | AllocationLost
  | NoUnusedAddress
  | AddressDb DbError

definition ADDRESS_ALLOCATION_ATTEMPTS :: nat where "ADDRESS_ALLOCATION_ATTEMPTS = 8"

definition get_transparent_keys :: "Db \<Rightarrow> nat \<Rightarrow> bytes option" where
  "get_transparent_keys db account = (case map_of (transparent_accounts db) account of None \<Rightarrow> None | Some xvk \<Rightarrow> xvk)"

definition next_dindex :: "Db \<Rightarrow> nat \<Rightarrow> nat \<Rightarrow> nat" where
  "next_dindex db account scope = (case highest_stored_dindex db account scope of None \<Rightarrow> 0 | Some dindex \<Rightarrow> u32_add dindex 1)"

text \<open>\<open>between\<close> is what others do to the database between reading the highest index and inserting the row.\<close>

fun allocate ::
    "(nat \<Rightarrow> nat \<Rightarrow> string option) \<Rightarrow> (nat \<Rightarrow> Db \<Rightarrow> Db) \<Rightarrow> nat \<Rightarrow> nat \<Rightarrow> nat \<Rightarrow> Db \<times> nat \<Rightarrow> (AddressError + string) \<times> Db \<times> nat" where
  "allocate derive between account scope 0 st = (Inl AllocationLost, st)"
| "allocate derive between account scope (Suc n) (db, k) =
    (let dindex = next_dindex db account scope in
     case derive scope dindex of
       None \<Rightarrow> (Inl Underivable, db, k)
     | Some address \<Rightarrow>
         (let (stored, db) = store_account_transparent_addr account scope dindex address (between k db)
          in if stored then (Inr address, db, Suc k) else allocate derive between account scope n (db, Suc k)))"

definition generate_next_transparent_address ::
    "(bytes \<Rightarrow> nat \<Rightarrow> nat \<Rightarrow> string option) \<Rightarrow> (nat \<Rightarrow> Db \<Rightarrow> Db) \<Rightarrow> nat \<Rightarrow> nat \<Rightarrow> Db \<times> nat \<Rightarrow> (AddressError + string option) \<times> Db \<times> nat" where
  "generate_next_transparent_address derive between account scope = (\<lambda>(db, k).
    case get_transparent_keys db account of
      None \<Rightarrow> (Inr None, db, k)
    | Some xvk \<Rightarrow>
        (case allocate (derive xvk) between account scope ADDRESS_ALLOCATION_ATTEMPTS (db, k) of
           (Inl e, st) \<Rightarrow> (Inl e, st)
         | (Inr address, st) \<Rightarrow> (Inr (Some address), st)))"

definition generate_next_change_address ::
    "(bytes \<Rightarrow> nat \<Rightarrow> nat \<Rightarrow> string option) \<Rightarrow> (nat \<Rightarrow> Db \<Rightarrow> Db) \<Rightarrow> nat \<Rightarrow> Db \<times> nat \<Rightarrow> (AddressError + string option) \<times> Db \<times> nat" where
  "generate_next_change_address derive between account = generate_next_transparent_address derive between account 1"

definition generate_next_receive_address ::
    "(bytes \<Rightarrow> nat \<Rightarrow> nat \<Rightarrow> string option) \<Rightarrow> (nat \<Rightarrow> Db \<Rightarrow> Db) \<Rightarrow> nat \<Rightarrow> Db \<times> nat \<Rightarrow> (AddressError + string option) \<times> Db \<times> nat" where
  "generate_next_receive_address derive between account = generate_next_transparent_address derive between account 0"

record NextUnusedAddress =
  nu_address :: string
  nu_certified :: bool
  nu_gap :: nat

fun search_unused :: "(nat \<Rightarrow> string option) \<Rightarrow> nat \<Rightarrow> string list \<Rightarrow> Db \<Rightarrow> nat list \<Rightarrow> AddressError + nat \<times> string" where
  "search_unused derive account excluded db [] = Inl NoUnusedAddress"
| "search_unused derive account excluded db (dindex # rest) =
    (case derive dindex of
       None \<Rightarrow> Inl Underivable
     | Some address \<Rightarrow>
         (if address \<in> set excluded \<or> transparent_address_is_used db account address
          then search_unused derive account excluded db rest else Inr (dindex, address)))"

definition next_unused_receive_address ::
    "(bytes \<Rightarrow> nat \<Rightarrow> nat \<Rightarrow> string option) \<Rightarrow> nat \<Rightarrow> string list \<Rightarrow> Db \<Rightarrow> (AddressError + NextUnusedAddress option) \<times> Db" where
  "next_unused_receive_address derive account excluded db =
    (case get_transparent_keys db account of
       None \<Rightarrow> (Inr None, db)
     | Some xvk \<Rightarrow>
         (let last = u32_add (next_dindex db account 0) (length excluded)
          in case search_unused (derive xvk 0) account excluded db [0..<Suc last] of
               Inl e \<Rightarrow> (Inl e, db)
             | Inr (dindex, address) \<Rightarrow>
                 (let db = snd (store_account_transparent_addr account 0 dindex address db);
                      coverage = read_transparent_coverage db account
                  in (Inr (Some \<lparr>nu_address = address, nu_certified = certified coverage, nu_gap = tc_gap coverage\<rparr>), db))))"

text \<open>
  The next default address; one database transaction, so an error or a panic leaves the database as it was. A hardware
  account is derived by its device: \<open>get_hw_next_diversifier_address\<close> and \<open>get_hw_transparent_address\<close>.
\<close>

record Ledger =
  get_hw_next_diversifier_address :: "nat \<Rightarrow> nat \<Rightarrow> nat option"
  get_hw_transparent_address :: "nat \<Rightarrow> nat \<Rightarrow> nat \<Rightarrow> string option"

definition next_sapling_dindex :: "(nat \<Rightarrow> nat option) \<Rightarrow> Ledger option \<Rightarrow> nat \<Rightarrow> nat \<Rightarrow> AddressError + nat" where
  "next_sapling_dindex find_address hw aindex start =
    (case hw of
       Some ledger \<Rightarrow> (case get_hw_next_diversifier_address ledger aindex start of None \<Rightarrow> Inl Underivable | Some di \<Rightarrow> Inr di)
     | None \<Rightarrow> (case find_address start of
                 None \<Rightarrow> Inl DiversifierPanic
               | Some di \<Rightarrow> if di \<le> u32_max then Inr di else Inl Underivable))"

definition generate_next_dindex ::
    "(bytes \<Rightarrow> nat \<Rightarrow> nat \<Rightarrow> string option) \<Rightarrow> (nat \<Rightarrow> nat option) \<Rightarrow> Ledger option \<Rightarrow> nat \<Rightarrow> Db \<Rightarrow> (AddressError + nat) \<times> Db" where
  "generate_next_dindex derive find_address hw account db =
    (case find (\<lambda>a. ac_id a = account) (accounts db) of
       None \<Rightarrow> (Inl (AddressDb RowNotFound), db)
     | Some a \<Rightarrow>
         (let start = u32_add (ac_dindex a) 1 in
          case (if account \<in> set (sapling_accounts db) then next_sapling_dindex find_address hw (ac_aindex a) start else Inr start) of
            Inl e \<Rightarrow> (Inl e, db)
          | Inr dindex \<Rightarrow>
              (let db' = db\<lparr>accounts := update_where (\<lambda>a. ac_id a = account) (ac_dindex_update (\<lambda>_. dindex)) (accounts db)\<rparr>;
                   derived = (case (get_transparent_keys db account, hw) of
                                (Some xvk, _) \<Rightarrow> Some (derive xvk 0 dindex)
                              | (None, Some ledger) \<Rightarrow> Some (get_hw_transparent_address ledger (ac_aindex a) 0 dindex)
                              | (None, None) \<Rightarrow> None)
               in case derived of
                    None \<Rightarrow> (Inr dindex, db')
                  | Some None \<Rightarrow> (Inl Underivable, db)
                  | Some (Some address) \<Rightarrow> (Inr dindex, snd (store_account_transparent_addr account 0 dindex address db')))))"

section \<open>Fresh indexes\<close>

lemma next_dindex_fresh:
  assumes "\<forall>i. (account, scope, i) \<in> taddr_keys db \<longrightarrow> i + 1 < 2 ^ 32"
  shows "(account, scope, next_dindex db account scope) \<notin> taddr_keys db"
    and "(account, scope, i) \<in> taddr_keys db \<Longrightarrow> i < next_dindex db account scope"
proof -
  have bound: "i < next_dindex db account scope" if i: "(account, scope, i) \<in> taddr_keys db" for i
  proof -
    obtain l where l: "highest_stored_dindex db account scope = Some l" "i \<le> l" using highest_stored_bound [OF i] by blast
    have "(account, scope, l) \<in> taddr_keys db"
      using l(1) sql_max_in [of "map ta_dindex (filter (\<lambda>r. ta_account r = account \<and> ta_scope r = scope) (taddrs db))" l]
      by (force simp: highest_stored_dindex_def taddr_keys_def)
    then have "l + 1 < 2 ^ 32" using assms by blast
    then show ?thesis using l by (simp add: next_dindex_def u32_add_def)
  qed
  then show "(account, scope, next_dindex db account scope) \<notin> taddr_keys db" by blast
  show "(account, scope, i) \<in> taddr_keys db \<Longrightarrow> i < next_dindex db account scope" by (rule bound)
qed

lemma store_stored: "fst (store_account_transparent_addr a s i addr db) \<longleftrightarrow> (a, s, i) \<notin> taddr_keys db"
  by (auto simp: store_account_transparent_addr_def taddr_keys_def list_ex_iff image_iff)

lemma allocate_fresh:
  assumes "allocate derive between a s n (db, k) = (Inr addr, db', k')" "\<forall>k. keeps_addresses (between k)"
  shows "\<exists>i. derive s i = Some addr \<and> (a, s, i) \<notin> taddr_keys db \<and> (a, s, i) \<in> taddr_keys db' \<and> taddr_keys db \<subseteq> taddr_keys db'"
  using assms(1)
proof (induction n arbitrary: db k)
  case (Suc n)
  define i where "i = next_dindex db a s"
  obtain x where x: "derive s i = Some x" using Suc.prems by (auto simp: Let_def i_def split: option.splits)
  define d where "d = between k db"
  have keep: "taddr_keys db \<subseteq> taddr_keys d" using keeps_addresses.keeps assms(2) unfolding d_def by blast
  obtain stored d1 where st: "store_account_transparent_addr a s i x d = (stored, d1)" by (cases "store_account_transparent_addr a s i x d")
  have d1: "taddr_keys d1 = insert (a, s, i) (taddr_keys d)" "stored \<longleftrightarrow> (a, s, i) \<notin> taddr_keys d"
    using taddr_keys_store [of a s i x d] store_stored [of a s i x d] st by simp_all
  show ?case
  proof (cases stored)
    case True
    then have "addr = x" "db' = d1" using Suc.prems x st by (auto simp: Let_def i_def d_def)
    then show ?thesis using x d1 keep True by auto
  next
    case False
    then have "allocate derive between a s n (d1, Suc k) = (Inr addr, db', k')" using Suc.prems x st by (auto simp: Let_def i_def d_def)
    from Suc.IH [OF this] show ?thesis using d1(1) keep by auto
  qed
qed simp

lemma allocate_first:
  assumes "\<forall>i. (a, s, i) \<in> taddr_keys db \<longrightarrow> i + 1 < 2 ^ 32" and "derive s (next_dindex db a s) = Some addr"
  shows "allocate derive (\<lambda>_ db. db) a s (Suc n) (db, k) =
    (Inr addr, snd (store_account_transparent_addr a s (next_dindex db a s) addr db), Suc k)"
  using next_dindex_fresh(1) [OF assms(1)] store_stored [of a s "next_dindex db a s" addr db] assms(2)
  by (cases "store_account_transparent_addr a s (next_dindex db a s) addr db") (simp add: Let_def)

text \<open>
  C32. No transparent address is handed out twice. When the rows stored by one allocation are still there at a later
  one, whatever others do to the database in between and during the retries, short of deleting rows, the two addresses
  differ, and the later one has a row of its own that was not there before.
\<close>

theorem allocated_addresses_differ:
  assumes "generate_next_transparent_address derive between account scope (db, k) = (Inr (Some first), db1, k1)"
    and "generate_next_transparent_address derive between' account scope (db2, k2) = (Inr (Some later), db3, k3)"
    and "\<forall>k. keeps_addresses (between k)" "\<forall>k. keeps_addresses (between' k)" "taddr_keys db1 \<subseteq> taddr_keys db2"
    and "get_transparent_keys db2 account = get_transparent_keys db account"
    and "\<And>xvk i j address. derive xvk scope i = Some address \<Longrightarrow> derive xvk scope j = Some address \<Longrightarrow> i = j"
  shows "first \<noteq> later \<and> (\<exists>xvk i. get_transparent_keys db2 account = Some xvk \<and> derive xvk scope i = Some later
    \<and> (account, scope, i) \<in> taddr_keys db3 - taddr_keys db2)"
proof -
  obtain xvk where xvk: "get_transparent_keys db account = Some xvk"
    using assms(1) by (auto simp: generate_next_transparent_address_def split: option.splits)
  have a1: "allocate (derive xvk) between account scope ADDRESS_ALLOCATION_ATTEMPTS (db, k) = (Inr first, db1, k1)"
    using assms(1) xvk by (auto simp: generate_next_transparent_address_def split: prod.splits sum.splits)
  have a2: "allocate (derive xvk) between' account scope ADDRESS_ALLOCATION_ATTEMPTS (db2, k2) = (Inr later, db3, k3)"
    using assms(2,6) xvk by (auto simp: generate_next_transparent_address_def split: prod.splits sum.splits)
  obtain i where i: "derive xvk scope i = Some first" "(account, scope, i) \<in> taddr_keys db1" using allocate_fresh [OF a1 assms(3)] by blast
  obtain j where j: "derive xvk scope j = Some later" "(account, scope, j) \<notin> taddr_keys db2" "(account, scope, j) \<in> taddr_keys db3"
    using allocate_fresh [OF a2 assms(4)] by blast
  have "i \<noteq> j" using i(2) j(2) assms(5) by blast
  then have "first \<noteq> later" using i(1) j(1) assms(7) by blast
  then show ?thesis using j xvk assms(6) by auto
qed

section \<open>The lowest unused address\<close>

lemma search_unused_finds:
  assumes "\<forall>i\<in>set is. derive i \<noteq> None" and "\<exists>i\<in>set is. the (derive i) \<notin> set excluded \<and> \<not> transparent_address_is_used db account (the (derive i))"
  shows "\<exists>done i address rest. is = done @ i # rest \<and> search_unused derive account excluded db is = Inr (i, address)
    \<and> derive i = Some address \<and> address \<notin> set excluded \<and> \<not> transparent_address_is_used db account address
    \<and> (\<forall>j\<in>set done. the (derive j) \<in> set excluded \<or> transparent_address_is_used db account (the (derive j)))"
  using assms
proof (induction "is")
  case (Cons d ds)
  obtain addr where addr: "derive d = Some addr" using Cons.prems(1) by auto
  show ?case
  proof (cases "addr \<in> set excluded \<or> transparent_address_is_used db account addr")
    case True
    then have "\<exists>i\<in>set ds. the (derive i) \<notin> set excluded \<and> \<not> transparent_address_is_used db account (the (derive i))"
      using Cons.prems(2) addr by auto
    then obtain done' i address rest where ih: "ds = done' @ i # rest" "search_unused derive account excluded db ds = Inr (i, address)"
      "derive i = Some address" "address \<notin> set excluded" "\<not> transparent_address_is_used db account address"
      "\<forall>j\<in>set done'. the (derive j) \<in> set excluded \<or> transparent_address_is_used db account (the (derive j))"
      using Cons.IH Cons.prems(1) by auto
    show ?thesis using ih addr True by (intro exI [of _ "d # done'"] exI [of _ i] exI [of _ address] exI [of _ rest]) simp
  next
    case False
    then show ?thesis using addr by (intro exI [of _ "[]"] exI [of _ d] exI [of _ addr] exI [of _ ds]) simp
  qed
qed simp

text \<open>A used address has a row; when rows carry the address of their index, its index is below the next one.\<close>

definition rows_derived :: "(nat \<Rightarrow> nat \<Rightarrow> string option) \<Rightarrow> nat \<Rightarrow> Db \<Rightarrow> bool" where
  "rows_derived derive account db = (\<forall>r\<in>set (taddrs db). ta_account r = account \<longrightarrow>
     derive (ta_scope r) (ta_dindex r) = Some (ta_address r) \<and> ta_dindex r + 1 < 2 ^ 32)"

definition one_index :: "(nat \<Rightarrow> nat \<Rightarrow> string option) \<Rightarrow> bool" where
  "one_index derive = (\<forall>s i t j address. derive s i = Some address \<and> derive t j = Some address \<longrightarrow> s = t \<and> i = j)"

lemma rows_derived_bound: "rows_derived derive account db \<Longrightarrow> \<forall>i. (account, s, i) \<in> taddr_keys db \<longrightarrow> i + 1 < 2 ^ 32"
  by (auto simp: rows_derived_def taddr_keys_def)

lemma used_below:
  assumes "transparent_address_is_used db account address" "derive 0 i = Some address" "rows_derived derive account db" "one_index derive"
  shows "i < next_dindex db account 0"
proof -
  obtain r where r: "r \<in> set (taddrs db)" "ta_account r = account" "ta_address r = address"
    using assms(1) by (auto simp: transparent_address_is_used_def list_ex_iff Let_def)
  then have "derive (ta_scope r) (ta_dindex r) = Some address" using assms(3) by (auto simp: rows_derived_def)
  then have "ta_scope r = 0" "ta_dindex r = i" using assms(2,4) unfolding one_index_def by blast+
  then have "(account, 0, i) \<in> taddr_keys db" using r by (force simp: taddr_keys_def)
  then show ?thesis by (rule next_dindex_fresh(2) [OF rows_derived_bound [OF assms(3)]])
qed

lemma upt_before:
  assumes "[0..<n] = xs @ j # ys"
  shows "xs = [0..<j]"
proof -
  have len: "length xs < n" using arg_cong [OF assms, of length] by simp
  have "[0..<n] ! length xs = j" using assms by simp
  then have "j = length xs" using len by simp
  moreover have "take (length xs) [0..<n] = xs" using assms by simp
  ultimately show ?thesis using len by (simp add: take_upt)
qed

lemma one_free:
  assumes "\<forall>i\<in>set [n..<Suc (n + length excluded)]. derive i \<noteq> None" and "inj_on derive {n..<Suc (n + length excluded)}"
  shows "\<exists>i\<in>set [n..<Suc (n + length excluded)]. the (derive i) \<notin> set excluded"
proof (rule ccontr)
  let ?I = "{n..<Suc (n + length excluded)}"
  assume "\<not> ?thesis"
  then have "\<forall>i\<in>?I. the (derive i) \<in> set excluded" by (simp del: upt_Suc)
  then have "(\<lambda>i. the (derive i)) ` ?I \<subseteq> set excluded" by blast
  moreover have "inj_on (\<lambda>i. the (derive i)) ?I"
    using assms by (intro inj_onI) (metis atLeastLessThan_upt inj_onD option.expand)
  ultimately have "card ?I \<le> card (set excluded)" by (metis card_image card_mono finite_set)
  then show False using card_length [of excluded] by simp
qed

text \<open>
  C31. The pigeonhole bound of \<open>next_unused_receive_address\<close> holds: as long as the indexes up to the next one plus the
  number of excluded addresses can be derived, the search always answers, with the lowest index whose address is
  neither excluded nor used, and the row of that index is stored; the account's coverage is reported as it is on record.
\<close>

theorem next_unused_is_lowest:
  assumes "get_transparent_keys db account = Some xvk"
    and "rows_derived (derive xvk) account db" and "one_index (derive xvk)"
    and "next_dindex db account 0 + length excluded < 2 ^ 32"
    and "\<forall>i \<le> next_dindex db account 0 + length excluded. derive xvk 0 i \<noteq> None"
  shows "\<exists>i address db'. next_unused_receive_address derive account excluded db =
        (Inr (Some \<lparr>nu_address = address, nu_certified = certified (read_transparent_coverage db account),
                    nu_gap = tc_gap (read_transparent_coverage db account)\<rparr>), db')
    \<and> derive xvk 0 i = Some address \<and> address \<notin> set excluded \<and> \<not> transparent_address_is_used db account address
    \<and> (\<forall>j < i. the (derive xvk 0 j) \<in> set excluded \<or> transparent_address_is_used db account (the (derive xvk 0 j)))
    \<and> taddr_keys db' = insert (account, 0, i) (taddr_keys db)"
proof -
  define n where "n = next_dindex db account 0"
  define last where "last = u32_add n (length excluded)"
  have last: "last = n + length excluded" using assms(4) by (simp add: last_def n_def u32_add_def)
  have some: "derive xvk 0 i \<noteq> None" if "i \<le> last" for i using that assms(5) last by (simp add: n_def)
  have "inj_on (derive xvk 0) {n..<Suc (n + length excluded)}"
    using assms(3) some last unfolding inj_on_def one_index_def by (metis atLeastLessThan_iff less_Suc_eq_le not_None_eq)
  moreover have "\<forall>i\<in>set [n..<Suc (n + length excluded)]. derive xvk 0 i \<noteq> None" using some last by (simp del: upt_Suc)
  ultimately obtain i where "i \<in> set [n..<Suc (n + length excluded)]" "the (derive xvk 0 i) \<notin> set excluded"
    using one_free [of n excluded "derive xvk 0"] by blast
  then have i: "n \<le> i" "i \<le> last" "the (derive xvk 0 i) \<notin> set excluded" using last by (simp_all del: upt_Suc)
  have unused: "\<not> transparent_address_is_used db account (the (derive xvk 0 i))"
    using used_below [OF _ _ assms(2,3), of "the (derive xvk 0 i)" i] some [OF i(2)] i(1) by (auto simp: n_def)
  have derivable: "\<forall>i\<in>set [0..<Suc last]. derive xvk 0 i \<noteq> None" using some by auto
  have free: "\<exists>i\<in>set [0..<Suc last]. the (derive xvk 0 i) \<notin> set excluded \<and> \<not> transparent_address_is_used db account (the (derive xvk 0 i))"
    using i unused by (intro bexI [of _ i]) auto
  obtain done' j address rest where found: "[0..<Suc last] = done' @ j # rest"
      "search_unused (derive xvk 0) account excluded db [0..<Suc last] = Inr (j, address)"
      "derive xvk 0 j = Some address" "address \<notin> set excluded" "\<not> transparent_address_is_used db account address"
      "\<forall>k\<in>set done'. the (derive xvk 0 k) \<in> set excluded \<or> transparent_address_is_used db account (the (derive xvk 0 k))"
    using search_unused_finds [OF derivable free] by blast
  from upt_before [OF found(1)] have low: "\<forall>k < j. the (derive xvk 0 k) \<in> set excluded \<or> transparent_address_is_used db account (the (derive xvk 0 k))"
    using found(6) by auto
  have same: "read_transparent_coverage (snd (store_account_transparent_addr account 0 j address db)) account = read_transparent_coverage db account"
    by (simp add: store_account_transparent_addr_def read_transparent_coverage_def transparent_trim_counter_def get_prop_def)
  show ?thesis
    using found(2-5) low same taddr_keys_store [of account 0 j address db] assms(1)
    by (intro exI [of _ j] exI [of _ address] exI [of _ "snd (store_account_transparent_addr account 0 j address db)"])
      (simp add: next_unused_receive_address_def Let_def flip: n_def last_def)
qed

section \<open>The default address\<close>

text \<open>
  Moving the default address. When the next index does not wrap and a valid diversifier is never searched
  backwards, a new default address has a higher index than the one before, the index is on the account's row, no other
  account's row changes, and for an account with a transparent key the address at that index has a row; an error leaves
  the database as it was.
\<close>

theorem default_address_advances:
  assumes "find (\<lambda>a. ac_id a = account) (accounts db) = Some a" and "ac_dindex a < u32_max"
    and "\<forall>start di. find_address start = Some di \<longrightarrow> start \<le> di"
    and "\<forall>ledger aindex start di. hw = Some ledger \<and> get_hw_next_diversifier_address ledger aindex start = Some di \<longrightarrow> start \<le> di"
    and "generate_next_dindex derive find_address hw account db = (r, db')"
  shows "case r of Inl _ \<Rightarrow> db' = db
    | Inr dindex \<Rightarrow> ac_dindex a < dindex
        \<and> accounts db' = map (\<lambda>b. if ac_id b = account then b\<lparr>ac_dindex := dindex\<rparr> else b) (accounts db)
        \<and> (get_transparent_keys db account \<noteq> None \<longrightarrow> (account, 0, dindex) \<in> taddr_keys db')"
proof -
  define start where "start = u32_add (ac_dindex a) 1"
  define found where "found = (if account \<in> set (sapling_accounts db) then next_sapling_dindex find_address hw (ac_aindex a) start else Inr start)"
  define moved where "moved = (\<lambda>dindex. db\<lparr>accounts := update_where (\<lambda>a. ac_id a = account) (ac_dindex_update (\<lambda>_. dindex)) (accounts db)\<rparr>)"
  define derived where "derived = (\<lambda>dindex. case (get_transparent_keys db account, hw) of
       (Some xvk, _) \<Rightarrow> Some (derive xvk 0 dindex)
     | (None, Some ledger) \<Rightarrow> Some (get_hw_transparent_address ledger (ac_aindex a) 0 dindex)
     | (None, None) \<Rightarrow> None)"
  have start: "start = ac_dindex a + 1" using assms(2) by (simp add: start_def u32_add_def u32_max_def)
  have up: "ac_dindex a < di" if "found = Inr di" for di
    using that assms(3,4) start by (fastforce simp: found_def next_sapling_dindex_def split: if_splits option.splits)
  have run: "generate_next_dindex derive find_address hw account db =
      (case found of Inl e \<Rightarrow> (Inl e, db)
       | Inr di \<Rightarrow> (case derived di of None \<Rightarrow> (Inr di, moved di) | Some None \<Rightarrow> (Inl Underivable, db)
           | Some (Some address) \<Rightarrow> (Inr di, snd (store_account_transparent_addr account 0 di address (moved di)))))"
    unfolding generate_next_dindex_def found_def start_def moved_def derived_def Let_def assms(1) by simp
  have acc: "accounts (moved di) = map (\<lambda>b. if ac_id b = account then b\<lparr>ac_dindex := di\<rparr> else b) (accounts db)" for di
    by (simp add: moved_def update_where_def)
  have stored: "accounts (snd (store_account_transparent_addr account 0 di address (moved di))) = accounts (moved di)" for di address
    by (simp add: store_account_transparent_addr_def)
  have keyed: "get_transparent_keys db account = None" if "derived di = None" for di
    using that by (auto simp: derived_def split: option.splits)
  show ?thesis
    using assms(5) up acc stored keyed taddr_keys_store
    by (auto simp: run split: sum.splits option.splits)
qed

section \<open>Examples\<close>

definition addr_db :: Db where
  "addr_db = ex_db\<lparr>transparent_accounts := [(1, Some [0])],
     taddrs := [\<lparr>ta_id = 1, ta_account = 1, ta_scope = 0, ta_dindex = 0, ta_address = ''ra'', ta_backfilled = None, ta_owed = None, ta_seen_used = True\<rparr>]\<rparr>"

definition addr_derive :: "bytes \<Rightarrow> nat \<Rightarrow> nat \<Rightarrow> string option" where
  "addr_derive xvk scope i = Some (replicate (Suc scope) (CHR ''r'') @ replicate (Suc i) (CHR ''a''))"

lemma addr_keys [simp]: "get_transparent_keys addr_db 1 = Some [0]" "get_transparent_keys addr_db (Suc 0) = Some [0]"
  by (simp_all add: get_transparent_keys_def addr_db_def)

definition addr_db2 :: Db where "addr_db2 = snd (store_account_transparent_addr 1 0 1 ''raa'' addr_db)"

lemma addr_db2_keys [simp]: "get_transparent_keys addr_db2 1 = Some [0]"
  by (simp add: addr_db2_def store_account_transparent_addr_def get_transparent_keys_def addr_db_def)

lemma addr_db_taddr_keys: "taddr_keys addr_db = {(1, 0, 0)}" "taddr_keys addr_db2 = {(1, 0, 0), (1, 0, 1)}"
  by (auto simp: taddr_keys_def addr_db2_def addr_db_def store_account_transparent_addr_def)

lemma addr_next: "next_dindex addr_db 1 0 = 1" "next_dindex addr_db2 1 0 = 2"
  by (simp_all add: next_dindex_def highest_stored_dindex_def addr_db2_def addr_db_def store_account_transparent_addr_def sql_max_def u32_add_def)

lemma addr_next_first:
  "generate_next_transparent_address addr_derive (\<lambda>_ db. db) 1 0 (addr_db, 0) = (Inr (Some ''raa''), addr_db2, 1)"
  "generate_next_transparent_address addr_derive (\<lambda>_ db. db) 1 0 (addr_db2, 1) =
    (Inr (Some ''raaa''), snd (store_account_transparent_addr 1 0 2 ''raaa'' addr_db2), 2)"
proof -
  have d: "addr_derive [0] 0 1 = Some ''raa''" "addr_derive [0] 0 2 = Some ''raaa''" by (simp_all add: addr_derive_def numeral_eq_Suc)
  have "allocate (addr_derive [0]) (\<lambda>_ db. db) 1 0 (Suc 7) (addr_db, 0) = (Inr ''raa'', addr_db2, 1)"
    by (subst allocate_first [where addr = "''raa''"]) (use d(1) in \<open>simp_all add: addr_next addr_db_taddr_keys addr_db2_def del: One_nat_def\<close>)
  then show "generate_next_transparent_address addr_derive (\<lambda>_ db. db) 1 0 (addr_db, 0) = (Inr (Some ''raa''), addr_db2, 1)"
    by (simp add: generate_next_transparent_address_def ADDRESS_ALLOCATION_ATTEMPTS_def del: One_nat_def allocate.simps)
  have "allocate (addr_derive [0]) (\<lambda>_ db. db) 1 0 (Suc 7) (addr_db2, 1) =
      (Inr ''raaa'', snd (store_account_transparent_addr 1 0 2 ''raaa'' addr_db2), 2)"
    by (subst allocate_first [where addr = "''raaa''"]) (use d(2) in \<open>auto simp: addr_next addr_db_taddr_keys simp del: One_nat_def\<close>)
  then show "generate_next_transparent_address addr_derive (\<lambda>_ db. db) 1 0 (addr_db2, 1) =
    (Inr (Some ''raaa''), snd (store_account_transparent_addr 1 0 2 ''raaa'' addr_db2), 2)"
    by (simp add: generate_next_transparent_address_def ADDRESS_ALLOCATION_ATTEMPTS_def del: One_nat_def allocate.simps)
qed

lemma addr_derive_one: "one_index (addr_derive xvk)"
proof -
  have "scope = length (filter ((=) (CHR ''r'')) address) - 1 \<and> i = length (filter ((=) (CHR ''a'')) address) - 1"
    if "addr_derive xvk scope i = Some address" for scope i address
    using that by (auto simp: addr_derive_def)
  then show ?thesis unfolding one_index_def by metis
qed

theorem allocated_addresses_differ_witness: "''raa'' \<noteq> ''raaa'' \<and> (\<exists>xvk i. get_transparent_keys addr_db2 1 = Some xvk
    \<and> addr_derive xvk 0 i = Some ''raaa''
    \<and> (1, 0, i) \<in> taddr_keys (snd (store_account_transparent_addr 1 0 2 ''raaa'' addr_db2)) - taddr_keys addr_db2)"
  by (rule allocated_addresses_differ [OF addr_next_first])
    (auto simp: keeps_addresses_def simp del: One_nat_def dest: addr_derive_one [unfolded one_index_def, rule_format, OF conjI])

theorem next_unused_is_lowest_witness:
  "\<exists>i address db'. next_unused_receive_address addr_derive 1 [''raa''] addr_db =
        (Inr (Some \<lparr>nu_address = address, nu_certified = certified (read_transparent_coverage addr_db 1),
                    nu_gap = tc_gap (read_transparent_coverage addr_db 1)\<rparr>), db')
    \<and> addr_derive [0] 0 i = Some address \<and> address \<notin> set [''raa''] \<and> \<not> transparent_address_is_used addr_db 1 address
    \<and> (\<forall>j < i. the (addr_derive [0] 0 j) \<in> set [''raa''] \<or> transparent_address_is_used addr_db 1 (the (addr_derive [0] 0 j)))
    \<and> taddr_keys db' = insert (1, 0, i) (taddr_keys addr_db)"
  by (rule next_unused_is_lowest [OF addr_keys(1) _ addr_derive_one])
    (simp_all add: rows_derived_def addr_next [unfolded One_nat_def] addr_derive_def addr_db_def [THEN arg_cong [where f = taddrs]])

theorem default_address_advances_witness:
  "case fst (generate_next_dindex addr_derive (\<lambda>start. Some (start + 1)) None 1 addr_db) of
      Inl _ \<Rightarrow> snd (generate_next_dindex addr_derive (\<lambda>start. Some (start + 1)) None 1 addr_db) = addr_db
    | Inr dindex \<Rightarrow> ac_dindex (hd (accounts addr_db)) < dindex
        \<and> accounts (snd (generate_next_dindex addr_derive (\<lambda>start. Some (start + 1)) None 1 addr_db)) =
            map (\<lambda>b. if ac_id b = 1 then b\<lparr>ac_dindex := dindex\<rparr> else b) (accounts addr_db)
        \<and> (get_transparent_keys addr_db 1 \<noteq> None \<longrightarrow>
            (1, 0, dindex) \<in> taddr_keys (snd (generate_next_dindex addr_derive (\<lambda>start. Some (start + 1)) None 1 addr_db)))"
  by (rule default_address_advances [where find_address = "\<lambda>start. Some (start + 1)" and hw = None and derive = addr_derive])
    (simp_all add: addr_db_def ex_db_def u32_max_def)

end
