(* ===== verification/Denominations.thy ===== *)
theory Denominations
  imports Fees "HOL-Library.Multiset"
begin

text \<open>
  Standard denominations of the migration from Orchard to Ironwood (\<open>src/rust/rlz/src/migrate/mod.rs\<close>): the
  decomposition of an amount, the test for a denomination, the plan of a split, and the anchor heights at which notes
  are migrated. Amounts and counts are numbers with the wrap-around of \<open>u64\<close> and \<open>u8\<close> written out.
\<close>

section \<open>Definitions\<close>

definition MIN_SD :: nat where "MIN_SD = 100 * COST_PER_ACTION"

definition MAX_SPLIT_INPUTS :: nat where "MAX_SPLIT_INPUTS = 50"

definition ANCHOR_BUCKET_SIZE :: nat where "ANCHOR_BUCKET_SIZE = 144"

definition TARGET_BLOCK_SPACING_MS :: nat where "TARGET_BLOCK_SPACING_MS = 75000"

definition SD_FEE_PAD :: nat where "SD_FEE_PAD = 4 * COST_PER_ACTION"

fun decompose_loop :: "nat list \<Rightarrow> nat \<Rightarrow> (nat \<times> nat) list \<times> nat" where
  "decompose_loop [] remainder = ([], remainder)"
| "decompose_loop (k # ks) remainder =
    (if remainder < 10 ^ 5 + SD_FEE_PAD then ([], remainder)
     else
       (let d = 10 ^ k + SD_FEE_PAD;
            count = remainder div d mod 256;
            (rest, r) = decompose_loop ks (remainder mod d)
        in (if 0 < count then (d, count) # rest else rest, r)))"

definition decompose_to_sd :: "nat \<Rightarrow> (nat \<times> nat) list \<times> nat" where
  "decompose_to_sd amount = decompose_loop (rev [5..<16]) amount"

text \<open>The loop that removes the trailing zeros of a positive number; on zero it would not end, and is not reached.\<close>

function strip_zeros :: "nat \<Rightarrow> nat" where
  "strip_zeros x = (if 0 < x \<and> x mod 10 = 0 then strip_zeros (x div 10) else x)"
  by pat_completeness auto
termination by (relation "measure id") auto

declare strip_zeros.simps [simp del]

definition is_iw_sd :: "nat \<Rightarrow> bool" where
  "is_iw_sd value \<longleftrightarrow> 100000 \<le> value \<and> value mod 100000 = 0 \<and> strip_zeros (value div 100000) = 1"

definition is_sd :: "nat \<Rightarrow> bool" where
  "is_sd value \<longleftrightarrow> SD_FEE_PAD < value \<and> is_iw_sd (value - SD_FEE_PAD)"

record SplitPlan =
  sp_digits :: "(nat \<times> nat) list"
  sp_remainder :: nat
  sp_total :: nat

text \<open>The pools of the fee counter are an array of four, so counting in pool 2 does not panic.\<close>

definition counted :: "(FeeManager \<Rightarrow> FeeManager run) \<Rightarrow> FeeManager \<Rightarrow> FeeManager" where
  "counted op fm = (case op fm of Ret fm \<Rightarrow> fm | Panic \<Rightarrow> fm)"

text \<open>
  Gives up the lowest denomination until the fee fits; \<open>None\<close> is the loop that never ends, were there outputs left to
  give up but no denomination.
\<close>

fun trim_split :: "FeeManager \<Rightarrow> (nat \<times> nat) list \<Rightarrow> nat \<Rightarrow> nat \<Rightarrow> ((nat \<times> nat) list \<times> nat \<times> nat) option" where
  "trim_split fm digits remainder 0 = Some (digits, remainder, 0)"
| "trim_split fm digits remainder (Suc n) =
    (if manager_fee fm \<le> remainder then Some (digits, remainder, Suc n)
     else if digits = [] then None
     else
       (let (denom, count) = last digits;
            count = (count + 255) mod 256
        in trim_split (counted (remove_output 2) fm)
             (if count = 0 then butlast digits else butlast digits @ [(denom, count)]) (u64_add remainder denom) n))"

definition split_manager :: "nat \<Rightarrow> nat \<Rightarrow> FeeManager" where
  "split_manager inputs outputs =
    counted (add_output 2)
      (((counted (add_output 2)) ^^ outputs) (((counted (add_input 2)) ^^ inputs) (fee_manager_default\<lparr>fm_migration := True\<rparr>)))"

definition plan_split :: "nat list \<Rightarrow> SplitPlan option option" where
  "plan_split vals =
    (let sorted = take MAX_SPLIT_INPUTS (rev (sort vals));
         total = u64_sum sorted
     in if total < MIN_SD then Some None
        else
          (let (digits, remainder) = decompose_to_sd total;
               (digits, remainder) =
                 (if remainder < MIN_SD div 2
                  then (let (d, r) = decompose_to_sd (sat_sub total MIN_SD) in (d, u64_add r MIN_SD))
                  else (digits, remainder));
               num_outputs = sum_list (map snd digits)
           in case trim_split (split_manager (length sorted) num_outputs) digits remainder num_outputs of
                None \<Rightarrow> None
              | Some (digits, remainder, num_outputs) \<Rightarrow>
                  Some (if 0 < num_outputs then Some \<lparr>sp_digits = digits, sp_remainder = remainder, sp_total = total\<rparr> else None)))"

definition has_split_transaction :: "nat list \<Rightarrow> bool option" where
  "has_split_transaction vals = map_option (\<lambda>plan. plan \<noteq> None) (plan_split vals)"

definition migration_anchor_bucket_size :: "nat \<Rightarrow> nat" where
  "migration_anchor_bucket_size mean_delay_ms =
    (let blocks = u64_sat_add mean_delay_ms (TARGET_BLOCK_SPACING_MS - 1) div TARGET_BLOCK_SPACING_MS
     in min (max (min blocks u32_max) 1) ANCHOR_BUCKET_SIZE)"

text \<open>A remainder by zero panics.\<close>

definition next_anchor_bucket_height :: "nat \<Rightarrow> nat \<Rightarrow> nat run" where
  "next_anchor_bucket_height height bucket_size =
    (if bucket_size = 0 then Panic
     else
       (let remainder = height mod bucket_size
        in Ret (if remainder = 0 then height else u32_sat_add height (bucket_size - remainder))))"

section \<open>Denominations\<close>

lemma strip_zeros_power: "0 < x \<Longrightarrow> strip_zeros x = 1 \<longleftrightarrow> (\<exists>k. x = 10 ^ k)"
proof (induction x rule: less_induct)
  case (less x)
  show ?case
  proof (cases "x mod 10 = 0")
    case True
    then obtain y where y: "x = 10 * y" by auto
    then have "0 < y" "y < x" using less.prems by auto
    then have "strip_zeros y = 1 \<longleftrightarrow> (\<exists>k. y = 10 ^ k)" using less.IH by blast
    moreover have "strip_zeros x = strip_zeros y" using less.prems by (subst strip_zeros.simps) (simp add: y)
    moreover have "(\<exists>k. 10 * y = 10 ^ k) \<longleftrightarrow> (\<exists>k. y = 10 ^ k)"
    proof
      assume "\<exists>k. 10 * y = 10 ^ k"
      then obtain k where k: "10 * y = 10 ^ k" by blast
      then obtain j where "k = Suc j" by (cases k) auto
      then show "\<exists>k. y = 10 ^ k" using k by auto
    next
      assume "\<exists>k. y = 10 ^ k"
      then obtain k where "y = 10 ^ k" by blast
      then have "10 * y = 10 ^ Suc k" by simp
      then show "\<exists>k. 10 * y = 10 ^ k" by blast
    qed
    ultimately show ?thesis by (simp add: y)
  next
    case False
    have "x \<noteq> 10 ^ Suc k" for k using False by auto
    then have "(\<exists>k. x = 10 ^ k) \<longleftrightarrow> x = 1" by (metis not0_implies_Suc power_0)
    then show ?thesis using False by (subst strip_zeros.simps) simp
  qed
qed

lemma is_iw_sd_iff: "is_iw_sd v \<longleftrightarrow> (\<exists>k. 5 \<le> k \<and> v = 10 ^ k)"
proof
  assume a: "is_iw_sd v"
  then have "0 < v div 100000" "strip_zeros (v div 100000) = 1" "v = 100000 * (v div 100000)" by (auto simp: is_iw_sd_def div_greater_zero_iff)
  then obtain k where "v = 100000 * 10 ^ k" using strip_zeros_power by metis
  then have "v = 10 ^ (5 + k)" by (simp add: power_add)
  then show "\<exists>k. 5 \<le> k \<and> v = 10 ^ k" by (intro exI [of _ "5 + k"]) simp
next
  assume "\<exists>k. 5 \<le> k \<and> v = 10 ^ k"
  then obtain j where "v = 10 ^ (5 + j)" using le_Suc_ex by blast
  then have v: "v = 100000 * 10 ^ j" by (simp add: power_add)
  then have "strip_zeros (v div 100000) = 1" using strip_zeros_power [of "10 ^ j"] by auto
  then show "is_iw_sd v" using v by (simp add: is_iw_sd_def)
qed

lemma is_sd_iff: "is_sd v \<longleftrightarrow> (\<exists>k. 5 \<le> k \<and> v = 10 ^ k + SD_FEE_PAD)"
  unfolding is_sd_def is_iw_sd_iff by (auto simp: less_imp_le)

definition digits_value :: "(nat \<times> nat) list \<Rightarrow> nat" where
  "digits_value digits = sum_list (map (\<lambda>(d, c). d * c) digits)"

definition digits_count :: "(nat \<times> nat) list \<Rightarrow> nat" where
  "digits_count digits = sum_list (map snd digits)"

definition digits_ok :: "(nat \<times> nat) list \<Rightarrow> bool" where
  "digits_ok digits \<longleftrightarrow> (\<forall>(d, c) \<in> set digits. is_sd d \<and> 0 < c \<and> c < 256)"

lemma digits_simps [simp]:
  "digits_value [] = 0" "digits_value ((d, c) # ds) = d * c + digits_value ds" "digits_count [] = 0" "digits_count ((d, c) # ds) = c + digits_count ds"
  "digits_value (ds @ es) = digits_value ds + digits_value es" "digits_count (ds @ es) = digits_count ds + digits_count es"
  by (simp_all add: digits_value_def digits_count_def)

lemma rev_upt_step: "rev [5..<5 + Suc n] = (5 + n) # rev [5..<5 + n]"
proof -
  have "[5..<Suc (5 + n)] = [5..<5 + n] @ [5 + n]" by (rule upt_Suc_append) simp
  then show ?thesis by (simp only: add_Suc_right rev_append) simp
qed

lemma decompose_cons:
  assumes "decompose_loop (k # ks) r = (ds, r')" "\<not> r < 10 ^ 5 + SD_FEE_PAD" "d = 10 ^ k + SD_FEE_PAD" "q = r div d" "q < 256"
  obtains rest where "decompose_loop ks (r mod d) = (rest, r')" "d * q + r mod d = r"
    and "ds = rest \<and> q = 0 \<or> ds = (d, q) # rest \<and> 0 < q"
proof -
  obtain rest where "decompose_loop ks (r mod d) = (rest, r')" "ds = (if 0 < q mod 256 then (d, q mod 256) # rest else rest)"
    using assms(1,2) unfolding assms(3,4) by (auto simp: Let_def split: prod.splits)
  moreover have "d * q + r mod d = r" unfolding assms(4) by simp
  ultimately show thesis using that assms(5) by auto
qed

text \<open>From the second denomination on a count is a single digit.\<close>

lemma decompose_digits:
  assumes "decompose_loop (rev [5..<5 + n]) r = (ds, r')" "r < 10 ^ (5 + n) + SD_FEE_PAD"
  shows "digits_value ds + r' = r \<and> r' < 10 ^ 5 + SD_FEE_PAD \<and> digits_ok ds \<and> digits_count ds \<le> 9 * n
    \<and> sorted_wrt (>) (map fst ds) \<and> (\<forall>d \<in> fst ` set ds. d < 10 ^ (5 + n) + SD_FEE_PAD)"
  using assms
proof (induction n arbitrary: r ds)
  case 0
  then show ?case by (simp add: digits_ok_def)
next
  case (Suc n)
  define d where "d = 10 ^ (5 + n) + SD_FEE_PAD"
  define q where "q = r div d"
  have ten: "(10 :: nat) ^ (5 + Suc n) = 10 * 10 ^ (5 + n)" by (simp only: add_Suc_right power_Suc)
  have pos: "0 < d" by (simp add: d_def SD_FEE_PAD_def COST_PER_ACTION_def)
  have "r < 10 * d" using Suc.prems(2) unfolding ten d_def by simp
  then have q: "q < 10" using pos by (simp add: q_def div_less_iff_less_mult mult.commute)
  have sd: "is_sd d" unfolding is_sd_iff d_def by (intro exI [of _ "5 + n"]) simp
  have top: "d < 10 ^ (5 + Suc n) + SD_FEE_PAD" unfolding ten d_def by simp
  show ?case
  proof (cases "r < 10 ^ 5 + SD_FEE_PAD")
    case True
    then show ?thesis using Suc.prems(1) by (simp only: rev_upt_step decompose_loop.simps) (simp add: digits_ok_def)
  next
    case False
    obtain rest where rest: "decompose_loop (rev [5..<5 + n]) (r mod d) = (rest, r')" "d * q + r mod d = r"
        "ds = rest \<and> q = 0 \<or> ds = (d, q) # rest \<and> 0 < q"
      using decompose_cons [OF Suc.prems(1) [unfolded rev_upt_step] False d_def q_def] q by auto
    have "r mod d < 10 ^ (5 + n) + SD_FEE_PAD" using pos unfolding d_def [symmetric] by simp
    note ih = Suc.IH [OF rest(1) this, folded d_def]
    have "\<forall>x \<in> fst ` set rest. x < d" using ih by blast
    then have below: "\<forall>x \<in> fst ` set ds. x < 10 ^ (5 + Suc n) + SD_FEE_PAD" using rest(3) top by (auto intro: less_trans [of _ d])
    show ?thesis using ih rest(2,3) q sd below by (auto simp: digits_ok_def)
  qed
qed

lemma decompose_to_sd_spec:
  assumes "decompose_to_sd amount = (ds, r)" "amount < 10 ^ 17"
  shows "digits_value ds + r = amount \<and> r < 10 ^ 5 + SD_FEE_PAD \<and> digits_ok ds \<and> digits_count ds \<le> 189 \<and> sorted_wrt (>) (map fst ds)"
proof -
  define d where "d = 10 ^ 15 + SD_FEE_PAD"
  define q where "q = amount div d"
  have ks: "rev [5..<16] = 15 # rev [5..<5 + 10]" using rev_upt_step [of 10] by simp
  have pos: "0 < d" and "amount < 100 * d" using assms(2) by (simp_all add: d_def SD_FEE_PAD_def COST_PER_ACTION_def)
  then have q: "q < 100" by (simp add: q_def div_less_iff_less_mult mult.commute)
  have sd: "is_sd d" unfolding is_sd_iff d_def by (intro exI [of _ 15]) simp
  show ?thesis
  proof (cases "amount < 10 ^ 5 + SD_FEE_PAD")
    case True
    then show ?thesis using assms(1) by (simp only: decompose_to_sd_def ks decompose_loop.simps) (simp add: digits_ok_def)
  next
    case False
    obtain rest where rest: "decompose_loop (rev [5..<5 + 10]) (amount mod d) = (rest, r)" "d * q + amount mod d = amount"
        "ds = rest \<and> q = 0 \<or> ds = (d, q) # rest \<and> 0 < q"
      using decompose_cons [OF assms(1) [unfolded decompose_to_sd_def ks] False d_def q_def] q by auto
    have "amount mod d < 10 ^ (5 + 10) + SD_FEE_PAD" using pos unfolding d_def by simp
    note ih = decompose_digits [OF rest(1) this]
    have "\<forall>x \<in> fst ` set rest. x < d" using ih unfolding d_def by simp
    then show ?thesis using ih rest(2,3) q sd by (auto simp: digits_ok_def)
  qed
qed

text \<open>
  A decomposition is exact: for every amount below \<open>10\<^sup>1\<^sup>7\<close> (the supply is \<open>2.1 \<cdot> 10\<^sup>1\<^sup>5\<close>) the denominations and the
  remainder add up to the amount, the denominations are standard, distinct and in descending order, each with a
  positive \<open>u8\<close> count, and the remainder is below the smallest denomination.
\<close>

theorem decompose_to_sd_exact:
  assumes "amount < 10 ^ 17"
  shows "case decompose_to_sd amount of (ds, r) \<Rightarrow>
      sum_list (map (\<lambda>(d, c). d * c) ds) + r = amount \<and> r < 10 ^ 5 + SD_FEE_PAD \<and> sorted_wrt (>) (map fst ds)
      \<and> (\<forall>(d, c) \<in> set ds. (\<exists>k \<ge> 5. d = 10 ^ k + SD_FEE_PAD) \<and> is_sd d \<and> 0 < c \<and> c < 256)"
proof -
  obtain ds r where dr: "decompose_to_sd amount = (ds, r)" by (cases "decompose_to_sd amount")
  note spec = decompose_to_sd_spec [OF dr assms]
  have "\<forall>(d, c) \<in> set ds. (\<exists>k \<ge> 5. d = 10 ^ k + SD_FEE_PAD) \<and> is_sd d \<and> 0 < c \<and> c < 256"
    using spec is_sd_iff unfolding digits_ok_def by fastforce
  then show ?thesis using spec unfolding dr by (simp add: digits_value_def)
qed

theorem decompose_to_sd_exact_witness:
  "sum_list (map (\<lambda>(d, c). d * c) (fst (decompose_to_sd 123456789))) + snd (decompose_to_sd 123456789) = 123456789
   \<and> decompose_to_sd 123456789 = ([(100020000, 1), (10020000, 2), (1020000, 3), (120000, 2)], 96789)"
  using decompose_to_sd_exact [of 123456789]
  by (simp add: decompose_to_sd_def SD_FEE_PAD_def COST_PER_ACTION_def Let_def upt_rec split: prod.splits)

section \<open>Splits\<close>

definition split_fm :: "nat \<Rightarrow> nat \<Rightarrow> FeeManager" where
  "split_fm i n = \<lparr>num_inputs = [0, 0, word_of_nat i, 0], num_outputs = [0, 0, word_of_nat n, 0], issuance_actions = 0, fm_migration = True\<rparr>"

lemma counted_split:
  "counted (add_input 2) (split_fm i n) = split_fm (Suc i) n" "counted (add_output 2) (split_fm i n) = split_fm i (Suc n)"
  "counted (remove_output 2) (split_fm i (Suc n)) = split_fm i n"
  by (simp_all add: counted_def add_input_def add_output_def remove_output_def split_fm_def numeral_2_eq_2)

lemma split_manager_fm: "split_manager i n = split_fm i (Suc n)"
proof -
  have "fee_manager_default\<lparr>fm_migration := True\<rparr> = split_fm 0 0" by (simp add: fee_manager_default_def split_fm_def)
  moreover have "((counted (add_input 2)) ^^ j) (split_fm 0 0) = split_fm j 0" for j by (induction j) (simp_all add: counted_split)
  moreover have "((counted (add_output 2)) ^^ j) (split_fm i 0) = split_fm i j" for j by (induction j) (simp_all add: counted_split)
  ultimately show ?thesis by (simp add: split_manager_def counted_split)
qed

text \<open>The fee of a transaction with \<open>i\<close> Orchard inputs and \<open>n\<close> Orchard outputs in migration mode.\<close>

abbreviation orchard_fee :: "nat \<Rightarrow> nat \<Rightarrow> nat" where
  "orchard_fee i n \<equiv> zip317_fee True [0, 0, i, 0] [0, 0, n, 0]"

lemma split_fm_fee: "i < 256 \<Longrightarrow> n < 256 \<Longrightarrow> manager_fee (split_fm i n) = orchard_fee i n"
  by (subst fee_zip317) (simp_all add: split_fm_def wf_fee_def NUM_POOLS_def unat_of_nat)

lemma trim_split_spec:
  assumes "digits_ok digits" "digits_count digits = n" "i < 256" "n < 255" "digits_value digits + r < 2 ^ 64"
  shows "\<exists>ds r' m. trim_split (split_fm i (Suc n)) digits r n = Some (ds, r', m) \<and> digits_ok ds \<and> digits_count ds = m \<and> m \<le> n
    \<and> digits_value ds + r' = digits_value digits + r \<and> (0 < m \<longrightarrow> orchard_fee i (Suc m) \<le> r')"
  using assms
proof (induction n arbitrary: digits r)
  case 0
  then show ?case by simp
next
  case (Suc n)
  show ?case
  proof (cases "manager_fee (split_fm i (Suc (Suc n))) \<le> r")
    case True
    then show ?thesis using Suc.prems split_fm_fee [of i "Suc (Suc n)"] by simp
  next
    case False
    have "digits \<noteq> []" using Suc.prems(2) by auto
    then obtain ds d c where digits: "digits = ds @ [(d, c)]" by (metis prod.collapse rev_exhaust)
    have c: "0 < c" "c < 256" and sd: "is_sd d" "digits_ok ds" using Suc.prems(1) by (auto simp: digits digits_ok_def)
    define ds' where "ds' = (if c - 1 = 0 then ds else ds @ [(d, c - 1)])"
    have "(c + 255) mod 256 = c - 1"
    proof -
      have "c + 255 = (c - 1) + 256" using c by simp
      then show ?thesis using c by (simp only: mod_add_self2) simp
    qed
    then have run: "trim_split (split_fm i (Suc (Suc n))) digits r (Suc n) = trim_split (split_fm i (Suc n)) ds' (u64_add r d) n"
      using False by (simp add: digits counted_split ds'_def)
    obtain c' where c': "c = Suc c'" using c(1) by (cases c) auto
    have val: "digits_value ds' + d = digits_value digits" "digits_count ds' = n" "digits_ok ds'"
      using c(2) sd Suc.prems(2) by (auto simp: ds'_def digits digits_ok_def c')
    have add: "u64_add r d = r + d" using Suc.prems(5) val(1) by (simp add: u64_add_exact)
    have "digits_value ds' + (r + d) < 2 ^ 64" "n < 255" using Suc.prems(4,5) val(1) by simp_all
    from Suc.IH [OF val(3,2) assms(3) this(2,1)] obtain es r' m where es: "trim_split (split_fm i (Suc n)) ds' (r + d) n = Some (es, r', m)"
      "digits_ok es" "digits_count es = m" "m \<le> n" "digits_value es + r' = digits_value ds' + (r + d)" "0 < m \<longrightarrow> orchard_fee i (Suc m) \<le> r'"
      by (elim exE conjE)
    then show ?thesis unfolding run add using val(1) by (intro exI [of _ es] exI [of _ r'] exI [of _ m]) simp
  qed
qed

lemma trim_done: "manager_fee fm \<le> r \<Longrightarrow> trim_split fm ds r n = Some (ds, r, n)"
  by (cases n) simp_all

text \<open>The largest notes, at most \<open>MAX_SPLIT_INPUTS\<close> of them.\<close>

definition largest :: "nat list \<Rightarrow> nat list" where
  "largest vals = take MAX_SPLIT_INPUTS (rev (sort vals))"

lemma largest_idem: "largest (largest vals) = largest vals"
proof -
  have "sorted (rev (largest vals))" by (simp add: largest_def rev_take sorted_wrt_drop)
  then have "sort (largest vals) = rev (largest vals)" by (intro properties_for_sort) simp_all
  then show ?thesis by (simp add: largest_def [of "largest vals"]) (simp add: largest_def)
qed

lemma plan_split_spec:
  assumes "sum_list (largest vals) < 10 ^ 17"
  shows "\<exists>plan. plan_split vals = Some plan \<and>
    (case plan of None \<Rightarrow> True | Some p \<Rightarrow>
       sp_total p = sum_list (largest vals) \<and> digits_value (sp_digits p) + sp_remainder p = sum_list (largest vals)
       \<and> digits_ok (sp_digits p) \<and> 0 < digits_count (sp_digits p) \<and> digits_count (sp_digits p) \<le> 189
       \<and> orchard_fee (length (largest vals)) (digits_count (sp_digits p) + 1) \<le> sp_remainder p)"
proof -
  let ?t = "sum_list (largest vals)"
  have total: "u64_sum (largest vals) = ?t" using assms by (intro u64_sum_exact) simp
  show ?thesis
  proof (cases "?t < MIN_SD")
    case True
    then show ?thesis by (intro exI [of _ None]) (simp add: plan_split_def total flip: largest_def)
  next
    case False
    obtain d0 r0 where dec: "decompose_to_sd ?t = (d0, r0)" by (cases "decompose_to_sd ?t")
    obtain d1 r1 where dec1: "decompose_to_sd (?t - MIN_SD) = (d1, r1)" by (cases "decompose_to_sd (?t - MIN_SD)")
    define ds r where "ds = (if r0 < MIN_SD div 2 then d1 else d0)" and "r = (if r0 < MIN_SD div 2 then u64_add r1 MIN_SD else r0)"
    have "digits_value d1 + r1 = ?t - MIN_SD" using decompose_to_sd_spec [OF dec1] assms by simp
    then have v1: "digits_value d1 + (r1 + MIN_SD) = ?t" using False by simp
    then have "u64_add r1 MIN_SD = r1 + MIN_SD" using assms by (intro u64_add_exact) (simp add: MIN_SD_def COST_PER_ACTION_def)
    then have ds: "digits_value ds + r = ?t" "digits_ok ds" "digits_count ds \<le> 189"
      using decompose_to_sd_spec [OF dec assms] decompose_to_sd_spec [OF dec1] assms v1 by (auto simp: ds_def r_def)
    have len: "length (largest vals) < 256" by (simp add: largest_def MAX_SPLIT_INPUTS_def)
    obtain ds' r' m where trim: "trim_split (split_fm (length (largest vals)) (Suc (digits_count ds))) ds r (digits_count ds) = Some (ds', r', m)"
      "digits_ok ds'" "digits_count ds' = m" "m \<le> digits_count ds" "digits_value ds' + r' = ?t"
      "0 < m \<longrightarrow> orchard_fee (length (largest vals)) (Suc m) \<le> r'"
      using trim_split_spec [OF ds(2) refl len, of r] ds assms by auto
    have "plan_split vals = Some (if 0 < m then Some \<lparr>sp_digits = ds', sp_remainder = r', sp_total = ?t\<rparr> else None)"
      using trim(1) False
      by (simp add: plan_split_def total dec dec1 split_manager_fm sat_sub_def ds_def r_def digits_count_def flip: largest_def split: if_splits)
    then show ?thesis using trim ds(3) by (cases "0 < m") auto
  qed
qed

lemma plan_split_largest: "plan_split (largest vals) = plan_split vals"
  using largest_idem [of vals] by (simp add: plan_split_def flip: largest_def)

text \<open>
  A split pays for itself. For notes worth less than \<open>10\<^sup>1\<^sup>7\<close> the planner of a split returns; a plan sends at least one
  standard denomination, its outputs and remainder add up to the 50 largest notes, and the remainder covers the ZIP-317
  fee of these inputs, the outputs and a change output. Planning over all notes, as the status does, and over the 50
  largest, as the step does, gives the same answer.
\<close>

theorem plan_split_affordable:
  assumes "sum_list (take MAX_SPLIT_INPUTS (rev (sort vals))) < 10 ^ 17"
  shows "plan_split (take MAX_SPLIT_INPUTS (rev (sort vals))) = plan_split vals \<and> (\<exists>plan. plan_split vals = Some plan \<and>
    (\<forall>p. plan = Some p \<longrightarrow>
       sum_list (map (\<lambda>(d, c). d * c) (sp_digits p)) + sp_remainder p = sum_list (take MAX_SPLIT_INPUTS (rev (sort vals)))
       \<and> (\<forall>(d, c) \<in> set (sp_digits p). is_sd d \<and> 0 < c) \<and> 0 < sum_list (map snd (sp_digits p))
       \<and> zip317_fee True [0, 0, length (take MAX_SPLIT_INPUTS (rev (sort vals))), 0] [0, 0, sum_list (map snd (sp_digits p)) + 1, 0]
           \<le> sp_remainder p))"
proof -
  obtain plan where plan: "plan_split vals = Some plan" and spec: "case plan of None \<Rightarrow> True | Some p \<Rightarrow>
       sp_total p = sum_list (largest vals) \<and> digits_value (sp_digits p) + sp_remainder p = sum_list (largest vals)
       \<and> digits_ok (sp_digits p) \<and> 0 < digits_count (sp_digits p) \<and> digits_count (sp_digits p) \<le> 189
       \<and> orchard_fee (length (largest vals)) (digits_count (sp_digits p) + 1) \<le> sp_remainder p"
    using plan_split_spec [of vals] assms by (auto simp: largest_def)
  then show ?thesis using plan_split_largest [of vals] unfolding largest_def digits_value_def digits_count_def digits_ok_def
    by (auto split: option.splits)
qed

lemma split_example:
  "plan_split [130000000, 2000] = Some (Some \<lparr>sp_digits = [(100020000, 1), (10020000, 2), (1020000, 9), (120000, 2)], sp_remainder = 522000, sp_total = 130002000\<rparr>)"
proof -
  have l: "take MAX_SPLIT_INPUTS (rev (sort [130000000, 2000])) = [130000000, 2000 :: nat]" by (simp add: MAX_SPLIT_INPUTS_def)
  have t: "u64_sum [130000000, 2000] = 130002000" by (simp add: u64_sum_def u64_add_def)
  have d: "decompose_to_sd 130002000 = ([(100020000, 1), (10020000, 2), (1020000, 9), (120000, 6)], 42000)"
    "decompose_to_sd 129502000 = ([(100020000, 1), (10020000, 2), (1020000, 9), (120000, 2)], 22000)"
    by (simp_all add: decompose_to_sd_def SD_FEE_PAD_def COST_PER_ACTION_def Let_def upt_rec)
  have f: "manager_fee (split_manager 2 14) = 85000"
    by (simp add: split_manager_fm split_fm_fee zip317_fee_def zip317_actions_def zip317_padded_def COST_PER_ACTION_def numeral_2_eq_2)
  show ?thesis
    unfolding plan_split_def l t Let_def
    by (simp add: MIN_SD_def COST_PER_ACTION_def d sat_sub_def u64_add_def trim_done f flip: numeral_2_eq_2)
qed

theorem plan_split_affordable_witness:
  "\<exists>p. plan_split [130000000, 2000] = Some (Some p) \<and> sum_list (map (\<lambda>(d, c). d * c) (sp_digits p)) + sp_remainder p = 130002000
    \<and> zip317_fee True [0, 0, 2, 0] [0, 0, sum_list (map snd (sp_digits p)) + 1, 0] \<le> sp_remainder p"
proof -
  have l: "take MAX_SPLIT_INPUTS (rev (sort [130000000, 2000])) = [130000000, 2000 :: nat]" by (simp add: MAX_SPLIT_INPUTS_def)
  from plan_split_affordable [of "[130000000, 2000]", unfolded l] show ?thesis by (simp add: split_example numeral_2_eq_2)
qed

section \<open>Anchors\<close>

lemma next_anchor_spec:
  assumes "0 < bucket" "height + bucket \<le> u32_max"
  shows "\<exists>b. next_anchor_bucket_height height bucket = Ret b \<and> bucket dvd b \<and> height \<le> b \<and> b < height + bucket"
proof -
  let ?r = "height mod bucket"
  have r: "?r < bucket" using assms(1) by simp
  show ?thesis
  proof (cases "?r = 0")
    case True
    then show ?thesis using assms by (auto simp: next_anchor_bucket_height_def)
  next
    case False
    have sum: "height + (bucket - ?r) = bucket * (height div bucket + 1)"
    proof -
      have "height + (bucket - ?r) = (bucket * (height div bucket) + ?r) + (bucket - ?r)" by simp
      also have "\<dots> = bucket * (height div bucket) + bucket" using r by linarith
      finally show ?thesis by simp
    qed
    have "u32_sat_add height (bucket - ?r) = height + (bucket - ?r)" using assms(2) r by (simp add: u32_sat_add_def)
    then have "next_anchor_bucket_height height bucket = Ret (height + (bucket - ?r))"
      using False assms(1) by (simp add: next_anchor_bucket_height_def)
    moreover have "bucket dvd height + (bucket - ?r)" unfolding sum by (rule dvd_triv_left)
    ultimately show ?thesis using False r by (intro exI [of _ "height + (bucket - ?r)"]) linarith
  qed
qed

lemma bucket_size_range: "1 \<le> migration_anchor_bucket_size ms \<and> migration_anchor_bucket_size ms \<le> ANCHOR_BUCKET_SIZE"
  by (auto simp: migration_anchor_bucket_size_def Let_def ANCHOR_BUCKET_SIZE_def)

end
