(* ===== verification/Migration.thy ===== *)
theory Migration
  imports Denominations Spendable Trim
begin

text \<open>
  The migration of Orchard notes to Ironwood (\<open>src/rust/rlz/src/migrate/mod.rs\<close>, \<open>api/migrate.rs\<close>): one step of the
  migration, its status, and the wait for an anchor height. A step either splits notes into standard denominations or
  moves one denomination to Ironwood; both go through \<open>plan_transaction\<close> and reserve their inputs.

  The record \<open>Host\<close> is what a step takes from outside: the tip of the node, the wallet's own address (\<open>None\<close> when it cannot
  be read, otherwise the pool \<open>decompose_address\<close> picks for it), the clock
  of the solver, the construction of the transaction from a plan (tree state, proofs, signature, extraction and parsing,
  with the fee read back from the package), and the answer of the node to a broadcast.
\<close>

section \<open>Definitions\<close>

datatype MigrationEvent =
    SplitComplete nat string
  | MigrateComplete nat string
  | Complete
  | NothingToDo

record MigrationStatus =
  ms_phase :: string
  ms_split_fees :: nat
  ms_migrate_fees :: nat
  ms_total_fees :: nat
  ms_sd_notes_count :: nat
  ms_non_sd_notes_count :: nat
  ms_ironwood_sd_count :: nat

record OrchardZecNote =
  oz_id :: nat
  oz_height :: nat
  oz_value :: nat
  oz_cmx :: "bytes option"
  oz_has_checkpoint :: bool

record BroadcastOutcome =
  bo_error_code :: int
  bo_message :: string

datatype MigrationError =
    NodeUnavailable
  | NoOwnAddress
  | MigrationDb DbError
  | OffBoundary nat
  | PlanRefused PlanError
  | AnchorAhead nat
  | AnchorMoved nat
  | BuildFailed
  | SendFailed
  | BroadcastRejected int string

record Host =
  ho_latest_height :: "nat option"
  ho_own_address :: "nat option option"
  ho_ironwood_active :: bool
  ho_late :: "nat \<Rightarrow> bool"
  ho_build :: "Plan \<Rightarrow> nat \<Rightarrow> (nat \<times> ParsedTransaction) option"
  ho_send :: "ParsedTransaction \<Rightarrow> BroadcastOutcome option"

definition fetch_unspent_orchard_notes_with_cmx :: "Db \<Rightarrow> nat \<Rightarrow> nat \<Rightarrow> nat \<Rightarrow> OrchardZecNote list" where
  "fetch_unspent_orchard_notes_with_cmx db account checkpoint_height confirmed =
    map (\<lambda>n. \<lparr>oz_id = nr_id n, oz_height = nr_height n, oz_value = as_u64 (nr_value n), oz_cmx = nr_cmx n,
        oz_has_checkpoint = list_ex (\<lambda>w. w_account w = nr_account n \<and> w_note w = nr_id n \<and> w_height w = checkpoint_height) (witnesses db)\<rparr>)
      (filter (\<lambda>n. \<not> is_spent db n \<and> nr_account n = account \<and> nr_height n \<le> confirmed \<and> nr_pool n = 2 \<and> nr_asset n = None
          \<and> \<not> nr_locked n \<and> \<not> is_reserved db n) (note_rows db))"

definition broadcast_txid :: "BroadcastOutcome \<Rightarrow> MigrationError + string" where
  "broadcast_txid outcome =
    (if bo_error_code outcome \<noteq> 0 then Inl (BroadcastRejected (bo_error_code outcome) (bo_message outcome)) else Inr (bo_message outcome))"

definition broadcast :: "Host \<Rightarrow> nat \<Rightarrow> ParsedTransaction \<Rightarrow> Db \<Rightarrow> (MigrationError + string) \<times> Db" where
  "broadcast host account tx db =
    (case reserve_parsed_transaction account tx Required db of
       (Inl e, db) \<Rightarrow> (Inl (MigrationDb e), db)
     | (Inr _, db) \<Rightarrow>
         (case ho_send host tx of None \<Rightarrow> (Inl SendFailed, db) | Some outcome \<Rightarrow> (broadcast_txid outcome, db)))"

text \<open>The anchor of a plan, checked against the checkpoint of the wallet.\<close>

definition plan_anchor :: "Db \<Rightarrow> nat \<Rightarrow> bool \<Rightarrow> nat option \<Rightarrow> MigrationError + nat" where
  "plan_anchor db account migration anchor_height =
    (case get_db_height db account of
       Inl e \<Rightarrow> Inl (MigrationDb e)
     | Inr (h, _) \<Rightarrow>
         (let anchor = (case anchor_height of None \<Rightarrow> h | Some a \<Rightarrow> a)
          in if h < anchor then Inl (AnchorAhead anchor)
             else if migration \<and> anchor \<noteq> h then Inl (AnchorMoved anchor) else Inr anchor))"

text \<open>The end of both phases: plan, build and sign, reserve, broadcast.\<close>

definition send_migration ::
    "Host \<Rightarrow> nat \<Rightarrow> PlanRecipient list \<Rightarrow> nat list \<Rightarrow> nat option \<Rightarrow> (nat \<Rightarrow> string \<Rightarrow> MigrationEvent) \<Rightarrow> Db
      \<Rightarrow> (MigrationError + MigrationEvent) run \<times> Db" where
  "send_migration host account recipients preselected anchor_height event db =
    (case plan_transaction (ho_late host) 0 db account (mask_bits (from_pool 2)) recipients False (Some DEFAULT_CONFIRMATIONS) False None
        True (Some preselected) (ho_ironwood_active host) of
       Panic \<Rightarrow> (Panic, db)
     | Ret (Inl e) \<Rightarrow> (Ret (Inl (MigrationDb e)), db)
     | Ret (Inr (Inl e)) \<Rightarrow> (Ret (Inl (PlanRefused e)), db)
     | Ret (Inr (Inr plan)) \<Rightarrow>
         (case plan_anchor db account True anchor_height of
            Inl e \<Rightarrow> (Ret (Inl e), db)
          | Inr anchor \<Rightarrow>
              (case ho_build host plan anchor of
                 None \<Rightarrow> (Ret (Inl BuildFailed), db)
               | Some (fee, tx) \<Rightarrow>
                   (case broadcast host account tx db of
                      (Inl e, db) \<Rightarrow> (Ret (Inl e), db)
                    | (Inr txid, db) \<Rightarrow> (Ret (Inr (event fee txid)), db)))))"

definition capped :: "OrchardZecNote list \<Rightarrow> OrchardZecNote list" where
  "capped notes = take MAX_SPLIT_INPUTS (rev (sort_key oz_value (rev notes)))"

definition own_recipient :: "Host \<Rightarrow> nat \<Rightarrow> nat \<Rightarrow> PlanRecipient" where
  "own_recipient host pool amount =
    \<lparr>pr_amount = amount, pr_asset_base = [], pr_pools = Some (mask_bits (from_pool pool)), pr_receiver = (case ho_own_address host of None \<Rightarrow> None | Some receiver \<Rightarrow> receiver)\<rparr>"

definition split_recipients :: "Host \<Rightarrow> SplitPlan \<Rightarrow> PlanRecipient list" where
  "split_recipients host plan = concat (map (\<lambda>(denom, count). replicate count (own_recipient host 2 denom)) (sp_digits plan))"

definition migrate_one :: "Host \<Rightarrow> nat \<Rightarrow> nat \<Rightarrow> nat \<Rightarrow> OrchardZecNote list \<Rightarrow> Db \<Rightarrow> (MigrationError + MigrationEvent) run \<times> Db" where
  "migrate_one host account anchor_bucket_size checkpoint_height sd_notes db =
    (if anchor_bucket_size = 0 then (Panic, db)
     else if checkpoint_height mod anchor_bucket_size \<noteq> 0 then (Ret (Inl (OffBoundary checkpoint_height)), db)
     else
       (let ready = filter (\<lambda>n. oz_height n \<le> checkpoint_height \<and> oz_has_checkpoint n) sd_notes
        in if ready = [] then (Ret (Inr NothingToDo), db)
           else
             (let note = last (sort_key (\<lambda>n. case oz_cmx n of None \<Rightarrow> [] | Some cmx \<Rightarrow> cmx) ready)
              in send_migration host account [own_recipient host 3 (oz_value note - SD_FEE_PAD)] [oz_id note] (Some checkpoint_height)
                   MigrateComplete db)))"

text \<open>One step; \<open>None\<close> stands for a planner of splits that does not return.\<close>

definition migration_phase ::
    "Host \<Rightarrow> nat \<Rightarrow> nat \<Rightarrow> nat \<Rightarrow> OrchardZecNote list \<Rightarrow> Db \<Rightarrow> ((MigrationError + MigrationEvent) run \<times> Db) option" where
  "migration_phase host account anchor_bucket_size checkpoint_height orchard_zec db =
    (let sd_notes = filter (\<lambda>n. is_sd (oz_value n)) orchard_zec;
         split_notes = capped (filter (\<lambda>n. \<not> is_sd (oz_value n)) orchard_zec)
     in case plan_split (map oz_value split_notes) of
          None \<Rightarrow> None
        | Some (Some plan) \<Rightarrow>
            Some (send_migration host account (split_recipients host plan) (map oz_id split_notes) None SplitComplete db)
        | Some None \<Rightarrow>
            Some (if sd_notes \<noteq> [] then migrate_one host account anchor_bucket_size checkpoint_height sd_notes db
                  else (Ret (Inr Complete), db)))"

definition migrate_step ::
    "Host \<Rightarrow> nat \<Rightarrow> nat \<Rightarrow> Db \<Rightarrow> ((MigrationError + MigrationEvent) run \<times> Db) option" where
  "migrate_step host account anchor_bucket_size db =
    (case ho_latest_height host of
       None \<Rightarrow> Some (Ret (Inl NodeUnavailable), db)
     | Some _ \<Rightarrow>
         (case get_db_height db account of
            Inl e \<Rightarrow> Some (Ret (Inl (MigrationDb e)), db)
          | Inr (checkpoint_height, _) \<Rightarrow>
              (let orchard_zec = fetch_unspent_orchard_notes_with_cmx db account checkpoint_height
                     (confirmed_height db account DEFAULT_CONFIRMATIONS)
               in if ho_own_address host = None then Some (Ret (Inl NoOwnAddress), db)
                  else if orchard_zec = [] then Some (Ret (Inr Complete), db)
                  else migration_phase host account anchor_bucket_size checkpoint_height orchard_zec db)))"

subsection \<open>Status\<close>

definition current_migration_status :: "Db \<Rightarrow> nat \<Rightarrow> nat \<Rightarrow> nat \<Rightarrow> MigrationStatus option" where
  "current_migration_status db account acc_split acc_migrate =
    (let all_notes = fetch_unspent_notes_grouped_by_pool db account;
         orchard_zec = filter (\<lambda>n. in_pool n = 2 \<and> in_asset_base n = ZEC_BASE) all_notes;
         sd_count = length (filter (\<lambda>n. is_sd (in_amount n)) orchard_zec);
         non_sd_vals = map in_amount (filter (\<lambda>n. \<not> is_sd (in_amount n)) orchard_zec);
         ironwood_sd = length (filter (\<lambda>n. in_pool n = 3 \<and> in_asset_base n = ZEC_BASE \<and> is_iw_sd (in_amount n)) all_notes)
     in map_option (\<lambda>has_split.
          \<lparr>ms_phase = (if has_split then ''splitting'' else if 0 < sd_count then ''migrating'' else ''complete''),
           ms_split_fees = acc_split, ms_migrate_fees = acc_migrate, ms_total_fees = u64_add acc_split acc_migrate,
           ms_sd_notes_count = sd_count, ms_non_sd_notes_count = (if has_split then length non_sd_vals else 0),
           ms_ironwood_sd_count = ironwood_sd\<rparr>) (has_split_transaction non_sd_vals))"

text \<open>\<open>sync\<close> is the effect of a synchronization on the database; its errors are ignored.\<close>

definition do_step ::
    "Host \<Rightarrow> (Db \<Rightarrow> Db) \<Rightarrow> nat \<Rightarrow> nat \<Rightarrow> nat \<Rightarrow> bool \<Rightarrow> bool \<Rightarrow> nat \<Rightarrow> Db
      \<Rightarrow> ((MigrationError + MigrationEvent \<times> MigrationStatus) run \<times> Db) option" where
  "do_step host sync account acc_split acc_migrate allow_migrate sync_before anchor_bucket_size db =
    (if sync_before \<and> ho_latest_height host = None then Some (Ret (Inl NodeUnavailable), db)
     else
       (let db = (if sync_before then sync db else db) in
        case current_migration_status db account acc_split acc_migrate of
          None \<Rightarrow> None
        | Some before \<Rightarrow>
            (case (if ms_phase before = ''complete'' then Some (Ret (Inr Complete), db)
                   else if ms_phase before = ''migrating'' \<and> \<not> allow_migrate then Some (Ret (Inr NothingToDo), db)
                   else migrate_step host account anchor_bucket_size db) of
               None \<Rightarrow> None
             | Some (Panic, db) \<Rightarrow> Some (Panic, db)
             | Some (Ret (Inl e), db) \<Rightarrow> Some (Ret (Inl e), db)
             | Some (Ret (Inr event), db) \<Rightarrow>
                 (case current_migration_status db account acc_split acc_migrate of
                    None \<Rightarrow> None
                  | Some status \<Rightarrow> Some (Ret (Inr (event, status)), db)))))"

text \<open>What the runner of a host calls: it synchronizes first and acts at the tip, with a bucket of one block.\<close>

definition migration_step ::
    "Host \<Rightarrow> (Db \<Rightarrow> Db) \<Rightarrow> nat \<Rightarrow> Db \<Rightarrow> ((MigrationError + MigrationEvent \<times> MigrationStatus) run \<times> Db) option" where
  "migration_step host sync account = do_step host sync account 0 0 True True 1"

subsection \<open>Waiting for an anchor\<close>

text \<open>
  One change of the watched block height: the height, the height of the wallet when the first boundary is chosen, and
  the height of the wallet after a synchronization to the boundary, if one is made; \<open>None\<close> is an error.
\<close>

record HeightEvent =
  he_tip :: "nat option"
  he_wallet :: "nat option"
  he_synced :: "nat option"

datatype AnchorWait = Waiting "nat option" | Reached nat | WaitFailed | WaitPanic

fun wait_for_anchor_boundary :: "nat \<Rightarrow> nat option \<Rightarrow> HeightEvent list \<Rightarrow> AnchorWait" where
  "wait_for_anchor_boundary bucket boundary [] = Waiting boundary"
| "wait_for_anchor_boundary bucket boundary (e # es) =
    (case he_tip e of
       None \<Rightarrow> wait_for_anchor_boundary bucket boundary es
     | Some tip \<Rightarrow>
         (case (case boundary of
                  Some b \<Rightarrow> Some (Ret b)
                | None \<Rightarrow> map_option (\<lambda>db_height. next_anchor_bucket_height (max tip db_height) bucket) (he_wallet e)) of
            None \<Rightarrow> WaitFailed
          | Some Panic \<Rightarrow> WaitPanic
          | Some (Ret target) \<Rightarrow>
              (if target < tip then
                 (case next_anchor_bucket_height (u32_sat_add tip 1) bucket of
                    Panic \<Rightarrow> WaitPanic | Ret b \<Rightarrow> wait_for_anchor_boundary bucket (Some b) es)
               else if tip = target then
                 (case he_synced e of
                    None \<Rightarrow> WaitFailed
                  | Some synced \<Rightarrow>
                      (if synced = target then Reached target
                       else if target < synced then
                         (case next_anchor_bucket_height (u32_sat_add (max tip synced) 1) bucket of
                            Panic \<Rightarrow> WaitPanic | Ret b \<Rightarrow> wait_for_anchor_boundary bucket (Some b) es)
                       else WaitFailed))
               else wait_for_anchor_boundary bucket (Some target) es)))"

section \<open>The notes of a step in the planner\<close>

definition orchard_rows :: "Db \<Rightarrow> nat \<Rightarrow> nat \<Rightarrow> NoteRow list" where
  "orchard_rows db account confirmed =
    filter (\<lambda>n. \<not> is_spent db n \<and> nr_account n = account \<and> nr_height n \<le> confirmed \<and> nr_pool n = 2 \<and> nr_asset n = None
      \<and> \<not> nr_locked n \<and> \<not> is_reserved db n) (note_rows db)"

text \<open>What the dust filter keeps of the preselected notes.\<close>

definition kept_rows :: "Db \<Rightarrow> nat \<Rightarrow> nat \<Rightarrow> nat list \<Rightarrow> NoteRow list" where
  "kept_rows db account confirmed ids = filter (\<lambda>n. nr_id n \<in> set ids \<and> int COST_PER_ACTION \<le> nr_value n) (orchard_rows db account confirmed)"

lemma orchard_mask: "mask_bits (from_pool 2) = 4" "mask_bits (from_pool 3) = 8"
  by (simp_all add: from_pool_def one_shl_def)

lemma best_pools: "to_best_pool (PoolMask 4) = Some 2" "to_best_pool (PoolMask 8) = Some 3"
  by code_simp+

lemma preselected_pools:
  assumes "small_wallet db" "distinct (map nr_id (note_rows db))" "set ids \<subseteq> nr_id ` set (orchard_rows db account h)"
    and "fetch_unspent_notes_by_pool db account = Inr pools"
  shows "drop_zec_dust (restrict_to_preselected (Some ids) (restrict_to_source_pools 4 h pools)) = [[], [], map (to_input db) (kept_rows db account h ids), []]"
proof -
  have pools: "pools = map (\<lambda>p. filter (\<lambda>n. in_pool n = p) (fetch_unspent_notes db account)) [0..<NUM_POOLS]"
    using assms(4) by (auto simp: fetch_unspent_notes_by_pool_def Let_def split: if_splits)
  have masks: "(4 :: u8) AND one_shl 0 = 0" "(4 :: u8) AND one_shl 1 = 0" "(4 :: u8) AND one_shl 2 \<noteq> 0" "(4 :: u8) AND one_shl 3 = 0"
    by code_simp+
  have same: "m = n" if "m \<in> set (note_rows db)" "n \<in> set (note_rows db)" "nr_id m = nr_id n" for m n
    using assms(2) that by (auto simp: distinct_map inj_on_def)
  have dust: "(\<not> is_zec_base (asset_base_of db (nr_asset n)) \<or> COST_PER_ACTION \<le> as_u64 (nr_value n)) = (int COST_PER_ACTION \<le> nr_value n)"
    if "n \<in> set (note_rows db)" "nr_asset n = None" for n
    using that small_values_u63 [OF assms(1)] zec_base_note by (auto simp: values_u63_def as_u64_exact le_nat_iff)
  let ?P = "\<lambda>n. \<not> is_spent db n \<and> nr_account n = account \<and> \<not> nr_locked n \<and> \<not> is_reserved db n"
  have "(?P n \<and> nr_pool n = 2 \<and> nr_height n \<le> h \<and> nr_id n \<in> set ids \<and> (\<not> is_zec_base (asset_base_of db (nr_asset n)) \<or> COST_PER_ACTION \<le> as_u64 (nr_value n)))
      = ((\<not> is_spent db n \<and> nr_account n = account \<and> nr_height n \<le> h \<and> nr_pool n = 2 \<and> nr_asset n = None \<and> \<not> nr_locked n \<and> \<not> is_reserved db n)
         \<and> nr_id n \<in> set ids \<and> int COST_PER_ACTION \<le> nr_value n)" if n: "n \<in> set (note_rows db)" for n
  proof (cases "nr_id n \<in> set ids")
    case True
    then obtain m where "m \<in> set (orchard_rows db account h)" "nr_id m = nr_id n" using assms(3) by auto
    then have "nr_asset n = None" using same [OF _ n] by (auto simp: orchard_rows_def)
    then show ?thesis using dust [OF n] True by blast
  qed simp
  then have two: "filter (\<lambda>n. \<not> is_zec_base (in_asset_base n) \<or> COST_PER_ACTION \<le> in_amount n)
      (filter (\<lambda>n. in_id n \<in> set ids) (filter (\<lambda>n. in_height n \<le> h) (filter (\<lambda>n. in_pool n = 2) (fetch_unspent_notes db account))))
      = map (to_input db) (kept_rows db account h ids)"
    unfolding fetch_to_input filter_map filter_filter kept_rows_def orchard_rows_def o_def to_input_simps conj_assoc
    by (intro arg_cong [of _ _ "map (to_input db)"] filter_cong refl) blast
  show ?thesis
    unfolding pools using masks two
    by (simp add: drop_zec_dust_def restrict_to_preselected_def restrict_to_source_pools_def pools4 del: One_nat_def)
qed

lemma kept_zec: "zec_only (map (to_input db) (kept_rows db account h ids)) = map (to_input db) (kept_rows db account h ids)"
  by (auto simp: zec_only_def filter_id_conv kept_rows_def orchard_rows_def asset_base_of_def)

lemma kept_solver_notes:
  assumes "small_wallet db" and ns_def: "ns = solver_notes [] [[], [], map (to_input db) (kept_rows db account h ids), []]"
  shows "map sn_amount ns = map (\<lambda>n. nat (nr_value n)) (kept_rows db account h ids)"
    and "\<forall>x \<in> set ns. sn_pool x = 2 \<and> sn_asset x = 0 \<and> COST_PER_ACTION \<le> sn_amount x"
proof -
  have ns: "ns = pool_solver_notes 2 (map (to_input db) (kept_rows db account h ids))"
    by (simp add: ns_def solver_notes_concat numeral_2_eq_2 pool_solver_notes_def)
  have val: "as_u64 (nr_value n) = nat (nr_value n)" "int COST_PER_ACTION \<le> nr_value n" if "n \<in> set (kept_rows db account h ids)" for n
    using that small_values_u63 [OF assms(1)] by (auto simp: values_u63_def as_u64_exact kept_rows_def orchard_rows_def)
  show am: "map sn_amount ns = map (\<lambda>n. nat (nr_value n)) (kept_rows db account h ids)"
    using pool_solver_notes_facts(1) [of 2 "map (to_input db) (kept_rows db account h ids)"] val(1)
    by (simp add: ns kept_zec)
  show "\<forall>x \<in> set ns. sn_pool x = 2 \<and> sn_asset x = 0 \<and> COST_PER_ACTION \<le> sn_amount x"
  proof
    fix x assume x: "x \<in> set ns"
    then have "sn_amount x \<in> set (map (\<lambda>n. nat (nr_value n)) (kept_rows db account h ids))" using am by (metis image_eqI set_map)
    then obtain n where "n \<in> set (kept_rows db account h ids)" "sn_amount x = nat (nr_value n)" by auto
    then have "COST_PER_ACTION \<le> sn_amount x" using val(2) [of n] by (simp add: le_nat_iff)
    then show "sn_pool x = 2 \<and> sn_asset x = 0 \<and> COST_PER_ACTION \<le> sn_amount x"
      using pool_solver_notes_facts(2) x unfolding ns by blast
  qed
qed

text \<open>A payment to the wallet's own address that the kept notes can pay for is planned.\<close>

definition own_ok :: "Host \<Rightarrow> bool" where
  "own_ok host \<longleftrightarrow> (\<exists>receiver. ho_own_address host = Some (Some receiver))"

lemma own_recipients:
  assumes "own_ok host" "\<forall>(p, a) \<in> set pas. p = 2 \<or> p = 3"
  defines "rs \<equiv> map (\<lambda>(p, a). own_recipient host p a) pas"
  shows "all_zec rs" "map pr_amount rs = map snd pas"
    and "\<exists>ds. decompose_recipients rs = Inr ds \<and> solver_outputs [] ds = map (\<lambda>(p, a). \<lparr>so_pool = p, so_amount = a, so_asset = 0\<rparr>) pas"
proof -
  obtain r where r: "ho_own_address host = Some (Some r)" using assms(1) by (auto simp: own_ok_def)
  show "all_zec rs" "map pr_amount rs = map snd pas" by (auto simp: rs_def all_zec_def own_recipient_def recipient_base_def)
  have "decompose_recipients rs = Inr (map (\<lambda>x. (own_recipient host (fst x) (snd x), r)) pas)"
    by (auto simp: decompose_recipients_def rs_def own_recipient_def r list_all_iff)
  moreover have "solver_outputs [] (map (\<lambda>x. (own_recipient host (fst x) (snd x), r)) pas) = map (\<lambda>(p, a). \<lparr>so_pool = p, so_amount = a, so_asset = 0\<rparr>) pas"
    using assms(2) by (auto simp: solver_outputs_def pool_pref_def own_recipient_def recipient_base_def resolve_asset_index_def orchard_mask best_pools)
  ultimately show "\<exists>ds. decompose_recipients rs = Inr ds \<and> solver_outputs [] ds = map (\<lambda>(p, a). \<lparr>so_pool = p, so_amount = a, so_asset = 0\<rparr>) pas"
    by blast
qed

lemma kept_small:
  assumes "small_wallet db"
  shows "sum_list (map (\<lambda>n. nat (nr_value n)) (kept_rows db account h ids)) < 2 ^ 61" "length (kept_rows db account h ids) < 2 ^ 32"
proof -
  have sub: "mset (kept_rows db account h ids) \<subseteq># mset (note_rows db)"
    unfolding kept_rows_def orchard_rows_def mset_filter by (meson multiset_filter_subset subset_mset.order_trans)
  have "length (kept_rows db account h ids) \<le> length (note_rows db)" using sub by (metis size_mset size_mset_mono)
  then show "length (kept_rows db account h ids) < 2 ^ 32" using assms by (simp add: small_wallet_def)
  have int: "int (sum_list (map (\<lambda>n. nat (nr_value n)) xs)) = value_sum xs" if "\<forall>n \<in> set xs. 0 \<le> nr_value n" for xs :: "NoteRow list"
    using that by (induction xs) (auto simp: value_sum_def)
  have "sum_list (map (\<lambda>n. nat (nr_value n)) (kept_rows db account h ids)) \<le> sum_list (map (\<lambda>n. nat (nr_value n)) (note_rows db))"
    using sub by (intro sum_list_mset_mono) (simp add: image_mset_subseteq_mono)
  then show "sum_list (map (\<lambda>n. nat (nr_value n)) (kept_rows db account h ids)) < 2 ^ 61"
    using int [of "note_rows db"] assms by (simp add: small_wallet_def)
qed

definition own_outs :: "(nat \<times> nat) list \<Rightarrow> nat \<Rightarrow> nat list" where
  "own_outs pas cp = map (\<lambda>p. length (filter (\<lambda>x. fst x = p) pas) + (if p = cp then 1 else 0)) [0..<N_POOLS]"

lemma own_out_count: "out_count (\<lambda>o'. so_pool o' = p) (map (\<lambda>(p, a). \<lparr>so_pool = p, so_amount = a, so_asset = 0\<rparr>) pas) = length (filter (\<lambda>x. fst x = p) pas)"
  by (induction pas) (auto simp: out_count_def)

lemma kept_counts:
  assumes "\<forall>x \<in> set ns. sn_pool x = 2"
  shows "map (\<lambda>p. count_of (\<lambda>n. sn_pool n = p) ns) [0..<N_POOLS] = [0, 0, length ns, 0]"
  using assms by (simp add: pools4 count_of_def filter_id_conv filter_empty_conv)

lemma own_payment_planned:
  assumes "small_wallet db" "distinct (map nr_id (note_rows db))" "set ids \<subseteq> nr_id ` set (orchard_rows db account (confirmed_height db account DEFAULT_CONFIRMATIONS))"
    and "own_ok host" "\<forall>(p, a) \<in> set pas. p = 2 \<or> p = 3" "length pas < 2 ^ 32 - 1" "cp < N_POOLS" "pas \<noteq> []"
    and kept_def: "kept = kept_rows db account (confirmed_height db account DEFAULT_CONFIRMATIONS) ids"
    and pay: "sum_list (map snd pas) + zip317_fee True [0, 0, length kept, 0] (own_outs pas cp) \<le> sum_list (map (\<lambda>n. nat (nr_value n)) kept)"
  obtains sel where "plan_transaction late rnd db account (mask_bits (from_pool 2)) (map (\<lambda>(p, a). own_recipient host p a) pas) False
      (Some DEFAULT_CONFIRMATIONS) False None True (Some ids) iw
      = Ret (Inr (Inr (build_plan [[], [], map (to_input db) kept, []] (map (\<lambda>(p, a). own_recipient host p a) pas) False None sel)))"
    and "select_notes late (solver_notes [] [[], [], map (to_input db) kept, []]) (map (\<lambda>(p, a). \<lparr>so_pool = p, so_amount = a, so_asset = 0\<rparr>) pas)
      COST_PER_ACTION True False (snd (hd pas)) = Ret (Some sel)"
proof -
  let ?h = "confirmed_height db account DEFAULT_CONFIRMATIONS" and ?rs = "map (\<lambda>(p, a). own_recipient host p a) pas"
  let ?os = "map (\<lambda>(p, a). \<lparr>so_pool = p, so_amount = a, so_asset = 0\<rparr>) pas"
  obtain pools where pools: "fetch_unspent_notes_by_pool db account = Inr pools"
    using assms(1) by (auto simp: fetch_unspent_notes_by_pool_def fetch_unspent_notes_def Let_def list_all_iff small_wallet_def)
  note ps = preselected_pools [OF assms(1,2,3) pools, folded kept_def]
  define ns where "ns = solver_notes [] [[], [], map (to_input db) kept, []]"
  note facts = kept_solver_notes [OF assms(1) ns_def [unfolded kept_def], folded kept_def]
  have len: "length ns = length kept" using facts(1) by (metis length_map)
  have small: "sum_list (map (\<lambda>n. nat (nr_value n)) kept) < 2 ^ 61" "length kept < 2 ^ 32" using kept_small [OF assms(1)] by (simp_all add: kept_def)
  obtain ds where ds: "decompose_recipients ?rs = Inr ds" "solver_outputs [] ds = ?os" using own_recipients(3) [OF assms(4,5)] by blast
  note zec = own_recipients(1,2) [OF assms(4,5)]
  have outs: "map so_amount ?os = map snd pas" "\<forall>o' \<in> set ?os. so_asset o' = 0" "\<forall>o' \<in> set ?os. so_pool o' < 4" using assms(5) by auto
  have "\<exists>sel. select_notes late ns ?os COST_PER_ACTION True False (snd (hd pas)) = Ret (Some sel)"
  proof (rule select_notes_pays [where cp = cp])
    show "notes_ok ns" using small facts(1) len by (simp add: notes_ok_def)
    have "sum_list (map snd pas) < 2 ^ 61" using pay small(1) by linarith
    then have "sum_list (map so_amount ?os) < 2 ^ 61" unfolding outs(1) .
    then show "outputs_ok ?os" using outs(2,3) assms(6) unfolding outputs_ok_def small_outputs_def by (simp add: N_POOLS_def)
    show "ns \<noteq> []" using pay zip317_fee_min [of True "[0, 0, length kept, 0]" "own_outs pas cp"] len by (auto simp: COST_PER_ACTION_def)
    show "\<forall>n \<in> set ns. sn_pool n < N_POOLS \<and> sn_asset n = 0 \<and> COST_PER_ACTION \<le> sn_amount n" using facts(2) by (simp add: N_POOLS_def)
    show "sum_list (map so_amount ?os) + zip317_fee True (map (\<lambda>p. count_of (\<lambda>n. sn_pool n = p) ns) [0..<N_POOLS])
        (map (\<lambda>p. out_count (\<lambda>o'. so_pool o' = p) ?os + (if p = cp then 1 else 0)) [0..<N_POOLS]) \<le> sum_list (map sn_amount ns)"
      using pay facts kept_counts [of ns] len unfolding outs(1) own_out_count own_outs_def by simp
  qed (use outs(2) assms(6,7) in simp_all)
  then obtain sel where sel: "select_notes late ns ?os COST_PER_ACTION True False (snd (hd pas)) = Ret (Some sel)" by blast
  have first: "(case ?rs of [] \<Rightarrow> 0 | r # _ \<Rightarrow> pr_amount r) = snd (hd pas)" using assms(8) by (cases pas) (auto simp: own_recipient_def)
  have nozsa: "\<not> list_ex (\<lambda>r. recipient_base r \<noteq> ZEC_BASE) ?rs" using zec(1) by (auto simp: all_zec_def list_ex_iff)
  have core: "plan_core late (restrict_to_preselected (Some ids) (restrict_to_source_pools 4 ?h pools)) ?rs False None True iw
      = Ret (Inr (build_plan [[], [], map (to_input db) kept, []] ?rs False None sel))"
    using sel zsa_assets_zec [OF zec(1)] nozsa unfolding plan_core_def ds(1) ps Let_def first ns_def by (simp add: ds(2))
  show thesis
    by (rule that [OF _ sel [unfolded ns_def]]) (simp add: plan_transaction_def pools orchard_mask(1) core)
qed

section \<open>Splits can be planned\<close>

definition to_oz :: "Db \<Rightarrow> nat \<Rightarrow> NoteRow \<Rightarrow> OrchardZecNote" where
  "to_oz db checkpoint n = \<lparr>oz_id = nr_id n, oz_height = nr_height n, oz_value = as_u64 (nr_value n), oz_cmx = nr_cmx n,
     oz_has_checkpoint = list_ex (\<lambda>w. w_account w = nr_account n \<and> w_note w = nr_id n \<and> w_height w = checkpoint) (witnesses db)\<rparr>"

lemma to_oz_simps [simp]: "oz_id (to_oz db c n) = nr_id n" "oz_value (to_oz db c n) = as_u64 (nr_value n)"
  by (simp_all add: to_oz_def)

lemma fetch_to_oz: "fetch_unspent_orchard_notes_with_cmx db account c h = map (to_oz db c) (orchard_rows db account h)"
  by (simp add: fetch_unspent_orchard_notes_with_cmx_def to_oz_def orchard_rows_def)

lemma capped_values: "map oz_value (capped ns) = largest (map oz_value ns)"
proof -
  have "map oz_value (sort_key oz_value (rev ns)) = sort (map oz_value ns)"
    by (intro properties_for_sort [symmetric]) (simp_all only: mset_map mset_sort mset_rev sorted_sort_key)
  then show ?thesis by (simp add: capped_def largest_def flip: take_map rev_map)
qed

lemma capped_sub: "mset (capped ns) \<subseteq># mset ns"
proof -
  have "mset (take k xs) \<subseteq># mset xs" for k and xs :: "OrchardZecNote list"
    by (metis append_take_drop_id mset_append mset_subset_eq_add_left)
  from this [of MAX_SPLIT_INPUTS "rev (sort_key oz_value (rev ns))"] show ?thesis by (simp add: capped_def)
qed

text \<open>The rows a list of chosen notes comes from.\<close>

lemma chosen_rows:
  assumes "distinct (map nr_id (note_rows db))" "mset chosen \<subseteq># mset (map (to_oz db c) (orchard_rows db account h))"
  shows "mset chosen = mset (map (to_oz db c) (filter (\<lambda>n. nr_id n \<in> set (map oz_id chosen)) (orchard_rows db account h)))"
proof -
  let ?R = "orchard_rows db account h"
  have ids: "distinct (map nr_id ?R)" using assms(1) by (simp add: orchard_rows_def distinct_map_filter)
  then have dist: "distinct (map (to_oz db c) ?R)" and inj: "inj_on nr_id (set ?R)"
    by (auto simp: distinct_map inj_on_def dest: arg_cong [where f = oz_id])
  have "distinct chosen" using assms(2) dist by (metis distinct_append mset_append mset_subset_eq_exists_conv ex_mset mset_eq_imp_distinct_iff)
  moreover have "distinct (map (to_oz db c) (filter (\<lambda>n. nr_id n \<in> set (map oz_id chosen)) ?R))" using dist by (simp add: distinct_map_filter)
  moreover have "set chosen = set (map (to_oz db c) (filter (\<lambda>n. nr_id n \<in> set (map oz_id chosen)) ?R))"
  proof
    have sub: "set chosen \<subseteq> to_oz db c ` set ?R" using set_mset_mono [OF assms(2)] by simp
    show "set chosen \<subseteq> set (map (to_oz db c) (filter (\<lambda>n. nr_id n \<in> set (map oz_id chosen)) ?R))"
    proof
      fix x assume x: "x \<in> set chosen"
      then obtain n where "n \<in> set ?R" "x = to_oz db c n" using sub by blast
      then show "x \<in> set (map (to_oz db c) (filter (\<lambda>n. nr_id n \<in> set (map oz_id chosen)) ?R))" using x by force
    qed
    show "set (map (to_oz db c) (filter (\<lambda>n. nr_id n \<in> set (map oz_id chosen)) ?R)) \<subseteq> set chosen"
    proof
      fix x assume "x \<in> set (map (to_oz db c) (filter (\<lambda>n. nr_id n \<in> set (map oz_id chosen)) ?R))"
      then obtain n s where n: "n \<in> set ?R" "x = to_oz db c n" "s \<in> set chosen" "oz_id s = nr_id n" by auto
      then obtain m where "m \<in> set ?R" "s = to_oz db c m" using sub by blast
      then have "m = n" using n inj by (auto dest: inj_onD)
      then show "x \<in> set chosen" using n \<open>s = to_oz db c m\<close> by simp
    qed
  qed
  ultimately show ?thesis by (metis set_eq_iff_mset_eq_distinct)
qed

lemma sum_list_mset_eq: "mset xs = mset ys \<Longrightarrow> sum_list xs = sum_list (ys :: nat list)"
  by (metis sum_mset_sum_list)

lemma dust_value: "sum_list (map f (xs :: 'a list)) \<le> sum_list (map f (filter (\<lambda>x. c \<le> f x) xs)) + c * (length xs - length (filter (\<lambda>x. c \<le> f x) xs))"
  for f :: "'a \<Rightarrow> nat"
proof (induction xs)
  case (Cons x xs)
  have "length (filter (\<lambda>x. c \<le> f x) xs) \<le> length xs" by (rule length_filter_le)
  then show ?case using Cons.IH by (auto simp: Suc_diff_le)
qed simp

definition split_pairs :: "SplitPlan \<Rightarrow> (nat \<times> nat) list" where
  "split_pairs plan = concat (map (\<lambda>(denom, n). replicate n (2, denom)) (sp_digits plan))"

lemma split_pairs_facts:
  "split_recipients host plan = map (\<lambda>(p, a). own_recipient host p a) (split_pairs plan)" "length (split_pairs plan) = digits_count (sp_digits plan)"
  "sum_list (map snd (split_pairs plan)) = digits_value (sp_digits plan)" "\<forall>x \<in> set (split_pairs plan). fst x = 2"
proof -
  have "concat (map (\<lambda>(d, n). replicate n (own_recipient host 2 d)) ds) = map (\<lambda>(p, a). own_recipient host p a) (concat (map (\<lambda>(d, n). replicate n (2, d)) ds))"
    "length (concat (map (\<lambda>(d, n). replicate n (2 :: nat, d)) ds)) = digits_count ds"
    "sum_list (map snd (concat (map (\<lambda>(d, n). replicate n (2 :: nat, d)) ds))) = digits_value ds" for ds
    by (induction ds) (auto simp: sum_list_replicate mult.commute)
  then show "split_recipients host plan = map (\<lambda>(p, a). own_recipient host p a) (split_pairs plan)" "length (split_pairs plan) = digits_count (sp_digits plan)"
    "sum_list (map snd (split_pairs plan)) = digits_value (sp_digits plan)" by (simp_all add: split_recipients_def split_pairs_def)
  show "\<forall>x \<in> set (split_pairs plan). fst x = 2" by (auto simp: split_pairs_def)
qed

lemma split_planned:
  assumes "small_wallet db" "distinct (map nr_id (note_rows db))" "own_ok host"
    and "todo = filter (\<lambda>n. \<not> is_sd (oz_value n))
      (fetch_unspent_orchard_notes_with_cmx db account checkpoint (confirmed_height db account DEFAULT_CONFIRMATIONS))"
    and "plan_split (map oz_value (capped todo)) = Some (Some plan)" and "sum_list (map oz_value todo) < 10 ^ 17"
  shows "\<exists>pl. plan_transaction (ho_late host) 0 db account (mask_bits (from_pool 2)) (split_recipients host plan) False
      (Some DEFAULT_CONFIRMATIONS) False None True (Some (map oz_id (capped todo))) (ho_ironwood_active host) = Ret (Inr (Inr pl))"
proof -
  let ?h = "confirmed_height db account DEFAULT_CONFIRMATIONS"
  let ?R = "orchard_rows db account ?h" and ?ids = "map oz_id (capped todo)" and ?v = "\<lambda>n. nat (nr_value n)"
  have "mset (capped todo) \<subseteq># mset (map (to_oz db checkpoint) ?R)"
    using capped_sub [of todo] unfolding assms(4) fetch_to_oz by (simp only: mset_filter) (meson multiset_filter_subset subset_mset.order_trans)
  note chosen = chosen_rows [OF assms(2) this]
  define S where "S = filter (\<lambda>n. nr_id n \<in> set ?ids) ?R"
  have val: "as_u64 (nr_value n) = ?v n" if "n \<in> set S" for n
    using that small_values_u63 [OF assms(1)] by (auto simp: values_u63_def as_u64_exact S_def orchard_rows_def)
  have len: "length S = length (capped todo)" using arg_cong [OF chosen, of size] unfolding S_def size_mset length_map by simp
  have sum: "sum_list (map ?v S) = sum_list (map oz_value (capped todo))"
  proof -
    have "sum_list (map oz_value (capped todo)) = sum_list (map oz_value (map (to_oz db checkpoint) S))"
      using sum_list_mset_eq [OF arg_cong [OF chosen, of "image_mset oz_value", folded mset_map]] unfolding S_def .
    also have "map oz_value (map (to_oz db checkpoint) S) = map ?v S" using val by simp
    finally show ?thesis by simp
  qed
  define kept where "kept = kept_rows db account ?h ?ids"
  have "int COST_PER_ACTION \<le> v \<longleftrightarrow> COST_PER_ACTION \<le> nat v" for v by (auto simp: COST_PER_ACTION_def)
  then have kept: "kept = filter (\<lambda>n. COST_PER_ACTION \<le> ?v n) S" by (simp add: kept_def kept_rows_def S_def conj_commute)
  have subids: "set ?ids \<subseteq> nr_id ` set ?R"
  proof
    fix i assume "i \<in> set ?ids"
    then obtain x where x: "x \<in> set (capped todo)" "i = oz_id x" by auto
    moreover have "set (capped todo) = to_oz db checkpoint ` set S" using arg_cong [OF chosen, of set_mset] by (simp add: S_def)
    ultimately obtain n where "n \<in> set S" "x = to_oz db checkpoint n" by blast
    then show "i \<in> nr_id ` set ?R" using x by (simp add: S_def)
  qed
  have lar: "largest (map oz_value (capped todo)) = map oz_value (capped todo)" by (simp add: capped_values largest_idem)
  have "mset (map oz_value (capped todo)) \<subseteq># mset (map oz_value todo)" using capped_sub [of todo] by (simp add: image_mset_subseteq_mono)
  then have "sum_list (map oz_value (capped todo)) < 10 ^ 17" using assms(6) sum_list_mset_mono le_less_trans by blast
  then have plan: "digits_value (sp_digits plan) + sp_remainder plan = sum_list (map oz_value (capped todo))" "0 < digits_count (sp_digits plan)"
      "digits_count (sp_digits plan) \<le> 189" "orchard_fee (length (capped todo)) (digits_count (sp_digits plan) + 1) \<le> sp_remainder plan"
    using plan_split_spec [of "map oz_value (capped todo)"] assms(5) unfolding lar by auto
  let ?n = "digits_count (sp_digits plan)"
  note pairs = split_pairs_facts(1) [of host plan] split_pairs_facts(2-4) [of plan]
  have outs: "own_outs (split_pairs plan) 2 = [0, 0, ?n + 1, 0]"
    using pairs(4) pairs(2) by (simp add: own_outs_def pools4 filter_id_conv filter_empty_conv)
  have fee: "orchard_fee k (?n + 1) = (k + ?n + 1) * COST_PER_ACTION" for k
    using plan(2) by (simp add: zip317_fee_def zip317_actions_def zip317_padded_def numeral_2_eq_2 numeral_3_eq_3)
  have "length kept \<le> length S" by (simp add: kept)
  then obtain j where j: "length S = length kept + j" using le_Suc_ex by blast
  then have "digits_value (sp_digits plan) + orchard_fee (length kept) (?n + 1) \<le> sum_list (map ?v kept)"
    using plan(1,4) dust_value [of ?v S COST_PER_ACTION] unfolding fee kept [symmetric] sum len [symmetric] j
    by (simp add: COST_PER_ACTION_def)
  then have pay: "sum_list (map snd (split_pairs plan)) + zip317_fee True [0, 0, length kept, 0] (own_outs (split_pairs plan) 2) \<le> sum_list (map ?v kept)"
    unfolding outs pairs(3) .
  have ok: "\<forall>(p, a) \<in> set (split_pairs plan). p = 2 \<or> p = 3" using pairs(4) by auto
  have ne: "split_pairs plan \<noteq> []" "length (split_pairs plan) < 2 ^ 32 - 1" using pairs(2) plan(2,3) by auto
  show ?thesis
    unfolding pairs(1)
    by (rule own_payment_planned [OF assms(1,2) subids assms(3) ok ne(2) _ ne(1) kept_def pay, of "ho_late host" 0 "ho_ironwood_active host"])
      (simp_all add: N_POOLS_def)
qed

text \<open>
  C6. A planned split can be planned as a transaction: whatever the host's clock does, \<open>plan_transaction\<close> with the split's
  outputs and the capped notes as preselection returns a plan, although it drops the dust notes the split counted as
  inputs. The fee the split keeps back is exact, so dropping one of them saves at least what it is worth.
\<close>

theorem split_can_be_planned:
  assumes "small_wallet db" "distinct (map nr_id (note_rows db))" "own_ok host"
    and "todo = filter (\<lambda>n. \<not> is_sd (oz_value n))
      (fetch_unspent_orchard_notes_with_cmx db account checkpoint (confirmed_height db account DEFAULT_CONFIRMATIONS))"
    and "plan_split (map oz_value (capped todo)) = Some (Some plan)" and "sum_list (map oz_value todo) < 10 ^ 17"
  shows "\<exists>pl. plan_transaction (ho_late host) 0 db account (mask_bits (from_pool 2)) (split_recipients host plan) False
      (Some DEFAULT_CONFIRMATIONS) False None True (Some (map oz_id (capped todo))) (ho_ironwood_active host) = Ret (Inr (Inr pl))"
  using assms by (rule split_planned)

section \<open>A denomination migrates exactly\<close>

lemma migrate_fee:
  "zip317_fee True [0, 0, 1, 0] (own_outs [(3, a)] cp) = (if cp = 0 then 25000 else if cp = 1 then 30000 else 20000)" if "cp < 4"
  using that by (auto simp: less_4_cases own_outs_def pools4 zip317_fee_def zip317_actions_def zip317_padded_def COST_PER_ACTION_def numeral_2_eq_2 numeral_3_eq_3)

text \<open>
  C7. A standard denomination pays for its own migration. For every confirmed, unspent and unreserved Orchard note of a
  standard denomination, planning to send the denomination without its padding to Ironwood succeeds, spends the note,
  pays exactly the padding as fee and leaves no change; the amount received is a pure power of ten.
\<close>

theorem denomination_migrates_exactly:
  assumes "small_wallet db" "distinct (map nr_id (note_rows db))" "own_ok host"
    and "note \<in> set (fetch_unspent_orchard_notes_with_cmx db account checkpoint (confirmed_height db account DEFAULT_CONFIRMATIONS))"
    and "is_sd (oz_value note)"
  shows "is_iw_sd (oz_value note - SD_FEE_PAD) \<and>
    (\<exists>pl. plan_transaction (ho_late host) 0 db account (mask_bits (from_pool 2)) [own_recipient host 3 (oz_value note - SD_FEE_PAD)] False
      (Some DEFAULT_CONFIRMATIONS) False None True (Some [oz_id note]) (ho_ironwood_active host) = Ret (Inr (Inr pl))
    \<and> pl_fee pl = SD_FEE_PAD \<and> pl_change pl = 0 \<and> map sn_amount (sel_inputs (pl_selection pl)) = [oz_value note])"
proof -
  let ?h = "confirmed_height db account DEFAULT_CONFIRMATIONS" and ?pas = "[(3, oz_value note - SD_FEE_PAD)]"
  let ?os = "map (\<lambda>(p, a). \<lparr>so_pool = p, so_amount = a, so_asset = 0\<rparr>) ?pas"
  obtain n where n: "n \<in> set (orchard_rows db account ?h)" "note = to_oz db checkpoint n" using assms(4) by (auto simp: fetch_to_oz)
  have v: "oz_value note = nat (nr_value n)" "oz_value note < 2 ^ 61" "oz_id note = nr_id n"
    using n small_values_u63 [OF assms(1)] value_le_sum [of "note_rows db" n] assms(1)
    by (auto simp: values_u63_def as_u64_exact orchard_rows_def small_wallet_def)
  have pad: "SD_FEE_PAD < oz_value note" "SD_FEE_PAD = 20000" using assms(5) by (simp_all add: is_sd_def SD_FEE_PAD_def COST_PER_ACTION_def)
  define kept where "kept = kept_rows db account ?h [oz_id note]"
  have "distinct (map nr_id (orchard_rows db account ?h))" using assms(2) by (simp add: orchard_rows_def distinct_map_filter)
  then have "filter (\<lambda>m. nr_id m = nr_id n) (orchard_rows db account ?h) = [n]" using n(1) by (rule filter_unique)
  then have kept: "kept = [n]" using pad v by (simp add: kept_def kept_rows_def COST_PER_ACTION_def flip: filter_filter)
  have "oz_value note = oz_value note - SD_FEE_PAD + 20000" using pad by simp
  then have "sum_list (map snd ?pas) + zip317_fee True [0, 0, length kept, 0] (own_outs ?pas 2) \<le> sum_list (map (\<lambda>n. nat (nr_value n)) kept)"
    using migrate_fee [of 2 "oz_value note - SD_FEE_PAD"] v(1) by (simp add: kept)
  then obtain sel where plan: "plan_transaction (ho_late host) 0 db account (mask_bits (from_pool 2)) (map (\<lambda>(p, a). own_recipient host p a) ?pas) False
      (Some DEFAULT_CONFIRMATIONS) False None True (Some [oz_id note]) (ho_ironwood_active host)
      = Ret (Inr (Inr (build_plan [[], [], map (to_input db) kept, []] (map (\<lambda>(p, a). own_recipient host p a) ?pas) False None sel)))"
    and sel: "select_notes (ho_late host) (solver_notes [] [[], [], map (to_input db) kept, []]) ?os COST_PER_ACTION True False (snd (hd ?pas)) = Ret (Some sel)"
    using own_payment_planned [OF assms(1,2) _ assms(3) _ _ _ _ kept_def, of ?pas 2 "ho_late host" 0 "ho_ironwood_active host"] n v(3)
    by (auto simp: N_POOLS_def)
  define ns where "ns = solver_notes [] [[], [], map (to_input db) kept, []]"
  note facts = kept_solver_notes [OF assms(1) ns_def [unfolded kept_def], folded kept_def]
  obtain x where x: "ns = [x]" "sn_amount x = oz_value note" "sn_pool x = 2" "sn_asset x = 0" using facts v(1) by (auto simp: kept Cons_eq_map_conv)
  have ok: "notes_ok [x]" "outputs_ok ?os" using v(2) x by (simp_all add: notes_ok_def outputs_ok_def small_outputs_def)
  note g = select_notes_guarantee [OF sel [folded ns_def, unfolded x(1)] ok]
  have fee_le: "oz_value note - SD_FEE_PAD + sel_fee sel \<le> sum_of (\<lambda>n. sn_asset n = 0) (sel_inputs sel)" using g by (simp add: out_sum_def)
  have "mset (sel_inputs sel) \<subseteq># {#x#}" using g(1) by (auto simp: dust_filter_def split: if_splits)
  moreover have "sel_inputs sel \<noteq> []" using fee_le pad by (auto simp: sum_of_def)
  ultimately have inp: "sel_inputs sel = [x]" by (rule mset_single_list)
  have "sel_fee sel = zip317_fee True [0, 0, 1, 0] (own_outs ?pas (sel_change_pool sel))"
    using select_notes_fee [OF sel [folded ns_def, unfolded x(1)] ok] x(3) unfolding inp own_out_count
    by (simp add: own_outs_def pools4 count_of_def)
  moreover have "sel_change_pool sel < 4" using g by (simp add: N_POOLS_def)
  moreover have "sel_fee sel \<le> 20000" using fee_le pad x by (simp add: inp sum_of_def)
  ultimately have fee: "sel_fee sel = 20000" using migrate_fee by (auto split: if_splits)
  show ?thesis
    using assms(5) plan fee pad x v(2)
    by (simp add: is_sd_def build_plan_def own_recipient_def recipient_base_def Let_def inp issuance_fee_def u64_sum_def u64_add_def sat_sub_def)
qed

section \<open>The status after a step\<close>

lemma send_migration_reserves:
  assumes "send_migration host account rs ids anchor event db = (Ret (Inr e), db')"
  obtains plan a fee tx txid where "ho_build host plan a = Some (fee, tx)" "reserve_parsed_transaction account tx Required db = (Inr (), db')" "e = event fee txid"
proof -
  obtain plan a fee tx where build: "ho_build host plan a = Some (fee, tx)"
    and b: "(case broadcast host account tx db of (Inl e, db) \<Rightarrow> (Ret (Inl e), db) | (Inr txid, db) \<Rightarrow> (Ret (Inr (event fee txid)), db)) = (Ret (Inr e), db')"
    using assms unfolding send_migration_def by (auto split: run.splits sum.splits option.splits prod.splits)
  obtain txid where bc: "broadcast host account tx db = (Inr txid, db')" "e = event fee txid" using b by (auto split: prod.splits sum.splits)
  have "reserve_parsed_transaction account tx Required db = (Inr (), db')"
    using bc(1) unfolding broadcast_def by (auto split: prod.splits sum.splits option.splits)
  then show thesis using that build bc(2) by blast
qed

lemma split_event_reserves:
  assumes "migrate_step host account bucket db = Some (Ret (Inr (SplitComplete fee txid)), db')"
  obtains plan a f tx where "ho_build host plan a = Some (f, tx)" "reserve_parsed_transaction account tx Required db = (Inr (), db')"
proof -
  obtain checkpoint orchard_zec where "migration_phase host account bucket checkpoint orchard_zec db = Some (Ret (Inr (SplitComplete fee txid)), db')"
    using assms by (auto simp: migrate_step_def Let_def split: option.splits sum.splits prod.splits if_splits)
  then obtain rs ids anchor event where "send_migration host account rs ids anchor event db = (Ret (Inr (SplitComplete fee txid)), db')"
    by (auto simp: migration_phase_def migrate_one_def Let_def split: option.splits if_splits)
  then show thesis using that by (rule send_migration_reserves)
qed

lemma plan_split_nothing: "plan_split [] = Some None"
  by (simp add: plan_split_def u64_sum_def MIN_SD_def COST_PER_ACTION_def)

lemma status_complete:
  assumes "\<forall>n \<in> set (note_rows db). nr_account n = account \<and> nr_pool n = 2 \<and> \<not> is_spent db n \<longrightarrow> is_reserved db n"
  shows "\<exists>st. current_migration_status db account s m = Some st \<and> ms_phase st = ''complete''"
proof -
  have none: "filter (\<lambda>n. in_pool n = 2 \<and> in_asset_base n = ZEC_BASE) (fetch_unspent_notes_grouped_by_pool db account) = []"
    using assms by (auto simp: fetch_unspent_notes_grouped_by_pool_def fetch_to_input filter_empty_conv)
  show ?thesis unfolding current_migration_status_def Let_def none by (simp add: has_split_transaction_def plan_split_nothing)
qed


section \<open>Anchors of a migration\<close>


section \<open>Examples\<close>

definition mig_db :: Db where
  "mig_db = ex_db\<lparr>note_rows := [ex_note_1\<lparr>nr_value := 130000000\<rparr>, ex_note_2\<lparr>nr_height := 100, nr_pool := 2, nr_value := 120000\<rparr>], spends := []\<rparr>"

definition mig_host :: Host where
  "mig_host = \<lparr>ho_latest_height = Some 125, ho_own_address = Some (Some 3), ho_ironwood_active = True, ho_late = (\<lambda>_. False),
     ho_build = (\<lambda>plan anchor. Some (80000, \<lparr>pa_txid = [9], pa_expiry_height = 200, pa_inputs = map nr_nullifier (note_rows mig_db)\<rparr>)),
     ho_send = (\<lambda>tx. Some \<lparr>bo_error_code = 0, bo_message = ''id''\<rparr>)\<rparr>"

definition mig_plan :: SplitPlan where
  "mig_plan = \<lparr>sp_digits = [(100020000, 1), (10020000, 2), (1020000, 9), (120000, 2)], sp_remainder = 520000, sp_total = 130000000\<rparr>"

lemma mig_split: "plan_split [130000000] = Some (Some mig_plan)"
proof -
  have l: "take MAX_SPLIT_INPUTS (rev (sort [130000000])) = [130000000 :: nat]" by (simp add: MAX_SPLIT_INPUTS_def)
  have t: "u64_sum [130000000] = 130000000" by (simp add: u64_sum_def u64_add_def)
  have d: "decompose_to_sd 130000000 = ([(100020000, 1), (10020000, 2), (1020000, 9), (120000, 6)], 40000)"
    "decompose_to_sd 129500000 = ([(100020000, 1), (10020000, 2), (1020000, 9), (120000, 2)], 20000)"
    by (simp_all add: decompose_to_sd_def SD_FEE_PAD_def COST_PER_ACTION_def Let_def upt_rec)
  have f: "manager_fee (split_manager (Suc 0) 14) = 80000"
    by (simp add: split_manager_fm split_fm_fee zip317_fee_def zip317_actions_def zip317_padded_def COST_PER_ACTION_def numeral_2_eq_2)
  show ?thesis
    unfolding plan_split_def l t Let_def
    by (simp add: MIN_SD_def COST_PER_ACTION_def d sat_sub_def u64_add_def trim_done f mig_plan_def)
qed

lemma mig_sd: "\<not> is_sd 130000000" "is_sd 120000"
proof -
  show "\<not> is_sd 130000000" by (simp add: is_sd_def is_iw_sd_def SD_FEE_PAD_def COST_PER_ACTION_def)
  show "is_sd 120000" unfolding is_sd_iff by (intro exI [of _ 5]) (simp add: SD_FEE_PAD_def COST_PER_ACTION_def)
qed

lemma mig_wallet: "small_wallet mig_db" "distinct (map nr_id (note_rows mig_db))" "keys_ok mig_db" "own_ok mig_host"
  "\<not> is_spent mig_db n" "\<not> is_reserved mig_db n" "confirmed_height mig_db 1 DEFAULT_CONFIRMATIONS = 115"
  by (simp_all add: small_wallet_def mig_db_def ex_db_defs NUM_POOLS_def value_sum_def keys_ok_def own_ok_def mig_host_def is_spent_def
      is_reserved_def active_pending_spend_inputs_def confirmed_height_def get_sync_height_def sql_min_def DEFAULT_CONFIRMATIONS_def)

abbreviation mig_note :: NoteRow where "mig_note \<equiv> ex_note_1\<lparr>nr_value := 130000000\<rparr>"

abbreviation mig_sd_note :: NoteRow where "mig_sd_note \<equiv> ex_note_2\<lparr>nr_height := 100, nr_pool := 2, nr_value := 120000\<rparr>"

lemma mig_rows: "orchard_rows mig_db 1 115 = [mig_note, mig_sd_note]"
  unfolding orchard_rows_def using mig_wallet(5,6) by (simp add: mig_db_def [THEN arg_cong [where f = note_rows]] ex_db_defs)

lemma mig_values: "oz_value (to_oz mig_db c mig_note) = 130000000" "oz_value (to_oz mig_db c mig_sd_note) = 120000"
  "oz_id (to_oz mig_db c mig_note) = 1" "oz_id (to_oz mig_db c mig_sd_note) = 2"
  by (simp_all add: as_u64_def ex_db_defs)

lemma mig_todo:
  "filter (\<lambda>n. \<not> is_sd (oz_value n)) (fetch_unspent_orchard_notes_with_cmx mig_db 1 c 115) = [to_oz mig_db c mig_note]"
  by (simp only: fetch_to_oz mig_rows list.map filter.simps mig_values mig_sd if_True if_False not_True_eq_False not_False_eq_True)

lemma mig_capped: "capped [x] = [x]"
  by (simp add: capped_def MAX_SPLIT_INPUTS_def)

lemma mig_planned: "\<exists>pl. plan_transaction (ho_late mig_host) 0 mig_db 1 (mask_bits (from_pool 2)) (split_recipients mig_host mig_plan) False
    (Some DEFAULT_CONFIRMATIONS) False None True (Some [1]) (ho_ironwood_active mig_host) = Ret (Inr (Inr pl))"
proof -
  note plan = split_planned [OF mig_wallet(1,2,4) refl, where account = 1 and checkpoint = 125 and plan = mig_plan, unfolded mig_wallet(7) mig_todo mig_capped list.map mig_values]
  show ?thesis by (rule plan) (simp_all add: mig_split)
qed

theorem split_can_be_planned_witness:
  "plan_split [130000000] = Some (Some mig_plan)
   \<and> (\<exists>pl. plan_transaction (ho_late mig_host) 0 mig_db 1 (mask_bits (from_pool 2)) (split_recipients mig_host mig_plan) False
    (Some DEFAULT_CONFIRMATIONS) False None True (Some [1]) (ho_ironwood_active mig_host) = Ret (Inr (Inr pl)))"
proof -
  note plan = split_can_be_planned [OF mig_wallet(1,2,4) refl, where account = 1 and checkpoint = 125 and plan = mig_plan, unfolded mig_wallet(7) mig_todo mig_capped list.map mig_values]
  show ?thesis by (intro conjI plan) (simp_all add: mig_split)
qed

theorem denomination_migrates_exactly_witness:
  "is_iw_sd (120000 - SD_FEE_PAD) \<and>
    (\<exists>pl. plan_transaction (ho_late mig_host) 0 mig_db 1 (mask_bits (from_pool 2)) [own_recipient mig_host 3 (120000 - SD_FEE_PAD)] False
      (Some DEFAULT_CONFIRMATIONS) False None True (Some [2]) (ho_ironwood_active mig_host) = Ret (Inr (Inr pl))
    \<and> pl_fee pl = SD_FEE_PAD \<and> pl_change pl = 0 \<and> map sn_amount (sel_inputs (pl_selection pl)) = [120000])"
proof -
  have "to_oz mig_db 125 mig_sd_note \<in> set (fetch_unspent_orchard_notes_with_cmx mig_db 1 125 (confirmed_height mig_db 1 DEFAULT_CONFIRMATIONS))"
    by (simp only: fetch_to_oz mig_wallet(7) mig_rows) simp
  from denomination_migrates_exactly [OF mig_wallet(1,2,4) this, unfolded mig_values] show ?thesis using mig_sd(2) by blast
qed


lemma mig_status: "\<exists>st. current_migration_status mig_db 1 0 0 = Some st \<and> ms_phase st = ''splitting''"
proof -
  have "fetch_unspent_notes mig_db 1 = [to_input mig_db mig_note, to_input mig_db mig_sd_note]"
    unfolding fetch_to_input using mig_wallet(5,6) by (simp add: mig_db_def [THEN arg_cong [where f = note_rows]] ex_db_defs)
  then have f: "fetch_unspent_notes_grouped_by_pool mig_db 1 = [to_input mig_db mig_note, to_input mig_db mig_sd_note]"
    by (simp add: fetch_unspent_notes_grouped_by_pool_def ex_db_defs)
  have v: "in_amount (to_input mig_db mig_note) = 130000000" "in_amount (to_input mig_db mig_sd_note) = 120000"
    "in_pool (to_input mig_db mig_note) = 2" "in_pool (to_input mig_db mig_sd_note) = 2"
    "in_asset_base (to_input mig_db mig_note) = ZEC_BASE" "in_asset_base (to_input mig_db mig_sd_note) = ZEC_BASE"
    by (simp_all add: as_u64_def ex_db_defs asset_base_of_def)
  show ?thesis
    unfolding current_migration_status_def Let_def f filter.simps v
    by (simp add: mig_sd v has_split_transaction_def mig_split del: to_input_simps)
qed

definition mig_tx :: ParsedTransaction where "mig_tx = \<lparr>pa_txid = [9], pa_expiry_height = 200, pa_inputs = [[1], [2]]\<rparr>"

lemma mig_reserve: "fst (reserve_parsed_transaction 1 mig_tx Required mig_db) = Inr ()"
  by (simp add: reserve_defs mig_tx_def mig_db_def ex_db_defs)

lemma mig_host_facts: "ho_build mig_host plan a = Some (80000, mig_tx)" "ho_send mig_host tx = Some \<lparr>bo_error_code = 0, bo_message = ''id''\<rparr>"
  "ho_latest_height mig_host = Some 125" "ho_own_address mig_host = Some (Some 3)"
  by (simp_all add: mig_host_def mig_tx_def mig_db_def ex_db_defs)

lemma mig_step: "\<exists>db'. migrate_step mig_host 1 1 mig_db = Some (Ret (Inr (SplitComplete 80000 ''id'')), db')"
proof -
  have h: "get_db_height mig_db 1 = Inr (125, 7)" by (simp add: get_db_height_def get_sync_height_def sql_min_def mig_db_def ex_db_def)
  obtain pl where pl: "plan_transaction (ho_late mig_host) 0 mig_db 1 (mask_bits (from_pool 2)) (split_recipients mig_host mig_plan) False
    (Some DEFAULT_CONFIRMATIONS) False None True (Some [1]) (ho_ironwood_active mig_host) = Ret (Inr (Inr pl))" using mig_planned by blast
  obtain db' where db': "reserve_parsed_transaction 1 mig_tx Required mig_db = (Inr (), db')"
    using mig_reserve by (cases "reserve_parsed_transaction 1 mig_tx Required mig_db") (simp add: unit_eq)
  then have b: "broadcast mig_host 1 mig_tx mig_db = (Inr ''id'', db')" unfolding broadcast_def by (simp add: mig_host_facts broadcast_txid_def)
  have a: "plan_anchor mig_db 1 True None = Inr 125" unfolding plan_anchor_def h by simp
  have send: "send_migration mig_host 1 (split_recipients mig_host mig_plan) [1] None SplitComplete mig_db = (Ret (Inr (SplitComplete 80000 ''id'')), db')"
    unfolding send_migration_def pl a by (simp add: mig_host_facts b del: One_nat_def)
  have ne: "fetch_unspent_orchard_notes_with_cmx mig_db 1 125 115 \<noteq> []" by (simp add: fetch_to_oz mig_rows del: One_nat_def)
  have "migration_phase mig_host 1 1 125 (fetch_unspent_orchard_notes_with_cmx mig_db 1 125 115) mig_db = Some (Ret (Inr (SplitComplete 80000 ''id'')), db')"
    unfolding migration_phase_def Let_def mig_todo mig_capped list.map mig_values mig_split by (simp add: send del: One_nat_def)
  then show ?thesis unfolding migrate_step_def mig_host_facts h Let_def mig_wallet(7) using ne by (simp del: One_nat_def)
qed


end
