(* ===== verification/Wallet.thy ===== *)
theory Wallet
  imports ShieldedSync Addresses Accounts Migration
begin

text \<open>
  The wallet as a whole: every operation of the development that writes to the database, in any order, with any
  arguments, any server and any messages, and with other operations between the critical sections of those that leave
  the lock. The tables keep their primary keys and UNIQUE constraints throughout, so no statement of a run is
  ever refused for a key the model would have violated silently.
\<close>

section \<open>Statements keep the keys\<close>

text \<open>The contract of an operation on the database.\<close>

locale keeps_keys =
  fixes op :: "Db \<Rightarrow> Db"
  assumes keeps: "keys_ok db \<Longrightarrow> keys_ok (op db)"
begin

lemma note_once: "keys_ok db \<Longrightarrow> n \<in> set (note_rows (op db)) \<Longrightarrow> m \<in> set (note_rows (op db)) \<Longrightarrow> nr_account n = nr_account m \<Longrightarrow>
    nr_nullifier n = nr_nullifier m \<Longrightarrow> n = m"
  using keeps [of db] distinct_key_unique [of "\<lambda>n. (nr_account n, nr_nullifier n)" "note_rows (op db)" n m] by (simp add: keys_ok_def)

lemma spent_once: "keys_ok db \<Longrightarrow> s \<in> set (spends (op db)) \<Longrightarrow> t \<in> set (spends (op db)) \<Longrightarrow> sp_note s = sp_note t \<Longrightarrow> s = t"
  using keeps [of db] distinct_key_unique [of sp_note "spends (op db)" s t] by (simp add: keys_ok_def)

end

lemma keys_ok_props [simp]: "keys_ok (db\<lparr>props := p\<rparr>) = keys_ok db"
  by (simp add: keys_ok_def)

lemma keys_ok_put_prop [simp]: "keys_ok (put_prop k v db) = keys_ok db"
  by (simp add: put_prop_def)

lemma keys_ok_coverage [simp]:
  "keys_ok (write_transparent_coverage a g db) = keys_ok db" "keys_ok (retire_transparent_walks a db) = keys_ok db"
  "keys_ok (clear_transparent_coverage a db) = keys_ok db"
  by (simp_all add: write_transparent_coverage_def retire_transparent_walks_def clear_transparent_coverage_def Let_def)

lemma keys_ok_taddrs [simp]:
  "keys_ok (raise_catch_up_debt i t db) = keys_ok db" "keys_ok (clear_catch_up_debts a db) = keys_ok db"
  "keys_ok (advance_backfilled_height a b s i c t db) = keys_ok db"
  by (simp_all add: keys_ok_def raise_catch_up_debt_def clear_catch_up_debts_def advance_backfilled_height_def map_update_where)

lemma keys_ok_store_address: "keys_ok db \<Longrightarrow> keys_ok (snd (store_account_transparent_addr a s i addr db))"
  by (auto simp: keys_ok_def store_account_transparent_addr_def list_ex_iff next_rowid_notin)

lemma keys_ok_user_memo [simp]: "keys_ok (set_user_memo a i m db) = keys_ok db"
  by (simp add: set_user_memo_def keys_ok_def Let_def split: option.split)

section \<open>Accounts and rewinding\<close>

lemma keys_ok_new_account: "keys_ok db \<Longrightarrow> keys_ok (snd (store_account_metadata f b u db))"
  by (auto simp: keys_ok_def store_account_metadata_def Let_def next_rowid_notin)

lemma keys_ok_reorder: "reorder_account old new db = Inr db' \<Longrightarrow> keys_ok db \<Longrightarrow> keys_ok db'"
  by (auto simp: reorder_account_def keys_ok_def Let_def map_update_where split: option.splits)

lemma keys_ok_recover: "keys_ok db \<Longrightarrow> keys_ok (recover_from_partial_sync accs db)"
  unfolding recover_from_partial_sync_def by (rule keys_ok_fold) (auto simp: recover_account_def keys_ok_trim split: option.split)

lemma keys_ok_init: "keys_ok db \<Longrightarrow> keys_ok (init_sync_heights net a b db)"
  unfolding init_sync_heights_def Let_def by (rule keys_ok_fold) (simp_all add: keys_ok_def map_update_where)

lemma keys_ok_reset: "reset_sync net a db = Inr db' \<Longrightarrow> keys_ok db \<Longrightarrow> keys_ok db'"
  by (auto simp: reset_sync_def keys_ok_trim intro!: keys_ok_init split: option.splits)

lemma keys_ok_rewind: "rewind_sync net a h db = Inr db' \<Longrightarrow> keys_ok db \<Longrightarrow> keys_ok db'"
proof -
  have headers: "keys_ok (d\<lparr>headers := delete_where P (headers d)\<rparr>)" if "keys_ok d" for d P
    using that by (simp add: keys_ok_def distinct_map_delete)
  assume run: "rewind_sync net a h db = Inr db'" and ok: "keys_ok db"
  obtain d where d: "(case latest_checkpoint db a h of
        Some prev \<Rightarrow> Inr (retire_transparent_walks a (trim_sync_data a prev db)) | None \<Rightarrow> reset_sync net a db) = Inr d"
      and db': "db' = d\<lparr>headers := delete_where (\<lambda>x. h < hd_height x) (headers d)\<rparr>"
    using run by (auto simp: rewind_sync_def simp del: trim_tables)
  have "keys_ok d" using d ok keys_ok_reset by (auto simp: keys_ok_trim split: option.splits)
  then show "keys_ok db'" unfolding db' by (rule headers)
qed

lemma keys_ok_prune: "keys_ok db \<Longrightarrow> keys_ok (prune_old_checkpoints a h db)"
  by (auto simp: prune_old_checkpoints_def keys_ok_def distinct_map_delete split: option.split)

section \<open>The writer of a scan\<close>

lemma insert_one_Inr:
  "insert_one k rs table = Ret (Inr t) \<longleftrightarrow> (\<exists>r. rs = [r] \<and> k r \<notin> k ` set table \<and> t = table @ [r])"
  by (cases rs; cases "tl rs") (auto simp: insert_one_def)

lemma keys_ok_assets [simp]: "keys_ok (db\<lparr>assets := a\<rparr>) = keys_ok db"
  by (simp add: keys_ok_def)

lemma keys_ok_store_note:
  assumes "store_note resolve note db = Ret (Inr db')" "keys_ok db"
  shows "keys_ok db'"
proof -
  define d where "d = register_asset note db"
  define rows where "rows = concat (map (\<lambda>t. map (note_row resolve d note t) (joined_assets (dn_asset_base note) d))
      (filter (\<lambda>t. tx_account t = dn_account note \<and> tx_txid t = dn_txid note) (transactions d)))"
  obtain r where r: "rows = [r]" "(nr_account r, nr_nullifier r) \<notin> (\<lambda>n. (nr_account n, nr_nullifier n)) ` set (note_rows d)"
      "db' = d\<lparr>note_rows := note_rows d @ [r]\<rparr>"
    using assms(1) by (auto simp: store_note_def Let_def insert_one_Inr simp flip: d_def rows_def)
  have rows: "\<forall>x \<in> set rows. nr_id x = next_rowid nr_id (note_rows d)" by (auto simp: rows_def note_row_def)
  have "keys_ok d" using register_asset_facts(1) [OF assms(2)] by (simp add: d_def)
  then show ?thesis using r rows by (auto simp: keys_ok_def next_rowid_notin)
qed

lemma keys_ok_handle_message:
  assumes "handle_message wr m db = Ret (Inr db')" "keys_ok db"
  shows "keys_ok db'"
proof (cases m)
  case (MIssuance d ik base fin h)
  then show ?thesis using assms by (auto simp: handle_message_def store_issuance_def insert_asset_def Let_def)
next
  case (MTransaction a h t txid)
  then show ?thesis using assms store_transaction_facts(1) by (auto simp: handle_message_def)
next
  case (MNote x)
  then show ?thesis using assms keys_ok_store_note by (auto simp: handle_message_def)
next
  case (MWitness a h cmx w)
  then show ?thesis using assms by (auto simp: handle_message_def store_witness_def Let_def insert_one_Inr keys_ok_def)
next
  case (MSpend u)
  then show ?thesis using assms by (auto simp: handle_message_def store_spend_def Let_def insert_one_Inr keys_ok_def)
next
  case (MCheckpoint accs p h)
  then have "run_fold (checkpoint_account p h) accs db = Ret db'" using assms(1) by (auto simp: handle_message_def)
  then show ?thesis
    by (rule run_fold_invariant [where P = keys_ok]) (use assms(2) in \<open>auto simp: checkpoint_account_def keys_ok_store_synced_height\<close>)
next
  case (MBlockHeader bh)
  have "keys_ok (d\<lparr>transactions := update_where P (tx_time_update f) (transactions d)\<rparr>) = keys_ok d" for d P f
    by (simp add: keys_ok_def map_update_where)
  then show ?thesis using MBlockHeader assms by (auto simp: handle_message_def store_scanned_header_def Let_def keys_ok_store_block_header)
next
  case (MRewind accs h)
  then have "res_fold (\<lambda>a. rewind_sync (wr_network wr) a h) accs db = Inr db'" using assms(1) by (simp add: handle_message_def)
  then show ?thesis by (rule res_fold_invariant [where P = keys_ok]) (use assms(2) keys_ok_rewind in auto)
qed (use assms in \<open>simp_all add: handle_message_def\<close>)

lemma keys_ok_handle_messages: "handle_messages wr ms db = Ret (Inr db') \<Longrightarrow> keys_ok db \<Longrightarrow> keys_ok db'"
proof (induction wr ms db rule: handle_messages.induct)
  case (2 wr m ms db)
  then obtain r where r: "handle_message wr m db = Ret r" by auto
  then show ?case using 2 keys_ok_handle_message [of wr m db] by (cases r) auto
qed simp

lemma keys_ok_commit: "keys_ok db \<Longrightarrow> keys_ok (snd (commit_warp_messages wr ms db))"
  by (auto simp: commit_warp_messages_def dest: keys_ok_handle_messages split: run.split sum.split)

lemma keys_ok_write_loop: "keys_ok db \<Longrightarrow> keys_ok (snd (write_loop wr buffered ms db))"
proof (induction wr buffered ms db rule: write_loop.induct)
  case (2 wr buffered m ms db)
  obtain e d where c: "commit_warp_messages wr buffered db = (e, d)" by (cases "commit_warp_messages wr buffered db")
  then have "keys_ok d" using keys_ok_commit [OF 2(3), of wr buffered] by simp
  then show ?case using 2 c by (cases e) auto
qed (simp add: keys_ok_commit)

interpretation writer: keeps_keys "\<lambda>db. snd (write_warp_messages wr msgs db)" for wr msgs
  by unfold_locales (simp add: write_warp_messages_def keys_ok_write_loop)

section \<open>The transparent pass\<close>

lemma keys_ok_walk: "walk_windows be a b row lo e (db, k) = (r, db', k') \<Longrightarrow> keys_ok db \<Longrightarrow> keys_ok db'"
  using walk_windows_keys [of "(db, k)" be a b row lo e] by simp

lemma keys_ok_range: "sync_address_range be a row marker start e anchor (db, k) = (r, db', k') \<Longrightarrow> keys_ok db \<Longrightarrow> keys_ok db'"
  by (erule sync_address_range_cases) (auto dest: keys_ok_walk)

lemma keys_ok_addresses: "sync_addresses be start e anchor rows (db, k) = (r, db', k') \<Longrightarrow> keys_ok db \<Longrightarrow> keys_ok db'"
  by (erule sync_addresses_invariant [where I = keys_ok]) (auto dest: keys_ok_range)

interpretation transparent_pass: keeps_keys "\<lambda>db. fst (snd (transparent_sync be accs start e limit (db, k)))" for be accs start e limit k
proof unfold_locales
  fix db assume ok: "keys_ok db"
  obtain r db' k' where run: "transparent_sync be accs start e limit (db, k) = (r, db', k')" by (metis prod_cases3)
  have settle: "keys_ok d \<Longrightarrow> keys_ok (fold (settle_account e) as d)" for d as
    by (rule keys_ok_fold) (simp_all add: settle_account_def keys_ok_def map_update_where)
  from run show "keys_ok (fst (snd (transparent_sync be accs start e limit (db, k))))"
  proof (cases rule: transparent_sync_cases)
    case (walked anchor q d1 k1)
    then show ?thesis using keys_ok_addresses [OF walked(1) ok] settle run by (cases r) simp_all
  qed (use run ok in simp)
qed

section \<open>Discovery and allocation of addresses\<close>

text \<open>What others do between two critical sections keeps the keys.\<close>

definition others_valid :: "World \<Rightarrow> bool" where
  "others_valid w \<longleftrightarrow> (\<forall>k. keeps_keys (wd_between w k))"

lemma keys_ok_enter: "others_valid w \<Longrightarrow> enter w (db, k) = (db', k') \<Longrightarrow> keys_ok db \<Longrightarrow> keys_ok db'"
  using keeps_keys.keeps by (auto simp: others_valid_def enter_def)

lemma keys_ok_ingest:
  assumes "ingest_backfill_window w a b row addr s i m lo hi seam items intact (db, k) = (r, db', k')" "keys_ok db"
  shows "keys_ok db'"
proof -
  have tail: "keys_ok (fst (snd (case fill_missing_block_times (wd_backend w) (lo, hi) hs (d, n) of
      (Some e, st) \<Rightarrow> (Inl e, st)
    | (None, d, n) \<Rightarrow> (Inr intact, if intact \<and> m \<le> t then advance_backfilled_height a b s i m t d else d, n))))" if "keys_ok d" for hs d n t
    using that keys_ok_fill [of "(d, n)" "wd_backend w" "(lo, hi)" hs] by (auto split: prod.split option.split)
  have debt: "keys_ok (case owed of None \<Rightarrow> d | Some t \<Rightarrow> raise_catch_up_debt j t d) = keys_ok d" for owed d j
    by (simp split: option.split)
  have "keys_ok (fst (snd (ingest_backfill_window w a b row addr s i m lo hi seam items intact (db, k))))"
    unfolding ingest_backfill_window_def prod.case Let_def
    by (auto simp: debt assms(2) intro!: tail keys_ok_write split: Drain.split sum.split)
  then show ?thesis by (simp add: assms(1))
qed

lemma keys_ok_stored_row: "stored_row t db = (r, db') \<Longrightarrow> keys_ok db \<Longrightarrow> keys_ok db'"
  by (auto simp: stored_row_def Let_def keys_ok_store_address split: option.splits)

lemma keys_ok_window_section:
  assumes "others_valid w" "window_section w t m lo hi wk (db, k) = (r, wk', db', k')" "keys_ok db"
  shows "keys_ok db'"
proof -
  obtain d n where e: "enter w (db, k) = (d, n)" by (cases "enter w (db, k)")
  have d: "keys_ok d" by (rule keys_ok_enter [OF assms(1) e assms(3)])
  show ?thesis
    using assms(2) d unfolding window_section_def e Let_def prod.case
    by (auto split: sum.splits prod.splits if_splits option.splits dest: keys_ok_ingest keys_ok_stored_row)
qed

lemma keys_ok_walk_loop:
  "others_valid w \<Longrightarrow> keys_ok (fst st) \<Longrightarrow> keys_ok (fst (snd (walk_candidate_loop w t e win m lo wk st)))"
proof (induction w t e win m lo wk st rule: walk_candidate_loop.induct)
  case (1 w t e win m lo wk st)
  obtain db k where st: "st = (db, k)" by (cases st)
  obtain q wk1 d1 k1 where s: "window_section w t m lo (min (lo + (win - 1)) e) wk st = (q, wk1, d1, k1)" by (metis prod_cases4)
  have d1: "keys_ok d1" by (rule keys_ok_window_section [OF 1(4) s [unfolded st]]) (use 1(5) st in simp)
  show ?case
  proof (cases "e < lo")
    case True
    then show ?thesis using 1(5) by (subst walk_candidate_loop.simps) simp
  next
    case False
    note ih = 1(1-3) [OF False refl s [symmetric]]
    show ?thesis
      using False d1 s 1(4) ih by (subst walk_candidate_loop.simps) (cases q; auto simp: Let_def split: option.split)
  qed
qed

lemma keys_ok_plan_batch:
  "others_valid w \<Longrightarrow> plan_batch w d s n win dindex st = (r, st') \<Longrightarrow> keys_ok (fst st) \<Longrightarrow> keys_ok (fst st')"
proof (induction n arbitrary: win dindex st r st')
  case (Suc n)
  obtain db k where st: "st = (db, k)" by (cases st)
  obtain e k1 where enter: "enter w st = (e, k1)" by (cases "enter w st")
  have e: "keys_ok e" using keys_ok_enter [OF Suc(2), of db k e k1] enter st Suc(4) by simp
  show ?case
  proof (cases "win = 0 \<or> wd_address w s dindex = None")
    case True
    then show ?thesis using Suc(3,4) by (auto split: if_splits)
  next
    case False
    then obtain taddr where addr: "wd_address w s dindex = Some taddr" by blast
    obtain q where start: "candidate_start w (di_account d) (di_identity d) s dindex taddr (di_birth d) st = (q, e, k1)"
      by (auto simp: candidate_start_def enter)
    note run = Suc(3) [unfolded plan_batch.simps addr option.case start prod.case]
    show ?thesis
    proof (cases q)
      case (Inl x)
      then show ?thesis using run False e by auto
    next
      case (Inr start)
      obtain win' q2 st2 where "plan_batch w d s n win' (dindex + 1) (e, k1) = (q2, st2)" "st' = st2"
        using run False Inr by (auto simp: Let_def split: prod.splits sum.splits)
      then show ?thesis using Suc(1) [OF Suc(2), of win' "dindex + 1" "(e, k1)" q2 st2] e by simp
    qed
  qed
qed simp

lemma keys_ok_prefetch: "others_valid w \<Longrightarrow> prefetch w d batch (db, k) = (r, db', k') \<Longrightarrow> keys_ok db \<Longrightarrow> keys_ok db'"
  by (auto simp: prefetch_def Let_def split: if_splits prod.splits sum.splits dest: keys_ok_enter)

lemma keys_ok_ingest_batch:
  "others_valid w \<Longrightarrow> ingest_batch w d s batch prefetched p st = (r, db', k') \<Longrightarrow> keys_ok (fst st) \<Longrightarrow> keys_ok db'"
proof (induction w d s batch prefetched p st rule: ingest_batch.induct)
  case (2 w d s dindex cand batch prefetched p db k)
  show ?case
  proof (cases cand)
    case None
    then show ?thesis using 2 by (auto split: if_splits)
  next
    case (Some c)
    obtain q d1 k1 where walk: "walk_candidate w (target d s dindex (ca_taddr c)) (ca_existing c) (ca_lo c) (di_end d) (ready (hd prefetched)) (db, Suc k)
        = (q, d1, k1)" by (metis prod_cases3)
    then have "keys_ok d1" using keys_ok_walk_loop [OF 2(3), of "(db, Suc k)"] 2(5) unfolding walk_candidate_def by (metis fst_conv snd_conv)
    then show ?thesis using 2 Some walk by (auto simp: Let_def split: if_splits sum.splits)
  qed
qed simp

lemma keys_ok_discover_scope:
  "others_valid w \<Longrightarrow> discover_scope fuel w d s dindex p st = Some (r, db', k') \<Longrightarrow> keys_ok (fst st) \<Longrightarrow> keys_ok db'"
proof (induction fuel w d s dindex p st rule: discover_scope.induct)
  case (2 fuel w d s dindex p db k)
  show ?case
  proof (cases "\<not> reaches d s (pr_gap p) dindex \<or> wd_cancelled w k")
    case True
    then show ?thesis using 2 by (auto split: if_splits)
  next
    case False
    obtain q1 st1 where plan: "plan_batch w d s (certain d s (pr_gap p) dindex) (pr_width p) dindex (db, Suc k) = (q1, st1)" by (metis prod.exhaust)
    have st1: "keys_ok (fst st1)" by (rule keys_ok_plan_batch [OF 2(2) plan]) (use 2(4) in simp)
    show ?thesis
    proof (cases q1)
      case (Inl e)
      then show ?thesis using 2(3) False plan st1 by auto
    next
      case (Inr batch)
      obtain q2 d2 k2 where pre: "prefetch w d batch st1 = (q2, d2, k2)" by (metis prod_cases3)
      have d2: "keys_ok d2" using keys_ok_prefetch [OF 2(2), of d batch "fst st1" "snd st1"] pre st1 by simp
      show ?thesis
      proof (cases q2)
        case (Inl e)
        then show ?thesis using 2(3) False plan Inr pre d2 by auto
      next
        case (Inr prefetched)
        obtain q3 d3 k3 where ing: "ingest_batch w d s batch prefetched p (d2, k2) = (q3, d3, k3)" by (metis prod_cases3)
        have d3: "keys_ok d3" by (rule keys_ok_ingest_batch [OF 2(2) ing]) (use d2 in simp)
        note run = 2(3) [unfolded discover_scope.simps plan prod.case \<open>q1 = Inr batch\<close> sum.case pre \<open>q2 = Inr prefetched\<close> ing]
        show ?thesis
        proof (cases q3)
          case (Inl e)
          then show ?thesis using run False d3 by simp
        next
          case (Inr p')
          have "discover_scope fuel w d s (dindex + length batch) p' (d3, k3) = Some (r, db', k')" using run False Inr by simp
          from 2(1) [OF _ _ plan [symmetric] \<open>q1 = Inr batch\<close> pre [symmetric] \<open>q2 = Inr prefetched\<close> ing [symmetric] Inr 2(2) this] show ?thesis
            using False d3 by simp
        qed
      qed
    qed
  qed
qed simp

lemma keys_ok_discovery:
  assumes "others_valid w" "discover_transparent_addresses fuel w a e gap c (db, k) = Some (r, db', k')" "keys_ok db"
  shows "keys_ok db'"
proof -
  obtain d n where enter: "enter w (db, k) = (d, n)" by (cases "enter w (db, k)")
  have d: "keys_ok d" by (rule keys_ok_enter [OF assms(1) enter assms(3)])
  have cert: "certify w di trim p (x, j) = (q, y, j') \<Longrightarrow> keys_ok x \<Longrightarrow> keys_ok y" for di trim p x j q y j'
    by (auto simp: certify_def Let_def split: prod.splits sum.splits if_splits dest: keys_ok_enter [OF assms(1)])
  note scope = keys_ok_discover_scope [OF assms(1)]
  show ?thesis
    using assms(2) d unfolding discover_transparent_addresses_def enter Let_def prod.case
    by (auto split: option.splits sum.splits prod.splits dest!: scope cert)
qed

lemma keys_ok_allocate:
  "(\<And>k. keeps_keys (between k)) \<Longrightarrow> keys_ok (fst st) \<Longrightarrow> keys_ok (fst (snd (allocate derive between a s n st)))"
proof (induction derive between a s n st rule: allocate.induct)
  case (2 derive between a s n db k)
  have "keys_ok (between k db)" using 2(2) [of k] 2(3) by (simp add: keeps_keys.keeps)
  note stored = keys_ok_store_address [OF this]
  show ?case
  proof (cases "derive s (next_dindex db a s)")
    case (Some address)
    obtain b d where one: "store_account_transparent_addr a s (next_dindex db a s) address (between k db) = (b, d)" by (metis prod.exhaust)
    then have d: "keys_ok d" using stored [of a s "next_dindex db a s" address] by simp
    show ?thesis using 2(1) [OF refl Some one [symmetric] refl] 2(2) d by (cases b) (simp_all add: Some one Let_def)
  qed (use 2(3) in \<open>simp add: Let_def\<close>)
qed simp

lemma keys_ok_next_address:
  assumes "\<And>k. keeps_keys (between k)" "keys_ok db"
  shows "keys_ok (fst (snd (generate_next_transparent_address derive between a s (db, k))))"
proof (cases "get_transparent_keys db a")
  case (Some xvk)
  obtain q d1 k1 where run: "allocate (derive xvk) between a s ADDRESS_ALLOCATION_ATTEMPTS (db, k) = (q, d1, k1)" by (metis prod_cases3)
  then have "keys_ok d1"
    using keys_ok_allocate [where between = between and st = "(db, k)" and derive = "derive xvk" and n = ADDRESS_ALLOCATION_ATTEMPTS and a = a and s = s] assms
    by simp
  then show ?thesis by (cases q) (simp_all add: generate_next_transparent_address_def Some run)
qed (simp add: generate_next_transparent_address_def assms(2))

lemma keys_ok_next_unused: "keys_ok db \<Longrightarrow> keys_ok (snd (next_unused_receive_address derive a excluded db))"
  by (auto simp: next_unused_receive_address_def Let_def keys_ok_store_address split: option.split sum.split)

lemma keys_ok_next_dindex: "keys_ok db \<Longrightarrow> keys_ok (snd (generate_next_dindex derive find_address hw a db))"
proof -
  assume ok: "keys_ok db"
  then have "keys_ok (db\<lparr>accounts := update_where P (ac_dindex_update f) (accounts db)\<rparr>)" for P f
    by (simp add: keys_ok_def map_update_where)
  then show ?thesis using ok by (auto simp: generate_next_dindex_def Let_def keys_ok_store_address split: option.split sum.split)
qed

section \<open>Payments and migration\<close>

lemma keys_ok_reserve: "reserve_parsed_transaction a p o' db = (r, db') \<Longrightarrow> keys_ok db \<Longrightarrow> keys_ok db'"
proof (cases r)
  case (Inl e)
  moreover assume "reserve_parsed_transaction a p o' db = (r, db')" "keys_ok db"
  ultimately show ?thesis by (auto simp: reserve_parsed_transaction_def atomically_def split: if_splits sum.splits)
qed (auto dest: reserve_ok(1))

lemma keys_ok_send_migration: "send_migration host a rs ids anchor event db = (r, db') \<Longrightarrow> keys_ok db \<Longrightarrow> keys_ok db'"
  by (auto simp: send_migration_def broadcast_def split: run.splits sum.splits option.splits prod.splits dest: keys_ok_reserve)

lemma keys_ok_migrate_step: "migrate_step host a bucket db = Some (r, db') \<Longrightarrow> keys_ok db \<Longrightarrow> keys_ok db'"
  by (auto simp: migrate_step_def migration_phase_def migrate_one_def Let_def split: option.splits sum.splits prod.splits if_splits
      dest: keys_ok_send_migration)

lemma keys_ok_do_step:
  assumes "keeps_keys sync" "do_step host sync a s m allow before bucket db = Some (r, db')" "keys_ok db"
  shows "keys_ok db'"
proof -
  have sync: "keys_ok (sync db)" using assms(1,3) by (rule keeps_keys.keeps)
  show ?thesis
    using assms(2) assms(3) sync
    by (auto simp: do_step_def Let_def split: if_splits option.splits run.splits sum.splits prod.splits dest: keys_ok_migrate_step)
qed

section \<open>Runs of the wallet\<close>

text \<open>
  What the wallet may do to its database: any of its operations with any arguments, one after the other. Operations
  that leave the lock (the discovery and the allocation of addresses, a migration step that synchronizes) interleave with
  runs of the wallet themselves.
\<close>

inductive wallet_run :: "Db \<Rightarrow> Db \<Rightarrow> bool" where
  nothing: "wallet_run db db"
| sequence: "wallet_run db db' \<Longrightarrow> wallet_run db' db'' \<Longrightarrow> wallet_run db db''"
| account_new: "wallet_run db (snd (store_account_metadata fingerprint birth use_internal db))"
| account_delete: "wallet_run db (delete_account account db)"
| account_move: "reorder_account old new db = Inr db' \<Longrightarrow> wallet_run db db'"
| heights: "wallet_run db (store_synced_height account pool height db)"
| header: "wallet_run db (store_block_header h db)"
| lock: "wallet_run db (lock_note account id_note locked db)"
| lock_recent: "wallet_run db (lock_recent_notes account height threshold db)"
| toggle: "wallet_run db (toggle_all_notes account db)"
| unlock: "wallet_run db (unlock_all_notes account db)"
| user_memo: "wallet_run db (set_user_memo account id_tx memo db)"
| category: "wallet_run db (set_tx_category id_tx cat db)"
| price: "wallet_run db (set_tx_price id_tx pr db)"
| pending: "wallet_run db (store_pending_tx account height txid pr cat db)"
| reserve: "reserve_parsed_transaction account parsed own db = (r, db') \<Longrightarrow> wallet_run db db'"
| recover: "wallet_run db (recover_from_partial_sync accs db)"
| trim: "wallet_run db (trim_sync_data account height db)"
| reset: "reset_sync net account db = Inr db' \<Longrightarrow> wallet_run db db'"
| rewind: "rewind_sync net account height db = Inr db' \<Longrightarrow> wallet_run db db'"
| prune: "wallet_run db (prune_old_checkpoints account height db)"
| scan: "wallet_run db (snd (write_warp_messages wr msgs db))"
| pass: "wallet_run db (fst (snd (transparent_sync be accs start e limit (db, k))))"
| unused: "wallet_run db (snd (next_unused_receive_address derive account excluded db))"
| default: "wallet_run db (snd (generate_next_dindex derive find_address hw account db))"
| address: "(\<And>k d. wallet_run d (between k d)) \<Longrightarrow> wallet_run db (fst (snd (generate_next_transparent_address derive between account scope (db, k))))"
| discover: "(\<And>k d. wallet_run d (wd_between w k d)) \<Longrightarrow>
    discover_transparent_addresses fuel w account e gap concurrency (db, k) = Some (r, db', k') \<Longrightarrow> wallet_run db db'"
| migrate: "(\<And>d. wallet_run d (sync d)) \<Longrightarrow> do_step host sync account acc_split acc_migrate allow before bucket db = Some (r, db') \<Longrightarrow>
    wallet_run db db'"


text \<open>A new account, two scanned transactions in one commit, and an address handed out while a trim comes in between.\<close>

definition ex_run :: Db where
  "ex_run = fst (snd (generate_next_transparent_address (\<lambda>_ s i. Some (show_nat i)) (\<lambda>_. trim_sync_data 1 110) 1 0
      (snd (write_warp_messages toy_writer [MTransaction 1 130 7 [9], MTransaction 2 131 8 [9], MCommit]
        (snd (store_account_metadata None 5 False ex_db))), 0)))"


end
