(* ===== verification/SigningKey.thy ===== *)
theory SigningKey
  imports Windows
begin

text \<open>
  The envelope of a spending key (\<open>src/rust/rlz/src/pay/signing_key.rs\<close>): an era header and records of a typecode, a
  length and a value. The decoder is stricter and wider than the one of the Zcash crates: it takes one transparent or
  Sapling component alone, and refuses trailing bytes and duplicates.

  The record \<open>KeyCrate\<close> is what the code takes from the Zcash crates: the branch id of the era, the compact sizes
  (\<open>kc_read_size\<close> gives the value and the number of bytes the reader advances over), and the key types with their
  byte and text formats. What is relied on is \<open>crate_ok\<close>.
\<close>

section \<open>Definitions\<close>

definition TYPECODE_P2PKH :: nat where "TYPECODE_P2PKH = 0"

definition TYPECODE_SAPLING :: nat where "TYPECODE_SAPLING = 2"

definition TYPECODE_ORCHARD :: nat where "TYPECODE_ORCHARD = 3"

definition LEN_P2PKH :: nat where "LEN_P2PKH = 74"

definition LEN_SAPLING :: nat where "LEN_SAPLING = 169"

definition LEN_ORCHARD :: nat where "LEN_ORCHARD = 32"

lemmas component_defs = TYPECODE_P2PKH_def TYPECODE_SAPLING_def TYPECODE_ORCHARD_def LEN_P2PKH_def LEN_SAPLING_def LEN_ORCHARD_def

datatype ('t, 's, 'u) SigningKey = Unified 'u | Transparent 't | Sapling 's

text \<open>Where an envelope is cut: the header, a typecode, the length of a component, or its value.\<close>

datatype Cut = EraHeader | Typecode | Length nat | Value nat nat nat

datatype InvalidSpendingKey =
    Truncated Cut
  | UnknownEra nat
  | UnknownTypecode nat
  | BadLength nat nat nat
  | TrailingBytes nat
  | DuplicateComponent nat
  | MalformedComponent nat
  | UnsupportedCombination string
  | NoComponents

record ('t, 's, 'o, 'u) KeyCrate =
  kc_nu5 :: nat
  kc_read_size :: "bytes \<Rightarrow> (nat \<times> nat) option"
  kc_write_size :: "nat \<Rightarrow> bytes"
  kc_p2pkh :: "bytes \<Rightarrow> 't option"
  kc_sapling :: "bytes \<Rightarrow> 's option"
  kc_orchard :: "bytes \<Rightarrow> 'o option"
  kc_unified :: "bytes \<Rightarrow> 'u option"
  kc_p2pkh_bytes :: "'t \<Rightarrow> bytes"
  kc_sapling_bytes :: "'s \<Rightarrow> bytes"
  kc_xprv :: "string \<Rightarrow> 't option"
  kc_esk :: "string \<Rightarrow> 's option"

definition u32_from_le_bytes :: "bytes \<Rightarrow> nat" where
  "u32_from_le_bytes bs = sum_list (map (\<lambda>j. unat (bs ! j) * 256 ^ j) [0..<4])"

definition read_size :: "('t, 's, 'o, 'u) KeyCrate \<Rightarrow> bytes \<Rightarrow> (nat \<times> bytes) option" where
  "read_size kc bs = map_option (\<lambda>(v, n). (v, drop n bs)) (kc_read_size kc bs)"

definition expected_length :: "nat \<Rightarrow> nat option" where
  "expected_length typecode =
    (if typecode = TYPECODE_P2PKH then Some LEN_P2PKH
     else if typecode = TYPECODE_SAPLING then Some LEN_SAPLING
     else if typecode = TYPECODE_ORCHARD then Some LEN_ORCHARD
     else None)"

text \<open>One record: its typecode, its value and the bytes after it.\<close>

definition read_component :: "('t, 's, 'o, 'u) KeyCrate \<Rightarrow> bytes \<Rightarrow> InvalidSpendingKey + nat \<times> bytes \<times> bytes" where
  "read_component kc remaining =
    (case read_size kc remaining of
       None \<Rightarrow> Inl (Truncated Typecode)
     | Some (typecode, remaining) \<Rightarrow>
         (case read_size kc remaining of
            None \<Rightarrow> Inl (Truncated (Length typecode))
          | Some (len, remaining) \<Rightarrow>
              (case expected_length typecode of
                 None \<Rightarrow> Inl (UnknownTypecode typecode)
               | Some expected \<Rightarrow>
                   (if len \<noteq> expected then Inl (BadLength typecode len expected)
                    else if length remaining < len then Inl (Truncated (Value typecode len (length remaining)))
                    else Inr (typecode, take len remaining, drop len remaining)))))"

text \<open>The components found so far.\<close>

record ('t, 's) Found =
  fd_p2pkh :: "'t option"
  fd_sapling :: "'s option"
  fd_orchard :: bool

definition add_component ::
    "('t, 's, 'o, 'u) KeyCrate \<Rightarrow> nat \<Rightarrow> bytes \<Rightarrow> ('t, 's) Found \<Rightarrow> InvalidSpendingKey + ('t, 's) Found" where
  "add_component kc typecode value found =
    (if typecode = TYPECODE_P2PKH then
       (if fd_p2pkh found \<noteq> None then Inl (DuplicateComponent typecode)
        else case kc_p2pkh kc value of None \<Rightarrow> Inl (MalformedComponent typecode) | Some k \<Rightarrow> Inr (found\<lparr>fd_p2pkh := Some k\<rparr>))
     else if typecode = TYPECODE_SAPLING then
       (if fd_sapling found \<noteq> None then Inl (DuplicateComponent typecode)
        else case kc_sapling kc value of None \<Rightarrow> Inl (MalformedComponent typecode) | Some k \<Rightarrow> Inr (found\<lparr>fd_sapling := Some k\<rparr>))
     else
       (if fd_orchard found then Inl (DuplicateComponent typecode)
        else case kc_orchard kc value of None \<Rightarrow> Inl (MalformedComponent typecode) | Some _ \<Rightarrow> Inr (found\<lparr>fd_orchard := True\<rparr>)))"

definition all_found :: "('t, 's) Found \<Rightarrow> bool" where
  "all_found found \<longleftrightarrow> fd_p2pkh found \<noteq> None \<and> fd_sapling found \<noteq> None \<and> fd_orchard found"

text \<open>The match after the loop; the last case is unreachable in the code and panics.\<close>

definition combine_found :: "('t, 's) Found \<Rightarrow> (InvalidSpendingKey + ('t, 's, 'u) SigningKey) run" where
  "combine_found found =
    (case (fd_p2pkh found, fd_sapling found, fd_orchard found) of
       (Some k, None, False) \<Rightarrow> Ret (Inr (Transparent k))
     | (None, Some k, False) \<Rightarrow> Ret (Inr (Sapling k))
     | (None, None, False) \<Rightarrow> Ret (Inl NoComponents)
     | (None, None, True) \<Rightarrow> Ret (Inl (UnsupportedCombination ''orchard alone''))
     | (Some _, Some _, False) \<Rightarrow> Ret (Inl (UnsupportedCombination ''transparent+sapling''))
     | (Some _, None, True) \<Rightarrow> Ret (Inl (UnsupportedCombination ''transparent+orchard''))
     | (None, Some _, True) \<Rightarrow> Ret (Inl (UnsupportedCombination ''sapling+orchard''))
     | (Some _, Some _, True) \<Rightarrow> Panic)"

lemma read_size_length: "read_size kc bs = Some (v, rest) \<Longrightarrow> length rest \<le> length bs"
  by (auto simp: read_size_def)

lemma read_component_shorter: "read_component kc bs = Inr (t, v, rest) \<Longrightarrow> length rest < length bs"
  by (auto simp: read_component_def expected_length_def component_defs split: option.splits if_splits prod.splits
      dest!: read_size_length)

function decode_loop ::
    "('t, 's, 'o, 'u) KeyCrate \<Rightarrow> bytes \<Rightarrow> bytes \<Rightarrow> ('t, 's) Found \<Rightarrow> (InvalidSpendingKey + ('t, 's, 'u) SigningKey) run" where
  "decode_loop kc bs remaining found =
    (if remaining = [] then combine_found found
     else
       (case read_component kc remaining of
          Inl e \<Rightarrow> Ret (Inl e)
        | Inr (typecode, value, remaining) \<Rightarrow>
            (case add_component kc typecode value found of
               Inl e \<Rightarrow> Ret (Inl e)
             | Inr found \<Rightarrow>
                 (if all_found found then
                    (if remaining \<noteq> [] then Ret (Inl (TrailingBytes (length remaining)))
                     else case kc_unified kc bs of
                            None \<Rightarrow> Ret (Inl (MalformedComponent TYPECODE_P2PKH))
                          | Some usk \<Rightarrow> Ret (Inr (Unified usk)))
                  else decode_loop kc bs remaining found))))"
  by pat_completeness auto
termination
  by (relation "measure (\<lambda>(_, _, remaining, _). length remaining)") (auto dest: read_component_shorter)

declare decode_loop.simps [simp del]

definition decode :: "('t, 's, 'o, 'u) KeyCrate \<Rightarrow> bytes \<Rightarrow> (InvalidSpendingKey + ('t, 's, 'u) SigningKey) run" where
  "decode kc bs =
    (if length bs < 4 then Ret (Inl (Truncated EraHeader))
     else if u32_from_le_bytes (take 4 bs) \<noteq> kc_nu5 kc then Ret (Inl (UnknownEra (u32_from_le_bytes (take 4 bs))))
     else decode_loop kc bs (drop 4 bs) \<lparr>fd_p2pkh = None, fd_sapling = None, fd_orchard = False\<rparr>)"

definition single_component_envelope :: "('t, 's, 'o, 'u) KeyCrate \<Rightarrow> nat \<Rightarrow> bytes \<Rightarrow> bytes" where
  "single_component_envelope kc typecode value =
    u32_le_bytes (kc_nu5 kc) @ kc_write_size kc typecode @ kc_write_size kc (length value) @ value"

definition encode_transparent :: "('t, 's, 'o, 'u) KeyCrate \<Rightarrow> string \<Rightarrow> InvalidSpendingKey + bytes" where
  "encode_transparent kc xprv =
    (case kc_xprv kc xprv of
       None \<Rightarrow> Inl (MalformedComponent TYPECODE_P2PKH)
     | Some key \<Rightarrow> Inr (single_component_envelope kc TYPECODE_P2PKH (kc_p2pkh_bytes kc key)))"

definition encode_sapling :: "('t, 's, 'o, 'u) KeyCrate \<Rightarrow> string \<Rightarrow> InvalidSpendingKey + bytes" where
  "encode_sapling kc esk =
    (case kc_esk kc esk of
       None \<Rightarrow> Inl (MalformedComponent TYPECODE_SAPLING)
     | Some key \<Rightarrow> Inr (single_component_envelope kc TYPECODE_SAPLING (kc_sapling_bytes kc key)))"

section \<open>Prefix codes\<close>

text \<open>A reader that gets back what the writer wrote, whatever follows.\<close>

locale prefix_codec =
  fixes valid :: "'a \<Rightarrow> bool" and put :: "'a \<Rightarrow> bytes" and get :: "bytes \<Rightarrow> ('a \<times> bytes) option"
  assumes get_put: "valid x \<Longrightarrow> get (put x @ rest) = Some (x, rest)"
begin

lemma unambiguous: "valid x \<Longrightarrow> valid y \<Longrightarrow> put x @ r = put y @ s \<Longrightarrow> x = y \<and> r = s"
  by (metis get_put option.inject prod.inject)

end

lemma u32_le_length [simp]: "length (u32_le_bytes n) = 4"
  by (simp add: u32_le_bytes_def)

lemma u32_le_roundtrip: "n < 2 ^ 32 \<Longrightarrow> u32_from_le_bytes (u32_le_bytes n @ rest) = n"
proof -
  assume n: "n < 2 ^ 32"
  have four: "[0..<4] = [0, 1, 2, 3 :: nat]" by (simp add: upt_rec)
  have byte: "unat (word_of_nat m :: 8 word) = m mod 256" for m by (simp add: unat_of_nat)
  define a b c where "a = n div 256" and "b = a div 256" and "c = b div 256"
  have parts: "n div 65536 = b" "n div 16777216 = c" by (simp_all add: a_def b_def c_def div_mult2_eq [symmetric])
  have "c < 256" using n by (simp add: parts(2) [symmetric] less_mult_imp_div_less)
  moreover have "n = n mod 256 + a * 256" "a = a mod 256 + b * 256" "b = b mod 256 + c * 256" by (simp_all add: a_def b_def c_def)
  ultimately have "n mod 256 + a mod 256 * 256 + b mod 256 * 65536 + c mod 256 * 16777216 = n" by (simp only: mod_less)
  moreover have "u32_from_le_bytes (u32_le_bytes n @ rest) = n mod 256 + a mod 256 * 256 + b mod 256 * 65536 + c mod 256 * 16777216"
    unfolding u32_from_le_bytes_def u32_le_bytes_def four by (simp add: byte parts flip: a_def)
  ultimately show ?thesis by simp
qed

interpretation u32_le: prefix_codec "\<lambda>n. n < 2 ^ 32" u32_le_bytes
    "\<lambda>bs. if length bs < 4 then None else Some (u32_from_le_bytes (take 4 bs), drop 4 bs)"
proof unfold_locales
  fix n rest assume "n < (2 ^ 32 :: nat)"
  from u32_le_roundtrip [OF this, of "[]"]
  show "(if length (u32_le_bytes n @ rest) < 4 then None
      else Some (u32_from_le_bytes (take 4 (u32_le_bytes n @ rest)), drop 4 (u32_le_bytes n @ rest))) = Some (n, rest)" by simp
qed

section \<open>What is accepted\<close>

text \<open>The records of an envelope, and what a list of records stands for.\<close>

function records :: "('t, 's, 'o, 'u) KeyCrate \<Rightarrow> bytes \<Rightarrow> (nat \<times> bytes) list option" where
  "records kc bs =
    (if bs = [] then Some []
     else case read_component kc bs of
            Inl e \<Rightarrow> None
          | Inr (typecode, value, rest) \<Rightarrow> map_option ((#) (typecode, value)) (records kc rest))"
  by pat_completeness auto
termination
  by (relation "measure (\<lambda>(_, bs). length bs)") (auto dest: read_component_shorter)

declare records.simps [simp del]

definition component_ok :: "('t, 's, 'o, 'u) KeyCrate \<Rightarrow> nat \<times> bytes \<Rightarrow> bool" where
  "component_ok kc = (\<lambda>(t, v). t = 0 \<and> kc_p2pkh kc v \<noteq> None \<or> t = 2 \<and> kc_sapling kc v \<noteq> None \<or> t = 3 \<and> kc_orchard kc v \<noteq> None)"

definition good_records :: "('t, 's, 'o, 'u) KeyCrate \<Rightarrow> (nat \<times> bytes) list \<Rightarrow> bool" where
  "good_records kc rs \<longleftrightarrow> distinct (map fst rs) \<and> (\<forall>r \<in> set rs. component_ok kc r)"

definition stands_for :: "('t, 's, 'o, 'u) KeyCrate \<Rightarrow> bytes \<Rightarrow> (nat \<times> bytes) list \<Rightarrow> ('t, 's, 'u) SigningKey \<Rightarrow> bool" where
  "stands_for kc bs rs key \<longleftrightarrow>
    (case key of
       Transparent k \<Rightarrow> \<exists>v. rs = [(0, v)] \<and> kc_p2pkh kc v = Some k
     | Sapling k \<Rightarrow> \<exists>v. rs = [(2, v)] \<and> kc_sapling kc v = Some k
     | Unified u \<Rightarrow> fst ` set rs = {0, 2, 3} \<and> kc_unified kc bs = Some u)"

definition holds :: "('t, 's, 'o, 'u) KeyCrate \<Rightarrow> (nat \<times> bytes) list \<Rightarrow> ('t, 's) Found \<Rightarrow> bool" where
  "holds kc rs found \<longleftrightarrow> fd_p2pkh found = Option.bind (map_of rs 0) (kc_p2pkh kc) \<and>
    fd_sapling found = Option.bind (map_of rs 2) (kc_sapling kc) \<and> (fd_orchard found \<longleftrightarrow> 3 \<in> fst ` set rs)"

lemma good_snoc: "good_records kc (rs @ [(t, v)]) \<longleftrightarrow> good_records kc rs \<and> t \<notin> fst ` set rs \<and> component_ok kc (t, v)"
  by (auto simp: good_records_def)

lemma good_prefix: "good_records kc (rs @ qs) \<Longrightarrow> good_records kc rs"
  by (auto simp: good_records_def)

lemma holds_present:
  assumes "good_records kc rs" "holds kc rs found"
  shows "fd_p2pkh found \<noteq> None \<longleftrightarrow> 0 \<in> fst ` set rs" "fd_sapling found \<noteq> None \<longleftrightarrow> 2 \<in> fst ` set rs" "fd_orchard found \<longleftrightarrow> 3 \<in> fst ` set rs"
proof -
  have ok: "component_ok kc (t, v)" if "map_of rs t = Some v" for t v using map_of_SomeD [OF that] assms(1) by (auto simp: good_records_def)
  have in_iff: "t \<in> fst ` set rs \<longleftrightarrow> map_of rs t \<noteq> None" for t by (simp add: map_of_eq_None_iff)
  show "fd_p2pkh found \<noteq> None \<longleftrightarrow> 0 \<in> fst ` set rs"
    using assms(2) ok [of 0] unfolding holds_def in_iff by (cases "map_of rs 0") (auto simp: component_ok_def)
  show "fd_sapling found \<noteq> None \<longleftrightarrow> 2 \<in> fst ` set rs"
    using assms(2) ok [of 2] unfolding holds_def in_iff by (cases "map_of rs 2") (auto simp: component_ok_def)
  show "fd_orchard found \<longleftrightarrow> 3 \<in> fst ` set rs" using assms(2) by (simp add: holds_def)
qed

lemma add_component_iff:
  assumes "good_records kc rs" "holds kc rs found" "t \<in> {0, 2, 3}"
  shows "(\<exists>found'. add_component kc t v found = Inr found') \<longleftrightarrow> good_records kc (rs @ [(t, v)])"
    and "add_component kc t v found = Inr found' \<Longrightarrow> holds kc (rs @ [(t, v)]) found'"
proof -
  note present = holds_present [OF assms(1,2)]
  show "(\<exists>found'. add_component kc t v found = Inr found') \<longleftrightarrow> good_records kc (rs @ [(t, v)])"
    using assms(1,3) present unfolding good_snoc by (auto simp: add_component_def component_ok_def component_defs split: option.split)
  have absent: "map_of rs t = None" if "t \<notin> fst ` set rs" using that by (simp add: map_of_eq_None_iff)
  show "holds kc (rs @ [(t, v)]) found'" if "add_component kc t v found = Inr found'"
    using that assms(2,3) present absent
    by (auto simp: add_component_def holds_def component_defs map_add_def split: if_splits option.splits)
qed

lemma single_record: "distinct (map fst rs) \<Longrightarrow> fst ` set rs = {a} \<Longrightarrow> \<exists>v. rs = [(a, v)]"
proof (cases rs)
  case (Cons r qs)
  assume "distinct (map fst rs)" "fst ` set rs = {a}"
  then have "qs = []" "fst r = a" using Cons by (cases qs; auto)+
  then show ?thesis using Cons by (cases r) simp
qed simp

lemma good_codes: "good_records kc rs \<Longrightarrow> fst ` set rs \<subseteq> {0, 2, 3}"
  by (auto simp: good_records_def component_ok_def)

lemma combine_found_Inr:
  "combine_found found = Ret (Inr (Unified u)) \<longleftrightarrow> False"
  "combine_found found = Ret (Inr (Transparent k)) \<longleftrightarrow> fd_p2pkh found = Some k \<and> fd_sapling found = None \<and> \<not> fd_orchard found"
  "combine_found found = Ret (Inr (Sapling l)) \<longleftrightarrow> fd_p2pkh found = None \<and> fd_sapling found = Some l \<and> \<not> fd_orchard found"
  by (cases "fd_p2pkh found"; cases "fd_sapling found"; cases "fd_orchard found"; auto simp: combine_found_def)+

lemma three_set:
  assumes "X \<subseteq> {a, b, c}" "a \<noteq> b" "a \<noteq> c" "b \<noteq> c"
  shows "X = {a} \<longleftrightarrow> a \<in> X \<and> b \<notin> X \<and> c \<notin> X" and "X = {b} \<longleftrightarrow> a \<notin> X \<and> b \<in> X \<and> c \<notin> X"
    and "X = {a, b, c} \<longleftrightarrow> a \<in> X \<and> b \<in> X \<and> c \<in> X"
  using assms by blast+

lemma combine_found_iff:
  assumes "good_records kc rs" "holds kc rs found" "\<not> all_found found"
  shows "combine_found found = Ret (Inr key) \<longleftrightarrow> stands_for kc bs rs key"
proof -
  define X where "X = fst ` set rs"
  note present = holds_present [OF assms(1,2), folded X_def]
  have codes: "X \<subseteq> {0, 2, 3}" unfolding X_def by (rule good_codes [OF assms(1)])
  have one: "X = {a} \<longleftrightarrow> (\<exists>v. rs = [(a, v)])" for a
    using single_record [of rs a] assms(1) by (auto simp: good_records_def X_def)
  note sets = three_set [OF codes, simplified]
  show ?thesis
  proof (cases key)
    case (Unified u)
    have "X \<noteq> {0, 2, 3}" using assms(3) unfolding sets(3) all_found_def present .
    then show ?thesis by (simp add: Unified combine_found_Inr(1) stands_for_def X_def)
  next
    case (Transparent k)
    have "combine_found found = Ret (Inr key) \<longleftrightarrow> fd_p2pkh found = Some k \<and> X = {0}"
      unfolding Transparent combine_found_Inr sets(1) present(2,3) [symmetric] present(1) [symmetric] by auto
    then show ?thesis unfolding one using assms(2) by (auto simp: stands_for_def holds_def Transparent)
  next
    case (Sapling k)
    have "combine_found found = Ret (Inr key) \<longleftrightarrow> fd_sapling found = Some k \<and> X = {2}"
      unfolding Sapling combine_found_Inr sets(2) present(2,3) [symmetric] present(1) [symmetric] by auto
    then show ?thesis unfolding one using assms(2) by (auto simp: stands_for_def holds_def Sapling)
  qed
qed

lemma read_component_code: "read_component kc bs = Inr (t, v, rest) \<Longrightarrow> t \<in> {0, 2, 3}"
  by (auto simp: read_component_def expected_length_def component_defs split: option.splits if_splits prod.splits)

lemma records_code: "records kc bs = Some rs \<Longrightarrow> fst ` set rs \<subseteq> {0, 2, 3}"
proof (induction kc bs arbitrary: rs rule: records.induct)
  case (1 kc bs)
  show ?case
  proof (cases "bs = []")
    case True
    then show ?thesis using 1(2) by (simp add: records.simps)
  next
    case False
    then obtain t v rest qs where r: "read_component kc bs = Inr (t, v, rest)" "records kc rest = Some qs" "rs = (t, v) # qs"
      using 1(2) by (subst (asm) records.simps) (auto split: sum.splits)
    then show ?thesis using 1(1) [OF False r(1) refl refl r(2)] read_component_code [OF r(1)] by simp
  qed
qed

lemma decode_loop_iff:
  "good_records kc pre \<Longrightarrow> holds kc pre found \<Longrightarrow> \<not> all_found found \<Longrightarrow>
    decode_loop kc bs remaining found = Ret (Inr key) \<longleftrightarrow>
      (\<exists>rs. records kc remaining = Some rs \<and> good_records kc (pre @ rs) \<and> stands_for kc bs (pre @ rs) key)"
proof (induction kc bs remaining found arbitrary: pre rule: decode_loop.induct)
  case (1 kc bs remaining found)
  show ?case
  proof (cases "remaining = []")
    case True
    then show ?thesis using combine_found_iff [OF 1(2-4)] 1(2) by (simp add: decode_loop.simps records.simps)
  next
    case False
    show ?thesis
    proof (cases "read_component kc remaining")
      case (Inl e)
      then show ?thesis using False by (simp add: decode_loop.simps [of kc bs remaining] records.simps [of kc remaining])
    next
      case (Inr r)
      obtain t v rest where r: "read_component kc remaining = Inr (t, v, rest)" using Inr by (cases r) auto
      note add = add_component_iff [OF 1(2,3) read_component_code [OF r], of v]
      have recs: "records kc remaining = Some rs \<longleftrightarrow> (\<exists>qs. records kc rest = Some qs \<and> rs = (t, v) # qs)" for rs
        using False r by (auto simp: records.simps [of kc remaining])
      have good1: "good_records kc (pre @ (t, v) # qs) \<Longrightarrow> good_records kc (pre @ [(t, v)])" for qs
        by (rule good_prefix [of kc "pre @ [(t, v)]" qs]) simp
      show ?thesis
      proof (cases "add_component kc t v found")
        case (Inl e)
        then have "\<not> good_records kc (pre @ [(t, v)])" using add(1) by simp
        then show ?thesis using False r Inl good1 recs by (auto simp: decode_loop.simps [of kc bs remaining])
      next
        case (Inr found')
        have next': "good_records kc (pre @ [(t, v)])" "holds kc (pre @ [(t, v)]) found'" using add Inr by blast+
        show ?thesis
        proof (cases "all_found found'")
          case True
          have codes: "fst ` set (pre @ [(t, v)]) = {0, 2, 3}"
            using holds_present [OF next'] good_codes [OF next'(1)] True unfolding all_found_def by blast
          have end': "qs = []" if "records kc rest = Some qs" "good_records kc (pre @ (t, v) # qs)" for qs
          proof (rule ccontr)
            assume "qs \<noteq> []"
            then obtain q where q: "q \<in> set qs" by (cases qs) auto
            have "fst q \<in> fst ` set (pre @ [(t, v)])" using records_code [OF that(1)] q codes by auto
            moreover have "distinct (map fst (pre @ [(t, v)]) @ map fst qs)" using that(2) by (simp add: good_records_def)
            ultimately show False using q by (auto simp del: map_append)
          qed
          have nil: "records kc rest = Some [] \<longleftrightarrow> rest = []"
            by (subst records.simps) (auto split: sum.split)
          have run: "decode_loop kc bs remaining found = (if rest \<noteq> [] then Ret (Inl (TrailingBytes (length rest)))
              else case kc_unified kc bs of None \<Rightarrow> Ret (Inl (MalformedComponent TYPECODE_P2PKH)) | Some usk \<Rightarrow> Ret (Inr (Unified usk)))"
            using False r Inr True by (simp add: decode_loop.simps [of kc bs remaining])
          have for': "stands_for kc bs (pre @ [(t, v)]) key \<longleftrightarrow> (\<exists>u. key = Unified u \<and> kc_unified kc bs = Some u)"
            using codes by (cases key) (auto simp: stands_for_def)
          have "(\<exists>rs. records kc remaining = Some rs \<and> good_records kc (pre @ rs) \<and> stands_for kc bs (pre @ rs) key) \<longleftrightarrow>
              rest = [] \<and> stands_for kc bs (pre @ [(t, v)]) key"
            using recs end' nil next'(1) by (auto simp: nil [symmetric])
          then show ?thesis unfolding run for' by (auto split: option.split)
        next
          case more: False
          have "decode_loop kc bs remaining found = decode_loop kc bs rest found'"
            using False r Inr more by (simp add: decode_loop.simps [of kc bs remaining])
          then show ?thesis using 1(1) [OF False r refl refl Inr more next' more] recs by auto
        qed
      qed
    qed
  qed
qed

lemma decode_loop_returns: "\<not> all_found found \<Longrightarrow> decode_loop kc bs remaining found \<noteq> Panic"
proof (induction kc bs remaining found rule: decode_loop.induct)
  case (1 kc bs remaining found)
  have "combine_found found \<noteq> Panic" using 1(2) by (auto simp: combine_found_def all_found_def split: option.split bool.split)
  then show ?case
    using 1(1) by (subst decode_loop.simps) (auto split: sum.split option.split)
qed

lemma decode_iff:
  "decode kc bs = Ret (Inr key) \<longleftrightarrow> 4 \<le> length bs \<and> u32_from_le_bytes (take 4 bs) = kc_nu5 kc \<and>
    (\<exists>rs. records kc (drop 4 bs) = Some rs \<and> good_records kc rs \<and> stands_for kc bs rs key)"
proof -
  have "good_records kc []" "holds kc [] \<lparr>fd_p2pkh = None, fd_sapling = None, fd_orchard = False\<rparr>"
    "\<not> all_found \<lparr>fd_p2pkh = None, fd_sapling = None, fd_orchard = False\<rparr>"
    by (simp_all add: good_records_def holds_def all_found_def)
  from decode_loop_iff [OF this, of bs "drop 4 bs" key] show ?thesis by (auto simp: decode_def)
qed

text \<open>
  C10. Exactly the documented envelopes are accepted. The decoder never panics, and it returns a key exactly for a four-byte
  header of the era followed by well-formed records to the last byte, each with a typecode of its own, that are one
  transparent or one Sapling component alone or all three components in any order.
\<close>

theorem decode_accepts:
  "decode kc bs \<noteq> Panic \<and>
   (decode kc bs = Ret (Inr key) \<longleftrightarrow> 4 \<le> length bs \<and> u32_from_le_bytes (take 4 bs) = kc_nu5 kc \<and>
    (\<exists>rs. records kc (drop 4 bs) = Some rs \<and> distinct (map fst rs) \<and> list_all (component_ok kc) rs \<and>
      (case key of
         Transparent k \<Rightarrow> \<exists>v. rs = [(0, v)] \<and> kc_p2pkh kc v = Some k
       | Sapling k \<Rightarrow> \<exists>v. rs = [(2, v)] \<and> kc_sapling kc v = Some k
       | Unified u \<Rightarrow> fst ` set rs = {0, 2, 3} \<and> kc_unified kc bs = Some u)))"
proof
  show "decode kc bs \<noteq> Panic" by (simp add: decode_def decode_loop_returns all_found_def)
  show "decode kc bs = Ret (Inr key) \<longleftrightarrow> 4 \<le> length bs \<and> u32_from_le_bytes (take 4 bs) = kc_nu5 kc \<and>
    (\<exists>rs. records kc (drop 4 bs) = Some rs \<and> distinct (map fst rs) \<and> list_all (component_ok kc) rs \<and>
      (case key of
         Transparent k \<Rightarrow> \<exists>v. rs = [(0, v)] \<and> kc_p2pkh kc v = Some k
       | Sapling k \<Rightarrow> \<exists>v. rs = [(2, v)] \<and> kc_sapling kc v = Some k
       | Unified u \<Rightarrow> fst ` set rs = {0, 2, 3} \<and> kc_unified kc bs = Some u))"
    unfolding decode_iff good_records_def stands_for_def list_all_iff by blast
qed

section \<open>Round trip\<close>

text \<open>What the Zcash crates promise: sizes below 253 and the keys read back as written, keys of a fixed length.\<close>

definition crate_ok :: "('t, 's, 'o, 'u) KeyCrate \<Rightarrow> bool" where
  "crate_ok kc \<longleftrightarrow> kc_nu5 kc < 2 ^ 32 \<and> prefix_codec (\<lambda>n. n < 253) (kc_write_size kc) (read_size kc) \<and>
    (\<forall>k. kc_p2pkh kc (kc_p2pkh_bytes kc k) = Some k \<and> length (kc_p2pkh_bytes kc k) = LEN_P2PKH) \<and>
    (\<forall>k. kc_sapling kc (kc_sapling_bytes kc k) = Some k \<and> length (kc_sapling_bytes kc k) = LEN_SAPLING)"

lemma envelope_records:
  assumes "crate_ok kc" "expected_length t = Some (length v)"
  shows "u32_from_le_bytes (take 4 (single_component_envelope kc t v)) = kc_nu5 kc"
    and "records kc (drop 4 (single_component_envelope kc t v)) = Some [(t, v)]"
proof -
  let ?r = "kc_write_size kc t @ kc_write_size kc (length v) @ v"
  have size: "read_size kc (kc_write_size kc n @ rest) = Some (n, rest)" if "n < 253" for n rest
    using prefix_codec.get_put [of "\<lambda>n. n < 253" "kc_write_size kc" "read_size kc" n rest] assms(1) that by (simp add: crate_ok_def)
  have small: "t < 253" "length v < 253" "v \<noteq> []" using assms(2) by (auto simp: expected_length_def component_defs split: if_splits)
  then have "read_component kc ?r = Inr (t, v, [])" using assms(2) by (simp add: read_component_def size)
  then show "records kc (drop 4 (single_component_envelope kc t v)) = Some [(t, v)]"
    using small(3) by (simp add: single_component_envelope_def records.simps [of kc ?r] records.simps [of kc "[]"])
  show "u32_from_le_bytes (take 4 (single_component_envelope kc t v)) = kc_nu5 kc"
    using u32_le_roundtrip [of "kc_nu5 kc" "[]"] assms(1) by (simp add: single_component_envelope_def crate_ok_def)
qed

text \<open>
  C39. An encoded key is read back: the envelope of an extended private key decodes to the transparent key it denotes and the
  envelope of a Sapling spending key to that Sapling key, and encoding fails only for a text that denotes no key.
\<close>

theorem encode_decode:
  assumes "crate_ok kc"
  shows "(case kc_xprv kc xprv of
        None \<Rightarrow> encode_transparent kc xprv = Inl (MalformedComponent 0)
      | Some k \<Rightarrow> \<exists>bs. encode_transparent kc xprv = Inr bs \<and> decode kc bs = Ret (Inr (Transparent k)))
    \<and> (case kc_esk kc esk of
        None \<Rightarrow> encode_sapling kc esk = Inl (MalformedComponent 2)
      | Some k \<Rightarrow> \<exists>bs. encode_sapling kc esk = Inr bs \<and> decode kc bs = Ret (Inr (Sapling k)))"
proof -
  have len: "expected_length 0 = Some (length (kc_p2pkh_bytes kc k))" "expected_length 2 = Some (length (kc_sapling_bytes kc l))" for k l
    using assms by (simp_all add: crate_ok_def expected_length_def component_defs)
  have "decode kc (single_component_envelope kc 0 (kc_p2pkh_bytes kc k)) = Ret (Inr (Transparent k))"
    "decode kc (single_component_envelope kc 2 (kc_sapling_bytes kc l)) = Ret (Inr (Sapling l))" for k l
    unfolding decode_iff using envelope_records [OF assms len(1)] envelope_records [OF assms len(2)] assms
    by (simp_all add: good_records_def component_ok_def stands_for_def crate_ok_def single_component_envelope_def)
  then show ?thesis by (simp add: encode_transparent_def encode_sapling_def component_defs split: option.split)
qed

text \<open>A crate of byte-string keys with one-byte sizes.\<close>

definition toy_crate :: "(8 word, 8 word, bytes, bytes) KeyCrate" where
  "toy_crate = \<lparr>kc_nu5 = 3268858036, kc_read_size = (\<lambda>bs. case bs of [] \<Rightarrow> None | b # _ \<Rightarrow> if unat b < 253 then Some (unat b, 1) else None),
     kc_write_size = (\<lambda>n. [word_of_nat n]), kc_p2pkh = (\<lambda>bs. if length bs = 74 then Some (hd bs) else None),
     kc_sapling = (\<lambda>bs. if length bs = 169 then Some (hd bs) else None), kc_orchard = Some, kc_unified = Some,
     kc_p2pkh_bytes = replicate 74, kc_sapling_bytes = replicate 169, kc_xprv = (\<lambda>s. if s = ''x'' then Some 7 else None), kc_esk = (\<lambda>_. None)\<rparr>"

lemma toy_crate_ok: "crate_ok toy_crate"
proof -
  have "prefix_codec (\<lambda>n. n < 253) (kc_write_size toy_crate) (read_size toy_crate)"
    by unfold_locales (simp add: read_size_def toy_crate_def unat_of_nat)
  then show ?thesis by (simp add: crate_ok_def) (simp add: toy_crate_def component_defs)
qed

theorem encode_decode_witness:
  "\<exists>bs. encode_transparent toy_crate ''x'' = Inr bs \<and> decode toy_crate bs = Ret (Inr (Transparent 7))"
  using encode_decode [OF toy_crate_ok, where xprv = "''x''" and esk = "[]"] by (simp add: toy_crate_def)

end
