(* ===== verification/Signing.thy ===== *)
theory Signing
  imports SigningKey
begin

text \<open>
  Signing a planned transaction (\<open>src/rust/rlz/src/pay/plan.rs\<close>): the guard that compares a spending key with the viewing
  keys of the account, the signing of the selected spends, and the way round an external signer, which is told what to
  sign and gives back signatures of the transparent inputs.

  A \<open>Pczt\<close> holds what the code reads of a parsed transaction package. The record \<open>SignCrate\<close> is what it takes from the Zcash
  crates: the components of a unified key and their viewing keys, parsing, the update with proof generation keys, the
  derivation of transparent keys, the signer, and proving, finalizing and serializing. The signer is asked one
  signature at a time; what was signed so far is part of the model's result. \<open>DeviceCrate\<close> is the same for signatures made
  elsewhere. The key columns of the account tables are the record \<open>KeyTables\<close>, rows of an account and its viewing key.
\<close>

section \<open>Packages\<close>

type_synonym proprietary = "string \<rightharpoonup> bytes"

record PcztInput =
  pi_prevout_txid :: bytes
  pi_prevout_index :: nat
  pi_value :: nat
  pi_sequence :: "nat option"
  pi_script_pubkey :: bytes
  pi_proprietary :: proprietary

record PcztOutput =
  po_value :: nat
  po_user_address :: "string option"
  po_script_pubkey :: bytes
  po_bip32 :: "(bytes \<times> nat list) option"
  po_proprietary :: proprietary

record Pczt =
  pz_tx_version :: nat
  pz_version_group_id :: nat
  pz_consensus_branch_id :: nat
  pz_expiry_height :: nat
  pz_inputs :: "PcztInput list"
  pz_outputs :: "PcztOutput list"
  pz_sapling_spends :: "proprietary list"
  pz_sapling_outputs :: nat
  pz_orchard_actions :: nat

record PcztPackage =
  pk_pczt :: bytes
  pk_n_spends :: "nat list"
  pk_sapling_indices :: "nat list"
  pk_orchard_indices :: "nat list"
  pk_ironwood_indices :: "nat list"
  pk_can_sign :: bool
  pk_can_broadcast :: bool
  pk_price :: "int option"
  pk_category :: "nat option"
  pk_is_issuance :: bool

datatype SignError =
    KeyInvalid InvalidSpendingKey
  | KeyMismatch nat
  | NoViewingKey nat
  | PcztInvalid
  | UnsupportedBranch nat
  | SaplingIndex nat nat
  | MissingField nat nat string
  | FieldLength nat nat string nat
  | NoComponent nat
  | UpdateFailed
  | TooManyInputs nat nat
  | UnknownScope nat nat
  | HardenedIndex nat nat
  | KeyLength nat nat
  | NoSigningKey
  | SignRefused nat nat
  | FinishFailed
  | LengthsDiffer nat nat
  | IndexOutOfRange nat nat
  | DuplicateSignature nat
  | MissingSignature nat
  | NotDer nat
  | NoLockTime
  | NoAddressOf nat

definition read_proprietary_u32 :: "proprietary \<Rightarrow> string \<Rightarrow> nat \<Rightarrow> nat \<Rightarrow> SignError + nat" where
  "read_proprietary_u32 prop field pool index =
    (case prop field of
       None \<Rightarrow> Inl (MissingField pool index field)
     | Some bs \<Rightarrow> if length bs \<noteq> 4 then Inl (FieldLength pool index field (length bs)) else Inr (u32_from_le_bytes bs))"

definition read_proprietary_u32_opt :: "proprietary \<Rightarrow> string \<Rightarrow> nat \<Rightarrow> nat \<Rightarrow> SignError + nat option" where
  "read_proprietary_u32_opt prop field pool index =
    (if prop field \<noteq> None then res_bind (read_proprietary_u32 prop field pool index) (\<lambda>v. Inr (Some v)) else Inr None)"

section \<open>The guard\<close>

record KeyTables =
  kt_transparent :: "(nat \<times> bytes option) list"
  kt_sapling :: "(nat \<times> bytes option) list"
  kt_orchard :: "(nat \<times> bytes option) list"

datatype ('k, 's, 'o) Act = SignTransparent nat 'k | SignSapling nat 's | SignOrchard nat 'o | SignIronwood nat 'o

record ('t, 's, 'o, 'u, 'k) SignCrate =
  sc_usk_transparent :: "'u \<Rightarrow> 't"
  sc_usk_sapling :: "'u \<Rightarrow> 's"
  sc_usk_orchard :: "'u \<Rightarrow> 'o"
  sc_account_pubkey :: "'t \<Rightarrow> bytes"
  sc_dfvk :: "'s \<Rightarrow> bytes"
  sc_fvk :: "'o \<Rightarrow> bytes"
  sc_derive_internal :: "'s \<Rightarrow> 's"
  sc_derive_secret_key :: "'t \<Rightarrow> nat \<Rightarrow> nat \<Rightarrow> bytes option"
  sc_secret_key :: "bytes \<Rightarrow> 'k option"
  sc_parse :: "bytes \<Rightarrow> Pczt option"
  sc_branch_id :: "nat \<Rightarrow> bool"
  sc_update :: "Pczt \<Rightarrow> (nat \<times> 's) list \<Rightarrow> Pczt option"
  sc_signer :: "Pczt \<Rightarrow> bool"
  sc_sign :: "Pczt \<Rightarrow> ('k, 's, 'o) Act list \<Rightarrow> ('k, 's, 'o) Act \<Rightarrow> bool"
  sc_finish :: "Pczt \<Rightarrow> ('k, 's, 'o) Act list \<Rightarrow> bytes option"

definition signing_key_transparent :: "('t, 's, 'o, 'u, 'k) SignCrate \<Rightarrow> ('t, 's, 'u) SigningKey \<Rightarrow> 't option" where
  "signing_key_transparent sc key = (case key of Unified usk \<Rightarrow> Some (sc_usk_transparent sc usk) | Transparent tsk \<Rightarrow> Some tsk | Sapling _ \<Rightarrow> None)"

definition signing_key_sapling :: "('t, 's, 'o, 'u, 'k) SignCrate \<Rightarrow> ('t, 's, 'u) SigningKey \<Rightarrow> 's option" where
  "signing_key_sapling sc key = (case key of Unified usk \<Rightarrow> Some (sc_usk_sapling sc usk) | Sapling esk \<Rightarrow> Some esk | Transparent _ \<Rightarrow> None)"

definition signing_key_orchard :: "('t, 's, 'o, 'u, 'k) SignCrate \<Rightarrow> ('t, 's, 'u) SigningKey \<Rightarrow> 'o option" where
  "signing_key_orchard sc key = (case key of Unified usk \<Rightarrow> Some (sc_usk_orchard sc usk) | Transparent _ \<Rightarrow> None | Sapling _ \<Rightarrow> None)"

definition signing_key_transparent_pubkey :: "('t, 's, 'o, 'u, 'k) SignCrate \<Rightarrow> ('t, 's, 'u) SigningKey \<Rightarrow> bytes option" where
  "signing_key_transparent_pubkey sc key = map_option (sc_account_pubkey sc) (signing_key_transparent sc key)"

definition signing_key_sapling_dfvk :: "('t, 's, 'o, 'u, 'k) SignCrate \<Rightarrow> ('t, 's, 'u) SigningKey \<Rightarrow> bytes option" where
  "signing_key_sapling_dfvk sc key = map_option (sc_dfvk sc) (signing_key_sapling sc key)"

definition signing_key_orchard_fvk :: "('t, 's, 'o, 'u, 'k) SignCrate \<Rightarrow> ('t, 's, 'u) SigningKey \<Rightarrow> bytes option" where
  "signing_key_orchard_fvk sc key = map_option (sc_fvk sc) (signing_key_orchard sc key)"

definition require_component :: "nat \<Rightarrow> 'c option \<Rightarrow> SignError + 'c" where
  "require_component pool c = (case c of None \<Rightarrow> Inl (NoComponent pool) | Some k \<Rightarrow> Inr k)"

fun compare_keys :: "nat \<Rightarrow> ((nat \<times> bytes option) list \<times> bytes option) list \<Rightarrow> nat \<Rightarrow> SignError + nat" where
  "compare_keys account [] compared = Inr compared"
| "compare_keys account ((rows, expected) # rest) compared =
    (case map_of rows account of
       None \<Rightarrow> compare_keys account rest compared
     | Some stored \<Rightarrow>
         (if stored \<noteq> None \<and> expected = stored then compare_keys account rest (compared + 1) else Inl (KeyMismatch account)))"

definition verify_spending_key ::
    "('t, 's, 'o, 'u, 'k) SignCrate \<Rightarrow> KeyTables \<Rightarrow> nat \<Rightarrow> ('t, 's, 'u) SigningKey \<Rightarrow> SignError + unit" where
  "verify_spending_key sc kt account key =
    res_bind (compare_keys account
        [(kt_transparent kt, signing_key_transparent_pubkey sc key), (kt_sapling kt, signing_key_sapling_dfvk sc key),
         (kt_orchard kt, signing_key_orchard_fvk sc key)] 0)
      (\<lambda>compared. if compared = 0 then Inl (NoViewingKey account) else Inr ())"

section \<open>Signing with a spending key\<close>

definition sapling_ssk_for_scope :: "('t, 's, 'o, 'u, 'k) SignCrate \<Rightarrow> nat \<Rightarrow> 's \<Rightarrow> 's" where
  "sapling_ssk_for_scope sc scope ssk = (if scope = 0 then ssk else sc_derive_internal sc ssk)"

definition sapling_scope_of :: "Pczt \<Rightarrow> nat \<Rightarrow> SignError + nat \<times> nat" where
  "sapling_scope_of pczt i =
    (if i < length (pz_sapling_spends pczt)
     then res_bind (read_proprietary_u32 (pz_sapling_spends pczt ! i) ''scope'' 1 i) (\<lambda>scope. Inr (i, scope))
     else Inl (SaplingIndex i (length (pz_sapling_spends pczt))))"

fun res_map :: "('x \<Rightarrow> 'e + 'y) \<Rightarrow> 'x list \<Rightarrow> 'e + 'y list" where
  "res_map f [] = Inr []"
| "res_map f (x # xs) = res_bind (f x) (\<lambda>y. res_bind (res_map f xs) (\<lambda>ys. Inr (y # ys)))"

fun try_fold :: "('x \<Rightarrow> 'a \<Rightarrow> ('e + 'a) run) \<Rightarrow> 'x list \<Rightarrow> 'a \<Rightarrow> ('e + 'a) run" where
  "try_fold f [] a = Ret (Inr a)"
| "try_fold f (x # xs) a = run_bind (f x a) (\<lambda>r. case r of Inl e \<Rightarrow> Ret (Inl e) | Inr a \<Rightarrow> try_fold f xs a)"

definition sign_one :: "('t, 's, 'o, 'u, 'k) SignCrate \<Rightarrow> Pczt \<Rightarrow> nat \<Rightarrow> nat \<Rightarrow> ('k, 's, 'o) Act \<Rightarrow> ('k, 's, 'o) Act list
      \<Rightarrow> SignError + ('k, 's, 'o) Act list" where
  "sign_one sc pczt pool i act acts = (if sc_sign sc pczt acts act then Inr (acts @ [act]) else Inl (SignRefused pool i))"

definition sign_transparent ::
    "('t, 's, 'o, 'u, 'k) SignCrate \<Rightarrow> Pczt \<Rightarrow> ('t, 's, 'u) SigningKey \<Rightarrow> nat \<Rightarrow> ('k, 's, 'o) Act list
      \<Rightarrow> (SignError + ('k, 's, 'o) Act list) run" where
  "sign_transparent sc pczt key i acts =
    (let prop = pi_proprietary (pz_inputs pczt ! i) in
     case read_proprietary_u32 prop ''scope'' 0 i of
       Inl e \<Rightarrow> Ret (Inl e)
     | Inr scope \<Rightarrow>
         (if 1 < scope then Ret (Inl (UnknownScope i scope))
          else case read_proprietary_u32 prop ''dindex'' 0 i of
                 Inl e \<Rightarrow> Ret (Inl e)
               | Inr dindex \<Rightarrow>
                   (if 2 ^ 31 \<le> dindex then Ret (Inl (HardenedIndex i dindex))
                    else case require_component 0 (signing_key_transparent sc key) of
                           Inl e \<Rightarrow> Ret (Inl e)
                         | Inr tsk \<Rightarrow>
                             (case sc_derive_secret_key sc tsk scope dindex of
                                None \<Rightarrow> Panic
                              | Some sk \<Rightarrow>
                                  (if length sk \<noteq> 32 then Ret (Inl (KeyLength i (length sk)))
                                   else case sc_secret_key sc sk of
                                          None \<Rightarrow> Ret (Inl NoSigningKey)
                                        | Some sk \<Rightarrow> Ret (sign_one sc pczt 0 i (SignTransparent i sk) acts))))))"

definition sign_sapling ::
    "('t, 's, 'o, 'u, 'k) SignCrate \<Rightarrow> Pczt \<Rightarrow> ('t, 's, 'u) SigningKey \<Rightarrow> nat \<times> nat \<Rightarrow> ('k, 's, 'o) Act list
      \<Rightarrow> (SignError + ('k, 's, 'o) Act list) run" where
  "sign_sapling sc pczt key = (\<lambda>(i, scope) acts.
    Ret (res_bind (require_component 1 (signing_key_sapling sc key)) (\<lambda>esk.
      sign_one sc pczt 1 i (SignSapling i (sapling_ssk_for_scope sc scope esk)) acts)))"

definition sign_orchard ::
    "('t, 's, 'o, 'u, 'k) SignCrate \<Rightarrow> Pczt \<Rightarrow> ('t, 's, 'u) SigningKey \<Rightarrow> nat \<Rightarrow> ('k, 's, 'o) Act list
      \<Rightarrow> (SignError + ('k, 's, 'o) Act list) run" where
  "sign_orchard sc pczt key i acts =
    Ret (res_bind (require_component 2 (signing_key_orchard sc key)) (\<lambda>osk. sign_one sc pczt 2 i (SignOrchard i osk) acts))"

definition sign_ironwood ::
    "('t, 's, 'o, 'u, 'k) SignCrate \<Rightarrow> Pczt \<Rightarrow> ('t, 's, 'u) SigningKey \<Rightarrow> nat \<Rightarrow> ('k, 's, 'o) Act list
      \<Rightarrow> (SignError + ('k, 's, 'o) Act list) run" where
  "sign_ironwood sc pczt key i acts =
    Ret (res_bind (require_component 3 (signing_key_orchard sc key)) (\<lambda>osk. sign_one sc pczt 3 i (SignIronwood i osk) acts))"

definition try_bind :: "('e + 'a) run \<Rightarrow> ('a \<Rightarrow> ('e + 'b) run) \<Rightarrow> ('e + 'b) run" where
  "try_bind m f = run_bind m (\<lambda>r. case r of Inl e \<Rightarrow> Ret (Inl e) | Inr a \<Rightarrow> f a)"

definition update_spends ::
    "('t, 's, 'o, 'u, 'k) SignCrate \<Rightarrow> Pczt \<Rightarrow> ('t, 's, 'u) SigningKey \<Rightarrow> (nat \<times> nat) list \<Rightarrow> SignError + Pczt" where
  "update_spends sc pczt key scopes =
    (if scopes = [] then Inr pczt
     else res_bind (require_component 1 (signing_key_sapling sc key)) (\<lambda>esk.
       case sc_update sc pczt (map (\<lambda>(i, scope). (i, sapling_ssk_for_scope sc scope esk)) scopes) of
         None \<Rightarrow> Inl UpdateFailed
       | Some pczt \<Rightarrow> Inr pczt))"

definition sign_spends ::
    "('t, 's, 'o, 'u, 'k) SignCrate \<Rightarrow> Pczt \<Rightarrow> ('t, 's, 'u) SigningKey \<Rightarrow> PcztPackage \<Rightarrow> (nat \<times> nat) list
      \<Rightarrow> (SignError + ('k, 's, 'o) Act list) run" where
  "sign_spends sc pczt key package scopes =
    (let n = pk_n_spends package ! 0 in
     if length (pz_inputs pczt) < n then Ret (Inl (TooManyInputs n (length (pz_inputs pczt))))
     else
       try_bind (try_fold (sign_transparent sc pczt key) [0..<n] []) (\<lambda>acts.
       try_bind (try_fold (sign_sapling sc pczt key) scopes acts) (\<lambda>acts.
       try_bind (try_fold (sign_orchard sc pczt key) (pk_orchard_indices package) acts) (\<lambda>acts.
       try_fold (sign_ironwood sc pczt key) (pk_ironwood_indices package) acts))))"

definition sign_transaction ::
    "('t, 's, 'o, 'u) KeyCrate \<Rightarrow> ('t, 's, 'o, 'u, 'k) SignCrate \<Rightarrow> KeyTables \<Rightarrow> nat \<Rightarrow> PcztPackage \<Rightarrow> bytes
      \<Rightarrow> (SignError + PcztPackage \<times> ('k, 's, 'o) Act list) run" where
  "sign_transaction kc sc kt account package usk_bytes =
    run_bind (decode kc usk_bytes) (\<lambda>decoded.
      case decoded of
        Inl e \<Rightarrow> Ret (Inl (KeyInvalid e))
      | Inr key \<Rightarrow>
          (case verify_spending_key sc kt account key of
             Inl e \<Rightarrow> Ret (Inl e)
           | Inr _ \<Rightarrow>
               (case sc_parse sc (pk_pczt package) of
                  None \<Rightarrow> Ret (Inl PcztInvalid)
                | Some pczt \<Rightarrow>
                    (if \<not> sc_branch_id sc (pz_consensus_branch_id pczt) then Ret (Inl (UnsupportedBranch (pz_consensus_branch_id pczt)))
                     else
                       try_bind (Ret (res_map (sapling_scope_of pczt) (pk_sapling_indices package))) (\<lambda>scopes.
                       try_bind (Ret (update_spends sc pczt key scopes)) (\<lambda>pczt.
                         if \<not> sc_signer sc pczt then Panic
                         else
                           try_bind (sign_spends sc pczt key package scopes) (\<lambda>acts.
                             case sc_finish sc pczt acts of
                               None \<Rightarrow> Ret (Inl FinishFailed)
                             | Some bs \<Rightarrow>
                                 Ret (Inr (package\<lparr>pk_pczt := bs, pk_can_sign := True, pk_can_broadcast := True\<rparr>, acts)))))))))"

section \<open>Signatures from outside\<close>

record 'g DeviceCrate =
  dc_parse :: "bytes \<Rightarrow> Pczt option"
  dc_from_der :: "bytes \<Rightarrow> 'g option"
  dc_signer :: "Pczt \<Rightarrow> bool"
  dc_append :: "Pczt \<Rightarrow> (nat \<times> 'g) list \<Rightarrow> nat \<times> 'g \<Rightarrow> bool"
  dc_finalize :: "Pczt \<Rightarrow> (nat \<times> 'g) list \<Rightarrow> bytes option"

definition mark_seen :: "nat \<Rightarrow> nat \<Rightarrow> bool list \<Rightarrow> SignError + bool list" where
  "mark_seen expected i seen =
    (if expected \<le> i then Inl (IndexOutOfRange i expected)
     else if seen ! i then Inl (DuplicateSignature i)
     else Inr (seen[i := True]))"

definition check_indices :: "nat \<Rightarrow> nat list \<Rightarrow> SignError + unit" where
  "check_indices expected indices =
    res_bind (res_fold (mark_seen expected) indices (replicate expected False)) (\<lambda>seen.
      case find (\<lambda>i. \<not> seen ! i) [0..<expected] of
        Some i \<Rightarrow> Inl (MissingSignature i)
      | None \<Rightarrow> Inr ())"

definition parse_signature :: "'g DeviceCrate \<Rightarrow> nat \<times> bytes \<Rightarrow> SignError + nat \<times> 'g" where
  "parse_signature dc = (\<lambda>(i, sig). case dc_from_der dc sig of None \<Rightarrow> Inl (NotDer i) | Some g \<Rightarrow> Inr (i, g))"

definition append_signature :: "'g DeviceCrate \<Rightarrow> Pczt \<Rightarrow> nat \<times> 'g \<Rightarrow> (nat \<times> 'g) list \<Rightarrow> SignError + (nat \<times> 'g) list" where
  "append_signature dc pczt s done = (if dc_append dc pczt done s then Inr (done @ [s]) else Inl (SignRefused 0 (fst s)))"

definition apply_transparent_signatures ::
    "'g DeviceCrate \<Rightarrow> PcztPackage \<Rightarrow> nat list \<Rightarrow> bytes list \<Rightarrow> SignError + PcztPackage \<times> (nat \<times> 'g) list" where
  "apply_transparent_signatures dc package indices sigs =
    (if length indices \<noteq> length sigs then Inl (LengthsDiffer (length indices) (length sigs))
     else
       res_bind (check_indices (pk_n_spends package ! 0) indices) (\<lambda>_.
       res_bind (res_map (parse_signature dc) (zip indices sigs)) (\<lambda>signatures.
         case dc_parse dc (pk_pczt package) of
           None \<Rightarrow> Inl PcztInvalid
         | Some pczt \<Rightarrow>
             (if \<not> dc_signer dc pczt then Inl PcztInvalid
              else res_bind (res_fold (append_signature dc pczt) signatures []) (\<lambda>applied.
                case dc_finalize dc pczt applied of
                  None \<Rightarrow> Inl FinishFailed
                | Some bs \<Rightarrow> Inr (package\<lparr>pk_pczt := bs, pk_can_broadcast := True\<rparr>, applied))))))"

section \<open>Only the account's own key signs\<close>

text \<open>The viewing key of every pool the account has is the one the key derives, and there is such a pool.\<close>

definition own_key :: "('t, 's, 'o, 'u, 'k) SignCrate \<Rightarrow> KeyTables \<Rightarrow> nat \<Rightarrow> ('t, 's, 'u) SigningKey \<Rightarrow> bool" where
  "own_key sc kt account key \<longleftrightarrow>
    (\<forall>xvk. map_of (kt_transparent kt) account = Some xvk \<longrightarrow> xvk \<noteq> None \<and> signing_key_transparent_pubkey sc key = xvk) \<and>
    (\<forall>xvk. map_of (kt_sapling kt) account = Some xvk \<longrightarrow> xvk \<noteq> None \<and> signing_key_sapling_dfvk sc key = xvk) \<and>
    (\<forall>xvk. map_of (kt_orchard kt) account = Some xvk \<longrightarrow> xvk \<noteq> None \<and> signing_key_orchard_fvk sc key = xvk) \<and>
    (map_of (kt_transparent kt) account \<noteq> None \<or> map_of (kt_sapling kt) account \<noteq> None \<or> map_of (kt_orchard kt) account \<noteq> None)"

lemma compare_keys_iff:
  "compare_keys a tables c = Inr c' \<longleftrightarrow>
    (\<forall>(rows, e) \<in> set tables. \<forall>xvk. map_of rows a = Some xvk \<longrightarrow> xvk \<noteq> None \<and> e = xvk) \<and>
    c' = c + length (filter (\<lambda>(rows, e). map_of rows a \<noteq> None) tables)"
  by (induction tables arbitrary: c) (auto split: option.split prod.split)

lemma verify_iff: "verify_spending_key sc kt a key = Inr () \<longleftrightarrow> own_key sc kt a key"
  unfolding verify_spending_key_def own_key_def res_bind_eq_Inr compare_keys_iff by (auto split: if_splits)

lemma try_bind_Inr [simp]: "try_bind m f = Ret (Inr y) \<longleftrightarrow> (\<exists>x. m = Ret (Inr x) \<and> f x = Ret (Inr y))"
proof (cases m)
  case (Ret r)
  then show ?thesis by (cases r) (auto simp: try_bind_def)
qed (simp add: try_bind_def)

lemma try_fold_appends:
  assumes "try_fold f xs a = Ret (Inr b)" and "\<And>x a a'. x \<in> set xs \<Longrightarrow> f x a = Ret (Inr a') \<Longrightarrow> \<exists>y. a' = a @ [y] \<and> R x y"
  shows "\<exists>ys. b = a @ ys \<and> list_all2 R xs ys"
  using assms
proof (induction xs arbitrary: a)
  case (Cons x xs)
  obtain r where r: "f x a = Ret r" using Cons.prems(1) by auto
  then obtain a' where a': "r = Inr a'" "try_fold f xs a' = Ret (Inr b)" using Cons.prems(1) by (cases r) auto
  obtain y where y: "a' = a @ [y]" "R x y" using Cons.prems(2) [of x a a'] r a'(1) by auto
  obtain ys where "b = a' @ ys" "list_all2 R xs ys" using Cons.IH [OF a'(2)] Cons.prems(2) by auto
  then show ?case using y by (intro exI [of _ "y # ys"]) simp
qed simp

lemma res_map_Inr: "res_map f xs = Inr ys \<longleftrightarrow> list_all2 (\<lambda>x y. f x = Inr y) xs ys"
  by (induction xs arbitrary: ys) (auto simp: list_all2_Cons1)

definition signs_transparent :: "('t, 's, 'o, 'u, 'k) SignCrate \<Rightarrow> Pczt \<Rightarrow> ('t, 's, 'u) SigningKey \<Rightarrow> nat \<Rightarrow> ('k, 's, 'o) Act \<Rightarrow> bool" where
  "signs_transparent sc pczt key i act \<longleftrightarrow> i < length (pz_inputs pczt) \<and>
    (\<exists>tsk scope dindex sk k. signing_key_transparent sc key = Some tsk \<and>
      read_proprietary_u32 (pi_proprietary (pz_inputs pczt ! i)) ''scope'' 0 i = Inr scope \<and> scope \<le> 1 \<and>
      read_proprietary_u32 (pi_proprietary (pz_inputs pczt ! i)) ''dindex'' 0 i = Inr dindex \<and> dindex < 2 ^ 31 \<and>
      sc_derive_secret_key sc tsk scope dindex = Some sk \<and> sc_secret_key sc sk = Some k \<and> act = SignTransparent i k)"

definition signs_sapling :: "('t, 's, 'o, 'u, 'k) SignCrate \<Rightarrow> Pczt \<Rightarrow> ('t, 's, 'u) SigningKey \<Rightarrow> nat \<Rightarrow> ('k, 's, 'o) Act \<Rightarrow> bool" where
  "signs_sapling sc pczt key i act \<longleftrightarrow> i < length (pz_sapling_spends pczt) \<and>
    (\<exists>esk scope. signing_key_sapling sc key = Some esk \<and> read_proprietary_u32 (pz_sapling_spends pczt ! i) ''scope'' 1 i = Inr scope \<and>
      act = SignSapling i (if scope = 0 then esk else sc_derive_internal sc esk))"

lemma sign_transparent_act:
  assumes "sign_transparent sc pczt key i acts = Ret (Inr acts')" "i < length (pz_inputs pczt)"
  shows "\<exists>act. acts' = acts @ [act] \<and> signs_transparent sc pczt key i act"
  using assms by (auto simp: sign_transparent_def signs_transparent_def Let_def require_component_def sign_one_def not_less not_le
      split: sum.splits if_splits option.splits)

lemma sign_sapling_act:
  "sign_sapling sc pczt key (i, scope) acts = Ret (Inr acts') \<Longrightarrow>
    \<exists>esk. signing_key_sapling sc key = Some esk \<and> acts' = acts @ [SignSapling i (sapling_ssk_for_scope sc scope esk)]"
  by (auto simp: sign_sapling_def require_component_def sign_one_def split: if_splits option.splits)

lemma sign_orchard_act:
  "sign_orchard sc pczt key i acts = Ret (Inr acts') \<Longrightarrow> \<exists>osk. signing_key_orchard sc key = Some osk \<and> acts' = acts @ [SignOrchard i osk]"
  "sign_ironwood sc pczt key i acts = Ret (Inr acts') \<Longrightarrow> \<exists>osk. signing_key_orchard sc key = Some osk \<and> acts' = acts @ [SignIronwood i osk]"
  by (auto simp: sign_orchard_def sign_ironwood_def require_component_def sign_one_def split: if_splits option.splits)

lemma sign_spends_acts:
  assumes "sign_spends sc pczt key package scopes = Ret (Inr acts)"
  shows "\<exists>ts ss os ws. acts = ts @ ss @ os @ ws \<and> list_all2 (signs_transparent sc pczt key) [0..<pk_n_spends package ! 0] ts \<and>
    list_all2 (\<lambda>(i, scope) act. \<exists>esk. signing_key_sapling sc key = Some esk \<and> act = SignSapling i (sapling_ssk_for_scope sc scope esk)) scopes ss \<and>
    list_all2 (\<lambda>i act. \<exists>osk. signing_key_orchard sc key = Some osk \<and> act = SignOrchard i osk) (pk_orchard_indices package) os \<and>
    list_all2 (\<lambda>i act. \<exists>osk. signing_key_orchard sc key = Some osk \<and> act = SignIronwood i osk) (pk_ironwood_indices package) ws"
proof -
  let ?n = "pk_n_spends package ! 0"
  obtain a1 a2 a3 where n: "?n \<le> length (pz_inputs pczt)"
    and one: "try_fold (sign_transparent sc pczt key) [0..<?n] [] = Ret (Inr a1)"
    and two: "try_fold (sign_sapling sc pczt key) scopes a1 = Ret (Inr a2)"
    and three: "try_fold (sign_orchard sc pczt key) (pk_orchard_indices package) a2 = Ret (Inr a3)"
    and four: "try_fold (sign_ironwood sc pczt key) (pk_ironwood_indices package) a3 = Ret (Inr acts)"
    using assms by (auto simp: sign_spends_def Let_def split: if_splits)
  obtain ts where ts: "a1 = [] @ ts" "list_all2 (signs_transparent sc pczt key) [0..<?n] ts"
    using try_fold_appends [OF one, of "signs_transparent sc pczt key"] sign_transparent_act n by force
  obtain ss where ss: "a2 = a1 @ ss"
    "list_all2 (\<lambda>(i, scope) act. \<exists>esk. signing_key_sapling sc key = Some esk \<and> act = SignSapling i (sapling_ssk_for_scope sc scope esk)) scopes ss"
    using try_fold_appends [OF two, of "\<lambda>(i, scope) act. \<exists>esk. signing_key_sapling sc key = Some esk \<and> act = SignSapling i (sapling_ssk_for_scope sc scope esk)"]
      sign_sapling_act by fastforce
  obtain os where os: "a3 = a2 @ os"
    "list_all2 (\<lambda>i act. \<exists>osk. signing_key_orchard sc key = Some osk \<and> act = SignOrchard i osk) (pk_orchard_indices package) os"
    using try_fold_appends [OF three, of "\<lambda>i act. \<exists>osk. signing_key_orchard sc key = Some osk \<and> act = SignOrchard i osk"] sign_orchard_act(1) by blast
  obtain ws where ws: "acts = a3 @ ws"
    "list_all2 (\<lambda>i act. \<exists>osk. signing_key_orchard sc key = Some osk \<and> act = SignIronwood i osk) (pk_ironwood_indices package) ws"
    using try_fold_appends [OF four, of "\<lambda>i act. \<exists>osk. signing_key_orchard sc key = Some osk \<and> act = SignIronwood i osk"] sign_orchard_act(2) by blast
  show ?thesis using ts ss os ws by (intro exI [of _ ts] exI [of _ ss] exI [of _ os] exI [of _ ws]) simp
qed

lemma update_spends_keys:
  assumes "update_spends sc pczt key scopes = Inr updated"
  shows "if map fst scopes = [] then updated = pczt else \<exists>keys. map fst keys = map fst scopes \<and> sc_update sc pczt keys = Some updated"
proof (cases "scopes = []")
  case False
  then obtain esk where "sc_update sc pczt (map (\<lambda>(i, scope). (i, sapling_ssk_for_scope sc scope esk)) scopes) = Some updated"
    using assms by (auto simp: update_spends_def split: option.splits)
  moreover have "map fst (map (\<lambda>(i, scope). (i, sapling_ssk_for_scope sc scope esk)) scopes) = map fst scopes" by (simp add: case_prod_unfold)
  ultimately have "\<exists>keys. map fst keys = map fst scopes \<and> sc_update sc pczt keys = Some updated" by blast
  then show ?thesis using False by simp
qed (use assms in \<open>simp add: update_spends_def\<close>)

text \<open>
  C8. Nothing is signed with a foreign key, and exactly the selected spends are signed. When signing succeeds, the bytes decode to a
  key that derives the stored viewing key of every pool the account has, at least one; the signatures are, in order, one
  for each transparent input up to the recorded count, with a child key of scope 0 or 1 and a non-hardened index, and
  one for each selected Sapling spend, Orchard action and Ironwood action, each with the component of that key, the
  Sapling one at the scope recorded for the spend; and the package changes only in its transaction and its flags.
\<close>

theorem sign_transaction_own_spends:
  assumes "sign_transaction kc sc kt account package usk_bytes = Ret (Inr (package', acts))"
  shows "\<exists>key pczt updated ts ss os ws. decode kc usk_bytes = Ret (Inr key) \<and> own_key sc kt account key \<and>
    sc_parse sc (pk_pczt package) = Some pczt \<and>
    (if pk_sapling_indices package = [] then updated = pczt
     else \<exists>keys. map fst keys = pk_sapling_indices package \<and> sc_update sc pczt keys = Some updated) \<and> acts = ts @ ss @ os @ ws \<and>
    list_all2 (signs_transparent sc updated key) [0..<pk_n_spends package ! 0] ts \<and>
    list_all2 (signs_sapling sc pczt key) (pk_sapling_indices package) ss \<and>
    list_all2 (\<lambda>i act. \<exists>osk. signing_key_orchard sc key = Some osk \<and> act = SignOrchard i osk) (pk_orchard_indices package) os \<and>
    list_all2 (\<lambda>i act. \<exists>osk. signing_key_orchard sc key = Some osk \<and> act = SignIronwood i osk) (pk_ironwood_indices package) ws \<and>
    package' = package\<lparr>pk_pczt := pk_pczt package', pk_can_sign := True, pk_can_broadcast := True\<rparr>"
proof -
  obtain key pczt scopes updated bs where key: "decode kc usk_bytes = Ret (Inr key)" and own: "verify_spending_key sc kt account key = Inr ()"
    and pczt: "sc_parse sc (pk_pczt package) = Some pczt" and scopes: "res_map (sapling_scope_of pczt) (pk_sapling_indices package) = Inr scopes"
    and up: "update_spends sc pczt key scopes = Inr updated"
    and acts: "sign_spends sc updated key package scopes = Ret (Inr acts)"
    and package': "package' = package\<lparr>pk_pczt := bs, pk_can_sign := True, pk_can_broadcast := True\<rparr>"
  proof -
    obtain r where r: "decode kc usk_bytes = Ret r" using assms by (auto simp: sign_transaction_def)
    obtain key where key: "decode kc usk_bytes = Ret (Inr key)" using assms r by (cases r) (simp_all add: sign_transaction_def)
    have own: "verify_spending_key sc kt account key = Inr ()"
      using assms key unfolding sign_transaction_def by (auto split: sum.splits)
    obtain pczt where pczt: "sc_parse sc (pk_pczt package) = Some pczt"
      using assms key own unfolding sign_transaction_def by (auto split: option.splits)
    show thesis using assms key own pczt that unfolding sign_transaction_def by (auto split: option.splits if_splits)
  qed
  from sign_spends_acts [OF acts] obtain ts ss os ws where a: "acts = ts @ ss @ os @ ws"
      "list_all2 (signs_transparent sc updated key) [0..<pk_n_spends package ! 0] ts"
      "list_all2 (\<lambda>(i, scope) act. \<exists>esk. signing_key_sapling sc key = Some esk \<and> act = SignSapling i (sapling_ssk_for_scope sc scope esk)) scopes ss"
      "list_all2 (\<lambda>i act. \<exists>osk. signing_key_orchard sc key = Some osk \<and> act = SignOrchard i osk) (pk_orchard_indices package) os"
      "list_all2 (\<lambda>i act. \<exists>osk. signing_key_orchard sc key = Some osk \<and> act = SignIronwood i osk) (pk_ironwood_indices package) ws" by blast
  have scopes': "list_all2 (\<lambda>i x. sapling_scope_of pczt i = Inr x) (pk_sapling_indices package) scopes" using scopes by (simp add: res_map_Inr)
  have "list_all2 (signs_sapling sc pczt key) (pk_sapling_indices package) ss"
    by (rule list_all2_trans [OF _ scopes' a(3)])
      (auto simp: sapling_scope_of_def signs_sapling_def sapling_ssk_for_scope_def split: if_splits)
  moreover have "list_all2 (\<lambda>i x. i = fst x) (pk_sapling_indices package) scopes"
    using scopes' by (rule list_all2_mono) (auto simp: sapling_scope_of_def split: if_splits)
  then have "map fst scopes = pk_sapling_indices package" by (simp add: list_all2_conv_all_nth list_eq_iff_nth_eq)
  then have "if pk_sapling_indices package = [] then updated = pczt
     else \<exists>keys. map fst keys = pk_sapling_indices package \<and> sc_update sc pczt keys = Some updated"
    using update_spends_keys [OF up] by (simp only:)
  ultimately show ?thesis using key own [unfolded verify_iff] pczt a package'
    by (intro exI [of _ key] exI [of _ pczt] exI [of _ updated] exI [of _ ts] exI [of _ ss] exI [of _ os] exI [of _ ws]) simp
qed

section \<open>Every input is signed once\<close>

lemma mark_all:
  assumes "distinct indices" "\<forall>i \<in> set indices. i < expected \<and> \<not> seen ! i" "length seen = expected"
  shows "res_fold (mark_seen expected) indices seen = Inr (map (\<lambda>j. seen ! j \<or> j \<in> set indices) [0..<expected])"
  using assms
proof (induction indices arbitrary: seen)
  case Nil
  then show ?case by (auto simp: map_nth)
next
  case (Cons i js)
  have "res_fold (mark_seen expected) js (seen[i := True]) = Inr (map (\<lambda>j. seen[i := True] ! j \<or> j \<in> set js) [0..<expected])"
    by (rule Cons.IH) (use Cons.prems in \<open>auto simp: nth_list_update\<close>)
  also have "map (\<lambda>j. seen[i := True] ! j \<or> j \<in> set js) [0..<expected] = map (\<lambda>j. seen ! j \<or> j \<in> set (i # js)) [0..<expected]"
    using Cons.prems by (auto simp: nth_list_update)
  finally show ?case using Cons.prems by (simp add: mark_seen_def)
qed

lemma mark_fold_ok:
  assumes "res_fold (mark_seen expected) indices seen = Inr seen'" "length seen = expected"
  shows "distinct indices \<and> (\<forall>i \<in> set indices. i < expected \<and> \<not> seen ! i)"
  using assms
proof (induction indices arbitrary: seen)
  case (Cons i js)
  then have i: "i < expected" "\<not> seen ! i" "res_fold (mark_seen expected) js (seen[i := True]) = Inr seen'"
    by (auto simp: mark_seen_def [of expected i] split: if_splits)
  have "distinct js \<and> (\<forall>j \<in> set js. j < expected \<and> \<not> seen[i := True] ! j)" by (rule Cons.IH [OF i(3)]) (simp add: Cons.prems(2))
  then show ?case using i Cons.prems(2) by (auto simp: nth_list_update split: if_splits)
qed simp

lemma check_indices_iff: "check_indices expected indices = Inr () \<longleftrightarrow> distinct indices \<and> set indices = {0..<expected}"
proof (cases "distinct indices \<and> (\<forall>i \<in> set indices. i < expected)")
  case True
  then have run: "res_fold (mark_seen expected) indices (replicate expected False) = Inr (map (\<lambda>j. j \<in> set indices) [0..<expected])"
    using mark_all [of indices expected "replicate expected False"] by simp
  have "find (\<lambda>i. \<not> map (\<lambda>j. j \<in> set indices) [0..<expected] ! i) [0..<expected] = None \<longleftrightarrow> {0..<expected} \<subseteq> set indices"
    by (auto simp: find_None_iff)
  then show ?thesis using True run by (auto simp: check_indices_def split: option.split)
next
  case False
  then show ?thesis using mark_fold_ok [of expected indices "replicate expected False"] by (auto simp: check_indices_def)
qed

lemma append_all:
  "res_fold (append_signature dc pczt) sigs done = Inr applied \<Longrightarrow> applied = done @ sigs"
proof (induction sigs arbitrary: "done")
  case (Cons x sigs)
  then have "res_fold (append_signature dc pczt) sigs (done @ [x]) = Inr applied" by (auto simp: append_signature_def [of dc pczt x] split: if_splits)
  then show ?case using Cons.IH by fastforce
qed simp

text \<open>
  C9. Signatures from outside are taken only as a whole. The indices pass the check exactly when they are the transparent inputs
  of the package in some order, each once; and when the signatures are applied, every input has got exactly the
  signature given for it, and the package changes only in its transaction and in that it may be broadcast.
\<close>

theorem apply_transparent_signatures_complete:
  "(check_indices n indices = Inr () \<longleftrightarrow> distinct indices \<and> set indices = {0..<n}) \<and>
   (\<forall>package' applied. apply_transparent_signatures dc package indices sigs = Inr (package', applied) \<longrightarrow>
      length sigs = length indices \<and> distinct indices \<and> set indices = {0..<pk_n_spends package ! 0} \<and>
      list_all2 (\<lambda>(i, sig) (j, g). i = j \<and> dc_from_der dc sig = Some g) (zip indices sigs) applied \<and>
      package' = package\<lparr>pk_pczt := pk_pczt package', pk_can_broadcast := True\<rparr>)"
proof (intro conjI allI impI check_indices_iff)
  fix package' applied
  assume run: "apply_transparent_signatures dc package indices sigs = Inr (package', applied)"
  then obtain pczt signatures bs where len: "length sigs = length indices" and check: "check_indices (pk_n_spends package ! 0) indices = Inr ()"
    and sigs: "res_map (parse_signature dc) (zip indices sigs) = Inr signatures"
    and app: "res_fold (append_signature dc pczt) signatures [] = Inr applied"
    and package': "package' = package\<lparr>pk_pczt := bs, pk_can_broadcast := True\<rparr>"
  proof -
    have len: "length sigs = length indices" using run by (auto simp: apply_transparent_signatures_def split: if_splits)
    obtain pczt where pczt: "dc_parse dc (pk_pczt package) = Some pczt"
      using run len by (auto simp: apply_transparent_signatures_def split: option.splits)
    have "dc_signer dc pczt" using run len pczt by (auto simp: apply_transparent_signatures_def split: if_splits)
    then show thesis using run len pczt that by (auto simp: apply_transparent_signatures_def split: option.splits)
  qed
  show "length sigs = length indices" by (rule len)
  show "distinct indices" "set indices = {0..<pk_n_spends package ! 0}" using check by (simp_all add: check_indices_iff)
  have "applied = signatures" using append_all [OF app] by simp
  then have "list_all2 (\<lambda>x y. parse_signature dc x = Inr y) (zip indices sigs) applied" using sigs by (simp add: res_map_Inr)
  then show "list_all2 (\<lambda>(i, sig) (j, g). i = j \<and> dc_from_der dc sig = Some g) (zip indices sigs) applied"
    by (rule list_all2_mono) (auto simp: parse_signature_def split: option.splits)
  show "package' = package\<lparr>pk_pczt := pk_pczt package', pk_can_broadcast := True\<rparr>" by (simp add: package')
qed

section \<open>What the external signer is shown\<close>

record TransparentSigningInput =
  si_index :: nat
  si_prev_txid :: bytes
  si_prev_index :: nat
  si_value :: nat
  si_sequence :: nat
  si_scope :: nat
  si_dindex :: nat
  si_script_pubkey :: bytes

record TransparentSigningOutput =
  ot_index :: nat
  ot_value :: nat
  ot_address :: string
  ot_is_change :: bool
  ot_scope :: "nat option"
  ot_dindex :: "nat option"

record TransparentSigningRequest =
  rq_tx_version :: nat
  rq_version_group_id :: nat
  rq_consensus_branch_id :: nat
  rq_expiry_height :: nat
  rq_lock_time :: nat
  rq_sapling_spends :: nat
  rq_sapling_outputs :: nat
  rq_orchard_actions :: nat
  rq_inputs :: "TransparentSigningInput list"
  rq_outputs :: "TransparentSigningOutput list"

text \<open>
  Transaction ids and scripts are kept as the bytes whose hexadecimal digits the request carries, an id in display
  order. \<open>encode_script\<close> is the address of a standard output script and \<open>lock_time\<close> the common lock time of the inputs, both of
  the Zcash crates.
\<close>

definition transparent_output_address :: "(bytes \<Rightarrow> string option) \<Rightarrow> nat \<Rightarrow> PcztOutput \<Rightarrow> SignError + string" where
  "transparent_output_address encode_script i out =
    (case po_user_address out of
       Some address \<Rightarrow> Inr address
     | None \<Rightarrow> (case encode_script (po_script_pubkey out) of None \<Rightarrow> Inl (NoAddressOf i) | Some address \<Rightarrow> Inr address))"

definition signing_input :: "nat \<times> PcztInput \<Rightarrow> SignError + TransparentSigningInput" where
  "signing_input = (\<lambda>(i, input).
    res_bind (read_proprietary_u32 (pi_proprietary input) ''scope'' 0 i) (\<lambda>scope.
    res_bind (read_proprietary_u32 (pi_proprietary input) ''dindex'' 0 i) (\<lambda>dindex.
      Inr \<lparr>si_index = i, si_prev_txid = rev (pi_prevout_txid input), si_prev_index = pi_prevout_index input, si_value = pi_value input,
        si_sequence = (case pi_sequence input of None \<Rightarrow> 2 ^ 32 - 1 | Some s \<Rightarrow> s), si_scope = scope, si_dindex = dindex,
        si_script_pubkey = pi_script_pubkey input\<rparr>)))"

definition signing_output :: "(bytes \<Rightarrow> string option) \<Rightarrow> nat \<times> PcztOutput \<Rightarrow> SignError + TransparentSigningOutput" where
  "signing_output encode_script = (\<lambda>(i, out).
    res_bind (read_proprietary_u32_opt (po_proprietary out) ''scope'' 0 i) (\<lambda>scope.
    res_bind (read_proprietary_u32_opt (po_proprietary out) ''dindex'' 0 i) (\<lambda>dindex.
    res_bind (transparent_output_address encode_script i out) (\<lambda>address.
      Inr \<lparr>ot_index = i, ot_value = po_value out, ot_address = address, ot_is_change = (scope \<noteq> None), ot_scope = scope, ot_dindex = dindex\<rparr>))))"

definition transparent_signing_request ::
    "(bytes \<Rightarrow> Pczt option) \<Rightarrow> (Pczt \<Rightarrow> nat option) \<Rightarrow> (bytes \<Rightarrow> string option) \<Rightarrow> PcztPackage \<Rightarrow> SignError + TransparentSigningRequest" where
  "transparent_signing_request parse lock_time encode_script package =
    (case parse (pk_pczt package) of
       None \<Rightarrow> Inl PcztInvalid
     | Some pczt \<Rightarrow>
         (case lock_time pczt of
            None \<Rightarrow> Inl NoLockTime
          | Some lock \<Rightarrow>
              res_bind (res_map signing_input (enumerate 0 (pz_inputs pczt))) (\<lambda>inputs.
              res_bind (res_map (signing_output encode_script) (enumerate 0 (pz_outputs pczt))) (\<lambda>outputs.
                Inr \<lparr>rq_tx_version = pz_tx_version pczt, rq_version_group_id = pz_version_group_id pczt,
                  rq_consensus_branch_id = pz_consensus_branch_id pczt, rq_expiry_height = pz_expiry_height pczt, rq_lock_time = lock,
                  rq_sapling_spends = length (pz_sapling_spends pczt), rq_sapling_outputs = pz_sapling_outputs pczt,
                  rq_orchard_actions = pz_orchard_actions pczt, rq_inputs = inputs, rq_outputs = outputs\<rparr>))))"

record TransparentChangeLabel =
  cl_pubkey :: bytes
  cl_scope :: nat
  cl_dindex :: nat
  cl_address :: string

text \<open>The updater of the Zcash crates refuses an index past the last output.\<close>

definition update_output_with :: "nat \<Rightarrow> (PcztOutput \<Rightarrow> PcztOutput) \<Rightarrow> PcztOutput list \<Rightarrow> nat + PcztOutput list" where
  "update_output_with i f outs = (if i < length outs then Inr (outs[i := f (outs ! i)]) else Inl i)"

definition label_change :: "TransparentChangeLabel \<Rightarrow> PcztOutput \<Rightarrow> PcztOutput" where
  "label_change c out =
    out\<lparr>po_bip32 := Some (cl_pubkey c, [cl_scope c, cl_dindex c]),
        po_proprietary := (po_proprietary out)(''scope'' \<mapsto> u32_le_bytes (cl_scope c), ''dindex'' \<mapsto> u32_le_bytes (cl_dindex c),
          ''address'' \<mapsto> map (\<lambda>ch. word_of_nat (of_char ch)) (cl_address c))\<rparr>"

definition label_transparent_outputs :: "string list \<Rightarrow> TransparentChangeLabel option \<Rightarrow> PcztOutput list \<Rightarrow> nat + PcztOutput list" where
  "label_transparent_outputs recipients change outs =
    res_bind (res_fold (\<lambda>(i, address). update_output_with i (po_user_address_update (\<lambda>_. Some address))) (enumerate 0 recipients) outs) (\<lambda>outs.
      case change of None \<Rightarrow> Inr outs | Some c \<Rightarrow> update_output_with (length recipients) (label_change c) outs)"

lemma label_recipients:
  assumes "res_fold (\<lambda>(i, address). update_output_with i (po_user_address_update (\<lambda>_. Some address))) (enumerate k rs) outs = Inr outs'"
  shows "length outs' = length outs \<and> (rs \<noteq> [] \<longrightarrow> k + length rs \<le> length outs) \<and>
    (\<forall>j < length outs. outs' ! j = (if k \<le> j \<and> j < k + length rs then (outs ! j)\<lparr>po_user_address := Some (rs ! (j - k))\<rparr> else outs ! j))"
  using assms
proof (induction rs arbitrary: k outs)
  case (Cons r rs)
  define d where "d = outs[k := (outs ! k)\<lparr>po_user_address := Some r\<rparr>]"
  have k: "k < length outs" and run: "res_fold (\<lambda>(i, address). update_output_with i (po_user_address_update (\<lambda>_. Some address))) (enumerate (Suc k) rs) d = Inr outs'"
    using Cons.prems by (auto simp: update_output_with_def [of k] d_def split: if_splits)
  have nth: "d ! j = (if j = k then (outs ! k)\<lparr>po_user_address := Some r\<rparr> else outs ! j)" for j using k by (simp add: d_def nth_list_update)
  note ih = Cons.IH [OF run]
  have "outs' ! j = (if k \<le> j \<and> j < k + length (r # rs) then (outs ! j)\<lparr>po_user_address := Some ((r # rs) ! (j - k))\<rparr> else outs ! j)"
    if "j < length outs" for j
  proof (cases "j = k")
    case True
    then show ?thesis using ih k by (simp add: nth d_def)
  next
    case False
    moreover have "j - k = Suc (j - Suc k)" if "k < j" using that by simp
    ultimately show ?thesis using ih that by (auto simp: nth d_def)
  qed
  then show ?case using ih k by (auto simp: d_def)
qed auto

lemma res_map_enumerate:
  "res_map f (enumerate 0 xs) = Inr ys \<longleftrightarrow> length ys = length xs \<and> (\<forall>j < length xs. f (j, xs ! j) = Inr (ys ! j))"
  unfolding res_map_Inr list_all2_conv_all_nth by (auto simp: nth_enumerate_eq)

lemma label_change_reads:
  assumes "cl_scope c < 2 ^ 32" "cl_dindex c < 2 ^ 32"
  shows "read_proprietary_u32_opt (po_proprietary (label_change c out)) ''scope'' 0 i = Inr (Some (cl_scope c))"
    and "read_proprietary_u32_opt (po_proprietary (label_change c out)) ''dindex'' 0 i = Inr (Some (cl_dindex c))"
  using u32_le_roundtrip [OF assms(1), of "[]"] u32_le_roundtrip [OF assms(2), of "[]"]
  by (simp_all add: label_change_def read_proprietary_u32_opt_def read_proprietary_u32_def)

lemma label_change_value [simp]: "po_value (label_change c out) = po_value out"
  by (simp add: label_change_def)

lemma label_nth:
  assumes "label_transparent_outputs recipients change outs = Inr labelled"
  shows "length labelled = length outs" and "j < length outs \<Longrightarrow> labelled ! j =
      (if j < length recipients then (outs ! j)\<lparr>po_user_address := Some (recipients ! j)\<rparr>
       else case change of None \<Rightarrow> outs ! j | Some c \<Rightarrow> if j = length recipients then label_change c (outs ! j) else outs ! j)"
proof -
  obtain d where d: "res_fold (\<lambda>(i, address). update_output_with i (po_user_address_update (\<lambda>_. Some address))) (enumerate 0 recipients) outs = Inr d"
    and l: "(case change of None \<Rightarrow> Inr d | Some c \<Rightarrow> update_output_with (length recipients) (label_change c) d) = Inr labelled"
    using assms by (auto simp: label_transparent_outputs_def)
  note facts = label_recipients [OF d]
  show "length labelled = length outs" using l facts by (auto simp: update_output_with_def split: option.splits if_splits)
  show "labelled ! j = (if j < length recipients then (outs ! j)\<lparr>po_user_address := Some (recipients ! j)\<rparr>
       else case change of None \<Rightarrow> outs ! j | Some c \<Rightarrow> if j = length recipients then label_change c (outs ! j) else outs ! j)" if "j < length outs"
    using l facts that by (auto simp: update_output_with_def nth_list_update split: option.splits if_splits)
qed

text \<open>
  C40. The external signer recognises the change. When the outputs of a package are labelled by the planner, the request built from
  it shows every output with its value; the recipients come first, under the addresses given for them and not as change; and
  exactly the output after them is shown as change when there is a change label, with the derivation path recorded there.
\<close>

theorem request_shows_change:
  assumes "label_transparent_outputs recipients change outs = Inr (pz_outputs pczt)"
    and "\<forall>out \<in> set outs. po_proprietary out ''scope'' = None \<and> po_proprietary out ''dindex'' = None"
    and "\<forall>c. change = Some c \<longrightarrow> cl_scope c < 2 ^ 32 \<and> cl_dindex c < 2 ^ 32"
    and "parse (pk_pczt package) = Some pczt" and "transparent_signing_request parse lock_time encode_script package = Inr rq"
  shows "length (rq_outputs rq) = length outs \<and> (\<forall>j < length outs.
    ot_index (rq_outputs rq ! j) = j \<and> ot_value (rq_outputs rq ! j) = po_value (outs ! j) \<and>
    (j < length recipients \<longrightarrow> ot_address (rq_outputs rq ! j) = recipients ! j) \<and>
    (ot_is_change (rq_outputs rq ! j) \<longleftrightarrow> change \<noteq> None \<and> j = length recipients) \<and>
    ot_scope (rq_outputs rq ! j) = (if j = length recipients then map_option cl_scope change else None) \<and>
    ot_dindex (rq_outputs rq ! j) = (if j = length recipients then map_option cl_dindex change else None))"
proof -
  have outs: "res_map (signing_output encode_script) (enumerate 0 (pz_outputs pczt)) = Inr (rq_outputs rq)"
    using assms(4,5) by (auto simp: transparent_signing_request_def split: option.splits)
  note nth = label_nth [OF assms(1)]
  have len: "length (rq_outputs rq) = length outs" using outs nth(1) by (simp add: res_map_enumerate)
  have one: "signing_output encode_script (j, pz_outputs pczt ! j) = Inr (rq_outputs rq ! j)" if "j < length outs" for j
    using outs that nth(1) by (simp add: res_map_enumerate)
  have none: "read_proprietary_u32_opt (po_proprietary (outs ! j)) ''scope'' 0 i = Inr None"
    "read_proprietary_u32_opt (po_proprietary (outs ! j)) ''dindex'' 0 i = Inr None" if "j < length outs" for i j
    using assms(2) that by (simp_all add: read_proprietary_u32_opt_def)
  have "ot_index (rq_outputs rq ! j) = j \<and> ot_value (rq_outputs rq ! j) = po_value (outs ! j) \<and>
    (j < length recipients \<longrightarrow> ot_address (rq_outputs rq ! j) = recipients ! j) \<and>
    (ot_is_change (rq_outputs rq ! j) \<longleftrightarrow> change \<noteq> None \<and> j = length recipients) \<and>
    ot_scope (rq_outputs rq ! j) = (if j = length recipients then map_option cl_scope change else None) \<and>
    ot_dindex (rq_outputs rq ! j) = (if j = length recipients then map_option cl_dindex change else None)" if j: "j < length outs" for j
  proof -
    consider (recipient) "j < length recipients" | (change) c where "j = length recipients" "change = Some c"
      | (other) "\<not> j < length recipients" "j \<noteq> length recipients \<or> change = None" by (cases change) auto
    then show ?thesis
    proof cases
      case recipient
      then have "signing_output encode_script (j, (outs ! j)\<lparr>po_user_address := Some (recipients ! j)\<rparr>) = Inr (rq_outputs rq ! j)"
        using one [OF j] nth(2) [OF j] by simp
      then have "rq_outputs rq ! j = \<lparr>ot_index = j, ot_value = po_value (outs ! j), ot_address = recipients ! j, ot_is_change = False, ot_scope = None, ot_dindex = None\<rparr>"
        using none [OF j] by (simp add: signing_output_def transparent_output_address_def)
      then show ?thesis using recipient by simp
    next
      case (change c)
      then have run: "signing_output encode_script (j, label_change c (outs ! j)) = Inr (rq_outputs rq ! j)" using one [OF j] nth(2) [OF j] by simp
      have c: "cl_scope c < 2 ^ 32" "cl_dindex c < 2 ^ 32" using assms(3) change(2) by simp_all
      obtain a where "\<lparr>ot_index = j, ot_value = po_value (outs ! j), ot_address = a, ot_is_change = True,
          ot_scope = Some (cl_scope c), ot_dindex = Some (cl_dindex c)\<rparr> = rq_outputs rq ! j"
        using run label_change_reads [OF c] by (auto simp: signing_output_def)
      from this [symmetric] show ?thesis using change by simp
    next
      case other
      then have run: "signing_output encode_script (j, outs ! j) = Inr (rq_outputs rq ! j)" using one [OF j] nth(2) [OF j] by (auto split: option.splits)
      obtain a where "\<lparr>ot_index = j, ot_value = po_value (outs ! j), ot_address = a, ot_is_change = False, ot_scope = None, ot_dindex = None\<rparr> = rq_outputs rq ! j"
        using run none [OF j] by (auto simp: signing_output_def)
      from this [symmetric] show ?thesis using other by auto
    qed
  qed
  then show ?thesis using len by blast
qed

section \<open>Examples\<close>

text \<open>A package with one transparent input and one Sapling spend of the change scope, signed with all components.\<close>

definition ex_prop :: "nat \<Rightarrow> nat \<Rightarrow> proprietary" where
  "ex_prop scope dindex = [''scope'' \<mapsto> u32_le_bytes scope, ''dindex'' \<mapsto> u32_le_bytes dindex]"

definition ex_out :: "nat \<Rightarrow> PcztOutput" where
  "ex_out v = \<lparr>po_value = v, po_user_address = None, po_script_pubkey = [1], po_bip32 = None, po_proprietary = Map.empty\<rparr>"

definition ex_label :: TransparentChangeLabel where
  "ex_label = \<lparr>cl_pubkey = [2], cl_scope = 1, cl_dindex = 5, cl_address = ''t''\<rparr>"

definition ex_pczt :: Pczt where
  "ex_pczt = \<lparr>pz_tx_version = 5, pz_version_group_id = 1, pz_consensus_branch_id = 2, pz_expiry_height = 0,
     pz_inputs = [\<lparr>pi_prevout_txid = [1], pi_prevout_index = 0, pi_value = 100, pi_sequence = None, pi_script_pubkey = [], pi_proprietary = ex_prop 0 3\<rparr>],
     pz_outputs = [(ex_out 60)\<lparr>po_user_address := Some ''r''\<rparr>, label_change ex_label (ex_out 30)],
     pz_sapling_spends = [ex_prop 1 0], pz_sapling_outputs = 0, pz_orchard_actions = 0\<rparr>"

definition ex_package :: PcztPackage where
  "ex_package = \<lparr>pk_pczt = [], pk_n_spends = [1, 1, 0, 0], pk_sapling_indices = [0], pk_orchard_indices = [], pk_ironwood_indices = [],
     pk_can_sign = False, pk_can_broadcast = False, pk_price = None, pk_category = None, pk_is_issuance = False\<rparr>"

definition ex_crate :: "(8 word, 8 word, bytes, bytes, nat) SignCrate" where
  "ex_crate = \<lparr>sc_usk_transparent = (\<lambda>_. 7), sc_usk_sapling = (\<lambda>_. 8), sc_usk_orchard = id, sc_account_pubkey = (\<lambda>k. [k]), sc_dfvk = (\<lambda>k. [k]), sc_fvk = id,
     sc_derive_internal = (\<lambda>k. k + 1), sc_derive_secret_key = (\<lambda>_ _ _. Some (replicate 32 0)), sc_secret_key = (\<lambda>_. Some 42), sc_parse = (\<lambda>_. Some ex_pczt),
     sc_branch_id = (\<lambda>_. True), sc_update = (\<lambda>p _. Some p), sc_signer = (\<lambda>_. True), sc_sign = (\<lambda>_ _ _. True), sc_finish = (\<lambda>_ _. Some [9])\<rparr>"

definition ex_tables :: KeyTables where
  "ex_tables = \<lparr>kt_transparent = [(1, Some [7])], kt_sapling = [(1, Some [8])], kt_orchard = []\<rparr>"

definition ex_usk :: bytes where
  "ex_usk = u32_le_bytes (kc_nu5 toy_crate) @ [0, 74] @ replicate 74 0 @ [2, 169] @ replicate 169 0 @ [3, 32] @ replicate 32 0"

lemma toy_reads:
  "b < 253 \<Longrightarrow> read_size toy_crate (word_of_nat b # rest) = Some (b, rest)"
  by (simp add: read_size_def toy_crate_def unat_of_nat)

lemma ex_usk_decodes: "decode toy_crate ex_usk = Ret (Inr (Unified ex_usk))"
proof -
  have r: "read_component toy_crate (word_of_nat t # word_of_nat n # replicate n 0 @ rest) = Inr (t, replicate n 0, rest)"
    if "expected_length t = Some n" "t < 253" "n < 253" for t n rest
    using that by (simp add: read_component_def toy_reads)
  have three: "records toy_crate ([3, 32] @ replicate 32 0) = Some [(3, replicate 32 0)]"
    using r [of 3 32 "[]"] by (subst records.simps) (simp add: expected_length_def component_defs records.simps [of toy_crate "[]"])
  have two: "records toy_crate ([2, 169] @ replicate 169 0 @ [3, 32] @ replicate 32 0) = Some [(2, replicate 169 0), (3, replicate 32 0)]"
    using r [of 2 169 "[3, 32] @ replicate 32 0"] three by (subst records.simps) (simp add: expected_length_def component_defs)
  have one: "records toy_crate (drop 4 ex_usk) = Some [(0, replicate 74 0), (2, replicate 169 0), (3, replicate 32 0)]"
    using r [of 0 74 "[2, 169] @ replicate 169 0 @ [3, 32] @ replicate 32 0"] two
    by (subst records.simps) (simp add: ex_usk_def expected_length_def component_defs)
  have "u32_from_le_bytes (take 4 ex_usk) = kc_nu5 toy_crate"
    using u32_le_roundtrip [of "kc_nu5 toy_crate" "[]"] by (simp add: ex_usk_def) (simp add: toy_crate_def)
  then show ?thesis unfolding decode_iff using one
    by (auto simp: good_records_def component_ok_def stands_for_def) (auto simp: toy_crate_def ex_usk_def)
qed

lemma ex_reads: "n < 2 ^ 32 \<Longrightarrow> u32_from_le_bytes (u32_le_bytes n) = n"
  using u32_le_roundtrip [of n "[]"] by simp

theorem sign_transaction_own_spends_witness:
  "\<exists>package'. sign_transaction toy_crate ex_crate ex_tables 1 ex_package ex_usk
      = Ret (Inr (package', [SignTransparent 0 42, SignSapling 0 9])) \<and> own_key ex_crate ex_tables 1 (Unified ex_usk)"
proof -
  obtain package' where run: "sign_transaction toy_crate ex_crate ex_tables 1 ex_package ex_usk
      = Ret (Inr (package', [SignTransparent 0 42, SignSapling 0 9]))"
    unfolding sign_transaction_def ex_usk_decodes
    by (simp add: verify_spending_key_def ex_tables_def ex_crate_def ex_package_def ex_pczt_def signing_key_transparent_pubkey_def
        signing_key_sapling_dfvk_def signing_key_orchard_fvk_def signing_key_transparent_def signing_key_sapling_def signing_key_orchard_def
        sapling_scope_of_def update_spends_def sign_spends_def sign_transparent_def sign_sapling_def sign_one_def require_component_def
        sapling_ssk_for_scope_def try_bind_def read_proprietary_u32_def ex_prop_def ex_reads)
  then show ?thesis using sign_transaction_own_spends [OF run] by (auto simp: ex_usk_decodes)
qed

definition ex_device :: "bytes DeviceCrate" where
  "ex_device = \<lparr>dc_parse = (\<lambda>_. Some ex_pczt), dc_from_der = Some, dc_signer = (\<lambda>_. True), dc_append = (\<lambda>_ _ _. True), dc_finalize = (\<lambda>_ _. Some [9])\<rparr>"

theorem apply_transparent_signatures_complete_witness:
  "\<exists>package'. apply_transparent_signatures ex_device (ex_package\<lparr>pk_n_spends := [2, 0, 0, 0]\<rparr>) [1, 0] [[5], [6]] = Inr (package', [(1, [5]), (0, [6])]) \<and>
    pk_can_broadcast package' \<and> set [1, 0] = {0..<2 :: nat}"
proof -
  obtain package' where run: "apply_transparent_signatures ex_device (ex_package\<lparr>pk_n_spends := [2, 0, 0, 0]\<rparr>) [1, 0] [[5], [6]] = Inr (package', [(1, [5]), (0, [6])])"
    by (simp add: apply_transparent_signatures_def ex_device_def check_indices_def mark_seen_def parse_signature_def append_signature_def numeral_2_eq_2)
  from apply_transparent_signatures_complete [of 0 "[1, 0]" ex_device "ex_package\<lparr>pk_n_spends := [2, 0, 0, 0]\<rparr>" "[[5], [6]]"] run
  have all: "set [1, 0] = {0..<2 :: nat}"
    and p: "package' = ex_package\<lparr>pk_n_spends := [2, 0, 0, 0], pk_pczt := pk_pczt package', pk_can_broadcast := True\<rparr>" by simp_all
  have "pk_can_broadcast package'" by (subst p) simp
  then show ?thesis using run all by blast
qed

theorem request_shows_change_witness:
  "\<exists>rq. transparent_signing_request (\<lambda>_. Some ex_pczt) (\<lambda>_. Some 0) (\<lambda>_. Some ''s'') ex_package = Inr rq \<and>
    map ot_is_change (rq_outputs rq) = [False, True] \<and> map ot_dindex (rq_outputs rq) = [None, Some 5]"
proof -
  have label: "label_transparent_outputs [''r''] (Some ex_label) [ex_out 60, ex_out 30] = Inr (pz_outputs ex_pczt)"
    by (simp add: label_transparent_outputs_def update_output_with_def ex_pczt_def)
  obtain rq where rq: "transparent_signing_request (\<lambda>_. Some ex_pczt) (\<lambda>_. Some 0) (\<lambda>_. Some ''s'') ex_package = Inr rq"
    by (simp add: transparent_signing_request_def ex_pczt_def signing_input_def signing_output_def read_proprietary_u32_def read_proprietary_u32_opt_def
        ex_prop_def ex_reads ex_out_def label_change_def ex_label_def transparent_output_address_def)
  have fresh: "\<forall>out \<in> set [ex_out 60, ex_out 30]. po_proprietary out ''scope'' = None \<and> po_proprietary out ''dindex'' = None"
    and small: "\<forall>c. Some ex_label = Some c \<longrightarrow> cl_scope c < 2 ^ 32 \<and> cl_dindex c < 2 ^ 32" by (simp_all add: ex_out_def ex_label_def)
  note shown = request_shows_change [where package = ex_package, OF label fresh small refl rq]
  then have "length (rq_outputs rq) = Suc (Suc 0)" by simp
  then obtain a b where ab: "rq_outputs rq = [a, b]" by (auto simp: length_Suc_conv)
  have "\<not> ot_is_change a" "ot_dindex a = None" using conjunct2 [OF shown, rule_format, of 0] by (simp_all add: ab)
  moreover have "ot_is_change b" "ot_dindex b = Some 5" using conjunct2 [OF shown, rule_format, of 1] by (simp_all add: ab ex_label_def)
  ultimately show ?thesis using rq by (simp add: ab)
qed

end
