(* ===== verification/Mempool.thy ===== *)
theory Mempool
  imports Balances
begin

text \<open>
  Unconfirmed transactions (\<open>src/rust/rlz/src/mempool.rs\<close>, \<open>api/mempool.rs\<close>): what a transaction of the mempool takes from and
  gives to the accounts of the wallet, and the loop that watches the mempool.

  A transaction is the record \<open>RawTx\<close> of what the code reads of it; trial decryption belongs to the Zcash crates and is the
  record \<open>TxCrypto\<close>. The names of the accounts, a column the tables leave out, are the argument \<open>name\<close>, and the viewing keys
  of the accounts the arguments \<open>zkey\<close> and \<open>okey\<close>. Amounts are grouped in a hash map; the model lists them in the order of
  their first note.
\<close>

section \<open>What a transaction does to the wallet\<close>

record MempoolNote =
  mn_account :: nat
  mn_name :: string
  mn_value :: int
  mn_pool :: nat
  mn_scope :: nat
  mn_diversifier :: "bytes option"
  mn_diversifier_index :: "int option"
  mn_address :: "string option"
  mn_memo :: "string option"

record MempoolAmount =
  ma_account :: nat
  ma_name :: string
  ma_value :: int

record MempoolTx =
  mt_txid :: string
  mt_amounts :: "MempoolAmount list"
  mt_notes :: "MempoolNote list"
  mt_size :: nat

datatype MempoolMsg = BlockHeight nat | TxId MempoolTx

text \<open>A decrypted output.\<close>

record OpenedOutput =
  op_value :: nat
  op_diversifier :: bytes
  op_diversifier_index :: "int option"
  op_address :: string
  op_memo :: "string option"

datatype 'a OrchardBundle = NoOrchard | OrchardVanilla "'a list" | OrchardZSA "'a list"

record ('s, 'a) RawTx =
  rt_txid :: string
  rt_vin :: "bytes list"
  rt_vouts :: "(string option \<times> nat) list"
  rt_spends :: "bytes list"
  rt_sapling :: "'s list"
  rt_orchard :: "'a OrchardBundle"
  rt_ironwood :: "'a list"

record ('z, 'o, 's, 'a) TxCrypto =
  tc_sapling :: "'z \<Rightarrow> nat \<Rightarrow> 's \<Rightarrow> OpenedOutput option"
  tc_orchard :: "nat \<Rightarrow> 'o \<Rightarrow> nat \<Rightarrow> 'a \<Rightarrow> OpenedOutput option"
  tc_nullifier :: "'a \<Rightarrow> bytes"

definition transaction_inputs :: "('z, 'o, 's, 'a) TxCrypto \<Rightarrow> ('s, 'a) RawTx \<Rightarrow> bytes list" where
  "transaction_inputs tc tx =
    rt_vin tx @ rt_spends tx @
    (case rt_orchard tx of NoOrchard \<Rightarrow> [] | OrchardVanilla b \<Rightarrow> map (tc_nullifier tc) b | OrchardZSA b \<Rightarrow> map (tc_nullifier tc) b) @
    map (tc_nullifier tc) (rt_ironwood tx)"

record ('z, 'o) MempoolKeys =
  mk_transparent :: "(nat \<times> string \<times> string) list"
  mk_sapling :: "(nat \<times> string \<times> 'z) list"
  mk_orchard :: "(nat \<times> string \<times> 'o) list"

definition mempool_keys :: "(nat \<Rightarrow> string) \<Rightarrow> (nat \<Rightarrow> 'z) \<Rightarrow> (nat \<Rightarrow> 'o) \<Rightarrow> Db \<Rightarrow> ('z, 'o) MempoolKeys" where
  "mempool_keys name zkey okey db =
    (let known = (\<lambda>a. a \<in> ac_id ` set (accounts db)) in
     \<lparr>mk_transparent = map (\<lambda>t. (ta_account t, name (ta_account t), ta_address t)) (filter (\<lambda>t. known (ta_account t)) (taddrs db)),
      mk_sapling = map (\<lambda>a. (a, name a, zkey a)) (filter known (sapling_accounts db)),
      mk_orchard = map (\<lambda>a. (a, name a, okey a)) (filter known (orchard_accounts db))\<rparr>)"

definition spent_rows :: "(nat \<Rightarrow> string) \<Rightarrow> Db \<Rightarrow> NoteRow \<Rightarrow> MempoolNote list" where
  "spent_rows name db n =
    concat (map (\<lambda>a. map (\<lambda>memo. \<lparr>mn_account = ac_id a, mn_name = name (ac_id a), mn_value = i64_neg (nr_value n), mn_pool = nr_pool n,
          mn_scope = (case nr_scope n of None \<Rightarrow> 0 | Some s \<Rightarrow> s), mn_diversifier = nr_diversifier n, mn_diversifier_index = None,
          mn_address = None, mn_memo = memo\<rparr>)
        (case filter (\<lambda>m. me_note m = Some (nr_id n)) (memos db) of [] \<Rightarrow> [None] | ms \<Rightarrow> map me_text ms))
      (filter (\<lambda>a. ac_id a = nr_account n) (accounts db)))"

definition spent_notes :: "(nat \<Rightarrow> string) \<Rightarrow> Db \<Rightarrow> bytes list \<Rightarrow> MempoolNote list" where
  "spent_notes name db inputs =
    concat (map (\<lambda>input. concat (map (spent_rows name db) (filter (\<lambda>n. nr_nullifier n = input) (note_rows db)))) inputs)"

definition transparent_notes :: "(nat \<times> string \<times> string) list \<Rightarrow> (string option \<times> nat) list \<Rightarrow> MempoolNote list" where
  "transparent_notes tkeys vouts =
    concat (map (\<lambda>(address, value).
      case address of
        None \<Rightarrow> []
      | Some address \<Rightarrow>
          (case find (\<lambda>(_, _, a). a = address) tkeys of
             None \<Rightarrow> []
           | Some (account, name, _) \<Rightarrow>
               [\<lparr>mn_account = account, mn_name = name, mn_value = as_i64 value, mn_pool = 0, mn_scope = 0, mn_diversifier = None,
                 mn_diversifier_index = None, mn_address = Some address, mn_memo = None\<rparr>])) vouts)"

definition first_scope :: "(nat \<Rightarrow> 's \<Rightarrow> OpenedOutput option) \<Rightarrow> 's \<Rightarrow> (nat \<times> OpenedOutput) option" where
  "first_scope decrypt out = (case decrypt 0 out of Some r \<Rightarrow> Some (0, r) | None \<Rightarrow> map_option (Pair 1) (decrypt 1 out))"

definition shielded_notes :: "nat \<Rightarrow> ('k \<Rightarrow> nat \<Rightarrow> 's \<Rightarrow> OpenedOutput option) \<Rightarrow> (nat \<times> string \<times> 'k) list \<Rightarrow> 's list \<Rightarrow> MempoolNote list" where
  "shielded_notes pool decrypt keys outs =
    concat (map (\<lambda>out. concat (map (\<lambda>(account, name, key).
      case first_scope (decrypt key) out of
        None \<Rightarrow> []
      | Some (scope, r) \<Rightarrow>
          [\<lparr>mn_account = account, mn_name = name, mn_value = as_i64 (op_value r), mn_pool = pool, mn_scope = scope,
            mn_diversifier = Some (op_diversifier r), mn_diversifier_index = op_diversifier_index r, mn_address = Some (op_address r),
            mn_memo = op_memo r\<rparr>]) keys)) outs)"

definition received_notes :: "('z, 'o, 's, 'a) TxCrypto \<Rightarrow> ('z, 'o) MempoolKeys \<Rightarrow> ('s, 'a) RawTx \<Rightarrow> MempoolNote list" where
  "received_notes tc mk tx =
    transparent_notes (mk_transparent mk) (rt_vouts tx) @
    shielded_notes 1 (tc_sapling tc) (mk_sapling mk) (rt_sapling tx) @
    (case rt_orchard tx of OrchardVanilla b \<Rightarrow> shielded_notes 2 (tc_orchard tc 2) (mk_orchard mk) b | OrchardZSA _ \<Rightarrow> [] | NoOrchard \<Rightarrow> []) @
    shielded_notes 3 (tc_orchard tc 3) (mk_orchard mk) (rt_ironwood tx)"

definition decode_raw_transaction ::
    "(nat \<Rightarrow> string) \<Rightarrow> Db \<Rightarrow> ('z, 'o, 's, 'a) TxCrypto \<Rightarrow> ('z, 'o) MempoolKeys \<Rightarrow> ('s, 'a) RawTx \<Rightarrow> MempoolNote list" where
  "decode_raw_transaction name db tc mk tx = spent_notes name db (transaction_inputs tc tx) @ received_notes tc mk tx"

definition group_amounts :: "MempoolNote list \<Rightarrow> MempoolAmount list" where
  "group_amounts notes =
    map (\<lambda>(account, name). \<lparr>ma_account = account, ma_name = name,
        ma_value = fold (\<lambda>n v. i64_add v (mn_value n)) (filter (\<lambda>n. mn_account n = account \<and> mn_name n = name) notes) 0\<rparr>)
      (remdups (map (\<lambda>n. (mn_account n, mn_name n)) notes))"

definition mempool_message ::
    "(nat \<Rightarrow> string) \<Rightarrow> Db \<Rightarrow> ('z, 'o, 's, 'a) TxCrypto \<Rightarrow> ('z, 'o) MempoolKeys \<Rightarrow> ('s, 'a) RawTx \<Rightarrow> nat \<Rightarrow> MempoolMsg" where
  "mempool_message name db tc mk tx len =
    (let notes = decode_raw_transaction name db tc mk tx
     in TxId \<lparr>mt_txid = rt_txid tx, mt_amounts = group_amounts notes, mt_notes = notes, mt_size = len mod 2 ^ 32\<rparr>)"

section \<open>Watching the mempool\<close>

text \<open>
  The loop, one step per thing it waits for: the height and the stream that open an epoch, then the items of the stream. The
  keys are read when the epoch begins, the notes of the wallet as they are when the transaction arrives. \<open>tc\<close> takes the
  height of the epoch, which decides how Sapling outputs are decrypted.
\<close>

datatype ('s, 'a) MempoolInput =
    HeightFailed string
  | OpenCancelled nat
  | OpenFailed nat string
  | EpochOpened nat
  | StreamTx "('s, 'a) RawTx" nat
  | StreamFailed string
  | StreamEnded
  | Cancelled

datatype ('z, 'o) MempoolLoop = Opening | Reading nat "('z, 'o) MempoolKeys" | LoopStopped | Failed string

fun mempool_step ::
    "(nat \<Rightarrow> string) \<Rightarrow> (nat \<Rightarrow> 'z) \<Rightarrow> (nat \<Rightarrow> 'o) \<Rightarrow> (nat \<Rightarrow> ('z, 'o, 's, 'a) TxCrypto) \<Rightarrow> Db \<times> ('s, 'a) MempoolInput
      \<Rightarrow> ('z, 'o) MempoolLoop \<Rightarrow> MempoolMsg list \<times> ('z, 'o) MempoolLoop" where
  "mempool_step name zkey okey tc (db, HeightFailed e) Opening = ([], Failed e)"
| "mempool_step name zkey okey tc (db, OpenCancelled h) Opening = ([BlockHeight h], LoopStopped)"
| "mempool_step name zkey okey tc (db, OpenFailed h e) Opening = ([BlockHeight h], Failed e)"
| "mempool_step name zkey okey tc (db, EpochOpened h) Opening = ([BlockHeight h], Reading h (mempool_keys name zkey okey db))"
| "mempool_step name zkey okey tc (db, StreamTx tx len) (Reading h mk) = ([mempool_message name db (tc h) mk tx len], Reading h mk)"
| "mempool_step name zkey okey tc (db, StreamFailed e) (Reading h mk) = ([], Failed e)"
| "mempool_step name zkey okey tc (db, StreamEnded) (Reading h mk) = ([], Opening)"
| "mempool_step name zkey okey tc (db, Cancelled) (Reading h mk) = ([], LoopStopped)"
| "mempool_step name zkey okey tc (db, _) loop = ([], loop)"

fun run_mempool ::
    "(nat \<Rightarrow> string) \<Rightarrow> (nat \<Rightarrow> 'z) \<Rightarrow> (nat \<Rightarrow> 'o) \<Rightarrow> (nat \<Rightarrow> ('z, 'o, 's, 'a) TxCrypto) \<Rightarrow> (Db \<times> ('s, 'a) MempoolInput) list
      \<Rightarrow> ('z, 'o) MempoolLoop \<Rightarrow> MempoolMsg list \<times> ('z, 'o) MempoolLoop" where
  "run_mempool name zkey okey tc [] loop = ([], loop)"
| "run_mempool name zkey okey tc (i # ins) loop =
    (let (ms, loop) = mempool_step name zkey okey tc i loop; (rest, loop) = run_mempool name zkey okey tc ins loop in (ms @ rest, loop))"

section \<open>The unconfirmed amount is the change of the balance\<close>

definition note_total :: "MempoolNote list \<Rightarrow> nat \<Rightarrow> int" where
  "note_total notes account = sum_list (map mn_value (filter (\<lambda>n. mn_account n = account) notes))"

lemma note_total_append [simp]: "note_total (xs @ ys) a = note_total xs a + note_total ys a"
  by (simp add: note_total_def)

lemma i64_wrap_add: "i64_wrap (i64_wrap x + y) = i64_wrap (x + y)"
proof -
  have "((x + 2 ^ 63) mod 2 ^ 64 - 2 ^ 63 + y + 2 ^ 63) mod 2 ^ 64 = ((x + 2 ^ 63) mod 2 ^ 64 + y) mod (2 ^ 64 :: int)" by (simp add: algebra_simps)
  also have "\<dots> = (x + 2 ^ 63 + y) mod 2 ^ 64" by (rule mod_add_left_eq)
  also have "x + 2 ^ 63 + y = x + y + 2 ^ 63" by simp
  finally show ?thesis unfolding i64_wrap_def by simp
qed

lemma fold_i64_add: "fold (\<lambda>n v. i64_add v (f n)) xs (i64_wrap s) = i64_wrap (s + sum_list (map f xs))"
proof (induction xs arbitrary: s)
  case (Cons x xs)
  have "i64_add (i64_wrap s) (f x) = i64_wrap (s + f x)" by (simp add: i64_add_def i64_wrap_add)
  then show ?case using Cons.IH [of "s + f x"] by (simp add: algebra_simps)
qed simp

lemma group_amounts_total:
  assumes "\<forall>n \<in> set notes. mn_name n = name (mn_account n)" "a \<in> set (group_amounts notes)"
  shows "ma_value a = i64_wrap (note_total notes (ma_account a))"
proof -
  obtain n where n: "n \<in> set notes" "ma_account a = mn_account n" "ma_value a = fold (\<lambda>n v. i64_add v (mn_value n))
      (filter (\<lambda>m. mn_account m = mn_account n \<and> mn_name m = mn_name n) notes) 0"
    using assms(2) by (auto simp: group_amounts_def)
  have "filter (\<lambda>m. mn_account m = mn_account n \<and> mn_name m = mn_name n) notes = filter (\<lambda>m. mn_account m = mn_account n) notes"
    using assms(1) n(1) by (intro filter_cong) auto
  then show ?thesis using n fold_i64_add [of mn_value _ 0] by (simp add: note_total_def i64_wrap_exact)
qed

lemma group_amounts_accounts: "ma_account ` set (group_amounts notes) = mn_account ` set notes"
  by (force simp: group_amounts_def)

lemma received_names: "n \<in> set (received_notes tc (mempool_keys name zkey okey db) tx) \<Longrightarrow> mn_name n = name (mn_account n)"
proof -
  let ?mk = "mempool_keys name zkey okey db"
  have t: "nm = name a" if "Some (a, nm, x) = find P (mk_transparent ?mk)" for P a nm x
  proof -
    have "(a, nm, x) \<in> set (mk_transparent ?mk)" using that [symmetric] by (auto simp: find_Some_iff in_set_conv_nth)
    then show ?thesis by (auto simp: mempool_keys_def Let_def)
  qed
  have s: "mn_name n = name (mn_account n)" if "n \<in> set (shielded_notes p d keys outs)" "\<forall>(a, nm, k) \<in> set keys. nm = name a" for p d keys outs n
    using that by (auto simp: shielded_notes_def split: option.splits)
  have k: "\<forall>(a, nm, k) \<in> set (mk_sapling ?mk). nm = name a" "\<forall>(a, nm, k) \<in> set (mk_orchard ?mk). nm = name a"
    by (auto simp: mempool_keys_def Let_def)
  assume "n \<in> set (received_notes tc ?mk tx)"
  then show ?thesis
    using s [OF _ k(1)] s [OF _ k(2)] by (auto simp: received_notes_def transparent_notes_def split: option.splits OrchardBundle.splits dest: t)
qed

lemma spent_names: "n \<in> set (spent_notes name db inputs) \<Longrightarrow> mn_name n = name (mn_account n)"
  by (auto simp: spent_notes_def spent_rows_def)

text \<open>What the queries rely on: the account of a note exists, and a note has at most one memo.\<close>

definition memos_ok :: "Db \<Rightarrow> bool" where
  "memos_ok db \<longleftrightarrow> (\<forall>n \<in> set (note_rows db). nr_account n \<in> ac_id ` set (accounts db)) \<and>
    (\<forall>i. length (filter (\<lambda>m. me_note m = Some i) (memos db)) \<le> 1)"

lemma spent_rows_one:
  assumes "keys_ok db" "memos_ok db" "n \<in> set (note_rows db)" "0 \<le> nr_value n" "nr_value n < 2 ^ 63"
  shows "note_total (spent_rows name db n) a = (if nr_account n = a then - nr_value n else 0)"
proof -
  obtain acc where acc: "acc \<in> set (accounts db)" "ac_id acc = nr_account n" using assms(2,3) by (auto simp: memos_ok_def)
  have "distinct (map ac_id (accounts db))" using assms(1) by (simp add: keys_ok_def)
  then have one: "filter (\<lambda>x. ac_id x = nr_account n) (accounts db) = [acc]" using filter_unique [of ac_id "accounts db" acc] acc by simp
  have "length (filter (\<lambda>m. me_note m = Some (nr_id n)) (memos db)) \<le> 1" using assms(2) by (simp add: memos_ok_def)
  then obtain memo where memo: "(case filter (\<lambda>m. me_note m = Some (nr_id n)) (memos db) of [] \<Rightarrow> [None] | ms \<Rightarrow> map me_text ms) = [memo]"
    by (cases "filter (\<lambda>m. me_note m = Some (nr_id n)) (memos db)") auto
  have "i64_neg (nr_value n) = - nr_value n" using assms(4,5) by (simp add: i64_neg_def i64_wrap_exact)
  then show ?thesis by (simp add: spent_rows_def one memo note_total_def acc(2))
qed

lemma note_total_concat: "note_total (concat xss) a = sum_list (map (\<lambda>xs. note_total xs a) xss)"
  by (induction xss) (simp_all add: note_total_def)

lemma spent_total:
  assumes "keys_ok db" "memos_ok db" "distinct inputs" "\<forall>n \<in> set (note_rows db). 0 \<le> nr_value n \<and> nr_value n < 2 ^ 63"
  shows "note_total (spent_notes name db inputs) a
    = - value_sum (filter (\<lambda>n. nr_account n = a \<and> nr_nullifier n \<in> set inputs) (note_rows db))"
proof -
  have row: "note_total (spent_rows name db n) b = (if nr_account n = b then - nr_value n else 0)" if "n \<in> set (note_rows db)" for n b
    using spent_rows_one [OF assms(1,2) that] assms(4) that by blast
  have one: "note_total (concat (map (spent_rows name db) (filter (\<lambda>n. nr_nullifier n = input) (note_rows db)))) a
      = - value_sum (filter (\<lambda>n. nr_account n = a \<and> nr_nullifier n = input) (note_rows db))" for input
  proof -
    have "sum_list (map (\<lambda>n. note_total (spent_rows name db n) a) (filter (\<lambda>n. nr_nullifier n = input) ns))
      = - value_sum (filter (\<lambda>n. nr_account n = a \<and> nr_nullifier n = input) ns)" if "set ns \<subseteq> set (note_rows db)" for ns
      using that by (induction ns) (auto simp: value_sum_def row)
    then show ?thesis by (simp add: note_total_concat comp_def)
  qed
  have split: "value_sum (filter (\<lambda>n. nr_account n = a \<and> nr_nullifier n \<in> set (i # js)) ns)
      = value_sum (filter (\<lambda>n. nr_account n = a \<and> nr_nullifier n = i) ns) + value_sum (filter (\<lambda>n. nr_account n = a \<and> nr_nullifier n \<in> set js) ns)"
    if "i \<notin> set js" for i js ns
    using that by (induction ns) (auto simp: value_sum_def)
  have "note_total (spent_notes name db js) a = - value_sum (filter (\<lambda>n. nr_account n = a \<and> nr_nullifier n \<in> set js) (note_rows db))"
    if "distinct js" for js
    using that
  proof (induction js)
    case (Cons i js)
    then show ?case using split [of i js "note_rows db"] one [of i] by (simp add: spent_notes_def)
  qed (simp add: spent_notes_def note_total_def value_sum_def)
  then show ?thesis using assms(3) by blast
qed

text \<open>
  The wallet after the transaction is mined and scanned: a row for each received note, and a spend for each own note among
  the inputs.
\<close>

definition mined :: "MempoolNote list \<Rightarrow> bytes list \<Rightarrow> Db \<Rightarrow> Db \<Rightarrow> bool" where
  "mined got inputs db db' \<longleftrightarrow>
    (\<exists>new. note_rows db' = note_rows db @ new \<and>
      list_all2 (\<lambda>m n. nr_account n = mn_account m \<and> nr_value n = mn_value m \<and> nr_pool n = mn_pool m \<and> nr_asset n = None) got new \<and>
      nr_id ` set new \<inter> (nr_id ` set (note_rows db) \<union> sp_note ` set (spends db)) = {}) \<and>
    (\<exists>sps. spends db' = spends db @ sps \<and> map sp_note sps = map nr_id (filter (\<lambda>n. nr_nullifier n \<in> set inputs) (note_rows db)))"

lemma mined_balance:
  assumes "keys_ok db" "mined got inputs db db'"
    and "\<forall>n \<in> set (note_rows db). nr_nullifier n \<in> set inputs \<longrightarrow> nr_asset n = None \<and> \<not> is_spent db n"
  shows "value_sum (owned_unspent_zec_notes db' a) = value_sum (owned_unspent_zec_notes db a)
    - value_sum (filter (\<lambda>n. nr_account n = a \<and> nr_nullifier n \<in> set inputs) (note_rows db)) + note_total got a"
proof -
  obtain new sps where new: "note_rows db' = note_rows db @ new"
      "list_all2 (\<lambda>m n. nr_account n = mn_account m \<and> nr_value n = mn_value m \<and> nr_pool n = mn_pool m \<and> nr_asset n = None) got new"
      "nr_id ` set new \<inter> (nr_id ` set (note_rows db) \<union> sp_note ` set (spends db)) = {}"
    and sps: "spends db' = spends db @ sps" "map sp_note sps = map nr_id (filter (\<lambda>n. nr_nullifier n \<in> set inputs) (note_rows db))"
    using assms(2) by (auto simp: mined_def)
  have ids: "nr_id m = nr_id n \<Longrightarrow> m = n" if "m \<in> set (note_rows db)" "n \<in> set (note_rows db)" for m n
    using assms(1) that by (auto simp: keys_ok_def intro: distinct_key_unique [of nr_id])
  have sp: "sp_note ` set sps = nr_id ` {n \<in> set (note_rows db). nr_nullifier n \<in> set inputs}"
    using arg_cong [OF sps(2), of set] by simp
  have spent: "is_spent db' n \<longleftrightarrow> is_spent db n \<or> nr_nullifier n \<in> set inputs" if "n \<in> set (note_rows db)" for n
  proof -
    have "(\<exists>s \<in> set sps. sp_note s = nr_id n) \<longleftrightarrow> nr_id n \<in> sp_note ` set sps" by force
    also have "\<dots> \<longleftrightarrow> nr_nullifier n \<in> set inputs" unfolding sp using ids that by fastforce
    finally show ?thesis by (auto simp: is_spent_def sps(1) list_ex_iff)
  qed
  have fresh: "\<not> is_spent db' n" if "n \<in> set new" for n
  proof -
    have "nr_id n \<notin> sp_note ` set sps" unfolding sp using new(3) that by blast
    moreover have "nr_id n \<notin> sp_note ` set (spends db)" using new(3) that by blast
    ultimately show ?thesis by (force simp: is_spent_def sps(1) list_ex_iff)
  qed
  have old: "value_sum (filter (\<lambda>n. nr_account n = a \<and> nr_asset n = None \<and> \<not> is_spent db' n) ns)
      = value_sum (filter (\<lambda>n. nr_account n = a \<and> nr_asset n = None \<and> \<not> is_spent db n) ns)
        - value_sum (filter (\<lambda>n. nr_account n = a \<and> nr_nullifier n \<in> set inputs) ns)" if "set ns \<subseteq> set (note_rows db)" for ns
    using that by (induction ns) (auto simp: value_sum_def spent assms(3))
  have "value_sum (filter (\<lambda>n. nr_account n = a \<and> nr_asset n = None \<and> \<not> is_spent db' n) ns) = note_total ms a"
    if "list_all2 (\<lambda>m n. nr_account n = mn_account m \<and> nr_value n = mn_value m \<and> nr_pool n = mn_pool m \<and> nr_asset n = None) ms ns" "set ns \<subseteq> set new" for ms ns
    using that by (induction rule: list_all2_induct) (auto simp: value_sum_def note_total_def fresh)
  from this [OF new(2)] have "value_sum (filter (\<lambda>n. nr_account n = a \<and> nr_asset n = None \<and> \<not> is_spent db' n) new) = note_total got a" by simp
  then show ?thesis using old [of "note_rows db"] by (simp add: owned_unspent_zec_notes_def new(1)) (simp add: value_sum_def)
qed


definition ex_opened :: OpenedOutput where
  "ex_opened = \<lparr>op_value = 20000, op_diversifier = [], op_diversifier_index = None, op_address = ''change'', op_memo = None\<rparr>"

definition ex_crypto :: "(unit, unit, unit, bytes) TxCrypto" where
  "ex_crypto = \<lparr>tc_sapling = \<lambda>_ _ _. None, tc_orchard = \<lambda>pool _ scope a. if pool = 2 \<and> scope = 1 \<and> a = [1] then Some ex_opened else None,
     tc_nullifier = id\<rparr>"

definition ex_raw :: "(unit, bytes) RawTx" where
  "ex_raw = \<lparr>rt_txid = ''ab'', rt_vin = [], rt_vouts = [(Some ''t1'', 29000)], rt_spends = [], rt_sapling = [], rt_orchard = OrchardVanilla [[1], [9]],
     rt_ironwood = []\<rparr>"

definition ex_mined :: Db where
  "ex_mined = ex_db\<lparr>note_rows := note_rows ex_db @ [ex_note_1\<lparr>nr_id := 4, nr_nullifier := [4], nr_value := 20000\<rparr>],
     spends := spends ex_db @ [\<lparr>sp_note = 1, sp_height = 126, sp_account = 1, sp_pool = 2, sp_tx = 4, sp_value = - 50000\<rparr>]\<rparr>"


end
