(* ===== verification/Bridge.thy ===== *)
theory Bridge
  imports Mempool BlockStream
begin

text \<open>
  The state the JNI layer keeps between two calls from Kotlin (\<open>src/rust/zcash-jni/src\<close>): the registry of open wallets
  (\<open>registry.rs\<close>), the progress word and the error slot of a sync (\<open>progress.rs\<close>), and the subscription to the mempool
  (\<open>mempool.rs\<close>), one run per process whose events are queued and polled. Each static behind a lock or an atomic is a state
  passed along; a call that takes the lock is one step. A wallet is of any type: the registry never looks inside.
\<close>

section \<open>Registry of open wallets\<close>

record 'c Registry =
  rg_handles :: "int \<rightharpoonup> 'c"
  rg_next_handle :: int

definition registry_new :: "'c Registry" where
  "registry_new = \<lparr>rg_handles = Map.empty, rg_next_handle = 1\<rparr>"

definition registry_insert :: "'c \<Rightarrow> 'c Registry \<Rightarrow> int \<times> 'c Registry" where
  "registry_insert coin r =
    (let handle = rg_next_handle r
     in (handle, \<lparr>rg_handles = (rg_handles r)(handle \<mapsto> coin), rg_next_handle = i64_add (rg_next_handle r) 1\<rparr>))"

definition registry_get :: "int \<Rightarrow> 'c Registry \<Rightarrow> 'c option" where
  "registry_get handle r = rg_handles r handle"

definition registry_update :: "int \<Rightarrow> ('c \<Rightarrow> 'c) \<Rightarrow> 'c Registry \<Rightarrow> 'c Registry" where
  "registry_update handle change r =
    (case rg_handles r handle of None \<Rightarrow> r | Some slot \<Rightarrow> r\<lparr>rg_handles := (rg_handles r)(handle \<mapsto> change slot)\<rparr>)"

definition registry_remove :: "int \<Rightarrow> 'c Registry \<Rightarrow> 'c Registry" where
  "registry_remove handle r = r\<lparr>rg_handles := (rg_handles r)(handle := None)\<rparr>"

definition registry_ok :: "'c Registry \<Rightarrow> bool" where
  "registry_ok r \<longleftrightarrow> 1 \<le> rg_next_handle r \<and> rg_next_handle r < 2 ^ 63 \<and> dom (rg_handles r) \<subseteq> {1..<rg_next_handle r}"

lemma registry_ok_steps:
  "registry_ok registry_new"
  "registry_ok r \<Longrightarrow> rg_next_handle r < 2 ^ 63 - 1 \<Longrightarrow> registry_ok (snd (registry_insert c r))"
  "registry_ok r \<Longrightarrow> registry_ok (registry_update h f r)"
  "registry_ok r \<Longrightarrow> registry_ok (registry_remove h r)"
  by (auto simp: registry_ok_def registry_new_def registry_insert_def registry_update_def registry_remove_def Let_def i64_add_def
      i64_wrap_exact split: option.splits)

lemma registry_insert_fresh:
  assumes "registry_ok r" "registry_insert c r = (h, r')"
  shows "h \<noteq> 0" "registry_get h r = None" "registry_get h r' = Some c" "h' \<noteq> h \<Longrightarrow> registry_get h' r' = registry_get h' r"
  using assms by (auto simp: registry_ok_def registry_insert_def registry_get_def Let_def)

lemma registry_get_simps:
  "registry_get h (registry_update h f r) = map_option f (registry_get h r)"
  "h' \<noteq> h \<Longrightarrow> registry_get h' (registry_update h f r) = registry_get h' r"
  "registry_get h' (registry_remove h r) = (if h' = h then None else registry_get h' r)"
  by (auto simp: registry_get_def registry_update_def registry_remove_def split: option.splits)

section \<open>Progress of a sync\<close>

record SyncProgress =
  spr_height :: "32 word"
  spr_time :: "32 word"

record ProgressSink =
  ps_packed :: "64 word"
  ps_error :: "string option"

definition progress_pack :: "SyncProgress \<Rightarrow> 64 word" where
  "progress_pack p = (push_bit 32 (ucast (spr_height p))) OR ucast (spr_time p)"

definition progress_reset :: "ProgressSink \<Rightarrow> ProgressSink" where
  "progress_reset s = s\<lparr>ps_packed := 0, ps_error := None\<rparr>"

definition progress_outcome :: "ProgressSink \<Rightarrow> (string + unit) \<times> ProgressSink" where
  "progress_outcome s = (case ps_error s of None \<Rightarrow> Inr () | Some e \<Rightarrow> Inl e, s\<lparr>ps_error := None\<rparr>)"

definition progress_send :: "SyncProgress \<Rightarrow> ProgressSink \<Rightarrow> ProgressSink" where
  "progress_send p s = s\<lparr>ps_packed := progress_pack p\<rparr>"

definition progress_send_error :: "string \<Rightarrow> ProgressSink \<Rightarrow> ProgressSink" where
  "progress_send_error e s = s\<lparr>ps_error := Some e\<rparr>"

lemma progress_pack_unpack:
  "ucast (drop_bit 32 (progress_pack p)) = spr_height p" "ucast (progress_pack p) = spr_time p"
proof -
  have "\<not> bit (spr_time p) (32 + n)" for n using bit_imp_le_length [of "spr_time p" "32 + n"] by auto
  then show "ucast (drop_bit 32 (progress_pack p)) = spr_height p" by (auto simp: progress_pack_def bit_simps intro!: bit_word_eqI)
qed (auto simp: progress_pack_def bit_simps intro!: bit_word_eqI)

text \<open>The call \<open>synchronize\<close> fails exactly when a sync reported an error, whatever an earlier one left behind.\<close>

lemma progress_outcome_fresh:
  "fst (progress_outcome (fold (\<lambda>r. case r of Inl e \<Rightarrow> progress_send_error e | Inr p \<Rightarrow> progress_send p) rs (progress_reset s))) = Inr ()
    \<longleftrightarrow> (\<forall>r \<in> set rs. \<not> isl r)"
proof -
  let ?f = "\<lambda>r. case r of Inl e \<Rightarrow> progress_send_error e | Inr p \<Rightarrow> progress_send p"
  have "ps_error (fold ?f rs s) = None \<longleftrightarrow> ps_error s = None \<and> (\<forall>r \<in> set rs. \<not> isl r)" for s
    by (induction rs arbitrary: s) (auto simp: progress_send_error_def progress_send_def split: sum.splits)
  then have "ps_error (fold ?f rs (progress_reset s)) = None \<longleftrightarrow> (\<forall>r \<in> set rs. \<not> isl r)" by (simp add: progress_reset_def)
  then show ?thesis by (cases "ps_error (fold ?f rs (progress_reset s))") (simp_all add: progress_outcome_def)
qed

section \<open>Subscription to the mempool\<close>

record MempoolAmountDto =
  mad_account :: nat
  mad_value :: int

record MempoolNoteDto =
  mnd_account :: nat
  mnd_value :: int
  mnd_pool :: nat
  mnd_memo :: "string option"

datatype MempoolEventDto =
    Epoch nat
  | Unconfirmed string "MempoolAmountDto list" "MempoolNoteDto list" nat
  | Ended "string option"

definition amount_dto :: "MempoolAmount \<Rightarrow> MempoolAmountDto" where
  "amount_dto a = \<lparr>mad_account = ma_account a, mad_value = ma_value a\<rparr>"

definition note_dto :: "MempoolNote \<Rightarrow> MempoolNoteDto" where
  "note_dto n = \<lparr>mnd_account = mn_account n, mnd_value = mn_value n, mnd_pool = mn_pool n, mnd_memo = mn_memo n\<rparr>"

fun event_dto :: "MempoolMsg \<Rightarrow> MempoolEventDto" where
  "event_dto (BlockHeight height) = Epoch height"
| "event_dto (TxId tx) = Unconfirmed (mt_txid tx) (map amount_dto (mt_amounts tx)) (map note_dto (mt_notes tx)) (mt_size tx)"

text \<open>
  A run is its queue and whether its reader still runs; the cancellation is only used by \<open>stop\<close>, which takes the run out of
  the slot first. The sender of the queue lives as long as the reader, so the queue is closed exactly when the reader is gone.
  The last thing a reader does is its verdict: it sends how \<open>observe_mempool\<close> ended, or, dropped by a panic, a failure. The text
  of an error, which \<open>describe\<close> completes with the tail of the SQLite log, is the argument of \<open>Returns\<close>.
\<close>

record Run =
  run_events :: "MempoolEventDto list"
  run_reader :: bool

datatype ReaderStep = Sends MempoolMsg | Returns "string option" | Panics

definition reader_event :: "ReaderStep \<Rightarrow> MempoolEventDto" where
  "reader_event r = (case r of Sends m \<Rightarrow> event_dto m | Returns e \<Rightarrow> Ended e | Panics \<Rightarrow> Ended (Some ''mempool reader panicked''))"

definition reader_acts :: "ReaderStep \<Rightarrow> Run \<Rightarrow> Run" where
  "reader_acts r run =
    (if run_reader run
     then \<lparr>run_events = run_events run @ [reader_event r], run_reader = (case r of Sends _ \<Rightarrow> True | _ \<Rightarrow> False)\<rparr>
     else run)"

definition mempool_start :: "Run option \<Rightarrow> (string + unit) \<times> Run option" where
  "mempool_start slot =
    (case slot of
       Some _ \<Rightarrow> (Inl ''mempool is already running'', slot)
     | None \<Rightarrow> (Inr (), Some \<lparr>run_events = [], run_reader = True\<rparr>))"

definition recv_within :: "Run \<Rightarrow> MempoolEventDto option \<times> Run" where
  "recv_within run =
    (case run_events run of
       event # rest \<Rightarrow> (Some event, run\<lparr>run_events := rest\<rparr>)
     | [] \<Rightarrow> (if run_reader run then None else Some (Ended None), run))"

definition mempool_next :: "Run option \<Rightarrow> MempoolEventDto option \<times> Run option" where
  "mempool_next slot =
    (case slot of
       None \<Rightarrow> (Some (Ended None), None)
     | Some active \<Rightarrow> (case recv_within active of (event, active) \<Rightarrow> (event, Some active)))"

definition mempool_stop :: "Run option \<Rightarrow> Run option" where
  "mempool_stop slot = None"

text \<open>The reader that \<open>start\<close> spawns: it connects, then runs the loop.\<close>

definition observe_mempool ::
    "(nat \<Rightarrow> string) \<Rightarrow> (nat \<Rightarrow> 'z) \<Rightarrow> (nat \<Rightarrow> 'o) \<Rightarrow> (nat \<Rightarrow> ('z, 'o, 's, 'a) TxCrypto) \<Rightarrow> string option \<Rightarrow> (Db \<times> ('s, 'a) MempoolInput) list
      \<Rightarrow> ReaderStep list" where
  "observe_mempool name zkey okey tc connect ins =
    (case connect of
       Some e \<Rightarrow> [Returns (Some e)]
     | None \<Rightarrow>
         (case run_mempool name zkey okey tc ins Opening of
            (ms, LoopStopped) \<Rightarrow> map Sends ms @ [Returns None]
          | (ms, Failed e) \<Rightarrow> map Sends ms @ [Returns (Some e)]
          | (ms, _) \<Rightarrow> map Sends ms))"

subsection \<open>What the poller is told\<close>

fun sent_by :: "ReaderStep list \<Rightarrow> MempoolEventDto list" where
  "sent_by [] = []"
| "sent_by (Sends m # rs) = event_dto m # sent_by rs"
| "sent_by (r # rs) = [reader_event r]"

fun reader_ended :: "ReaderStep list \<Rightarrow> bool" where
  "reader_ended [] = False"
| "reader_ended (Sends m # rs) = reader_ended rs"
| "reader_ended (r # rs) = True"

lemma sent_by_snoc [simp]: "sent_by (rs @ [r]) = sent_by rs @ (if reader_ended rs then [] else [reader_event r])"
  by (induction rs rule: sent_by.induct) (cases r; simp add: reader_event_def)+

lemma reader_ended_snoc [simp]: "reader_ended (rs @ [r]) = (reader_ended rs \<or> (case r of Sends _ \<Rightarrow> False | _ \<Rightarrow> True))"
  by (induction rs rule: reader_ended.induct) (cases r; simp)+

lemma sent_by_Sends [simp]: "sent_by (map Sends ms @ rs) = map event_dto ms @ sent_by rs"
  by (induction ms) simp_all

lemma reader_ended_Sends [simp]: "reader_ended (map Sends ms @ rs) = reader_ended rs"
  by (induction ms) simp_all

lemma observe_mempool_sent:
  "sent_by (observe_mempool name zkey okey tc None ins) =
    (case run_mempool name zkey okey tc ins Opening of (ms, loop) \<Rightarrow>
       map event_dto ms @ (case loop of LoopStopped \<Rightarrow> [Ended None] | Failed e \<Rightarrow> [Ended (Some e)] | _ \<Rightarrow> []))"
  using sent_by_Sends [of _ "[]"] reader_ended_Sends [of _ "[]"] by (simp add: observe_mempool_def reader_event_def split: prod.split MempoolLoop.split)

text \<open>The steps of the reader and the polls in any order, with the events handed out and, as history, the steps of the reader.\<close>

datatype SubStep = Reader ReaderStep | Poll

record Sub =
  sub_slot :: "Run option"
  sub_got :: "MempoolEventDto list"
  sub_reader :: "ReaderStep list"

definition sub_init :: Sub where
  "sub_init = \<lparr>sub_slot = snd (mempool_start None), sub_got = [], sub_reader = []\<rparr>"

fun sub_step :: "SubStep \<Rightarrow> Sub \<Rightarrow> Sub" where
  "sub_step (Reader r) s = s\<lparr>sub_slot := map_option (reader_acts r) (sub_slot s), sub_reader := sub_reader s @ [r]\<rparr>"
| "sub_step Poll s = (case mempool_next (sub_slot s) of (event, slot) \<Rightarrow>
    s\<lparr>sub_slot := slot, sub_got := sub_got s @ (case event of None \<Rightarrow> [] | Some e \<Rightarrow> [e])\<rparr>)"

definition sub_inv :: "Sub \<Rightarrow> bool" where
  "sub_inv s \<longleftrightarrow> (\<exists>run k. sub_slot s = Some run \<and> run_reader run = (\<not> reader_ended (sub_reader s)) \<and>
    sub_got s @ run_events run = sent_by (sub_reader s) @ replicate k (Ended None) \<and>
    (k = 0 \<or> run_events run = [] \<and> reader_ended (sub_reader s)))"

lemma sub_inv_step:
  assumes "sub_inv s"
  shows "sub_inv (sub_step e s)"
proof -
  obtain run k where run: "sub_slot s = Some run" "run_reader run = (\<not> reader_ended (sub_reader s))"
      "sub_got s @ run_events run = sent_by (sub_reader s) @ replicate k (Ended None)" "k = 0 \<or> run_events run = [] \<and> reader_ended (sub_reader s)"
    using assms by (auto simp: sub_inv_def)
  show ?thesis
  proof (cases e)
    case (Reader r)
    show ?thesis unfolding sub_inv_def Reader using run
      by (intro exI [of _ "reader_acts r run"] exI [of _ k]) (auto simp: reader_acts_def split: ReaderStep.split)
  next
    case Poll
    show ?thesis
    proof (cases "run_events run")
      case Nil
      have "sub_got s @ [Ended None] = sent_by (sub_reader s) @ replicate (Suc k) (Ended None)" using run(3) Nil by (simp add: replicate_append_same)
      then show ?thesis using run Nil unfolding sub_inv_def Poll
        by (intro exI [of _ run] exI [of _ "if run_reader run then k else Suc k"]) (auto simp: mempool_next_def recv_within_def)
    next
      case (Cons x xs)
      then show ?thesis using run unfolding sub_inv_def Poll
        by (intro exI [of _ "run\<lparr>run_events := xs\<rparr>"] exI [of _ k]) (simp add: mempool_next_def recv_within_def)
    qed
  qed
qed

interpretation subscription: invariant_machine sub_step sub_init sub_inv
  by unfold_locales (simp add: sub_inv_def sub_init_def mempool_start_def, rule sub_inv_step)

definition subscription :: "SubStep list \<Rightarrow> Sub" where
  "subscription steps = fold sub_step steps sub_init"

fun reader_steps :: "SubStep list \<Rightarrow> ReaderStep list" where
  "reader_steps [] = []"
| "reader_steps (Reader r # ss) = r # reader_steps ss"
| "reader_steps (Poll # ss) = reader_steps ss"

lemma reader_steps_polls [simp]: "reader_steps (steps @ replicate n Poll) = reader_steps steps"
proof -
  have "reader_steps (replicate n Poll) = []" by (induction n) simp_all
  then show ?thesis by (induction steps rule: reader_steps.induct) simp_all
qed

lemma subscription_reader [simp]: "sub_reader (subscription steps) = reader_steps steps"
proof -
  have "sub_reader (fold sub_step steps s) = sub_reader s @ reader_steps steps" for s
    by (induction steps arbitrary: s rule: reader_steps.induct) (simp_all split: prod.split)
  then show ?thesis by (simp add: subscription_def sub_init_def)
qed

lemma subscription_inv: "sub_inv (subscription steps)"
  unfolding subscription_def by (rule subscription.run_inv)

lemma polls_progress:
  assumes "sub_inv s" "reader_ended (sub_reader s)"
  shows "length (sub_got (fold sub_step (replicate n Poll) s)) = length (sub_got s) + n"
  using assms
proof (induction n arbitrary: s)
  case (Suc n)
  obtain run where run: "sub_slot s = Some run" "\<not> run_reader run" using Suc.prems by (auto simp: sub_inv_def)
  have "length (sub_got (sub_step Poll s)) = Suc (length (sub_got s))"
    using run by (cases "run_events run") (simp_all add: mempool_next_def recv_within_def)
  moreover have "sub_reader (sub_step Poll s) = sub_reader s" by (simp split: prod.split)
  ultimately show ?case using Suc.IH [of "sub_step Poll s"] sub_inv_step [OF Suc.prems(1), of Poll] Suc.prems(2) by (simp del: sub_step.simps)
qed simp



end
