(* ===== verification/Spec2Isabelle.thy ===== *)
theory Spec2Isabelle
  imports Pools Fees Solver_Bound Knapsack Reservations Balances PlanTx Spendable Coverage Trim Accounts
    TransparentLive SyncPlan BlockStream ScanSession DiscoveryEnds Addresses Migration Wallet Signing Bridge
begin

text \<open>
  A verification development of the wallet core of zcash-sdk-kmp: the Rust library under \<open>src/rust/rlz/src\<close> that keeps
  the wallet database, synchronizes it with a light-wallet server, plans and signs payments and watches the mempool. The Kotlin
  layer, the JNI functions and the API functions only marshal arguments to this core.

  \<^bold>\<open>How the program works.\<close> The wallet is a SQLite database (\<open>db.rs\<close>). A synchronization cycle (\<open>sync.rs\<close>) first recovers
  from an interrupted cycle by trimming every account to the lowest height all its pools reached, then cuts the missing
  heights into ranges, and runs two passes over each range: a transparent pass, which asks the server for the
  transactions of each transparent address window by window, and a shielded pass, which reads compact blocks from a
  stream (\<open>warp/sync.rs\<close>), decrypts their outputs, keeps the Merkle witnesses of all notes up to date
  (\<open>warp/sync/shielded.rs\<close>) and sends messages to a writer that stores them one transaction per batch. A payment
  (\<open>pay/\<close>) reads the unspent notes, selects inputs, computes the ZIP-317 fee, reserves the inputs of the transaction
  it builds, and releases nothing until the transaction is mined or expires.

  \<^bold>\<open>Theories, in the order of dependence.\<close>
  \<^item> \<open>Prelude\<close>: fixed-width arithmetic with the wrap-around of a release build, panics and errors as values, SQL tables as
    lists of rows.
  \<^item> \<open>Pools\<close> (\<open>pay/pool.rs\<close>, \<open>pay/mod.rs\<close>): pool masks and the receivers of a recipient.
  \<^item> \<open>Fees\<close> (\<open>pay/fee.rs\<close>, \<open>memo.rs\<close>): the fee counter against the ZIP-317 formula, and its 8-bit wrap-around.
  \<^item> \<open>Solver_Model\<close>, \<open>Solver_Search\<close>, \<open>Solver_Props\<close>, \<open>Solver\<close>, \<open>Solver_Bound\<close> (\<open>pay/solve.rs\<close>): the branch-and-bound note
    selection. The clock is the argument \<open>late\<close>, which may fire at any step; the search ends for every clock because its
    budget of expansions is finite. Soundness, totality, the fee, improvement over the greedy baseline, and two
    executions where the pruning bound and the feasibility test lose a payable solution.
  \<^item> \<open>Knapsack\<close> (\<open>pay/select.rs\<close>): the subset-sum table against the best sum over all subsets.
  \<^item> \<open>WalletDb\<close> (\<open>db.rs\<close>): the tables as records and the single statements; \<open>keys_ok\<close> is the primary keys and UNIQUE
    constraints.
  \<^item> \<open>Reservations\<close> (\<open>pay/reserve.rs\<close>), \<open>Balances\<close> (\<open>db.rs\<close>, \<open>pay/plan.rs\<close>): reserved notes are exclusive, and are neither
    counted as available nor offered to the next plan.
  \<^item> \<open>PlanTx\<close>, \<open>Spendable\<close> (\<open>pay/plan.rs\<close>): a plan from the candidate notes to the amounts of its outputs, fee and change;
    value is conserved, and every amount up to the reported maximum can be planned.
  \<^item> \<open>Coverage\<close>, \<open>Trim\<close>, \<open>Accounts\<close> (\<open>db.rs\<close>, \<open>sync.rs\<close>, \<open>account.rs\<close>): certificates and markers of transparent history, trimming,
    rewinding, pruning and recovery, creation, deletion and order of accounts.
  \<^item> \<open>Windows\<close>, \<open>TransparentSync\<close>, \<open>TransparentLive\<close> (\<open>sync.rs\<close>): one window of one address, the halving walk and the
    transparent pass; safety against any server, completeness against an honest one, success against one that answers.
  \<^item> \<open>Discovery\<close>, \<open>DiscoveryEnds\<close> (\<open>sync.rs\<close>): the discovery of transparent addresses, in batches with requests ahead and in
    critical sections between which others write; a certificate is only recorded for a walk that earned it, and a
    walk ends.
  \<^item> \<open>Addresses\<close> (\<open>account.rs\<close>): the next receive, change and default address and the lowest unused one.
  \<^item> \<open>Denominations\<close>, \<open>Migration\<close> (\<open>migrate/mod.rs\<close>, \<open>api/migrate.rs\<close>): the move of Orchard notes to Ironwood: the split of
    notes into standard denominations, one step with its reservation and broadcast, its status and the wait for a shared
    anchor; every split and every denomination can be planned, and a status that ends the migration too early.
  \<^item> \<open>SyncPlan\<close> (\<open>sync.rs\<close>): the ranges of a cycle cover each account to the tip exactly once.
  \<^item> \<open>BlockStream\<close> (\<open>warp/sync.rs\<close>): the reader of the block stream as a state machine over what its \<open>select!\<close> wakes up on.
  \<^item> \<open>WarpTree\<close>, \<open>CompactBlocks\<close>, \<open>Synchronizer\<close>, \<open>Scanning\<close> (\<open>warp/sync/shielded.rs\<close>): the incremental Merkle tree against
    the tree of all commitments, and the scanner of a pool against the list of commitments of the chain.
  \<^item> \<open>WarpMessages\<close>, \<open>ShieldedSync\<close>, \<open>ScanSession\<close> (\<open>sync.rs\<close>, \<open>warp/sync/shielded.rs\<close>): the writer of a scan, atomic per
    commit; the database as the mirror of the scanner after each batch; a scanner built anew from the database; and the
    state machine of batches and restarts, in which the mirror is an invariant. Two notes with one commitment break it.
  \<^item> \<open>SigningKey\<close>, \<open>Signing\<close> (\<open>pay/signing_key.rs\<close>, \<open>pay/plan.rs\<close>): the envelope of a spending key against the grammar it
    stands for; the guard that only lets the account's own key sign, and the signatures of every pool; the request an
    external signer reviews and the signatures it returns.
  \<^item> \<open>Mempool\<close> (\<open>mempool.rs\<close>, \<open>api/mempool.rs\<close>): what an unconfirmed transaction does to the accounts, and the loop over the
    mempool; the amounts announced are the changes of the balances.
  \<^item> \<open>Bridge\<close> (\<open>src/rust/zcash-jni/src\<close>): the state the JNI layer keeps: the registry of open wallets, the progress and error
    slot of a sync and the mempool subscription, whose poller misses nothing.
  \<^item> \<open>Wallet\<close>: the runs of the whole wallet, any of these operations in any order and interleaved; the keys of the tables are an
    invariant of every run.

  \<^bold>\<open>Bounds and fuel.\<close> A \<open>u32\<close> or \<open>u64\<close> is a natural number with the wrap-around in each operator; theorems that need no
  wrap-around assume it, heights and positions below \<open>2\<^sup>3\<^sup>2\<close>, amounts below \<open>2\<^sup>6\<^sup>1\<close> where sums of four pools are
  formed, and below \<open>10\<^sup>1\<^sup>7\<close> where the counts of a split are bytes (the supply is \<open>2.1 \<cdot> 10\<^sup>1\<^sup>5\<close>). The search loop is bounded by its own budget, the walk of an address by the heights left and then the width
  of its window. Only the discovery of addresses takes fuel, rounds of a scope, as a server may report every address in
  use; the last index in use plus the gap limit plus two rounds are enough (\<open>discovery_ends\<close>).

  \<^bold>\<open>Interfaces.\<close> The server is the record \<open>Backend\<close> (requests numbered, so that its answers may change from one to the
  next) and, for the block stream, a list of events. The cryptography of a pool is the record \<open>Crypto\<close>. The hash of
  the tree, the depth of the tree, the encoding of a witness and the activation heights of the network are
  arguments. Around a discovery, the record \<open>World\<close> adds what others write between its critical sections, cancellation
  and the derivation of addresses; around a migration step, the record \<open>Host\<close> adds the node, the wallet's own address and
  the builder of a transaction. The key encodings are the record \<open>KeyCrate\<close>, the parser, signer, prover and serializer of a
  PCZT the records \<open>SignCrate\<close> and \<open>DeviceCrate\<close>, and trial decryption of a full transaction the record \<open>TxCrypto\<close>.

  \<^bold>\<open>Not modelled.\<close> Building and proving a transaction, the PCZT roles, key and address derivation, memo decryption and
  ZIP-321 parsing rest on the Zcash crates. The gRPC and Nym transports, the generated bindings, the JNI functions and the
  \<open>api\<close> functions are input and output. Budget, contacts, vault, FROST, Ledger and voting are left out.
\<close>

end
